(* ===== verification/Prelude.thy ===== *)
theory Prelude
  imports Main "HOL-Library.Word" "HOL-Library.Monad_Syntax"
begin

text \<open>
  Shared vocabulary of the kernel model: the machine integers of the C code, the arithmetic of
  4 KiB pages and frames, the lemma collections the component theories extend, and byte-level
  access to a memory. A C \<open>uint32_t\<close>, \<open>size_t\<close> or \<open>uintptr_t\<close> (the target is
  i386) is a value of \<open>u32\<close>; its arithmetic wraps as the code's does.

  An operation that dereferences pointers returns an option: \<open>None\<close> stands for a call that
  does not return, because an access faults (the page fault handler halts the machine) or because
  a loop never ends.
\<close>

unbundle bit_operations_syntax

type_synonym u8 = "8 word"
type_synonym u16 = "16 word"
type_synonym u32 = "32 word"
type_synonym u64 = "64 word"

named_theorems unats "values of unsigned words as natural numbers"
named_theorems pages "page bases, page offsets and their arithmetic"
named_theorems frames "what an operation leaves unchanged"

section \<open>Words as natural numbers\<close>

lemma unat_word_div [unats]: "unat (x div y) = unat x div unat (y::'a::len word)"
  by (rule unat_div)

lemma unat_word_mod [unats]: "unat (x mod y) = unat x mod unat (y::'a::len word)"
  by (rule unat_mod)

lemma u32_less_bound [simp]: "unat (x::u32) < 4294967296"
  using unsigned_less [of x, where 'a = nat] by simp

lemma unat_plus_u32: "unat ((x::u32) + y) = (unat x + unat y) mod 4294967296"
  by (simp add: unat_word_ariths)

lemma unat_plus_small:
  "unat (x::u32) + unat y < 4294967296 \<Longrightarrow> unat (x + y) = unat x + unat y"
  by (simp add: unat_plus_u32)

lemma unat_mult_small:
  "unat (x::u32) * unat y < 4294967296 \<Longrightarrow> unat (x * y) = unat x * unat y"
  by (simp add: unat_word_ariths)

lemma unat_minus_le: "y \<le> (x::u32) \<Longrightarrow> unat (x - y) = unat x - unat y"
  by (rule unat_sub)

lemma u32_eqI: "unat (x::u32) = unat y \<Longrightarrow> x = y"
  by (rule unsigned_word_eqI)

lemma unat_less_plus_1 [unats]:
  assumes "unat (a::u32) < unat (b::u32)"
  shows "unat (a + 1) = Suc (unat a)"
proof -
  have "unat b < 4294967296" by simp
  with assms have "Suc (unat a) < 4294967296" by linarith
  then show ?thesis by (simp add: unat_plus_u32)
qed

lemma u32_plus_1_le_iff: "(f::u32) < g \<Longrightarrow> f + 1 \<le> h \<longleftrightarrow> f < h"
  using unat_less_plus_1 [of f g] by (simp add: word_le_nat_alt word_less_nat_alt Suc_le_eq)

lemma unat_of_nat_small: "n < 4294967296 \<Longrightarrow> unat (of_nat n :: u32) = n"
  by (simp add: unat_of_nat)

lemma of_nat_u32_inj:
  "m < 4294967296 \<Longrightarrow> n < 4294967296 \<Longrightarrow> (of_nat m :: u32) = of_nat n \<longleftrightarrow> m = n"
  by (metis unat_of_nat_small)

section \<open>Pages\<close>

text \<open>
  The code reads the page of an address with \<open>x & 0xFFFFF000\<close> and its offset with
  \<open>x & (4096 - 1)\<close>. In natural numbers they are \<open>x div 4096 * 4096\<close> and
  \<open>x mod 4096\<close>.
\<close>

definition page_of :: "u32 \<Rightarrow> u32" where
  "page_of x = x AND 0xFFFFF000"

definition off_of :: "u32 \<Rightarrow> u32" where
  "off_of x = x AND 0xFFF"

lemma page_mask: "(0xFFFFF000::u32) = NOT (mask 12)" "(0xFFF::u32) = mask 12"
  by (simp_all add: mask_eq_exp_minus_1)

lemma unat_off_of [unats]: "unat (off_of x) = unat x mod 4096"
proof -
  have "off_of x = take_bit 12 x" by (simp only: off_of_def page_mask take_bit_eq_mask)
  then show ?thesis by (simp add: unsigned_take_bit_eq take_bit_eq_mod unat_word_mod)
qed

lemma page_split: "page_of x + off_of x = x"
proof -
  have "(x AND NOT (mask 12)) + (x AND mask 12) = (x AND NOT (mask 12)) OR (x AND mask 12)"
    by (rule disjunctive_add_eq_or) (simp add: bit_eq_iff bit_simps)
  also have "\<dots> = x" by (rule bit_eqI) (auto simp: bit_simps)
  finally show ?thesis by (simp only: page_of_def off_of_def page_mask)
qed

lemma unat_page_of [unats]: "unat (page_of x) = unat x div 4096 * 4096"
proof -
  have le: "off_of x \<le> x" by (simp add: word_le_nat_alt unat_off_of)
  have "page_of x = x - off_of x" using page_split [of x] by (simp add: algebra_simps)
  then have "unat (page_of x) = unat x - unat x mod 4096"
    using le by (simp add: unat_sub unat_off_of)
  then show ?thesis by (simp add: minus_mod_eq_div_mult)
qed

lemma unat_shr22 [unats]: "unat (drop_bit 22 (x::u32)) = unat x div 4194304"
  by (simp add: drop_bit_eq_div unat_word_div)

lemma unat_shr12 [unats]: "unat (drop_bit 12 (x::u32)) = unat x div 4096"
  by (simp add: drop_bit_eq_div unat_word_div)

lemma unat_and_3FF [unats]: "unat ((x::u32) AND 0x3FF) = unat x mod 1024"
proof -
  have "x AND 0x3FF = take_bit 10 x" by (simp only: take_bit_eq_mask) (simp add: mask_eq_exp_minus_1)
  then show ?thesis by (simp add: unsigned_take_bit_eq take_bit_eq_mod unat_word_mod)
qed

definition page_aligned :: "u32 \<Rightarrow> bool" where
  "page_aligned x \<longleftrightarrow> off_of x = 0"

lemma page_aligned_unat: "page_aligned x \<longleftrightarrow> unat x mod 4096 = 0"
  unfolding page_aligned_def using unat_off_of [of x] by (metis unat_0 unat_eq_zero)

lemma page_aligned_page_of [simp]: "page_aligned (page_of x)"
  by (simp add: page_aligned_unat unat_page_of)

lemma page_of_aligned [simp]: "page_aligned x \<Longrightarrow> page_of x = x"
  by (rule u32_eqI) (auto simp: page_aligned_unat unat_page_of)

lemma page_alignedE:
  assumes "page_aligned b"
  obtains k where "unat b = 4096 * k" and "k < 1048576"
proof -
  from assms obtain k where k: "unat b = 4096 * k"
    by (auto simp: page_aligned_unat mod_eq_0_iff_dvd elim!: dvdE)
  with u32_less_bound [of b] have "k < 1048576" by simp
  with k show ?thesis by (rule that)
qed

lemma unat_base_plus:
  assumes "page_aligned b" and "unat d < 4096"
  shows "unat (b + d) = unat b + unat d"
proof (rule unat_plus_small)
  from assms(1) obtain k where k: "unat b = 4096 * k" "k < 1048576"
    by (rule page_alignedE)
  with k assms(2) show "unat b + unat d < 4294967296" by simp
qed

lemma page_of_base_plus [pages]:
  assumes "page_aligned b" and "unat d < 4096"
  shows "page_of (b + d) = b"
proof (rule u32_eqI)
  have "(unat b + unat d) div 4096 * 4096 = unat b"
    using assms by (auto elim!: page_alignedE)
  then show "unat (page_of (b + d)) = unat b"
    using assms by (simp only: unat_page_of unat_base_plus)
qed

lemma off_of_base_plus [pages]:
  assumes "page_aligned b" and "unat d < 4096"
  shows "off_of (b + d) = d"
proof (rule u32_eqI)
  have "(unat b + unat d) mod 4096 = unat d"
    using assms by (auto elim!: page_alignedE)
  then show "unat (off_of (b + d)) = unat d"
    using assms by (simp only: unat_off_of unat_base_plus)
qed

lemma page_of_idem [simp]: "page_of (page_of x) = page_of x"
  by (rule page_of_aligned) (rule page_aligned_page_of)

lemma addr_eqI: "page_of x = page_of y \<Longrightarrow> off_of x = off_of y \<Longrightarrow> x = y"
  by (metis page_split)

section \<open>Byte memories\<close>

text \<open>
  A memory maps every address to a byte. The i386 is little-endian: a 32-bit access at \<open>a\<close>
  touches the four bytes from \<open>a\<close> up, least significant first.
\<close>

type_synonym memory = "u32 \<Rightarrow> u8"

definition join32 :: "u8 \<Rightarrow> u8 \<Rightarrow> u8 \<Rightarrow> u8 \<Rightarrow> u32" where
  "join32 b0 b1 b2 b3 = ucast b0 OR push_bit 8 (ucast b1) OR push_bit 16 (ucast b2)
     OR push_bit 24 (ucast b3)"

definition join64 :: "u32 \<Rightarrow> u32 \<Rightarrow> u64" where
  "join64 lo hi = ucast lo OR push_bit 32 (ucast hi)"

definition load32 :: "memory \<Rightarrow> u32 \<Rightarrow> u32" where
  "load32 m a = join32 (m a) (m (a + 1)) (m (a + 2)) (m (a + 3))"

definition store32 :: "memory \<Rightarrow> u32 \<Rightarrow> u32 \<Rightarrow> memory" where
  "store32 m a v = m(a := ucast v, a + 1 := ucast (drop_bit 8 v),
     a + 2 := ucast (drop_bit 16 v), a + 3 := ucast (drop_bit 24 v))"

lemma bytes_of_u32:
  "ucast (ucast v :: u8) OR push_bit 8 (ucast (ucast (drop_bit 8 v) :: u8))
     OR push_bit 16 (ucast (ucast (drop_bit 16 v) :: u8))
     OR push_bit 24 (ucast (ucast (drop_bit 24 v) :: u8)) = (v::u32)"
proof (rule bit_eqI)
  fix n
  assume "possible_bit TYPE(32 word) n"
  then have "n < 32" by simp
  then consider "n < 8" | "8 \<le> n" "n < 16" | "16 \<le> n" "n < 24" | "24 \<le> n" "n < 32"
    by linarith
  then show "bit (ucast (ucast v :: u8) OR push_bit 8 (ucast (ucast (drop_bit 8 v) :: u8))
     OR push_bit 16 (ucast (ucast (drop_bit 16 v) :: u8))
     OR push_bit 24 (ucast (ucast (drop_bit 24 v) :: u8)) :: u32) n = bit v n"
    by cases (auto simp: bit_simps)
qed

lemma load32_store32_same [simp]: "load32 (store32 m a v) a = v"
  by (simp add: load32_def join32_def store32_def bytes_of_u32 del: push_bit_numeral)

definition word_aligned :: "u32 \<Rightarrow> bool" where
  "word_aligned a \<longleftrightarrow> unat a mod 4 = 0"

lemma word_aligned_off:
  assumes "word_aligned a" and "unat i < 4"
  shows "unat (a + i) = unat a + unat i"
proof (rule unat_plus_small)
  from assms(1) obtain k where k: "unat a = 4 * k"
    by (auto simp: word_aligned_def mod_eq_0_iff_dvd elim!: dvdE)
  with u32_less_bound [of a] have "k < 1073741824" by simp
  with k assms(2) show "unat a + unat i < 4294967296" by simp
qed

lemma word_aligned_distinct:
  assumes "word_aligned a" and "word_aligned b" and "a \<noteq> b" and "unat i < 4" and "unat j < 4"
  shows "a + i \<noteq> b + j"
proof
  assume "a + i = b + j"
  then have "unat a + unat i = unat b + unat j"
    using assms word_aligned_off by metis
  moreover from assms(1,2) obtain k l where "unat a = 4 * k" "unat b = 4 * l"
    by (auto simp: word_aligned_def mod_eq_0_iff_dvd elim!: dvdE)
  ultimately have "unat a = unat b" using assms(4,5) by simp
  with assms(3) show False by (simp add: u32_eqI)
qed

lemma load32_cong:
  assumes "\<And>i. unat i < 4 \<Longrightarrow> m (a + i) = m' (a + i)"
  shows "load32 m a = load32 m' a"
  using assms [of 0] assms [of 1] assms [of 2] assms [of 3] by (simp add: load32_def)

lemma store32_other:
  assumes "\<And>j. unat j < 4 \<Longrightarrow> b \<noteq> a + j"
  shows "store32 m a v b = m b"
  using assms [of 0] assms [of 1] assms [of 2] assms [of 3] by (simp add: store32_def)

lemma load32_store32_diff [simp]:
  assumes "word_aligned a" and "word_aligned b" and "b \<noteq> a"
  shows "load32 (store32 m a v) b = load32 m b"
proof (rule load32_cong)
  fix i :: u32
  assume "unat i < 4"
  then show "store32 m a v (b + i) = m (b + i)"
    using word_aligned_distinct [OF assms(2,1,3)] by (intro store32_other) blast
qed

section \<open>Reads through an address translation\<close>

text \<open>
  Where the code dereferences a pointer, each byte goes through the address translation in force;
  \<open>rd\<close> is the byte seen at a virtual address, if there is one.
\<close>

definition read32 :: "(u32 \<Rightarrow> u8 option) \<Rightarrow> u32 \<Rightarrow> u32 option" where
  "read32 rd a = do {
     b0 \<leftarrow> rd a; b1 \<leftarrow> rd (a + 1); b2 \<leftarrow> rd (a + 2); b3 \<leftarrow> rd (a + 3);
     Some (join32 b0 b1 b2 b3) }"

definition read64 :: "(u32 \<Rightarrow> u8 option) \<Rightarrow> u32 \<Rightarrow> u64 option" where
  "read64 rd a = do { lo \<leftarrow> read32 rd a; hi \<leftarrow> read32 rd (a + 4); Some (join64 lo hi) }"

lemma read32_SomeI:
  assumes "\<And>i. unat i < 4 \<Longrightarrow> rd (a + i) = Some (m (b + i))"
  shows "read32 rd a = Some (load32 m b)"
  using assms [of 0] assms [of 1] assms [of 2] assms [of 3]
  by (simp add: read32_def load32_def)

lemma read32_None: "rd a = None \<Longrightarrow> read32 rd a = None"
  by (simp add: read32_def)

end
