(* ===== verification/Libc_String.thy ===== *)
theory Libc_String
  imports Prelude
begin

text \<open>
  The memory and string functions of the C library (\<open>libc/string\<close>), over a byte memory.
  A loop \<open>for (size_t i = 0; i < size; i++)\<close> is a fold over the indices below
  \<open>size\<close>; the returned pointers, always the first argument, are left out. The lemmas give
  the memory after each copy, with overlapping regions for \<open>memmove\<close>, the order
  \<open>memcmp\<close> decides, and when \<open>strlen\<close> returns.
\<close>

section \<open>Definitions\<close>

definition memset :: "memory \<Rightarrow> u32 \<Rightarrow> u32 \<Rightarrow> u32 \<Rightarrow> memory" where
  "memset m buf value sz =
     fold (\<lambda>i m. m(buf + of_nat i := ucast value)) [0..<unat sz] m"

definition memcpy :: "memory \<Rightarrow> u32 \<Rightarrow> u32 \<Rightarrow> u32 \<Rightarrow> memory" where
  "memcpy m dst src sz =
     fold (\<lambda>i m. m(dst + of_nat i := m (src + of_nat i))) [0..<unat sz] m"

definition memmove :: "memory \<Rightarrow> u32 \<Rightarrow> u32 \<Rightarrow> u32 \<Rightarrow> memory" where
  "memmove m dst src sz =
     (if dst < src
      then fold (\<lambda>i m. m(dst + of_nat i := m (src + of_nat i))) [0..<unat sz] m
      else fold (\<lambda>i m. m(dst + of_nat i := m (src + of_nat i))) (rev [0..<unat sz]) m)"

text \<open>The loop of \<open>memcmp\<close> from index \<open>i\<close>, with \<open>n\<close> bytes to go.\<close>

fun memcmp_loop :: "memory \<Rightarrow> u32 \<Rightarrow> u32 \<Rightarrow> nat \<Rightarrow> nat \<Rightarrow> int" where
  "memcmp_loop m a b i 0 = 0"
| "memcmp_loop m a b i (Suc n) =
     (if m (a + of_nat i) < m (b + of_nat i) then -1
      else if m (b + of_nat i) < m (a + of_nat i) then 1
      else memcmp_loop m a b (Suc i) n)"

definition memcmp :: "memory \<Rightarrow> u32 \<Rightarrow> u32 \<Rightarrow> u32 \<Rightarrow> int" where
  "memcmp m a b sz = memcmp_loop m a b 0 (unat sz)"

text \<open>\<open>strlen\<close> does not return when no byte of the address space is zero.\<close>

partial_function (option) strlen_loop :: "memory \<Rightarrow> u32 \<Rightarrow> u32 \<Rightarrow> u32 option" where
  "strlen_loop m str len = (if m (str + len) \<noteq> 0 then strlen_loop m str (len + 1) else Some len)"

definition strlen :: "memory \<Rightarrow> u32 \<Rightarrow> u32 option" where
  "strlen m str = strlen_loop m str 0"

section \<open>Copies\<close>

lemma offset_inj:
  "m < 4294967296 \<Longrightarrow> n < 4294967296 \<Longrightarrow> (a::u32) + of_nat m = a + of_nat n \<longleftrightarrow> m = n"
  by (simp add: of_nat_u32_inj)

lemma memset_upto:
  assumes "n \<le> 4294967296"
  shows "fold (\<lambda>i m. m((buf::u32) + of_nat i := c)) [0..<n] m
    = (\<lambda>a. if unat (a - buf) < n then c else m a)"
  using assms
proof (induction n)
  case 0
  then show ?case by simp
next
  case (Suc n)
  then have n: "unat (of_nat n :: u32) = n" by (simp add: unat_of_nat)
  have "(a = buf + of_nat n) = (unat (a - buf) = n)" for a
    using n by (metis add.commute diff_add_cancel add_diff_cancel_left' u32_eqI)
  with Suc show ?case by (auto simp: fun_eq_iff less_Suc_eq)
qed

lemma memset_eq:
  "memset m buf value sz = (\<lambda>a. if unat (a - buf) < unat sz then ucast value else m a)"
  unfolding memset_def by (rule memset_upto) (simp add: less_imp_le)

text \<open>
  \<open>copied m dst src n\<close> is the memory a copy of \<open>n\<close> bytes must leave: each byte of the
  destination holds the old byte of the source.
\<close>

definition copied :: "memory \<Rightarrow> u32 \<Rightarrow> u32 \<Rightarrow> nat \<Rightarrow> memory" where
  "copied m dst src n = (\<lambda>a. if unat (a - dst) < n then m (src + (a - dst)) else m a)"

lemma copy_index:
  assumes "i < 4294967296" and "unat (dst::u32) + n \<le> 4294967296" and "i < n"
  shows "a = dst + of_nat i \<longleftrightarrow> unat (a - dst) = i"
proof -
  have "unat (of_nat i :: u32) = i" using assms(1) by (rule unat_of_nat_small)
  then show ?thesis by (metis add.commute add_diff_cancel_left' diff_add_cancel u32_eqI)
qed

text \<open>Where the source of index \<open>i\<close> lies in the destination.\<close>

lemma source_offset:
  assumes "unat (dst::u32) + n \<le> 4294967296" and "unat (src::u32) + n \<le> 4294967296" and "i < n"
  shows "dst \<le> src \<Longrightarrow> i \<le> unat (src + of_nat i - dst) \<and> (dst < src \<longrightarrow> i < unat (src + of_nat i - dst))"
    and "src \<le> dst \<Longrightarrow> unat (src + of_nat i - dst) \<le> i \<or> n \<le> unat (src + of_nat i - dst)"
proof -
  have i: "unat (of_nat i :: u32) = i" using assms(1,3) by (intro unat_of_nat_small) simp
  then have si: "unat (src + of_nat i) = unat src + i" using assms(2,3) by (simp add: unat_plus_small)
  show "dst \<le> src \<Longrightarrow> i \<le> unat (src + of_nat i - dst) \<and> (dst < src \<longrightarrow> i < unat (src + of_nat i - dst))"
  proof -
    assume le: "dst \<le> src"
    then have "dst \<le> src + of_nat i" using si by (simp add: word_le_nat_alt)
    then have "unat (src + of_nat i - dst) = unat src + i - unat dst" using si by (simp add: unat_sub)
    then show ?thesis using le by (auto simp: word_le_nat_alt word_less_nat_alt)
  qed
  assume le: "src \<le> dst"
  show "unat (src + of_nat i - dst) \<le> i \<or> n \<le> unat (src + of_nat i - dst)"
  proof (cases "dst \<le> src + of_nat i")
    case True
    then have "unat (src + of_nat i - dst) = unat src + i - unat dst" using si by (simp add: unat_sub)
    then show ?thesis using le unfolding word_le_nat_alt by linarith
  next
    case False
    then have lt: "unat src + i < unat dst" using si by (simp add: word_le_nat_alt)
    let ?x = "src + of_nat i - dst" and ?y = "dst - (src + of_nat i)"
    have y: "unat ?y = unat dst - (unat src + i)" using lt si by (simp add: unat_sub word_le_nat_alt)
    have "?x + ?y = 0" by simp
    then have "(unat ?x + unat ?y) mod 4294967296 = 0" using unat_plus_u32 [of ?x ?y] by (metis unat_0)
    then obtain q where q: "unat ?x + unat ?y = 4294967296 * q" by (auto simp: mod_eq_0_iff_dvd elim: dvdE)
    have "unat ?x < 4294967296" "unat ?y < 4294967296" by (rule u32_less_bound)+
    moreover have "0 < unat ?y" using y lt by linarith
    ultimately have "q = 1" using q by linarith
    then have "unat ?x + unat ?y = 4294967296" using q by simp
    then have "unat ?x = 4294967296 - (unat dst - (unat src + i))" using y by linarith
    then show ?thesis using lt assms(1) by linarith
  qed
qed

lemma copy_up:
  assumes "unat (dst::u32) + n \<le> 4294967296" and "unat src + n \<le> 4294967296" and "dst \<le> src" and "k \<le> n"
  shows "fold (\<lambda>i m. m(dst + of_nat i := m (src + of_nat i))) [0..<k] m = copied m dst src k"
  using assms(4)
proof (induction k)
  case 0
  then show ?case by (simp add: copied_def)
next
  case (Suc k)
  then have "k < n" "k < 4294967296" using assms(1) by simp_all
  note at = copy_index [OF \<open>k < 4294967296\<close> assms(1) \<open>k < n\<close>]
  have "copied m dst src k (src + of_nat k) = m (src + of_nat k)"
    using source_offset(1) [OF assms(1,2) \<open>k < n\<close> assms(3)] by (simp add: copied_def)
  moreover have "unat (a - dst) = k \<Longrightarrow> a - dst = of_nat k" for a by auto
  ultimately show ?case using Suc by (auto simp: copied_def fun_eq_iff at less_Suc_eq)
qed

lemma copy_down:
  assumes "unat (dst::u32) + n \<le> 4294967296" and "unat src + n \<le> 4294967296" and "src \<le> dst" and "k \<le> n"
  shows "fold (\<lambda>i m. m(dst + of_nat i := m (src + of_nat i))) (rev [k..<n]) m
    = (\<lambda>a. if k \<le> unat (a - dst) \<and> unat (a - dst) < n then m (src + (a - dst)) else m a)"
  using assms(4)
proof (induction rule: inc_induct)
  case base
  show ?case by (intro ext) auto
next
  case (step k)
  then have "k < n" "k < 4294967296" using assms(1) by simp_all
  note at = copy_index [OF \<open>k < 4294967296\<close> assms(1) \<open>k < n\<close>]
  let ?m = "\<lambda>a. if Suc k \<le> unat (a - dst) \<and> unat (a - dst) < n then m (src + (a - dst)) else m a"
  have "rev [k..<n] = rev [Suc k..<n] @ [k]" using \<open>k < n\<close> by (simp only: upt_conv_Cons rev.simps)
  then have run: "fold (\<lambda>i m. m(dst + of_nat i := m (src + of_nat i))) (rev [k..<n]) m
      = ?m(dst + of_nat k := ?m (src + of_nat k))"
    by (simp only: fold_append fold.simps comp_apply id_apply step.IH)
  have old: "?m (src + of_nat k) = m (src + of_nat k)"
    using source_offset(2) [OF assms(1,2) \<open>k < n\<close> assms(3)] by auto
  show ?case unfolding run old
  proof (rule ext)
    fix a
    have "unat (a - dst) = k \<Longrightarrow> a - dst = of_nat k" by auto
    then show "(?m(dst + of_nat k := m (src + of_nat k))) a
        = (if k \<le> unat (a - dst) \<and> unat (a - dst) < n then m (src + (a - dst)) else m a)"
      using \<open>k < n\<close> at [of a] by (cases "unat (a - dst) = k") auto
  qed
qed

section \<open>The terminating zero\<close>

text \<open>The string at an address: its bytes up to the first zero, if there is one.\<close>

definition ends_at :: "memory \<Rightarrow> u32 \<Rightarrow> u32 \<Rightarrow> bool" where
  "ends_at m str n \<longleftrightarrow> m (str + n) = 0 \<and> (\<forall>k < n. m (str + k) \<noteq> 0)"

lemma ends_at_unique: "ends_at m str n \<Longrightarrow> ends_at m str n' \<Longrightarrow> n = n'"
  unfolding ends_at_def by (metis linorder_neqE)

lemma strlen_loop_finds:
  assumes "ends_at m str n" and "l \<le> n"
  shows "strlen_loop m str l = Some n"
  using assms(2)
proof (induction "unat n - unat l" arbitrary: l)
  case 0
  then have "l = n" by (simp add: word_le_nat_alt u32_eqI)
  then show ?case using assms(1) by (subst strlen_loop.simps) (simp add: ends_at_def)
next
  case (Suc d)
  then have lt: "unat l < unat n" by simp
  then have s: "unat (l + 1) = Suc (unat l)" by (rule unat_less_plus_1)
  have "d = unat n - unat (l + 1)" "l + 1 \<le> n" using Suc.hyps(2) lt s by (simp_all add: word_le_nat_alt)
  then have "strlen_loop m str (l + 1) = Some n" by (rule Suc.hyps(1))
  moreover have "m (str + l) \<noteq> 0" using assms(1) lt by (simp add: ends_at_def word_less_nat_alt)
  ultimately show ?case by (subst strlen_loop.simps) simp
qed

lemma strlen_loop_zero:
  assumes "strlen_loop m str l = Some n"
  shows "m (str + n) = 0"
  by (rule strlen_loop.raw_induct [where P = "\<lambda>m str l n. m (str + n) = 0", OF _ assms])
    (auto split: if_splits)

lemma first_zero:
  assumes "m ((str::u32) + k) = (0::u8)"
  shows "\<exists>n. ends_at m str n"
proof -
  let ?P = "\<lambda>i. i < 4294967296 \<and> m (str + of_nat i) = 0"
  have "?P (unat k)" using assms by simp
  then have l: "?P (LEAST i. ?P i)" by (rule LeastI)
  let ?n = "of_nat (LEAST i. ?P i) :: u32"
  have n: "unat ?n = (LEAST i. ?P i)" using l by (simp add: unat_of_nat_small)
  have "m (str + j) \<noteq> 0" if "j < ?n" for j
  proof
    assume "m (str + j) = 0"
    then have "?P (unat j)" by simp
    then have "(LEAST i. ?P i) \<le> unat j" by (rule Least_le)
    then show False using that n by (simp add: word_less_nat_alt)
  qed
  then show ?thesis using l by (auto simp: ends_at_def)
qed

section \<open>Comparison\<close>

text \<open>The first index below \<open>i + n\<close> where the regions differ decides.\<close>

lemma memcmp_loop_zero: "memcmp_loop m a b i n = 0 \<longleftrightarrow> (\<forall>j. i \<le> j \<and> j < i + n \<longrightarrow> m (a + of_nat j) = m (b + of_nat j))"
proof (induction m a b i n rule: memcmp_loop.induct)
  case (2 m a b i n)
  have "(\<forall>j. i \<le> j \<and> j < i + Suc n \<longrightarrow> P j) \<longleftrightarrow> P i \<and> (\<forall>j. Suc i \<le> j \<and> j < Suc i + n \<longrightarrow> P j)" for P
    by (metis Suc_leD Suc_leI add_Suc add_Suc_right le_add1 le_imp_less_Suc le_neq_implies_less order_refl)
  then show ?case using 2 by auto
qed auto

section \<open>Properties\<close>

text \<open>C40: \<open>memmove\<close> copies correctly however the two regions overlap: every byte of the destination ends up
  with what the source held before the call, and nothing else changes.\<close>

theorem memmove_copies:
  assumes "unat dst + unat sz \<le> 4294967296" and "unat src + unat sz \<le> 4294967296"
  shows "memmove m dst src sz = copied m dst src (unat sz)"
proof (cases "dst < src")
  case True
  then show ?thesis using copy_up [OF assms _ order_refl] by (simp add: memmove_def)
next
  case False
  then have "src \<le> dst" by simp
  from copy_down [OF assms this le0] False show ?thesis by (simp add: memmove_def copied_def)
qed

theorem memmove_copies_witness:
  "memmove (\<lambda>a. ucast a) 0x1002 0x1000 4 0x1005 = 3 \<and> memmove (\<lambda>a. ucast a) 0x1002 0x1000 4 0x1004 = 2"
  using memmove_copies [of "0x1002" 4 "0x1000" "\<lambda>a. ucast a"] by (simp add: copied_def)

text \<open>\<open>strlen\<close> returns exactly when some byte of the address space is zero, and then the number of bytes
  before the first zero at or after the pointer.\<close>

theorem strlen_terminates:
  "(strlen m str = Some n \<longleftrightarrow> ends_at m str n) \<and> (strlen m str = None \<longleftrightarrow> (\<forall>a. m a \<noteq> 0))"
proof -
  have some: "strlen m str = Some n \<longleftrightarrow> ends_at m str n" for n
  proof
    assume s: "strlen m str = Some n"
    then have "m (str + n) = 0" unfolding strlen_def by (rule strlen_loop_zero)
    then obtain k where "ends_at m str k" using first_zero by blast
    moreover from this have "strlen m str = Some k" by (simp add: strlen_def strlen_loop_finds)
    ultimately show "ends_at m str n" using s by simp
  qed (simp add: strlen_def strlen_loop_finds)
  have "strlen m str = None \<longleftrightarrow> (\<forall>a. m a \<noteq> 0)"
  proof
    assume none: "strlen m str = None"
    show "\<forall>a. m a \<noteq> 0"
    proof (intro allI notI)
      fix a
      assume "m a = 0"
      then have "m (str + (a - str)) = 0" by simp
      then show False using first_zero some none by (metis option.distinct(1))
    qed
  next
    assume "\<forall>a. m a \<noteq> 0"
    then show "strlen m str = None" using some by (cases "strlen m str") (auto simp: ends_at_def)
  qed
  with some show ?thesis by blast
qed

end
