(* ===== verification/Multiboot.thy ===== *)
theory Multiboot
  imports Prelude
begin

text \<open>
  The Multiboot memory map (\<open>kernel/mm/multiboot.c\<close>, \<open>multiboot.h\<close>). The boot code
  calls \<open>multiboot_early_init\<close> while the boot page tables are active: \<open>boot_translate\<close>
  is the address translation \<open>boot.S\<close> sets up, \<open>boot_read8\<close> an access under it. The lemmas give the layout offsets, the
  bounds of the copied map and what the parser reads from a map laid out in memory.
\<close>

section \<open>State\<close>

record mmap_entry =
  me_addr :: u64
  me_len :: u64
  me_type :: u32

definition MULTIBOOT_BOOTLOADER_MAGIC :: u32 where
  "MULTIBOOT_BOOTLOADER_MAGIC = 0x2BADB002"

definition MULTIBOOT_INFO_MMAP :: u32 where
  "MULTIBOOT_INFO_MMAP = 0x40"

definition MULTIBOOT_MEMORY_AVAILABLE :: u32 where
  "MULTIBOOT_MEMORY_AVAILABLE = 1"

definition MULTIBOOT_MEMORY_ACPI_RECLAIMABLE :: u32 where
  "MULTIBOOT_MEMORY_ACPI_RECLAIMABLE = 3"

definition MAX_MMAP_ENTRIES :: u32 where
  "MAX_MMAP_ENTRIES = 64"

definition IDENTITY_MAP_LIMIT :: u32 where
  "IDENTITY_MAP_LIMIT = 0x00400000"

text \<open>The static variables of the file; \<open>mmap_storage\<close> is the array by its index.\<close>

record multiboot =
  mb_valid :: bool
  mb_mem_upper_kb :: u32
  mmap_storage :: "u32 \<Rightarrow> mmap_entry"
  mmap_entry_count :: u32

definition multiboot_is_valid :: "multiboot \<Rightarrow> bool" where
  "multiboot_is_valid s = mb_valid s"

definition multiboot_get_mmap :: "multiboot \<Rightarrow> u32 \<Rightarrow> mmap_entry" where
  "multiboot_get_mmap s = mmap_storage s"

definition multiboot_mmap_entry_count :: "multiboot \<Rightarrow> u32" where
  "multiboot_mmap_entry_count s = mmap_entry_count s"

definition multiboot_get_mem_upper_kb :: "multiboot \<Rightarrow> u32" where
  "multiboot_get_mem_upper_kb s = mb_mem_upper_kb s"

section \<open>Reading memory under the boot page tables\<close>

text \<open>
  \<open>boot.S\<close> fills one page table: entries 0 to 1022 map the frames from 0, entry 1023 maps
  the VGA text frame 0xB8000. Page directory entries 0 and 768 both point to it, every other
  access faults.
\<close>

definition boot_translate :: "u32 \<Rightarrow> u32 option" where
  "boot_translate a =
     (let pde = drop_bit 22 a; pte = drop_bit 12 a AND 0x3FF in
      if pde = 0 \<or> pde = 768 then
        Some (if pte = 1023 then 0xB8000 + off_of a else pte * 4096 + off_of a)
      else None)"

definition boot_read8 :: "memory \<Rightarrow> u32 \<Rightarrow> u8 option" where
  "boot_read8 m a = map_option m (boot_translate a)"

abbreviation boot_read32 :: "memory \<Rightarrow> u32 \<Rightarrow> u32 option" where
  "boot_read32 m \<equiv> read32 (boot_read8 m)"

abbreviation boot_read64 :: "memory \<Rightarrow> u32 \<Rightarrow> u64 option" where
  "boot_read64 m \<equiv> read64 (boot_read8 m)"

section \<open>Operations\<close>

definition multiboot_ptr_in_identity_map :: "u32 \<Rightarrow> bool" where
  "multiboot_ptr_in_identity_map phys \<longleftrightarrow> phys \<noteq> 0 \<and> phys < IDENTITY_MAP_LIMIT"

definition MULTIBOOT_FLAG_MEMORY :: u32 where "MULTIBOOT_FLAG_MEMORY = 0x01"
definition MULTIBOOT_FLAG_BOOTDEV :: u32 where "MULTIBOOT_FLAG_BOOTDEV = 0x02"
definition MULTIBOOT_FLAG_CMDLINE :: u32 where "MULTIBOOT_FLAG_CMDLINE = 0x04"
definition MULTIBOOT_FLAG_MODS :: u32 where "MULTIBOOT_FLAG_MODS = 0x08"
definition MULTIBOOT_FLAG_AOUT_SYMS :: u32 where "MULTIBOOT_FLAG_AOUT_SYMS = 0x10"
definition MULTIBOOT_FLAG_ELF_SHDR :: u32 where "MULTIBOOT_FLAG_ELF_SHDR = 0x20"

definition multiboot_mmap_fields_offset :: "u32 \<Rightarrow> u32" where
  "multiboot_mmap_fields_offset flags =
     (let offset = 4;
          offset = (if flags AND MULTIBOOT_FLAG_MEMORY \<noteq> 0 then offset + 8 else offset);
          offset = (if flags AND MULTIBOOT_FLAG_BOOTDEV \<noteq> 0 then offset + 4 else offset);
          offset = (if flags AND MULTIBOOT_FLAG_CMDLINE \<noteq> 0 then offset + 4 else offset);
          offset = (if flags AND MULTIBOOT_FLAG_MODS \<noteq> 0 then offset + 8 else offset);
          offset = (if flags AND MULTIBOOT_FLAG_AOUT_SYMS \<noteq> 0 then offset + 16 else offset);
          offset = (if flags AND MULTIBOOT_FLAG_ELF_SHDR \<noteq> 0 then offset + 16 else offset)
      in offset)"

lemmas mmap_offset_defs = multiboot_mmap_fields_offset_def MULTIBOOT_FLAG_MEMORY_def MULTIBOOT_FLAG_BOOTDEV_def
  MULTIBOOT_FLAG_CMDLINE_def MULTIBOOT_FLAG_MODS_def MULTIBOOT_FLAG_AOUT_SYMS_def MULTIBOOT_FLAG_ELF_SHDR_def

text \<open>
  \<open>rd\<close> reads a byte in the address space the code runs in. \<open>Some None\<close> is the \<open>return false\<close> of the code,
  \<open>None\<close> a fault.
\<close>

definition multiboot_parse_mmap_entry :: "(u32 \<Rightarrow> u8 option) \<Rightarrow> u32 \<Rightarrow> mmap_entry option option" where
  "multiboot_parse_mmap_entry rd entry_phys =
     (if \<not> multiboot_ptr_in_identity_map entry_phys then Some None
      else do {
        size \<leftarrow> read32 rd entry_phys;
        if size < 20 then Some None
        else do {
          addr \<leftarrow> read64 rd (entry_phys + 4);
          len \<leftarrow> read64 rd (entry_phys + 12);
          type \<leftarrow> read32 rd (entry_phys + 20);
          Some (Some \<lparr>me_addr = addr, me_len = len, me_type = type\<rparr>) } })"

definition mmap_append :: "mmap_entry \<Rightarrow> multiboot \<Rightarrow> multiboot" where
  "mmap_append e s = s\<lparr>mmap_storage := (mmap_storage s)(mmap_entry_count s := e),
     mmap_entry_count := mmap_entry_count s + 1\<rparr>"

text \<open>The copy loop of \<open>multiboot_early_init\<close>.\<close>

function multiboot_scan :: "(u32 \<Rightarrow> u8 option) \<Rightarrow> u32 \<Rightarrow> u32 \<Rightarrow> u32 \<Rightarrow> multiboot \<Rightarrow> multiboot option" where
  "multiboot_scan rd mmap_addr mmap_length offset s =
     (if offset < mmap_length \<and> mmap_entry_count s < MAX_MMAP_ENTRIES then do {
        parsed \<leftarrow> multiboot_parse_mmap_entry rd (mmap_addr + offset);
        case parsed of
          None \<Rightarrow> Some s
        | Some e \<Rightarrow> do {
            entry_size \<leftarrow> read32 rd (mmap_addr + offset);
            multiboot_scan rd mmap_addr mmap_length (offset + (entry_size + 4)) (mmap_append e s) } }
      else Some s)"
  by pat_completeness auto
termination
proof (relation "measure (\<lambda>(rd, a, l, off, s). 64 - unat (mmap_entry_count s))")
qed (auto simp: mmap_append_def MAX_MMAP_ENTRIES_def word_less_nat_alt unat_plus_u32)

declare multiboot_scan.simps [simp del]

definition multiboot_early_init :: "(u32 \<Rightarrow> u8 option) \<Rightarrow> u32 \<Rightarrow> u32 \<Rightarrow> multiboot \<Rightarrow> multiboot option" where
  "multiboot_early_init rd magic mb_info_phys s0 =
     (let s = s0\<lparr>mb_valid := False, mb_mem_upper_kb := 0, mmap_entry_count := 0\<rparr> in
      if magic \<noteq> MULTIBOOT_BOOTLOADER_MAGIC \<or> \<not> multiboot_ptr_in_identity_map mb_info_phys
      then Some s
      else do {
        flags \<leftarrow> read32 rd mb_info_phys;
        s \<leftarrow> (if flags AND MULTIBOOT_FLAG_MEMORY \<noteq> 0 then do {
               kb \<leftarrow> read32 rd (mb_info_phys + 8);
               Some (s\<lparr>mb_mem_upper_kb := kb\<rparr>) }
             else Some s);
        if flags AND MULTIBOOT_INFO_MMAP = 0 then Some s
        else do {
          let mmap_offset = multiboot_mmap_fields_offset flags;
          mmap_length \<leftarrow> read32 rd (mb_info_phys + mmap_offset);
          mmap_addr \<leftarrow> read32 rd (mb_info_phys + mmap_offset + 4);
          if \<not> multiboot_ptr_in_identity_map mmap_addr then Some s
          else do {
            s \<leftarrow> multiboot_scan rd mmap_addr mmap_length 0 s;
            Some (s\<lparr>mb_valid := mmap_entry_count s > 0\<rparr>) } } })"

section \<open>The copied map stays in its array\<close>

lemma mmap_append_frame [frames]:
  "mb_mem_upper_kb (mmap_append e s) = mb_mem_upper_kb s"
  "mb_valid (mmap_append e s) = mb_valid s"
  by (simp_all add: mmap_append_def)

lemma mmap_append_fields:
  "mmap_storage (mmap_append e s) = (mmap_storage s)(mmap_entry_count s := e)"
  "mmap_entry_count (mmap_append e s) = mmap_entry_count s + 1"
  by (simp_all add: mmap_append_def)

lemma multiboot_scan_bounds:
  assumes "multiboot_scan rd a l off s = Some s'" and "unat (mmap_entry_count s) \<le> 64"
  shows "unat (mmap_entry_count s) \<le> unat (mmap_entry_count s')
    \<and> unat (mmap_entry_count s') \<le> 64
    \<and> (\<forall>i. unat i < unat (mmap_entry_count s) \<or> 64 \<le> unat i \<longrightarrow> mmap_storage s' i = mmap_storage s i)
    \<and> mb_mem_upper_kb s' = mb_mem_upper_kb s"
  using assms
proof (induction rd a l off s rule: multiboot_scan.induct)
  case (1 rd a l off s)
  show ?case
  proof (cases "off < l \<and> mmap_entry_count s < MAX_MMAP_ENTRIES")
    case False
    with "1.prems" show ?thesis by (auto simp: multiboot_scan.simps [of rd a l off])
  next
    case True
    then have small: "unat (mmap_entry_count s) < 64"
      by (simp add: MAX_MMAP_ENTRIES_def word_less_nat_alt)
    from True "1.prems" obtain parsed where parsed:
      "multiboot_parse_mmap_entry rd (a + off) = Some parsed"
      by (auto simp: multiboot_scan.simps [of rd a l off] bind_eq_Some_conv)
    show ?thesis
    proof (cases parsed)
      case None
      with True parsed "1.prems" show ?thesis
        by (auto simp: multiboot_scan.simps [of rd a l off])
    next
      case (Some e)
      with True parsed "1.prems" obtain sz where sz: "read32 rd (a + off) = Some sz"
        and rec: "multiboot_scan rd a l (off + (sz + 4)) (mmap_append e s) = Some s'"
        by (auto simp: multiboot_scan.simps [of rd a l off] bind_eq_Some_conv)
      have count: "unat (mmap_entry_count (mmap_append e s)) = Suc (unat (mmap_entry_count s))"
        using small by (simp add: mmap_append_def unat_plus_u32)
      with small have "unat (mmap_entry_count (mmap_append e s)) \<le> 64" by simp
      from "1.IH" [OF True parsed Some sz rec this] count small show ?thesis
        by (auto simp: frames) (auto simp: mmap_append_def)
    qed
  qed
qed

lemma multiboot_scan_valid:
  "multiboot_scan rd a l off s = Some s' \<Longrightarrow> mb_valid s' = mb_valid s"
proof (induction rd a l off s rule: multiboot_scan.induct)
  case (1 rd a l off s)
  then show ?case
    by (subst (asm) (2) multiboot_scan.simps)
       (auto simp: bind_eq_Some_conv frames split: if_splits option.splits)
qed

lemma multiboot_early_init_cases:
  assumes "multiboot_early_init rd magic info s0 = Some s"
  obtains
    (unreadable) "mb_valid s = False" "mmap_entry_count s = 0" "mmap_storage s = mmap_storage s0"
  | (copied) flags a l s1 where "read32 rd info = Some flags"
      "read32 rd (info + multiboot_mmap_fields_offset flags) = Some l"
      "read32 rd (info + multiboot_mmap_fields_offset flags + 4) = Some a"
      "mmap_entry_count s1 = 0" "mmap_storage s1 = mmap_storage s0"
      "multiboot_scan rd a l 0 s1 = Some (s\<lparr>mb_valid := mb_valid s1\<rparr>)"
      "mb_valid s = (0 < mmap_entry_count s)"
proof -
  have "thesis" if "multiboot_scan rd a l 0 s1 = Some s2" and "s = s2\<lparr>mb_valid := 0 < mmap_entry_count s2\<rparr>"
    and "read32 rd info = Some flags"
    and "read32 rd (info + multiboot_mmap_fields_offset flags) = Some l"
    and "read32 rd (info + multiboot_mmap_fields_offset flags + 4) = Some a"
    and "mmap_entry_count s1 = 0" "mmap_storage s1 = mmap_storage s0" for a l s1 s2 flags
  proof (rule copied)
    have "mb_valid s2 = mb_valid s1" using that(1)
      by (rule multiboot_scan_valid)
    then show "multiboot_scan rd a l 0 s1 = Some (s\<lparr>mb_valid := mb_valid s1\<rparr>)"
      using that by simp
  qed (use that in auto)
  then show thesis
    using assms unreadable
    by (auto simp: multiboot_early_init_def MULTIBOOT_FLAG_MEMORY_def Let_def bind_eq_Some_conv split: if_splits)
qed

section \<open>Reading back a map laid out in memory\<close>

text \<open>
  \<open>mmap_at rd a es\<close>: from \<open>a\<close> up, memory as \<open>rd\<close> shows it holds the entries of \<open>es\<close> as the boot
  loader writes them, each a size field followed by base, length and type; the size counts the
  bytes after it.
\<close>

fun mmap_at :: "(u32 \<Rightarrow> u8 option) \<Rightarrow> u32 \<Rightarrow> (u32 \<times> mmap_entry) list \<Rightarrow> bool" where
  "mmap_at rd a [] = True"
| "mmap_at rd a ((sz, e) # es) =
     (multiboot_ptr_in_identity_map a \<and> 20 \<le> sz \<and> read32 rd a = Some sz
      \<and> read64 rd (a + 4) = Some (me_addr e) \<and> read64 rd (a + 12) = Some (me_len e)
      \<and> read32 rd (a + 20) = Some (me_type e) \<and> mmap_at rd (a + (sz + 4)) es)"

fun mmap_bytes :: "(u32 \<times> mmap_entry) list \<Rightarrow> nat" where
  "mmap_bytes [] = 0"
| "mmap_bytes ((sz, e) # es) = unat sz + 4 + mmap_bytes es"

lemma parse_laid_out:
  "mmap_at rd a ((sz, e) # es) \<Longrightarrow> multiboot_parse_mmap_entry rd a = Some (Some e)"
  by (auto simp: multiboot_parse_mmap_entry_def not_less)

lemma multiboot_scan_reads:
  assumes "mmap_at rd (a + off) es" and "unat off + mmap_bytes es = unat l"
    and "unat (mmap_entry_count s) \<le> 64"
  shows "multiboot_scan rd a l off s
    = Some (fold mmap_append (take (64 - unat (mmap_entry_count s)) (map snd es)) s)"
  using assms
proof (induction es arbitrary: off s)
  case Nil
  then have "off = l" by (simp add: u32_eqI)
  then show ?case by (subst multiboot_scan.simps) simp
next
  case (Cons p es)
  obtain sz e where p: "p = (sz, e)" by (cases p)
  show ?case
  proof (cases "unat (mmap_entry_count s) < 64")
    case False
    then show ?thesis
      by (simp add: multiboot_scan.simps [of rd a l off] MAX_MMAP_ENTRIES_def word_less_nat_alt)
  next
    case True
    have off: "off < l" using Cons.prems(2) p by (simp add: word_less_nat_alt)
    have "unat off + (unat sz + 4 + mmap_bytes es) = unat l" using Cons.prems(2) p by simp
    moreover have "unat l < 4294967296" by simp
    ultimately have "unat off + unat sz + 4 < 4294967296" by linarith
    then have next_off: "unat (off + (sz + 4)) = unat off + (unat sz + 4)"
      by (simp add: unat_plus_u32)
    have count: "unat (mmap_entry_count (mmap_append e s)) = Suc (unat (mmap_entry_count s))"
      using True by (simp add: mmap_append_def unat_plus_u32)
    have "multiboot_scan rd a l (off + (sz + 4)) (mmap_append e s)
      = Some (fold mmap_append (take (64 - Suc (unat (mmap_entry_count s))) (map snd es)) (mmap_append e s))"
      using Cons.prems p next_off count True
      by (subst Cons.IH) (simp_all add: add.assoc)
    moreover have "take (64 - unat (mmap_entry_count s)) (map snd (p # es))
      = e # take (64 - Suc (unat (mmap_entry_count s))) (map snd es)"
      using True p by (simp add: take_Cons' Suc_diff_Suc)
    ultimately show ?thesis
      using Cons.prems(1) p off True parse_laid_out [of rd "a + off" sz e es]
      by (simp add: multiboot_scan.simps [of rd a l off] MAX_MMAP_ENTRIES_def word_less_nat_alt)
  qed
qed

lemma fold_mmap_append:
  assumes "unat (mmap_entry_count s) + length es \<le> 64"
  shows "unat (mmap_entry_count (fold mmap_append es s)) = unat (mmap_entry_count s) + length es
    \<and> (\<forall>i < length es. mmap_storage (fold mmap_append es s)
          (mmap_entry_count s + of_nat i) = es ! i)
    \<and> (\<forall>j. unat j < unat (mmap_entry_count s)
          \<longrightarrow> mmap_storage (fold mmap_append es s) j = mmap_storage s j)
    \<and> mb_mem_upper_kb (fold mmap_append es s) = mb_mem_upper_kb s"
  using assms
proof (induction es arbitrary: s)
  case Nil
  then show ?case by simp
next
  case (Cons e es)
  let ?s = "mmap_append e s"
  have count: "unat (mmap_entry_count ?s) = Suc (unat (mmap_entry_count s))"
    using Cons.prems by (simp add: mmap_append_def unat_plus_u32)
  note IH = Cons.IH [of ?s]
  have stored: "mmap_storage ?s (mmap_entry_count s) = e"
    and kept: "unat j < unat (mmap_entry_count s) \<Longrightarrow> mmap_storage ?s j = mmap_storage s j" for j
    by (auto simp: mmap_append_fields)
  have "mmap_storage (fold mmap_append es ?s) (mmap_entry_count s + of_nat i) = (e # es) ! i"
    if "i < Suc (length es)" for i
  proof (cases i)
    case 0
    then show ?thesis using IH count Cons.prems stored by simp
  next
    case (Suc k)
    then have idx: "mmap_entry_count s + of_nat i = mmap_entry_count ?s + of_nat k"
      by (simp add: mmap_append_fields)
    show ?thesis unfolding idx using IH count Cons.prems Suc that by simp
  qed
  then show ?case using IH count Cons.prems kept by (simp add: frames)
qed

text \<open>The variables after the map of \<open>es\<close> has been copied.\<close>

definition copied_map :: "u32 \<Rightarrow> u32 \<Rightarrow> (u32 \<times> mmap_entry) list \<Rightarrow> multiboot \<Rightarrow> multiboot" where
  "copied_map flags kb es s =
     (fold mmap_append (take 64 (map snd es))
        (s\<lparr>mb_valid := False, mb_mem_upper_kb := (if flags AND 0x01 \<noteq> 0 then kb else 0), mmap_entry_count := 0\<rparr>))
     \<lparr>mb_valid := es \<noteq> []\<rparr>"

lemma copied_map_fields:
  "unat (mmap_entry_count (copied_map flags kb es s)) = min 64 (length es)"
  "i < min 64 (length es) \<Longrightarrow> mmap_storage (copied_map flags kb es s) (of_nat i) = snd (es ! i)"
  "mb_mem_upper_kb (copied_map flags kb es s) = (if flags AND 0x01 \<noteq> 0 then kb else 0)"
  "mb_valid (copied_map flags kb es s) = (es \<noteq> [])"
  using fold_mmap_append [of "s\<lparr>mb_valid := False, mb_mem_upper_kb := (if flags AND 0x01 \<noteq> 0 then kb else 0), mmap_entry_count := 0\<rparr>"
      "take 64 (map snd es)"]
  by (auto simp: copied_map_def min.commute)

lemma early_init_copies:
  assumes "multiboot_ptr_in_identity_map info" and "read32 rd info = Some flags"
    and "flags AND MULTIBOOT_INFO_MMAP \<noteq> 0" and "read32 rd (info + 8) = Some kb"
    and "read32 rd (info + multiboot_mmap_fields_offset flags) = Some l"
    and "read32 rd (info + multiboot_mmap_fields_offset flags + 4) = Some a"
    and "multiboot_ptr_in_identity_map a" and "mmap_at rd a es" and "unat l = mmap_bytes es"
  shows "multiboot_early_init rd MULTIBOOT_BOOTLOADER_MAGIC info s0 = Some (copied_map flags kb es s0)"
proof -
  let ?s0 = "s0\<lparr>mb_valid := False, mb_mem_upper_kb := 0, mmap_entry_count := 0\<rparr>"
  let ?s1 = "s0\<lparr>mb_valid := False, mb_mem_upper_kb := (if flags AND 0x01 \<noteq> 0 then kb else 0), mmap_entry_count := 0\<rparr>"
  let ?s2 = "fold mmap_append (take 64 (map snd es)) ?s1"
  have "multiboot_scan rd a l 0 ?s1 = Some ?s2"
    using multiboot_scan_reads [of rd a 0 es l ?s1] assms(8,9) by simp
  moreover have "(if flags AND 0x01 \<noteq> 0
      then do { kb \<leftarrow> read32 rd (info + 8); Some (?s0\<lparr>mb_mem_upper_kb := kb\<rparr>) }
      else Some ?s0) = Some ?s1"
    using assms(4) by simp
  ultimately have run: "multiboot_early_init rd MULTIBOOT_BOOTLOADER_MAGIC info s0
    = Some (?s2\<lparr>mb_valid := 0 < mmap_entry_count ?s2\<rparr>)"
    using assms(1-3,5-7) unfolding multiboot_early_init_def MULTIBOOT_FLAG_MEMORY_def Let_def by (simp del: split_paired_All)
  have "unat (mmap_entry_count ?s2) = min 64 (length es)"
    using copied_map_fields(1) [of flags kb es s0] by (simp add: copied_map_def)
  then have "(0 < mmap_entry_count ?s2) = (es \<noteq> [])" by (auto simp: word_less_nat_alt)
  then show ?thesis using run by (simp only: copied_map_def)
qed

section \<open>Which physical memory the boot mapping reaches\<close>

lemma unat_numeral_1023: "unat (1023::u32) = 1023"
  by simp

lemma boot_translate_low:
  assumes "a < 0x3FF000"
  shows "boot_translate a = Some a"
proof -
  have a: "unat a < 4190208" using assms by (simp add: word_less_nat_alt)
  then have "unat a div 4096 < 1023" by simp
  then have pte: "unat (drop_bit 12 a AND 0x3FF) = unat a div 4096"
    by (simp only: unat_and_3FF unat_shr12) simp
  have pde: "drop_bit 22 a = 0"
    by (rule u32_eqI) (use a in \<open>simp only: unat_shr22, simp\<close>)
  have "unat ((drop_bit 12 a AND 0x3FF) * 4096) = unat a div 4096 * 4096"
    using pte a by (subst unat_mult_small) simp_all
  then have "(drop_bit 12 a AND 0x3FF) * 4096 = page_of a"
    by (intro u32_eqI) (simp only: unat_page_of)
  moreover have "drop_bit 12 a AND 0x3FF \<noteq> 1023"
    using pte \<open>unat a div 4096 < 1023\<close> by (metis less_irrefl unat_numeral_1023)
  ultimately show ?thesis using pde
    by (simp add: boot_translate_def Let_def page_split)
qed

lemma boot_read32_low:
  assumes "word_aligned a" and "a < 0x3FF000"
  shows "boot_read32 m a = Some (load32 m a)"
proof (rule read32_SomeI)
  fix i :: u32
  assume "unat i < 4"
  then have "unat (a + i) = unat a + unat i" using assms(1) by (simp add: word_aligned_off)
  moreover obtain k where "unat a = 4 * k"
    using assms(1) by (auto simp: word_aligned_def mod_eq_0_iff_dvd elim!: dvdE)
  ultimately have "a + i < 0x3FF000"
    using assms(2) \<open>unat i < 4\<close> by (simp add: word_less_nat_alt)
  then show "boot_read8 m (a + i) = Some (m (a + i))"
    by (simp add: boot_read8_def boot_translate_low)
qed

section \<open>Properties\<close>

lemma flag_bits:
  "(f AND 0x01 \<noteq> 0) = bit (f::u32) 0" "(f AND 0x02 \<noteq> 0) = bit f 1"
  "(f AND 0x04 \<noteq> 0) = bit f 2" "(f AND 0x08 \<noteq> 0) = bit f 3"
  "(f AND 0x10 \<noteq> 0) = bit f 4" "(f AND 0x20 \<noteq> 0) = bit f 5"
  using and_exp_eq_0_iff_not_bit [of f 0] and_exp_eq_0_iff_not_bit [of f 1]
    and_exp_eq_0_iff_not_bit [of f 2] and_exp_eq_0_iff_not_bit [of f 3]
    and_exp_eq_0_iff_not_bit [of f 4] and_exp_eq_0_iff_not_bit [of f 5] by simp_all

lemma low_flag_bits: "(f AND 0x0F = (0x0F::u32)) = (bit f 0 \<and> bit f 1 \<and> bit f 2 \<and> bit f 3)"
proof -
  have m: "(0x0F::u32) = mask 4" by (simp add: mask_eq_exp_minus_1)
  have "(f AND 0x0F = (0x0F::u32)) = (\<forall>n<4. bit f n)"
    unfolding m by (auto simp: bit_eq_iff bit_simps) (drule_tac x = n in spec, simp)
  then show ?thesis by (simp add: numeral_eq_Suc All_less_Suc) blast
qed

text \<open>
  An example boot image: a Multiboot information block at 0x1000 with all four optional groups and
  an ELF symbol table, and a map of one available region of 127 MiB at 0x2000.
\<close>

definition example_boot_memory :: memory where
  "example_boot_memory = store32 (store32 (store32 (store32 (store32 (store32 (store32 (store32
     (store32 (store32 (\<lambda>_. 0) 0x1000 0x6F) 0x1008 130048) 0x102C 24) 0x1030 0x2000)
     0x2000 20) 0x2004 0x100000) 0x2008 0) 0x200C 0x7F00000) 0x2010 0) 0x2014 1"

definition example_mmap :: "(u32 \<times> mmap_entry) list" where
  "example_mmap = [(20, \<lparr>me_addr = 0x100000, me_len = 0x7F00000, me_type = 1\<rparr>)]"

definition empty_multiboot :: multiboot where
  "empty_multiboot = \<lparr>mb_valid = False, mb_mem_upper_kb = 0,
     mmap_storage = (\<lambda>_. \<lparr>me_addr = 0, me_len = 0, me_type = 0\<rparr>), mmap_entry_count = 0\<rparr>"

lemma word_aligned_numeral:
  "word_aligned (numeral n) \<longleftrightarrow> unat (numeral n :: u32) mod 4 = 0"
  by (simp add: word_aligned_def)

lemmas example_boot_simps = boot_read32_low example_boot_memory_def word_aligned_numeral
  multiboot_ptr_in_identity_map_def IDENTITY_MAP_LIMIT_def example_mmap_def read64_def join64_def

text \<open>Whatever the boot loader left in memory, the copied map has at most 64 entries, no
  element of the array beyond index 63 is written, and the map counts as valid exactly when at
  least one entry was copied.\<close>

theorem multiboot_early_init_bounds:
  assumes "multiboot_early_init rd magic info s0 = Some s"
  shows "multiboot_mmap_entry_count s \<le> 64
    \<and> (\<forall>i. 64 \<le> i \<longrightarrow> multiboot_get_mmap s i = multiboot_get_mmap s0 i)
    \<and> multiboot_is_valid s = (0 < multiboot_mmap_entry_count s)"
  using assms
proof (cases rule: multiboot_early_init_cases)
  case unreadable
  then show ?thesis
    by (simp add: multiboot_mmap_entry_count_def multiboot_get_mmap_def multiboot_is_valid_def)
next
  case (copied flags a l s1)
  from multiboot_scan_bounds [OF copied(6)] copied(4,5,7) show ?thesis
    by (simp add: multiboot_mmap_entry_count_def multiboot_get_mmap_def multiboot_is_valid_def
        word_le_nat_alt)
qed

theorem multiboot_early_init_bounds_witness:
  "\<exists>s. multiboot_early_init (boot_read8 example_boot_memory) MULTIBOOT_BOOTLOADER_MAGIC 0x1000 empty_multiboot = Some s
    \<and> multiboot_mmap_entry_count s \<le> 64 \<and> multiboot_is_valid s"
proof -
  let ?r = "multiboot_early_init (boot_read8 example_boot_memory) MULTIBOOT_BOOTLOADER_MAGIC 0x1000 empty_multiboot"
  have count: "map_option mmap_entry_count ?r = Some 1"
    by (simp add: multiboot_early_init_def MULTIBOOT_FLAG_MEMORY_def mmap_offset_defs MULTIBOOT_INFO_MMAP_def
        multiboot_scan.simps MAX_MMAP_ENTRIES_def multiboot_parse_mmap_entry_def mmap_append_def
        empty_multiboot_def example_boot_simps)
  then obtain s where s: "?r = Some s" by auto
  from multiboot_early_init_bounds [OF s] count s show ?thesis
    by (auto simp: multiboot_mmap_entry_count_def)
qed

text \<open>C29: a Multiboot block with the memory-map flag, whose length and address fields (at the
  offset the code computes) describe entries laid out in memory, is read back entry by entry: the
  first 64 entries land in the array in order, the count and the validity flag agree, and the
  upper memory size is the field at offset 8 when the block has it.\<close>

theorem multiboot_early_init_reads_map:
  assumes "multiboot_ptr_in_identity_map info" and "boot_read32 m info = Some flags"
    and "flags AND MULTIBOOT_INFO_MMAP \<noteq> 0" and "boot_read32 m (info + 8) = Some kb"
    and "boot_read32 m (info + multiboot_mmap_fields_offset flags) = Some l"
    and "boot_read32 m (info + multiboot_mmap_fields_offset flags + 4) = Some a"
    and "multiboot_ptr_in_identity_map a" and "mmap_at (boot_read8 m) a es" and "unat l = mmap_bytes es"
  shows "\<exists>s. multiboot_early_init (boot_read8 m) MULTIBOOT_BOOTLOADER_MAGIC info s0 = Some s
    \<and> unat (multiboot_mmap_entry_count s) = min 64 (length es)
    \<and> map (\<lambda>i. multiboot_get_mmap s (of_nat i)) [0..<min 64 (length es)] = map snd (take 64 es)
    \<and> multiboot_is_valid s = (es \<noteq> [])
    \<and> multiboot_get_mem_upper_kb s = (if flags AND 0x01 \<noteq> 0 then kb else 0)"
proof -
  note c = copied_map_fields [where flags = flags and kb = kb and es = es and s = s0]
  have "map (\<lambda>i. mmap_storage (copied_map flags kb es s0) (of_nat i)) [0..<min 64 (length es)] = map snd (take 64 es)"
    using c(2) by (intro nth_equalityI) (auto simp: min.commute)
  then show ?thesis using early_init_copies [OF assms, of s0] c(1,3,4)
    by (auto simp: multiboot_mmap_entry_count_def multiboot_get_mmap_def multiboot_is_valid_def
        multiboot_get_mem_upper_kb_def)
qed

theorem multiboot_early_init_reads_map_witness:
  "\<exists>s. multiboot_early_init (boot_read8 example_boot_memory) MULTIBOOT_BOOTLOADER_MAGIC 0x1000 empty_multiboot = Some s
    \<and> unat (multiboot_mmap_entry_count s) = 1
    \<and> multiboot_get_mmap s 0 = \<lparr>me_addr = 0x100000, me_len = 0x7F00000, me_type = 1\<rparr>
    \<and> multiboot_is_valid s \<and> multiboot_get_mem_upper_kb s = 130048"
  using multiboot_early_init_reads_map [of "0x1000" example_boot_memory "0x6F" 130048 24 "0x2000"
      example_mmap empty_multiboot]
  by (simp add: example_boot_simps mmap_offset_defs MULTIBOOT_INFO_MMAP_def)

text \<open>When exactly one of the two symbol-table flags is set, the offset the code computes for
  the memory-map fields is 44 (where the Multiboot layout has them) exactly when the memory, boot
  device, command line and module groups are all flagged as present; a block without one of them,
  such as one without modules, is read at a smaller offset.\<close>

theorem mmap_fields_offset_44:
  assumes "(flags AND 0x10 \<noteq> 0) \<noteq> (flags AND 0x20 \<noteq> 0)"
  shows "multiboot_mmap_fields_offset flags = 44 \<longleftrightarrow> flags AND 0x0F = 0x0F"
  using assms unfolding flag_bits low_flag_bits mmap_offset_defs Let_def
  by (cases "bit flags 4") auto

theorem mmap_fields_offset_44_witness:
  "multiboot_mmap_fields_offset 0x6F = 44 \<and> multiboot_mmap_fields_offset 0x67 \<noteq> 44"
  using mmap_fields_offset_44 [of "0x6F"] mmap_fields_offset_44 [of "0x67"] by simp

text \<open>A pointer the range check accepts is read at its own physical address below 0x3FF000
  only; in the last page under the 4 MiB limit the same check passes and the access reads the VGA
  text frame instead.\<close>

theorem identity_map_check:
  assumes "multiboot_ptr_in_identity_map a"
  shows "boot_translate a = Some (if a < 0x3FF000 then a else 0xB8000 + off_of a)"
proof (cases "a < 0x3FF000")
  case True
  then show ?thesis by (simp add: boot_translate_low)
next
  case False
  with assms have a: "4190208 \<le> unat a" "unat a < 4194304"
    by (simp_all add: multiboot_ptr_in_identity_map_def IDENTITY_MAP_LIMIT_def word_less_nat_alt)
  then have "unat a div 4096 = 1023" by simp
  then have "drop_bit 12 a AND 0x3FF = 1023"
    by (intro u32_eqI) (simp only: unat_and_3FF unat_shr12, simp)
  moreover have "drop_bit 22 a = 0"
    by (rule u32_eqI) (use a in \<open>simp only: unat_shr22, simp\<close>)
  ultimately show ?thesis using False by (simp add: boot_translate_def Let_def)
qed

theorem identity_map_check_witness:
  "multiboot_ptr_in_identity_map 0x3FF010 \<and> boot_translate 0x3FF010 = Some 0xB8010"
  using identity_map_check [of "0x3FF010"]
  by (simp add: multiboot_ptr_in_identity_map_def IDENTITY_MAP_LIMIT_def off_of_def)

end
