(* ===== verification/Pmm.thy ===== *)
theory Pmm
  imports Multiboot Libc_String
begin

text \<open>
  The physical frame allocator (\<open>kernel/mm/pmm.c\<close>): one bit per 4 KiB frame, a frame count
  and a used count. The abstraction is the set of used frames; every operation is an insertion
  into, a removal from or a query of that set, and the used count is its size.
\<close>

section \<open>State\<close>

record pmm =
  pmm_bitmap :: memory \<comment> \<open>the array by its index\<close>
  pmm_frame_count :: u32
  pmm_used_count :: u32

text \<open>The linker symbols the initialisation reserves (virtual addresses).\<close>

record kernel_image =
  kernel_end :: u32
  boot_page_directory :: u32
  boot_page_table1 :: u32
  stack_bottom :: u32
  stack_top :: u32
  bitmap_addr :: u32

definition KERNEL_VIRTUAL_BASE :: u32 where
  "KERNEL_VIRTUAL_BASE = 0xC0000000"

definition KERNEL_PHYSICAL_START :: u32 where
  "KERNEL_PHYSICAL_START = 0x00100000"

definition PMM_PAGE_SIZE :: u32 where
  "PMM_PAGE_SIZE = 4096"

definition PMM_MAX_FRAMES :: u32 where
  "PMM_MAX_FRAMES = 32768"

section \<open>Operations\<close>

definition addr_to_frame :: "u32 \<Rightarrow> u32" where
  "addr_to_frame addr = addr div PMM_PAGE_SIZE"

definition pmm_set_used :: "u32 \<Rightarrow> bool \<Rightarrow> pmm \<Rightarrow> pmm" where
  "pmm_set_used frame used p =
     (if pmm_frame_count p \<le> frame then p
      else
        let i = frame div 8;
            byte = (ucast (pmm_bitmap p i) :: u32);
            bit = push_bit (unat (frame mod 8)) (1 :: u32)
        in if used then
             let p = (if byte AND bit = 0 then p\<lparr>pmm_used_count := pmm_used_count p + 1\<rparr> else p)
             in p\<lparr>pmm_bitmap := (pmm_bitmap p)(i := ucast (byte OR bit))\<rparr>
           else
             let p = (if byte AND bit \<noteq> 0 then p\<lparr>pmm_used_count := pmm_used_count p - 1\<rparr> else p)
             in p\<lparr>pmm_bitmap := (pmm_bitmap p)(i := ucast (byte AND NOT bit))\<rparr>)"

text \<open>The loops of \<open>pmm_reserve_frames\<close> and \<open>pmm_free_frames_range\<close>.\<close>

function pmm_set_range :: "bool \<Rightarrow> u32 \<Rightarrow> u32 \<Rightarrow> pmm \<Rightarrow> pmm" where
  "pmm_set_range used frame end_frame p =
     (if frame < end_frame \<and> frame < pmm_frame_count p
      then pmm_set_range used (frame + 1) end_frame (pmm_set_used frame used p) else p)"
  by pat_completeness auto
termination
proof (relation "measure (\<lambda>(used, frame, end_frame, p). unat end_frame - unat frame)", simp)
  fix used and frame end_frame :: u32 and p :: pmm
  assume "frame < end_frame \<and> frame < pmm_frame_count p"
  then have less: "unat frame < unat end_frame" by (simp add: word_less_nat_alt)
  then show "((used, frame + 1, end_frame, pmm_set_used frame used p), used, frame, end_frame, p)
    \<in> measure (\<lambda>(used, frame, end_frame, p). unat end_frame - unat frame)"
    by (simp add: unats)
qed

declare pmm_set_range.simps [simp del]

definition pmm_reserve_frames :: "u32 \<Rightarrow> u32 \<Rightarrow> pmm \<Rightarrow> pmm" where
  "pmm_reserve_frames start_frame end_frame p = pmm_set_range True start_frame end_frame p"

definition pmm_free_frames_range :: "u32 \<Rightarrow> u32 \<Rightarrow> pmm \<Rightarrow> pmm" where
  "pmm_free_frames_range start_frame end_frame p = pmm_set_range False start_frame end_frame p"

definition pmm_reserve_region :: "u32 \<Rightarrow> u32 \<Rightarrow> pmm \<Rightarrow> pmm" where
  "pmm_reserve_region start end p =
     (if end \<le> start then p
      else
        let start_frame = addr_to_frame start;
            end_frame = addr_to_frame (end + PMM_PAGE_SIZE - 1) + 1
        in pmm_reserve_frames start_frame end_frame p)"

definition virt_to_phys :: "u32 \<Rightarrow> u32" where
  "virt_to_phys virt = virt - KERNEL_VIRTUAL_BASE"

definition region_end_frame :: "u64 \<Rightarrow> u64 \<Rightarrow> u32" where
  "region_end_frame addr len =
     (let end = addr + len in
      if end = 0 then 0 else addr_to_frame (ucast (end - 1)) + 1)"

definition region_start_frame :: "u64 \<Rightarrow> u32" where
  "region_start_frame addr = addr_to_frame (ucast addr)"

definition pmm_region_usable :: "u32 \<Rightarrow> bool" where
  "pmm_region_usable type \<longleftrightarrow>
     type = MULTIBOOT_MEMORY_AVAILABLE \<or> type = MULTIBOOT_MEMORY_ACPI_RECLAIMABLE"

definition pmm_mark_highest :: "u64 \<Rightarrow> u64 \<Rightarrow> u64" where
  "pmm_mark_highest region_end highest = (if region_end > highest then region_end else highest)"

section \<open>Initialisation\<close>

text \<open>The map entries in the order the two loops of \<open>pmm_init\<close> visit them.\<close>

definition mmap_entries :: "multiboot \<Rightarrow> mmap_entry list" where
  "mmap_entries mb =
     map (\<lambda>i. multiboot_get_mmap mb (of_nat i)) [0..<unat (multiboot_mmap_entry_count mb)]"

definition pmm_highest :: "multiboot \<Rightarrow> u64" where
  "pmm_highest mb =
     (let highest = fold (\<lambda>e. pmm_mark_highest (me_addr e + me_len e)) (mmap_entries mb) 0 in
      if multiboot_get_mem_upper_kb mb \<noteq> 0
      then pmm_mark_highest (0x00100000 + ucast (multiboot_get_mem_upper_kb mb) * 1024) highest
      else highest)"

definition pmm_apply_entry :: "mmap_entry \<Rightarrow> pmm \<times> bool \<Rightarrow> pmm \<times> bool" where
  "pmm_apply_entry e = (\<lambda>(p, freed_any).
     let start_frame = region_start_frame (me_addr e);
         end_frame = region_end_frame (me_addr e) (me_len e)
     in if pmm_region_usable (me_type e)
        then (pmm_free_frames_range start_frame end_frame p, True)
        else (pmm_reserve_frames start_frame end_frame p, freed_any))"

definition pmm_reserve_kernel :: "kernel_image \<Rightarrow> pmm \<Rightarrow> pmm" where
  "pmm_reserve_kernel img p =
     (let p = pmm_set_used 0 True p;
          p = pmm_reserve_region KERNEL_PHYSICAL_START (virt_to_phys (kernel_end img)) p;
          p = pmm_reserve_region (virt_to_phys (boot_page_directory img))
                (virt_to_phys (boot_page_table1 img) + PMM_PAGE_SIZE) p;
          p = pmm_reserve_region (virt_to_phys (stack_bottom img)) (virt_to_phys (stack_top img)) p
      in pmm_reserve_region (virt_to_phys (bitmap_addr img))
           (virt_to_phys (bitmap_addr img) + PMM_MAX_FRAMES div 8) p)"

definition pmm_init :: "kernel_image \<Rightarrow> multiboot \<Rightarrow> pmm \<Rightarrow> pmm" where
  "pmm_init img mb p =
     (if \<not> multiboot_is_valid mb then p
      else
        let n = addr_to_frame (ucast (pmm_highest mb)) + 1;
            n = (if n > PMM_MAX_FRAMES then PMM_MAX_FRAMES else n);
            p = p\<lparr>pmm_frame_count := n\<rparr>
        in if n = 0 then p
           else
             let p = p\<lparr>pmm_bitmap := memset (pmm_bitmap p) 0 0xFF ((n + 7) div 8),
                        pmm_used_count := n\<rparr>;
                 (p, freed_any) = fold pmm_apply_entry (mmap_entries mb) (p, False);
                 p = (if \<not> freed_any \<and> multiboot_get_mem_upper_kb mb \<noteq> 0
                      then pmm_free_frames_range (region_start_frame 0x00100000)
                             (region_end_frame 0x00100000
                                (ucast (multiboot_get_mem_upper_kb mb) * 1024)) p
                      else p)
             in pmm_reserve_kernel img p)"

section \<open>Allocation\<close>

function pmm_alloc_scan :: "u32 \<Rightarrow> pmm \<Rightarrow> pmm \<times> u32" where
  "pmm_alloc_scan frame p =
     (if frame < pmm_frame_count p then
        let byte = frame div 8;
            bit = (ucast (push_bit (unat (frame mod 8)) (1 :: u32)) :: u8)
        in if pmm_bitmap p byte AND bit = 0
           then (pmm_set_used frame True p, frame * PMM_PAGE_SIZE)
           else pmm_alloc_scan (frame + 1) p
      else (p, 0))"
  by pat_completeness auto
termination
proof (relation "measure (\<lambda>(frame, p). unat (pmm_frame_count p) - unat frame)", simp)
  fix frame :: u32 and p :: pmm and byte :: u32 and bit :: u8
  assume "frame < pmm_frame_count p"
  then have less: "unat frame < unat (pmm_frame_count p)" by (simp add: word_less_nat_alt)
  then show "((frame + 1, p), frame, p)
    \<in> measure (\<lambda>(frame, p). unat (pmm_frame_count p) - unat frame)"
    by (simp add: unats)
qed

declare pmm_alloc_scan.simps [simp del]

definition pmm_alloc_frame :: "pmm \<Rightarrow> pmm \<times> u32" where
  "pmm_alloc_frame p = pmm_alloc_scan 1 p"

definition pmm_free_frame :: "u32 \<Rightarrow> pmm \<Rightarrow> pmm" where
  "pmm_free_frame addr p =
     (if addr = 0 \<or> addr mod PMM_PAGE_SIZE \<noteq> 0 then p
      else pmm_set_used (addr_to_frame addr) False p)"

definition pmm_total_frames :: "pmm \<Rightarrow> u32" where
  "pmm_total_frames p = pmm_frame_count p"

definition pmm_used_frames :: "pmm \<Rightarrow> u32" where
  "pmm_used_frames p = pmm_used_count p"

definition pmm_free_frames :: "pmm \<Rightarrow> u32" where
  "pmm_free_frames p =
     (if pmm_frame_count p < pmm_used_count p then 0 else pmm_frame_count p - pmm_used_count p)"

section \<open>The abstraction: a set of used frames\<close>

definition pmm_is_used :: "pmm \<Rightarrow> u32 \<Rightarrow> bool" where
  "pmm_is_used p f \<longleftrightarrow> bit (pmm_bitmap p (f div 8)) (unat (f mod 8))"

definition used_set :: "pmm \<Rightarrow> u32 set" where
  "used_set p = {f. f < pmm_frame_count p \<and> pmm_is_used p f}"

definition pmm_inv :: "pmm \<Rightarrow> bool" where
  "pmm_inv p \<longleftrightarrow> pmm_frame_count p \<le> PMM_MAX_FRAMES \<and> unat (pmm_used_count p) = card (used_set p)"

lemma frame_eq_iff: "(f::u32) = g \<longleftrightarrow> f div 8 = g div 8 \<and> unat (f mod 8) = unat (g mod 8)"
  by (metis u32_eqI word_mod_div_equality)

lemma mod_8_less [simp]: "unat ((f::u32) mod 8) < 8"
  by (simp add: unats)

lemma byte_test:
  "(ucast b :: u32) AND 2 ^ unat ((f::u32) mod 8) = 0 \<longleftrightarrow> \<not> bit (b::u8) (unat (f mod 8))"
proof -
  have "unat (f mod 8) < 32" using mod_8_less [of f] by linarith
  then show ?thesis by (simp only: and_exp_eq_0_iff_not_bit) (simp add: bit_simps)
qed

lemma byte_test_8:
  "b AND ucast (2 ^ unat ((f::u32) mod 8) :: u32) = 0 \<longleftrightarrow> \<not> bit (b::u8) (unat (f mod 8))"
proof -
  have "(ucast (2 ^ unat (f mod 8) :: u32) :: u8) = 2 ^ unat (f mod 8)"
    by (rule bit_eqI) (auto simp: bit_simps)
  then show ?thesis by (simp add: and_exp_eq_0_iff_not_bit)
qed

lemma byte_set:
  "k < 8 \<Longrightarrow> j < 8 \<Longrightarrow>
   bit (ucast ((ucast b :: u32) OR 2 ^ k) :: u8) j \<longleftrightarrow> bit (b::u8) j \<or> j = k"
  by (auto simp: bit_simps)

lemma byte_clear:
  "k < 8 \<Longrightarrow> j < 8 \<Longrightarrow>
   bit (ucast ((ucast b :: u32) AND NOT (2 ^ k)) :: u8) j \<longleftrightarrow> bit (b::u8) j \<and> j \<noteq> k"
  by (auto simp: bit_simps)

lemma pmm_set_used_outside [simp]: "pmm_frame_count p \<le> f \<Longrightarrow> pmm_set_used f u p = p"
  by (simp add: pmm_set_used_def)

lemma pmm_set_used_count [simp, frames]: "pmm_frame_count (pmm_set_used f u p) = pmm_frame_count p"
  by (simp add: pmm_set_used_def Let_def)

lemma pmm_is_used_set_used [simp]:
  assumes "f < pmm_frame_count p"
  shows "pmm_is_used (pmm_set_used f u p) g = (if g = f then u else pmm_is_used p g)"
proof -
  have "\<not> pmm_frame_count p \<le> f" using assms by simp
  then show ?thesis
    by (cases "g div 8 = f div 8")
       (auto simp: pmm_is_used_def pmm_set_used_def Let_def frame_eq_iff [of g f] byte_set byte_clear)
qed

lemma used_set_set_used:
  "used_set (pmm_set_used f u p) =
     (if f < pmm_frame_count p then (if u then insert f (used_set p) else used_set p - {f})
      else used_set p)"
  by (auto simp: used_set_def not_less)

lemma pmm_set_used_used_count:
  assumes "f < pmm_frame_count p"
  shows "pmm_used_count (pmm_set_used f u p) =
     (if u \<and> \<not> pmm_is_used p f then pmm_used_count p + 1
      else if \<not> u \<and> pmm_is_used p f then pmm_used_count p - 1 else pmm_used_count p)"
proof -
  have "\<not> pmm_frame_count p \<le> f" using assms by simp
  then show ?thesis by (simp add: pmm_set_used_def Let_def byte_test pmm_is_used_def)
qed

lemma used_set_bound: "card (used_set p) \<le> unat (pmm_frame_count p)" and finite_used_set [simp]: "finite (used_set p)"
proof -
  have sub: "unat ` used_set p \<subseteq> {..<unat (pmm_frame_count p)}"
    by (auto simp: used_set_def word_less_nat_alt)
  moreover have inj: "inj_on unat (used_set p)" by (rule inj_onI) (rule u32_eqI)
  ultimately show "card (used_set p) \<le> unat (pmm_frame_count p)"
    by (metis card_image card_lessThan card_mono finite_lessThan)
  show "finite (used_set p)"
    using sub inj by (metis finite_imageD finite_lessThan finite_subset)
qed

lemma pmm_set_used_inv [intro]:
  assumes "pmm_inv p"
  shows "pmm_inv (pmm_set_used f u p)"
proof (cases "f < pmm_frame_count p")
  case False
  with assms show ?thesis by simp
next
  case True
  have mem: "f \<in> used_set p \<longleftrightarrow> pmm_is_used p f" using True by (simp add: used_set_def)
  have "unat (pmm_frame_count p) \<le> 32768"
    using assms by (simp add: pmm_inv_def PMM_MAX_FRAMES_def word_le_nat_alt)
  then have bound: "card (used_set p) \<le> 32768" using used_set_bound [of p] by linarith
  have count: "unat (pmm_used_count p) = card (used_set p)" using assms by (simp add: pmm_inv_def)
  have inc: "unat (pmm_used_count p + 1) = Suc (card (used_set p))"
    using bound count by (simp add: unat_plus_u32)
  have dec: "unat (pmm_used_count p - 1) = card (used_set p) - 1" if "f \<in> used_set p"
  proof -
    have "0 < card (used_set p)" using that by (auto simp: card_gt_0_iff)
    then have "1 \<le> pmm_used_count p" using count by (simp add: word_le_nat_alt)
    then show ?thesis using count by (simp add: unat_minus_le)
  qed
  show ?thesis using assms True mem inc dec count
    by (auto simp: pmm_inv_def used_set_set_used pmm_set_used_used_count card_insert_if card_Diff_singleton)
qed

section \<open>Ranges\<close>

lemma pmm_set_range_spec:
  "pmm_frame_count (pmm_set_range u f g p) = pmm_frame_count p
   \<and> used_set (pmm_set_range u f g p) =
       (if u then used_set p \<union> {h. f \<le> h \<and> h < g \<and> h < pmm_frame_count p}
        else used_set p - {h. f \<le> h \<and> h < g})
   \<and> (pmm_inv p \<longrightarrow> pmm_inv (pmm_set_range u f g p))"
proof (induction u f g p rule: pmm_set_range.induct)
  case (1 u f g p)
  show ?case
  proof (cases "f < g \<and> f < pmm_frame_count p")
    case False
    have "h \<notin> used_set p" if "f \<le> h" "h < g" for h
      using False that by (auto simp: used_set_def)
    with False show ?thesis by (auto simp: pmm_set_range.simps [of u f g p])
  next
    case True
    then have ge: "f + 1 \<le> h \<longleftrightarrow> f \<le> h \<and> h \<noteq> f" for h
      by (auto simp: u32_plus_1_le_iff [of f g])
    from "1.IH" [OF True] True show ?thesis
      by (auto simp: pmm_set_range.simps [of u f g p] used_set_set_used ge)
  qed
qed

lemmas pmm_set_range_count [simp, frames] = pmm_set_range_spec [THEN conjunct1]
lemmas used_set_set_range = pmm_set_range_spec [THEN conjunct2, THEN conjunct1]
lemmas pmm_set_range_inv [intro] = pmm_set_range_spec [THEN conjunct2, THEN conjunct2, THEN mp]

lemma pmm_reserve_region_count [simp, frames]:
  "pmm_frame_count (pmm_reserve_region a b p) = pmm_frame_count p"
  by (simp add: pmm_reserve_region_def pmm_reserve_frames_def Let_def)

lemma pmm_reserve_region_inv [intro]: "pmm_inv p \<Longrightarrow> pmm_inv (pmm_reserve_region a b p)"
  by (auto simp: pmm_reserve_region_def pmm_reserve_frames_def Let_def)

lemma pmm_reserve_region_mono: "used_set p \<subseteq> used_set (pmm_reserve_region a b p)"
  by (auto simp: pmm_reserve_region_def pmm_reserve_frames_def Let_def used_set_set_range)

lemma unat_addr_to_frame [unats]: "unat (addr_to_frame a) = unat a div 4096"
  by (simp add: addr_to_frame_def PMM_PAGE_SIZE_def unats)

text \<open>
  The region end is rounded up and then one frame further: the frames from the first byte's to the
  one after the last byte's become used.
\<close>

lemma used_set_reserve_region:
  assumes "a < b" and "unat b + 4095 < 4294967296"
  shows "used_set (pmm_reserve_region a b p) = used_set p \<union>
    {f. f < pmm_frame_count p \<and> unat a div 4096 \<le> unat f \<and> unat f \<le> (unat b - 1) div 4096 + 1}"
proof -
  have b: "0 < unat b" using assms(1) by (simp add: word_less_nat_alt)
  have "unat (b + PMM_PAGE_SIZE - 1) = (unat b - 1) + 4096"
    using assms(2) b by (simp add: PMM_PAGE_SIZE_def unat_plus_u32)
  then have "unat (addr_to_frame (b + PMM_PAGE_SIZE - 1)) = (unat b - 1) div 4096 + 1"
    by (simp add: unat_addr_to_frame)
  moreover have "(unat b - 1) div 4096 + 2 < 4294967296" using assms(2) by simp
  ultimately have e: "unat (addr_to_frame (b + PMM_PAGE_SIZE - 1) + 1) = (unat b - 1) div 4096 + 2"
    by (simp add: unat_plus_u32)
  show ?thesis using assms(1)
    by (auto simp: pmm_reserve_region_def pmm_reserve_frames_def Let_def used_set_set_range
        word_le_nat_alt word_less_nat_alt e unat_addr_to_frame not_le)
qed

section \<open>Allocation and release\<close>

lemma pmm_alloc_scan_cases:
  assumes "pmm_frame_count p \<le> PMM_MAX_FRAMES"
  shows "(pmm_alloc_scan f p = (p, 0) \<and> (\<forall>g. f \<le> g \<and> g < pmm_frame_count p \<longrightarrow> pmm_is_used p g))
    \<or> (\<exists>g. f \<le> g \<and> g < pmm_frame_count p \<and> \<not> pmm_is_used p g
         \<and> (\<forall>h. f \<le> h \<and> h < g \<longrightarrow> pmm_is_used p h)
         \<and> pmm_alloc_scan f p = (pmm_set_used g True p, g * 4096))"
  using assms
proof (induction f p rule: pmm_alloc_scan.induct)
  case (1 f p)
  have test: "pmm_bitmap p (f div 8) AND ucast (push_bit (unat (f mod 8)) (1::u32)) = 0
      \<longleftrightarrow> \<not> pmm_is_used p f"
    by (simp add: byte_test_8 pmm_is_used_def)
  consider "\<not> f < pmm_frame_count p" | "f < pmm_frame_count p" "\<not> pmm_is_used p f"
    | "f < pmm_frame_count p" "pmm_is_used p f" by blast
  then show ?case
  proof cases
    case 1
    then show ?thesis by (auto simp: pmm_alloc_scan.simps [of f p])
  next
    case 2
    then have "pmm_alloc_scan f p = (pmm_set_used f True p, f * 4096)"
      using test by (simp add: pmm_alloc_scan.simps [of f p] PMM_PAGE_SIZE_def)
    with 2 show ?thesis by (intro disjI2 exI [of _ f]) auto
  next
    case 3
    then have up: "f + 1 \<le> h \<longleftrightarrow> f < h" for h by (intro u32_plus_1_le_iff)
    have skip: "pmm_alloc_scan f p = pmm_alloc_scan (f + 1) p"
      using 3 test by (subst pmm_alloc_scan.simps) simp
    have "\<not> pmm_bitmap p (f div 8) AND ucast (push_bit (unat (f mod 8)) (1::u32)) = 0"
      using 3 test by simp
    from "1.IH" [OF 3(1) refl refl this "1.prems"]
    consider "pmm_alloc_scan (f + 1) p = (p, 0)" "\<And>g. f < g \<Longrightarrow> g < pmm_frame_count p \<Longrightarrow> pmm_is_used p g"
      | g where "f < g" "g < pmm_frame_count p" "\<not> pmm_is_used p g"
          "\<And>h. f < h \<Longrightarrow> h < g \<Longrightarrow> pmm_is_used p h"
          "pmm_alloc_scan (f + 1) p = (pmm_set_used g True p, g * 4096)"
      unfolding up by blast
    then show ?thesis
    proof cases
      case 1
      then show ?thesis unfolding skip using 3(2) by (metis order.not_eq_order_implies_strict)
    next
      case (2 g)
      have "pmm_is_used p h" if "f \<le> h" "h < g" for h
        using 2(4) 3(2) that by (metis order.not_eq_order_implies_strict)
      with 2 show ?thesis unfolding skip by (intro disjI2 exI [of _ g]) auto
    qed
  qed
qed

text \<open>
  The frames the allocator manages and the ones it can still hand out, by physical address. Frame
  0 is skipped by the search.
\<close>

definition pmm_pool :: "pmm \<Rightarrow> u32 set" where
  "pmm_pool p = {a. page_aligned a \<and> a \<noteq> 0 \<and> addr_to_frame a < pmm_frame_count p}"

definition pmm_avail :: "pmm \<Rightarrow> u32 set" where
  "pmm_avail p = {a \<in> pmm_pool p. \<not> pmm_is_used p (addr_to_frame a)}"

lemma addr_to_frame_inj:
  assumes "page_aligned a" and "page_aligned b" and "addr_to_frame a = addr_to_frame b"
  shows "a = b"
proof (rule u32_eqI)
  have "unat a div 4096 = unat b div 4096" using assms(3) by (metis unat_addr_to_frame)
  then show "unat a = unat b" using assms(1,2) by (auto elim!: page_alignedE)
qed

lemma frame_addr:
  assumes "g < 32768"
  shows "unat (g * 4096 :: u32) = unat g * 4096" and "page_aligned (g * 4096)"
    and "addr_to_frame (g * 4096) = g" and "g \<noteq> 0 \<Longrightarrow> g * 4096 \<noteq> 0"
proof -
  have "unat g < 32768" using assms by (simp add: word_less_nat_alt)
  then show v: "unat (g * 4096) = unat g * 4096" by (subst unat_mult_small) simp_all
  then show "page_aligned (g * 4096)" by (simp add: page_aligned_unat)
  show "addr_to_frame (g * 4096) = g"
    by (rule u32_eqI) (use v in \<open>simp add: unat_addr_to_frame\<close>)
  show "g \<noteq> 0 \<Longrightarrow> g * 4096 \<noteq> 0" using v by (metis mult_is_0 unat_0 unat_eq_zero zero_neq_numeral)
qed

lemma addr_to_frame_eq_0: "page_aligned a \<Longrightarrow> addr_to_frame a = 0 \<longleftrightarrow> a = 0"
  using addr_to_frame_inj [of a 0] by (auto simp: page_aligned_def off_of_def addr_to_frame_def PMM_PAGE_SIZE_def)

lemma pmm_alloc_frame_cases:
  assumes "pmm_inv p"
  obtains (full) "pmm_avail p = {}" "pmm_alloc_frame p = (p, 0)"
  | (frame) a where "a \<in> pmm_avail p" "\<And>b. b \<in> pmm_avail p \<Longrightarrow> a \<le> b"
      "pmm_alloc_frame p = (pmm_set_used (addr_to_frame a) True p, a)"
proof -
  have bound: "pmm_frame_count p \<le> 32768"
    using assms by (simp add: pmm_inv_def PMM_MAX_FRAMES_def)
  have ge1: "1 \<le> addr_to_frame b" if "b \<in> pmm_avail p" for b
  proof -
    have "addr_to_frame b \<noteq> 0"
      using that addr_to_frame_eq_0 [of b] by (auto simp: pmm_avail_def pmm_pool_def)
    then show ?thesis by (simp add: word_le_nat_alt unat_gt_0 Suc_le_eq)
  qed
  from pmm_alloc_scan_cases [of p 1] assms
  consider "pmm_alloc_scan 1 p = (p, 0)" "\<And>g. 1 \<le> g \<Longrightarrow> g < pmm_frame_count p \<Longrightarrow> pmm_is_used p g"
    | g where "1 \<le> g" "g < pmm_frame_count p" "\<not> pmm_is_used p g"
        "\<And>h. 1 \<le> h \<Longrightarrow> h < g \<Longrightarrow> pmm_is_used p h"
        "pmm_alloc_scan 1 p = (pmm_set_used g True p, g * 4096)"
    by (auto simp: pmm_inv_def)
  then show thesis
  proof cases
    case 1
    then have "pmm_avail p = {}" using ge1 by (fastforce simp: pmm_avail_def pmm_pool_def)
    with 1(1) show thesis by (intro full) (simp_all add: pmm_alloc_frame_def)
  next
    case (2 g)
    have g: "g < 32768" using 2(2) bound by (rule less_le_trans)
    have "g \<noteq> 0" using 2(1) by auto
    note fa = frame_addr [OF g]
    show thesis
    proof (rule frame)
      show "g * 4096 \<in> pmm_avail p"
        using fa \<open>g \<noteq> 0\<close> 2 by (simp add: pmm_avail_def pmm_pool_def)
      show "pmm_alloc_frame p = (pmm_set_used (addr_to_frame (g * 4096)) True p, g * 4096)"
        using 2 fa by (simp add: pmm_alloc_frame_def)
      fix b
      assume b: "b \<in> pmm_avail p"
      then have "\<not> addr_to_frame b < g"
        using 2(4) [of "addr_to_frame b"] ge1 [OF b] by (auto simp: pmm_avail_def)
      then have "unat g \<le> unat b div 4096"
        by (simp add: word_less_nat_alt unat_addr_to_frame not_less)
      then show "g * 4096 \<le> b" using fa(1) by (simp add: word_le_nat_alt)
    qed
  qed
qed

lemma pmm_pool_set_used [simp, frames]: "pmm_pool (pmm_set_used f u p) = pmm_pool p"
  by (simp add: pmm_pool_def)

lemma pmm_avail_in_pool: "a \<in> pmm_avail p \<Longrightarrow> a \<in> pmm_pool p"
  by (simp add: pmm_avail_def)

lemma pmm_avail_use:
  "a \<in> pmm_pool p \<Longrightarrow> pmm_avail (pmm_set_used (addr_to_frame a) True p) = pmm_avail p - {a}"
  by (auto simp: pmm_avail_def pmm_pool_def dest: addr_to_frame_inj)

lemma pmm_avail_release:
  "a \<in> pmm_pool p \<Longrightarrow> pmm_avail (pmm_set_used (addr_to_frame a) False p) = insert a (pmm_avail p)"
  by (auto simp: pmm_avail_def pmm_pool_def dest: addr_to_frame_inj)

lemma pmm_free_frame_pool:
  assumes "a \<in> pmm_pool p"
  shows "pmm_free_frame a p = pmm_set_used (addr_to_frame a) False p"
proof -
  have "unat (a mod 4096) = 0"
    using assms by (simp add: unat_word_mod pmm_pool_def page_aligned_unat)
  then have "a mod 4096 = 0" by (simp add: unat_eq_zero)
  then show ?thesis using assms by (simp add: pmm_free_frame_def pmm_pool_def PMM_PAGE_SIZE_def)
qed

lemma pmm_free_frame_inv [intro]: "pmm_inv p \<Longrightarrow> pmm_inv (pmm_free_frame a p)"
  by (auto simp: pmm_free_frame_def)

section \<open>The allocator interface\<close>

text \<open>
  What a client of the allocator relies on: a pool of frame addresses, the available ones among
  them, allocation that takes one away or fails when there is none, release that puts one back.
\<close>

locale frame_allocator =
  fixes inv :: "'s \<Rightarrow> bool"
    and pool :: "'s \<Rightarrow> u32 set"
    and avail :: "'s \<Rightarrow> u32 set"
    and alloc :: "'s \<Rightarrow> 's \<times> u32"
    and release :: "u32 \<Rightarrow> 's \<Rightarrow> 's"
  assumes avail_pool: "avail s \<subseteq> pool s"
    and pool_frame: "a \<in> pool s \<Longrightarrow> page_aligned a \<and> a \<noteq> 0"
    and alloc_empty: "inv s \<Longrightarrow> avail s = {} \<Longrightarrow> alloc s = (s, 0)"
    and alloc_takes: "inv s \<Longrightarrow> avail s \<noteq> {} \<Longrightarrow> alloc s = (s', a) \<Longrightarrow>
      a \<in> avail s \<and> avail s' = avail s - {a} \<and> pool s' = pool s \<and> inv s'"
    and release_returns: "inv s \<Longrightarrow> a \<in> pool s \<Longrightarrow>
      avail (release a s) = insert a (avail s) \<and> pool (release a s) = pool s \<and> inv (release a s)"
begin

lemma alloc_zero_iff: "inv s \<Longrightarrow> snd (alloc s) = 0 \<longleftrightarrow> avail s = {}"
  using alloc_takes [of s "fst (alloc s)" "snd (alloc s)"] pool_frame avail_pool
  by (cases "avail s = {}") (auto simp: alloc_empty)

lemma alloc_keeps:
  assumes "inv s"
  shows "inv (fst (alloc s))" and "pool (fst (alloc s)) = pool s"
    and "avail (fst (alloc s)) = avail s - {snd (alloc s)}"
proof -
  have "inv (fst (alloc s)) \<and> pool (fst (alloc s)) = pool s
    \<and> avail (fst (alloc s)) = avail s - {snd (alloc s)}"
    using alloc_takes [OF assms _ prod.collapse [symmetric]] alloc_empty [OF assms] assms
    by (cases "avail s = {}") auto
  then show "inv (fst (alloc s))" and "pool (fst (alloc s)) = pool s"
    and "avail (fst (alloc s)) = avail s - {snd (alloc s)}" by blast+
qed

lemma two_allocs_distinct:
  assumes "inv s" and "alloc s = (s1, a)" and "alloc s1 = (s2, b)" and "a \<noteq> 0" and "b \<noteq> 0"
  shows "a \<noteq> b"
proof -
  from assms have "avail s \<noteq> {}" by (metis alloc_zero_iff snd_conv)
  with assms alloc_takes [of s s1 a] have s1: "inv s1" "avail s1 = avail s - {a}" by auto
  with assms have "avail s1 \<noteq> {}" by (metis alloc_zero_iff snd_conv)
  with s1 assms alloc_takes [of s1 s2 b] have "b \<in> avail s1" by auto
  with s1 show ?thesis by auto
qed

lemma alloc_release:
  assumes "inv s" and "alloc s = (s1, a)" and "a \<noteq> 0"
  shows "avail (release a s1) = avail s" and "inv (release a s1)"
proof -
  from assms have ne: "avail s \<noteq> {}" by (metis alloc_zero_iff snd_conv)
  note t = alloc_takes [OF assms(1) ne assms(2)]
  then have "a \<in> pool s1" using avail_pool by auto
  with t release_returns [of s1 a] show "avail (release a s1) = avail s" "inv (release a s1)"
    by auto
qed

end

interpretation pmm: frame_allocator pmm_inv pmm_pool pmm_avail pmm_alloc_frame pmm_free_frame
proof unfold_locales
  fix p p' a
  show "pmm_avail p \<subseteq> pmm_pool p" by (auto simp: pmm_avail_def)
  show "a \<in> pmm_pool p \<Longrightarrow> page_aligned a \<and> a \<noteq> 0" by (simp add: pmm_pool_def)
  show "pmm_inv p \<Longrightarrow> pmm_avail p = {} \<Longrightarrow> pmm_alloc_frame p = (p, 0)"
    by (erule pmm_alloc_frame_cases) auto
  show "a \<in> pmm_avail p \<and> pmm_avail p' = pmm_avail p - {a} \<and> pmm_pool p' = pmm_pool p \<and> pmm_inv p'"
    if "pmm_inv p" "pmm_avail p \<noteq> {}" "pmm_alloc_frame p = (p', a)"
    using that(1) by (cases rule: pmm_alloc_frame_cases)
      (use that in \<open>auto simp: pmm_avail_use pmm_avail_in_pool\<close>)
  show "pmm_inv p \<Longrightarrow> a \<in> pmm_pool p \<Longrightarrow> pmm_avail (pmm_free_frame a p) = insert a (pmm_avail p)
    \<and> pmm_pool (pmm_free_frame a p) = pmm_pool p \<and> pmm_inv (pmm_free_frame a p)"
    by (auto simp: pmm_free_frame_pool pmm_avail_release)
qed

section \<open>Initialisation: which frames end up free\<close>

lemma card_below: "card {f::u32. f < n} = unat n"
proof -
  have "inj_on unat {f::u32. f < n}" by (rule inj_onI) (rule u32_eqI)
  moreover have "unat ` {f::u32. f < n} = {..<unat n}"
  proof
    show "unat ` {f. f < n} \<subseteq> {..<unat n}" by (auto simp: word_less_nat_alt)
    show "{..<unat n} \<subseteq> unat ` {f. f < n}"
    proof
      fix k assume k: "k \<in> {..<unat n}"
      have "unat n < 4294967296" by simp
      with k have "k < 4294967296" by (metis lessThan_iff less_trans)
      then have "unat (of_nat k :: u32) = k" by (rule unat_of_nat_small)
      with k show "k \<in> unat ` {f. f < n}"
        by (intro image_eqI [of _ _ "of_nat k"]) (auto simp: word_less_nat_alt)
    qed
  qed
  ultimately show ?thesis by (metis card_image card_lessThan)
qed

lemma all_used_inv:
  assumes "n \<le> PMM_MAX_FRAMES"
  shows "used_set (p\<lparr>pmm_frame_count := n, pmm_bitmap := memset b 0 0xFF ((n + 7) div 8),
      pmm_used_count := n\<rparr>) = {f. f < n}" (is "used_set ?p = _")
    and "pmm_inv (p\<lparr>pmm_frame_count := n, pmm_bitmap := memset b 0 0xFF ((n + 7) div 8),
      pmm_used_count := n\<rparr>)"
proof -
  have n: "unat n \<le> 32768" using assms by (simp add: PMM_MAX_FRAMES_def word_le_nat_alt)
  then have size: "unat ((n + 7) div 8) = (unat n + 7) div 8" by (simp add: unats unat_plus_u32)
  have "pmm_is_used ?p f" if "f < n" for f
  proof -
    have "unat f div 8 < (unat n + 7) div 8" using that by (simp add: word_less_nat_alt)
    then have "unat (f div 8) < unat ((n + 7) div 8)" unfolding size by (simp add: unat_word_div)
    then have "memset b 0 0xFF ((n + 7) div 8) (f div 8) = 0xFF"
      by (simp add: memset_eq)
    moreover have "bit (0xFF :: u8) k" if "k < 8" for k
    proof -
      have "(0xFF :: u8) = mask 8" by (simp add: mask_eq_exp_minus_1)
      with that show ?thesis by (simp only: bit_mask_iff) simp
    qed
    ultimately show ?thesis by (simp add: pmm_is_used_def)
  qed
  then show used: "used_set ?p = {f. f < n}" by (auto simp: used_set_def)
  then show "pmm_inv ?p" using assms by (simp add: pmm_inv_def card_below)
qed

text \<open>
  The account of \<open>pmm_init\<close> in the code's own 32-bit frame numbers; the section on the memory map relates it to the
  64-bit ranges of the entries.
\<close>

definition entry_frames :: "mmap_entry \<Rightarrow> u32 \<Rightarrow> bool" where
  "entry_frames e f \<longleftrightarrow>
     region_start_frame (me_addr e) \<le> f \<and> f < region_end_frame (me_addr e) (me_len e)"

text \<open>The entry that decides about a frame is the last one whose frame numbers include it.\<close>

fun code_frees :: "mmap_entry list \<Rightarrow> u32 \<Rightarrow> bool \<Rightarrow> bool" where
  "code_frees [] f b = b"
| "code_frees (e # es) f b =
     code_frees es f (if entry_frames e f then pmm_region_usable (me_type e) else b)"

lemma fold_apply_entry:
  "fold pmm_apply_entry es (p, fr) = (q, fr') \<Longrightarrow>
     pmm_frame_count q = pmm_frame_count p
   \<and> (\<forall>f < pmm_frame_count p. f \<in> used_set q \<longleftrightarrow> \<not> code_frees es f (f \<notin> used_set p))
   \<and> fr' = (fr \<or> (\<exists>e \<in> set es. pmm_region_usable (me_type e)))
   \<and> (pmm_inv p \<longrightarrow> pmm_inv q)"
proof (induction es arbitrary: p fr)
  case Nil
  then show ?case by auto
next
  case (Cons e es)
  obtain p1 fr1 where step: "pmm_apply_entry e (p, fr) = (p1, fr1)" by (cases "pmm_apply_entry e (p, fr)")
  then have p1: "pmm_frame_count p1 = pmm_frame_count p" "pmm_inv p \<longrightarrow> pmm_inv p1"
    "fr1 = (fr \<or> pmm_region_usable (me_type e))"
    "\<And>f. f < pmm_frame_count p \<Longrightarrow> f \<in> used_set p1 \<longleftrightarrow>
       (if entry_frames e f then \<not> pmm_region_usable (me_type e) else f \<in> used_set p)"
    by (auto simp: pmm_apply_entry_def Let_def pmm_free_frames_range_def pmm_reserve_frames_def
        used_set_set_range entry_frames_def split: if_splits)
  from Cons.prems step have "fold pmm_apply_entry es (p1, fr1) = (q, fr')" by simp
  from Cons.IH [OF this] p1 show ?case by (auto simp: if_distrib)
qed

text \<open>The frames a region reservation marks, and the ones kept from the kernel image.\<close>

definition region_frames :: "u32 \<Rightarrow> u32 \<Rightarrow> u32 set" where
  "region_frames a b =
     (if a < b then {f. unat a div 4096 \<le> unat f \<and> unat f \<le> (unat b - 1) div 4096 + 1} else {})"

definition kernel_frames :: "kernel_image \<Rightarrow> u32 set" where
  "kernel_frames img = {0}
     \<union> region_frames KERNEL_PHYSICAL_START (virt_to_phys (kernel_end img))
     \<union> region_frames (virt_to_phys (boot_page_directory img)) (virt_to_phys (boot_page_table1 img) + PMM_PAGE_SIZE)
     \<union> region_frames (virt_to_phys (stack_bottom img)) (virt_to_phys (stack_top img))
     \<union> region_frames (virt_to_phys (bitmap_addr img)) (virt_to_phys (bitmap_addr img) + PMM_MAX_FRAMES div 8)"

text \<open>The image ends below the last page of the physical address space.\<close>

definition image_fits :: "kernel_image \<Rightarrow> bool" where
  "image_fits img \<longleftrightarrow>
     (\<forall>b \<in> {virt_to_phys (kernel_end img), virt_to_phys (boot_page_table1 img) + PMM_PAGE_SIZE,
         virt_to_phys (stack_top img), virt_to_phys (bitmap_addr img) + PMM_MAX_FRAMES div 8}.
       unat b + 4095 < 4294967296)"

lemma used_set_reserve_region_frames:
  "unat b + 4095 < 4294967296 \<Longrightarrow> used_set (pmm_reserve_region a b p) =
     used_set p \<union> {f \<in> region_frames a b. f < pmm_frame_count p}"
  by (cases "a < b")
     (auto simp: used_set_reserve_region region_frames_def, auto simp: pmm_reserve_region_def not_less)

lemma pmm_reserve_kernel_spec:
  assumes "image_fits img" and "0 < pmm_frame_count p"
  shows "used_set (pmm_reserve_kernel img p) =
      used_set p \<union> {f \<in> kernel_frames img. f < pmm_frame_count p}"
  using assms
  by (auto simp: pmm_reserve_kernel_def Let_def used_set_reserve_region_frames image_fits_def
      kernel_frames_def used_set_set_used)

lemma pmm_reserve_kernel_count [simp, frames]:
  "pmm_frame_count (pmm_reserve_kernel img p) = pmm_frame_count p"
  by (simp add: pmm_reserve_kernel_def Let_def)

lemma pmm_reserve_kernel_inv [intro]: "pmm_inv p \<Longrightarrow> pmm_inv (pmm_reserve_kernel img p)"
  unfolding pmm_reserve_kernel_def Let_def by (intro pmm_reserve_region_inv pmm_set_used_inv)

text \<open>The number of frames \<open>pmm_init\<close> computes, and which of them it takes for free RAM.\<close>

definition pmm_init_count :: "multiboot \<Rightarrow> u32" where
  "pmm_init_count mb = min PMM_MAX_FRAMES (addr_to_frame (ucast (pmm_highest mb)) + 1)"

definition code_ram :: "multiboot \<Rightarrow> u32 \<Rightarrow> bool" where
  "code_ram mb f =
     (if \<exists>e \<in> set (mmap_entries mb). pmm_region_usable (me_type e)
      then code_frees (mmap_entries mb) f False
      else multiboot_get_mem_upper_kb mb \<noteq> 0 \<and> 0x100 \<le> f \<and>
        f < region_end_frame 0x00100000 (ucast (multiboot_get_mem_upper_kb mb) * 1024))"

lemma pmm_init_count_pos: "0 < pmm_init_count mb"
proof -
  let ?f = "addr_to_frame (ucast (pmm_highest mb))"
  have "unat (ucast (pmm_highest mb) :: u32) < 4294967296" by simp
  then have "unat ?f < 1048576"
    unfolding unat_addr_to_frame by (intro less_mult_imp_div_less) simp
  then have "unat (?f + 1) = Suc (unat ?f)" by (simp add: unat_plus_u32)
  then have "0 < ?f + 1" by (simp add: word_less_nat_alt)
  then show ?thesis by (simp add: pmm_init_count_def PMM_MAX_FRAMES_def)
qed

lemma code_frees_no_usable:
  "\<forall>e \<in> set es. \<not> pmm_region_usable (me_type e) \<Longrightarrow> \<not> code_frees es f False"
  by (induction es) auto

lemma pmm_init_spec:
  assumes "multiboot_is_valid mb"
  shows "pmm_frame_count (pmm_init img mb p) = pmm_init_count mb"
    and "image_fits img \<Longrightarrow> used_set (pmm_init img mb p) =
      {f. f < pmm_init_count mb \<and> (f \<in> kernel_frames img \<or> \<not> code_ram mb f)}"
    and "pmm_inv (pmm_init img mb p)"
proof -
  let ?n = "pmm_init_count mb" and ?es = "mmap_entries mb" and ?kb = "multiboot_get_mem_upper_kb mb"
  let ?p0 = "p\<lparr>pmm_frame_count := ?n, pmm_bitmap := memset (pmm_bitmap p) 0 0xFF ((?n + 7) div 8),
    pmm_used_count := ?n\<rparr>"
  have n: "?n \<le> PMM_MAX_FRAMES" "0 < ?n"
    by (simp add: pmm_init_count_def, rule pmm_init_count_pos)
  have p0: "used_set ?p0 = {f. f < ?n}" "pmm_inv ?p0" "pmm_frame_count ?p0 = ?n"
    using all_used_inv [OF n(1)] by simp_all
  obtain q fr where fold: "fold pmm_apply_entry ?es (?p0, False) = (q, fr)"
    by (cases "fold pmm_apply_entry ?es (?p0, False)")
  note q = fold_apply_entry [OF fold]
  let ?r = "if \<not> fr \<and> ?kb \<noteq> 0 then pmm_free_frames_range (region_start_frame 0x00100000)
    (region_end_frame 0x00100000 (ucast ?kb * 1024)) q else q"
  have "(if addr_to_frame (ucast (pmm_highest mb)) + 1 > PMM_MAX_FRAMES then PMM_MAX_FRAMES
      else addr_to_frame (ucast (pmm_highest mb)) + 1) = ?n"
    by (auto simp: pmm_init_count_def)
  then have run: "pmm_init img mb p = pmm_reserve_kernel img ?r"
    using assms n(2) fold by (simp add: pmm_init_def Let_def)
  have r: "pmm_frame_count ?r = ?n" "pmm_inv ?r"
    using q p0 by (auto simp: pmm_free_frames_range_def)
  have "f \<in> used_set ?r \<longleftrightarrow> f < ?n \<and> \<not> code_ram mb f" for f
  proof (cases "f < ?n")
    case True
    then show ?thesis using q p0 code_frees_no_usable [of ?es f]
      by (auto simp: code_ram_def pmm_free_frames_range_def used_set_set_range
          region_start_frame_def addr_to_frame_def PMM_PAGE_SIZE_def)
  next
    case False
    then show ?thesis using r(1) by (auto simp: used_set_def)
  qed
  then have "used_set ?r = {f. f < ?n \<and> \<not> code_ram mb f}" by blast
  then show "used_set (pmm_init img mb p) =
      {f. f < ?n \<and> (f \<in> kernel_frames img \<or> \<not> code_ram mb f)}" if "image_fits img"
    unfolding run using pmm_reserve_kernel_spec [OF that, of ?r] r n(2) by auto
  show "pmm_frame_count (pmm_init img mb p) = ?n" unfolding run using r by simp
  show "pmm_inv (pmm_init img mb p)" unfolding run using r by blast
qed

lemma pmm_init_inv [intro]: "pmm_inv p \<Longrightarrow> pmm_inv (pmm_init img mb p)"
  by (cases "multiboot_is_valid mb") (auto simp: pmm_init_spec(3), simp add: pmm_init_def)

section \<open>The memory map\<close>

text \<open>
  What the boot loader's map says, in the bytes of the 64-bit ranges: an entry reaches into frame \<open>f\<close> if one of its bytes
  lies there, and of the entries that reach into a frame the last one decides about it. Without any usable entry it is the
  range of \<open>mem_upper\<close> from 1 MiB up.
\<close>

definition reaches :: "mmap_entry \<Rightarrow> nat \<Rightarrow> bool" where
  "reaches e f \<longleftrightarrow> 0 < unat (me_len e) \<and> unat (me_addr e) < (f + 1) * 4096 \<and> f * 4096 < unat (me_addr e) + unat (me_len e)"

fun last_usable :: "mmap_entry list \<Rightarrow> nat \<Rightarrow> bool \<Rightarrow> bool" where
  "last_usable [] f b = b"
| "last_usable (e # es) f b = last_usable es f (if reaches e f then pmm_region_usable (me_type e) else b)"

definition usable_frame :: "multiboot \<Rightarrow> nat \<Rightarrow> bool" where
  "usable_frame mb f \<longleftrightarrow>
     (if \<exists>e \<in> set (mmap_entries mb). pmm_region_usable (me_type e) then last_usable (mmap_entries mb) f False
      else 0x100000 < (f + 1) * 4096 \<and> f * 4096 < 0x100000 + unat (multiboot_get_mem_upper_kb mb) * 1024)"

text \<open>The end of the highest range.\<close>

definition memory_end :: "multiboot \<Rightarrow> nat" where
  "memory_end mb = fold (\<lambda>e. max (unat (me_addr e) + unat (me_len e))) (mmap_entries mb)
     (if multiboot_get_mem_upper_kb mb = 0 then 0 else 0x100000 + unat (multiboot_get_mem_upper_kb mb) * 1024)"

text \<open>Usable memory below 4 GiB, and no reserved range across that limit.\<close>

definition entry_low :: "mmap_entry \<Rightarrow> bool" where
  "entry_low e \<longleftrightarrow>
     (if pmm_region_usable (me_type e) then 0 < unat (me_len e) \<and> unat (me_addr e) + unat (me_len e) \<le> 2 ^ 32
      else unat (me_addr e) + unat (me_len e) \<le> 2 ^ 32 \<or> 2 ^ 32 \<le> unat (me_addr e))"

definition usable_low :: "multiboot \<Rightarrow> bool" where
  "usable_low mb \<longleftrightarrow> (\<forall>e \<in> set (mmap_entries mb). entry_low e)"

lemma reaches_byte:
  "reaches e f \<longleftrightarrow> (\<exists>x. unat (me_addr e) \<le> x \<and> x < unat (me_addr e) + unat (me_len e) \<and> x div 4096 = f)"
proof
  assume r: "reaches e f"
  let ?x = "max (unat (me_addr e)) (f * 4096)"
  have "?x div 4096 = f"
    using r by (intro div_nat_eqI) (simp_all add: reaches_def)
  then show "\<exists>x. unat (me_addr e) \<le> x \<and> x < unat (me_addr e) + unat (me_len e) \<and> x div 4096 = f"
    using r by (intro exI [of _ ?x]) (auto simp: reaches_def)
next
  assume "\<exists>x. unat (me_addr e) \<le> x \<and> x < unat (me_addr e) + unat (me_len e) \<and> x div 4096 = f"
  then obtain x where x: "unat (me_addr e) \<le> x" "x < unat (me_addr e) + unat (me_len e)" "x div 4096 = f" by blast
  have "f * 4096 \<le> x" "x < (f + 1) * 4096"
    using div_times_less_eq_dividend [of x 4096] dividend_less_div_times [of 4096 x] x(3) by simp_all
  then show "reaches e f" using x(1,2) by (auto simp: reaches_def)
qed

lemma unat_low32: "unat (ucast (x::u64) :: u32) = unat x mod 4294967296"
  by (simp add: unsigned_ucast_eq take_bit_eq_mod)

lemma unat_plus_u64: "unat (a::u64) + unat b < 18446744073709551616 \<Longrightarrow> unat (a + b) = unat a + unat b"
  by (simp add: unat_word_ariths)

text \<open>Below 4 GiB the code's frame numbers are those of the range.\<close>

lemma region_end_frame_low:
  assumes "0 < n" and "unat a + unat l = n" and "n \<le> 4294967296"
  shows "unat (region_end_frame a l) = (n - 1) div 4096 + 1"
proof -
  have e: "unat (a + l) = n" using assms(2,3) by (simp add: unat_plus_u64)
  then have ne: "a + l \<noteq> 0" using assms(1) by auto
  then have "unat (a + l - 1) = n - 1" using e by (simp add: unat_minus_one)
  then have "unat (ucast (a + l - 1) :: u32) = n - 1" using assms(1,3) by (simp add: unat_low32)
  moreover have "(n - 1) div 4096 < 1048576" using assms(1,3) by (intro less_mult_imp_div_less) simp
  ultimately show ?thesis using ne by (simp add: region_end_frame_def Let_def unat_plus_u32 unat_addr_to_frame)
qed

lemma entry_frames_low:
  assumes "0 < unat (me_len e)" and "unat (me_addr e) + unat (me_len e) \<le> 4294967296"
  shows "entry_frames e f \<longleftrightarrow> reaches e (unat f)"
proof -
  have "unat (region_end_frame (me_addr e) (me_len e)) = (unat (me_addr e) + unat (me_len e) - 1) div 4096 + 1"
    using assms by (intro region_end_frame_low) simp_all
  moreover have "unat (region_start_frame (me_addr e)) = unat (me_addr e) div 4096"
    using assms by (simp add: region_start_frame_def unat_addr_to_frame unat_low32)
  ultimately show ?thesis using assms(1)
    by (auto simp: entry_frames_def reaches_def word_le_nat_alt word_less_nat_alt less_Suc_eq_le
        less_eq_div_iff_mult_less_eq div_less_iff_less_mult)
qed

lemma code_frees_exact:
  "\<forall>e \<in> set es. 0 < unat (me_len e) \<and> unat (me_addr e) + unat (me_len e) \<le> 4294967296 \<Longrightarrow>
     code_frees es f b = last_usable es (unat f) b"
  by (induction es arbitrary: b) (auto simp: entry_frames_low)

lemma code_frees_usable:
  assumes "\<forall>e \<in> set es. entry_low e"
    and "unat f < 1048576" and "code_frees es f b" and "b \<longrightarrow> b'"
  shows "last_usable es (unat f) b'"
  using assms(1,3,4)
proof (induction es arbitrary: b b')
  case (Cons e es)
  have "(if entry_frames e f then pmm_region_usable (me_type e) else b) \<longrightarrow>
      (if reaches e (unat f) then pmm_region_usable (me_type e) else b')"
  proof (cases "0 < unat (me_len e) \<and> unat (me_addr e) + unat (me_len e) \<le> 2 ^ 32")
    case True
    then show ?thesis using Cons.prems(3) entry_frames_low [of e f] by auto
  next
    case False
    then have "\<not> pmm_region_usable (me_type e)" "\<not> reaches e (unat f)"
      using Cons.prems(1) assms(2) by (auto simp: reaches_def entry_low_def split: if_splits)
    then show ?thesis using Cons.prems(3) by auto
  qed
  from Cons.IH [OF _ _ this] Cons.prems(1,2) show ?case by (auto simp only: code_frees.simps last_usable.simps list.set ball_simps)
qed simp

lemma upper_unat: "unat (0x00100000 + ucast kb * 1024 :: u64) = 0x100000 + unat (kb::u32) * 1024" "unat (ucast kb * 1024 :: u64) = unat kb * 1024"
proof -
  have "unat kb < 2 ^ 64" using u32_less_bound [of kb] by (rule less_trans) simp
  then have "unat (ucast kb :: u64) = unat kb" by (simp add: unsigned_ucast_eq take_bit_nat_eq_self)
  moreover have "unat kb * 1024 < 18446744073709551616" using u32_less_bound [of kb] by linarith
  ultimately show k: "unat (ucast kb * 1024 :: u64) = unat kb * 1024" by (simp add: unat_word_ariths)
  moreover have "0x100000 + unat kb * 1024 < 18446744073709551616" using u32_less_bound [of kb] by linarith
  ultimately show "unat (0x00100000 + ucast kb * 1024 :: u64) = 0x100000 + unat kb * 1024"
    by (subst unat_plus_u64) simp_all
qed

lemma upper_end:
  fixes kb :: u32
  shows "f < region_end_frame 0x00100000 (ucast kb * 1024) \<Longrightarrow> unat f * 4096 < 0x100000 + unat kb * 1024"
    and "0x100000 + unat kb * 1024 \<le> 4294967296 \<Longrightarrow>
      f < region_end_frame 0x00100000 (ucast kb * 1024) \<longleftrightarrow> unat f * 4096 < 0x100000 + unat kb * 1024"
proof -
  note e = upper_unat(1) [of kb] and k = upper_unat(2) [of kb]
  then have ne: "(0x00100000 + ucast kb * 1024 :: u64) \<noteq> 0" by auto
  then have m: "unat (0x00100000 + ucast kb * 1024 - 1 :: u64) = 0x100000 + unat kb * 1024 - 1"
    using unat_minus_one [OF ne] e by simp
  show "unat f * 4096 < 0x100000 + unat kb * 1024" if "f < region_end_frame 0x00100000 (ucast kb * 1024)"
  proof -
    let ?a = "ucast (0x00100000 + ucast kb * 1024 - 1 :: u64) :: u32"
    have "unat ?a \<le> 0x100000 + unat kb * 1024 - 1" unfolding unat_low32 m by (rule mod_less_eq_dividend)
    moreover have "unat f < Suc (unat (addr_to_frame ?a))"
      using that ne u32_less_bound [of ?a] by (simp add: region_end_frame_def Let_def word_less_nat_alt unat_plus_u32 unat_addr_to_frame)
    then have "unat f * 4096 \<le> unat ?a" by (simp add: unat_addr_to_frame less_Suc_eq_le less_eq_div_iff_mult_less_eq)
    ultimately show ?thesis by linarith
  qed
  show "f < region_end_frame 0x00100000 (ucast kb * 1024) \<longleftrightarrow> unat f * 4096 < 0x100000 + unat kb * 1024"
    if "0x100000 + unat kb * 1024 \<le> 4294967296"
  proof -
    have "unat (region_end_frame 0x00100000 (ucast kb * 1024)) = (0x100000 + unat kb * 1024 - 1) div 4096 + 1"
      using that k by (intro region_end_frame_low) simp_all
    then show ?thesis by (auto simp: word_less_nat_alt less_Suc_eq_le less_eq_div_iff_mult_less_eq)
  qed
qed

lemma code_ram_usable:
  assumes "usable_low mb" and "unat f < 1048576" and "code_ram mb f"
  shows "usable_frame mb (unat f)"
proof (cases "\<exists>e \<in> set (mmap_entries mb). pmm_region_usable (me_type e)")
  case True
  then show ?thesis
    using code_frees_usable [of "mmap_entries mb" f False False] assms True by (simp add: usable_low_def usable_frame_def code_ram_def)
next
  case False
  then show ?thesis using assms(3) upper_end(1) by (auto simp: usable_frame_def code_ram_def word_le_nat_alt)
qed

lemma fold_max: "fold (\<lambda>e. max (g e)) es (max a b) = max a (fold (\<lambda>e. max (g e)) es (b::nat))"
  by (induction es arbitrary: b) (simp_all add: max.left_commute)

lemma fold_max_ge: "b \<le> fold (\<lambda>e. max (g e)) es (b::nat)" "e \<in> set es \<Longrightarrow> g e \<le> fold (\<lambda>e. max (g e)) es b"
  by (induction es arbitrary: b) (auto simp: fold_max le_max_iff_disj)

lemma memory_end_bounds:
  "e \<in> set (mmap_entries mb) \<Longrightarrow> unat (me_addr e) + unat (me_len e) \<le> memory_end mb"
  "multiboot_get_mem_upper_kb mb \<noteq> 0 \<Longrightarrow> 0x100000 + unat (multiboot_get_mem_upper_kb mb) * 1024 \<le> memory_end mb"
  unfolding memory_end_def using fold_max_ge(2) [where g = "\<lambda>e. unat (me_addr e) + unat (me_len e)"]
    fold_max_ge(1) [where g = "\<lambda>e. unat (me_addr e) + unat (me_len e)"] by auto

lemma code_ram_exact:
  assumes "memory_end mb < 2 ^ 32" and "\<forall>e \<in> set (mmap_entries mb). 0 < unat (me_len e)"
  shows "code_ram mb f \<longleftrightarrow> usable_frame mb (unat f)"
proof -
  have "\<forall>e \<in> set (mmap_entries mb). 0 < unat (me_len e) \<and> unat (me_addr e) + unat (me_len e) \<le> 4294967296"
    using assms memory_end_bounds(1) by fastforce
  then have map: "code_frees (mmap_entries mb) f False = last_usable (mmap_entries mb) (unat f) False" by (rule code_frees_exact)
  show ?thesis
  proof (cases "multiboot_get_mem_upper_kb mb = 0")
    case False
    then have "0x100000 + unat (multiboot_get_mem_upper_kb mb) * 1024 \<le> 4294967296"
      using assms(1) memory_end_bounds(2) by fastforce
    then show ?thesis using map False upper_end(2) by (auto simp: code_ram_def usable_frame_def word_le_nat_alt)
  qed (use map in \<open>auto simp: code_ram_def usable_frame_def\<close>)
qed

lemma highest_fold:
  assumes "\<forall>e \<in> set es. unat (me_addr e) + unat (me_len e) < 18446744073709551616"
  shows "unat (fold (\<lambda>e. pmm_mark_highest (me_addr e + me_len e)) es h)
    = fold (\<lambda>e. max (unat (me_addr e) + unat (me_len e))) es (unat h)"
  using assms
proof (induction es arbitrary: h)
  case (Cons e es)
  have "unat (pmm_mark_highest (me_addr e + me_len e) h) = max (unat (me_addr e) + unat (me_len e)) (unat h)"
    using Cons.prems by (auto simp: pmm_mark_highest_def word_less_nat_alt unat_plus_u64)
  then show ?case using Cons by simp
qed simp

lemma highest_end:
  assumes "memory_end mb < 2 ^ 32"
  shows "unat (pmm_highest mb) = memory_end mb"
proof -
  let ?kb = "multiboot_get_mem_upper_kb mb" and ?f = "\<lambda>e. max (unat (me_addr e) + unat (me_len e))"
  have "\<forall>e \<in> set (mmap_entries mb). unat (me_addr e) + unat (me_len e) < 18446744073709551616"
    using assms memory_end_bounds(1) by fastforce
  note h = highest_fold [OF this, of 0]
  have k: "unat (0x00100000 + ucast ?kb * 1024 :: u64) = 0x100000 + unat ?kb * 1024"
    by (rule upper_unat(1))
  show ?thesis
  proof (cases "?kb = 0")
    case True
    then show ?thesis using h by (simp add: pmm_highest_def memory_end_def)
  next
    case False
    have "memory_end mb = max (0x100000 + unat ?kb * 1024) (fold ?f (mmap_entries mb) 0)"
      using False fold_max [where g = "\<lambda>e. unat (me_addr e) + unat (me_len e)" and b = 0] by (simp add: memory_end_def)
    then show ?thesis using False h k
      by (auto simp: pmm_highest_def pmm_mark_highest_def word_less_nat_alt max_def)
  qed
qed

lemma init_count_end:
  assumes "memory_end mb < 2 ^ 32"
  shows "unat (pmm_init_count mb) = min 32768 (memory_end mb div 4096 + 1)"
proof -
  have "unat (ucast (pmm_highest mb) :: u32) = memory_end mb" using assms highest_end [OF assms] by (simp add: unat_low32)
  moreover have "memory_end mb div 4096 < 1048576" using assms by (intro less_mult_imp_div_less) simp
  ultimately have "unat (addr_to_frame (ucast (pmm_highest mb)) + 1) = memory_end mb div 4096 + 1"
    by (simp add: unat_plus_u32 unat_addr_to_frame)
  then show ?thesis
    by (auto simp: pmm_init_count_def min_def word_le_nat_alt PMM_MAX_FRAMES_def)
qed

lemma pmm_init_used:
  assumes "multiboot_is_valid mb" and "image_fits img"
  shows "pmm_total_frames (pmm_init img mb p) = pmm_init_count mb"
    and "f < pmm_init_count mb \<Longrightarrow> pmm_is_used (pmm_init img mb p) f = (f \<in> kernel_frames img \<or> \<not> code_ram mb f)"
    and "pmm_inv (pmm_init img mb p)"
proof -
  note spec = pmm_init_spec [OF assms(1)]
  show "pmm_total_frames (pmm_init img mb p) = pmm_init_count mb" "pmm_inv (pmm_init img mb p)"
    using spec by (simp_all add: pmm_total_frames_def)
  assume f: "f < pmm_init_count mb"
  then have "pmm_is_used (pmm_init img mb p) f \<longleftrightarrow> f \<in> used_set (pmm_init img mb p)"
    by (simp add: used_set_def spec(1))
  also have "\<dots> \<longleftrightarrow> f \<in> kernel_frames img \<or> \<not> code_ram mb f"
    using f by (subst spec(2) [OF assms(2)]) simp
  finally show "pmm_is_used (pmm_init img mb p) f = (f \<in> kernel_frames img \<or> \<not> code_ram mb f)" .
qed

section \<open>Runs of the allocator\<close>

text \<open>
  A history of the allocator since state \<open>p0\<close>: allocations that succeed and releases of
  frames that are held, in any order; the set holds what has been handed out and not returned.
\<close>

inductive pmm_run :: "pmm \<Rightarrow> pmm \<Rightarrow> u32 set \<Rightarrow> bool" for p0 where
  pmm_run_start: "pmm_run p0 p0 {}"
| pmm_run_alloc: "pmm_run p0 p H \<Longrightarrow> pmm_alloc_frame p = (p', a) \<Longrightarrow> a \<noteq> 0 \<Longrightarrow> pmm_run p0 p' (insert a H)"
| pmm_run_free: "pmm_run p0 p H \<Longrightarrow> a \<in> H \<Longrightarrow> pmm_run p0 (pmm_free_frame a p) (H - {a})"

lemma pmm_run_inv:
  assumes "pmm_run p0 p H" and "pmm_inv p0"
  shows "pmm_inv p \<and> pmm_pool p = pmm_pool p0 \<and> H \<inter> pmm_avail p = {} \<and> H \<union> pmm_avail p = pmm_avail p0"
  using assms
proof (induction rule: pmm_run.induct)
  case pmm_run_start
  then show ?case by simp
next
  case (pmm_run_alloc p H p' a)
  then have ne: "pmm_avail p \<noteq> {}" using pmm.alloc_zero_iff [of p] by auto
  from pmm_run_alloc pmm.alloc_takes [OF _ ne, of p' a] show ?case by auto
next
  case (pmm_run_free p H a)
  then have "a \<in> pmm_avail p0" by auto
  then have "a \<in> pmm_pool p0" by (rule pmm_avail_in_pool)
  with pmm_run_free have "a \<in> pmm_pool p" by simp
  with pmm_run_free pmm.release_returns [of p a] show ?case by auto
qed

section \<open>Properties\<close>

text \<open>
  The example machine: the map of \<open>example_mmap\<close> (127 MiB from 1 MiB up) and a kernel image
  of 128 KiB with its tables, stack and bitmap inside.
\<close>

definition example_multiboot :: multiboot where
  "example_multiboot = \<lparr>mb_valid = True, mb_mem_upper_kb = 130048,
     mmap_storage = (\<lambda>_. \<lparr>me_addr = 0x100000, me_len = 0x7F00000, me_type = 1\<rparr>),
     mmap_entry_count = 1\<rparr>"

definition example_image :: kernel_image where
  "example_image = \<lparr>kernel_end = 0xC0120000, boot_page_directory = 0xC0110000,
     boot_page_table1 = 0xC0111000, stack_bottom = 0xC0112000, stack_top = 0xC0116000,
     bitmap_addr = 0xC0117000\<rparr>"

definition zero_pmm :: pmm where
  "zero_pmm = \<lparr>pmm_bitmap = (\<lambda>_. 0), pmm_frame_count = 0, pmm_used_count = 0\<rparr>"

definition example_pmm :: pmm where
  "example_pmm = pmm_init example_image example_multiboot zero_pmm"

lemma zero_pmm_inv: "pmm_inv zero_pmm"
  by (simp add: pmm_inv_def zero_pmm_def used_set_def PMM_MAX_FRAMES_def)

lemma example_entries: "mmap_entries example_multiboot = [\<lparr>me_addr = 0x100000, me_len = 0x7F00000, me_type = 1\<rparr>]"
  by (simp add: mmap_entries_def multiboot_mmap_entry_count_def multiboot_get_mmap_def example_multiboot_def)

lemma example_upper: "multiboot_get_mem_upper_kb example_multiboot = 130048"
  by (simp add: multiboot_get_mem_upper_kb_def example_multiboot_def)

lemma example_count: "pmm_init_count example_multiboot = 32768"
  by (simp add: pmm_init_count_def pmm_highest_def example_entries pmm_mark_highest_def Let_def
      example_upper addr_to_frame_def PMM_PAGE_SIZE_def PMM_MAX_FRAMES_def)

lemma example_valid: "multiboot_is_valid example_multiboot"
  by (simp add: multiboot_is_valid_def example_multiboot_def)

lemma example_fits: "image_fits example_image"
  by (simp add: image_fits_def example_image_def virt_to_phys_def KERNEL_VIRTUAL_BASE_def
      PMM_PAGE_SIZE_def PMM_MAX_FRAMES_def)

lemma example_kernel_frames:
  "f \<in> kernel_frames example_image \<longleftrightarrow> f = 0 \<or> (0x100 \<le> unat f \<and> unat f \<le> 0x120)"
  by (auto simp: kernel_frames_def region_frames_def example_image_def virt_to_phys_def
      KERNEL_VIRTUAL_BASE_def KERNEL_PHYSICAL_START_def PMM_PAGE_SIZE_def PMM_MAX_FRAMES_def)

lemma example_ram: "code_ram example_multiboot f \<longleftrightarrow> 0x100 \<le> f \<and> f < 0x8000"
  by (simp add: code_ram_def example_entries pmm_region_usable_def MULTIBOOT_MEMORY_AVAILABLE_def
      entry_frames_def region_start_frame_def region_end_frame_def addr_to_frame_def PMM_PAGE_SIZE_def)

lemma example_pmm_facts:
  "pmm_inv example_pmm" "pmm_frame_count example_pmm = 32768"
  "used_set example_pmm = {f. f < 32768 \<and> unat f \<le> 0x120}"
proof -
  show "pmm_inv example_pmm" "pmm_frame_count example_pmm = 32768"
    using pmm_init_spec [OF example_valid] example_count by (simp_all add: example_pmm_def)
  show "used_set example_pmm = {f. f < 32768 \<and> unat f \<le> 0x120}"
    using pmm_init_spec(2) [OF example_valid example_fits] example_count
    by (auto simp: example_pmm_def example_kernel_frames example_ram word_le_nat_alt
        word_less_nat_alt unat_eq_zero)
qed

lemma example_is_used:
  assumes "f < 32768"
  shows "pmm_is_used example_pmm f \<longleftrightarrow> unat f \<le> 0x120"
proof -
  have "f \<in> used_set example_pmm \<longleftrightarrow> pmm_is_used example_pmm f"
    using assms by (simp add: used_set_def example_pmm_facts(2))
  then show ?thesis using assms by (simp add: example_pmm_facts(3))
qed

lemma example_avail: "0x121000 \<in> pmm_avail example_pmm"
  by (simp add: pmm_avail_def pmm_pool_def page_aligned_def off_of_def addr_to_frame_def PMM_PAGE_SIZE_def
      example_pmm_facts(2) example_is_used)

text \<open>C17: the used counter is the number of set bits below the frame count, and every operation
  keeps it so: marking a frame, reserving a region, allocating, releasing (of any address), and
  the initialisation from any multiboot map.\<close>

theorem pmm_counter_exact:
  assumes "pmm_inv p"
  shows "pmm_inv (pmm_set_used f u p) \<and> pmm_inv (pmm_reserve_region a b p)
    \<and> pmm_inv (pmm_free_frames_range f g p)
    \<and> pmm_inv (fst (pmm_alloc_frame p)) \<and> pmm_inv (pmm_free_frame a p)
    \<and> pmm_inv (pmm_init img mb p)"
  using assms pmm.alloc_keeps(1) [OF assms] by (auto simp: pmm_free_frames_range_def)

theorem pmm_counter_exact_witness:
  "pmm_inv (fst (pmm_alloc_frame example_pmm))"
  using pmm_counter_exact [OF example_pmm_facts(1)] by simp

text \<open>An allocation returns the lowest managed frame whose bit is clear, as a page-aligned
  nonzero physical address inside the managed range, sets its bit and no other, and counts it; it
  returns 0 and changes nothing exactly when every managed frame from 1 up is used.\<close>

theorem pmm_alloc_lowest:
  assumes "pmm_inv p" and "pmm_alloc_frame p = (p', a)"
  shows "if \<forall>f. 1 \<le> f \<and> f < pmm_total_frames p \<longrightarrow> pmm_is_used p f
    then a = 0 \<and> p' = p
    else a \<noteq> 0 \<and> page_aligned a \<and> addr_to_frame a < pmm_total_frames p
      \<and> \<not> pmm_is_used p (addr_to_frame a)
      \<and> (\<forall>f. 1 \<le> f \<and> f < addr_to_frame a \<longrightarrow> pmm_is_used p f)
      \<and> used_set p' = insert (addr_to_frame a) (used_set p)
      \<and> pmm_used_frames p' = pmm_used_frames p + 1"
proof -
  have bound: "pmm_frame_count p \<le> PMM_MAX_FRAMES" using assms(1) by (simp add: pmm_inv_def)
  from pmm_alloc_scan_cases [OF bound, of 1] show ?thesis
  proof (elim disjE exE conjE)
    assume full: "pmm_alloc_scan 1 p = (p, 0)"
      and "\<forall>g. 1 \<le> g \<and> g < pmm_frame_count p \<longrightarrow> pmm_is_used p g"
    then show ?thesis using assms(2) by (simp add: pmm_alloc_frame_def pmm_total_frames_def)
  next
    fix g
    assume g: "1 \<le> g" "g < pmm_frame_count p" "\<not> pmm_is_used p g"
      and below: "\<forall>h. 1 \<le> h \<and> h < g \<longrightarrow> pmm_is_used p h"
      and r: "pmm_alloc_scan 1 p = (pmm_set_used g True p, g * 4096)"
    have "g < 32768" using g(2) bound unfolding PMM_MAX_FRAMES_def by (rule less_le_trans)
    note fa = frame_addr [OF this]
    have "g \<noteq> 0" using g(1) by auto
    then show ?thesis using assms(2) r g below fa
      by (auto simp: pmm_alloc_frame_def pmm_total_frames_def used_set_set_used pmm_used_frames_def
          pmm_set_used_used_count)
  qed
qed

theorem pmm_alloc_lowest_witness:
  "\<exists>p' a. pmm_alloc_frame example_pmm = (p', a) \<and> a \<noteq> 0 \<and> 0x120 < unat (addr_to_frame a)"
proof -
  obtain p' a where r: "pmm_alloc_frame example_pmm = (p', a)" by (cases "pmm_alloc_frame example_pmm")
  have "\<not> pmm_is_used example_pmm 0x121" by (simp add: example_is_used)
  moreover have "1 \<le> (0x121::u32) \<and> (0x121::u32) < pmm_total_frames example_pmm"
    by (simp add: pmm_total_frames_def example_pmm_facts(2))
  ultimately have ne: "\<not> (\<forall>f. 1 \<le> f \<and> f < pmm_total_frames example_pmm \<longrightarrow> pmm_is_used example_pmm f)"
    by blast
  have "a \<noteq> 0 \<and> addr_to_frame a < pmm_total_frames example_pmm
    \<and> \<not> pmm_is_used example_pmm (addr_to_frame a)"
    using pmm_alloc_lowest [OF example_pmm_facts(1) r] unfolding if_not_P [OF ne] by blast
  then have "a \<noteq> 0" "addr_to_frame a < 32768" "\<not> pmm_is_used example_pmm (addr_to_frame a)"
    by (simp_all add: pmm_total_frames_def example_pmm_facts(2))
  with r example_is_used [of "addr_to_frame a"] show ?thesis by simp
qed

text \<open>Releasing the frame just allocated restores the set of used frames and the counter.\<close>

theorem pmm_alloc_free_roundtrip:
  assumes "pmm_inv p" and "pmm_alloc_frame p = (p', a)" and "a \<noteq> 0"
  shows "used_set (pmm_free_frame a p') = used_set p
    \<and> pmm_used_frames (pmm_free_frame a p') = pmm_used_frames p
    \<and> pmm_total_frames (pmm_free_frame a p') = pmm_total_frames p"
  using assms(1)
proof (cases rule: pmm_alloc_frame_cases)
  case full
  with assms show ?thesis by simp
next
  case (frame b)
  then have b: "b = a" "p' = pmm_set_used (addr_to_frame a) True p" using assms(2) by auto
  with frame(1) have pool: "a \<in> pmm_pool p'" and f: "addr_to_frame a < pmm_frame_count p"
    "\<not> pmm_is_used p (addr_to_frame a)" by (auto simp: pmm_avail_def pmm_pool_def)
  then have "used_set (pmm_free_frame a p') = used_set p"
    using b by (auto simp: pmm_free_frame_pool used_set_set_used used_set_def)
  then show ?thesis using b f pool
    by (simp add: pmm_free_frame_pool pmm_used_frames_def pmm_total_frames_def pmm_set_used_used_count)
qed

theorem pmm_alloc_free_roundtrip_witness:
  "\<exists>p' a. pmm_alloc_frame example_pmm = (p', a)
    \<and> used_set (pmm_free_frame a p') = {f. f < 32768 \<and> unat f \<le> 0x120}"
proof -
  obtain p' a where r: "pmm_alloc_frame example_pmm = (p', a)" by (cases "pmm_alloc_frame example_pmm")
  with example_avail have "a \<noteq> 0" using pmm.alloc_zero_iff [OF example_pmm_facts(1)] by auto
  from pmm_alloc_free_roundtrip [OF example_pmm_facts(1) r this] r example_pmm_facts(3)
  show ?thesis by auto
qed

text \<open>C14: no sequence of allocations and releases of held frames ever hands out a frame that is
  still held: an allocation after any history returns a frame outside the held set, and the held
  and the available frames always partition the initially available ones.\<close>

theorem pmm_no_double_allocation:
  assumes "pmm_inv p0" and "pmm_run p0 p H" and "pmm_alloc_frame p = (p', a)" and "a \<noteq> 0"
  shows "a \<notin> H \<and> H \<inter> pmm_avail p = {} \<and> H \<union> pmm_avail p = pmm_avail p0"
proof -
  note inv = pmm_run_inv [OF assms(2,1)]
  with assms have "pmm_avail p \<noteq> {}" using pmm.alloc_zero_iff [of p] by auto
  with inv assms pmm.alloc_takes [of p p' a] show ?thesis by blast
qed

theorem pmm_no_double_allocation_witness:
  "\<exists>p a p' b. pmm_run example_pmm p {a} \<and> pmm_alloc_frame p = (p', b) \<and> (b = 0 \<or> b \<notin> {a})"
proof -
  obtain p a where r: "pmm_alloc_frame example_pmm = (p, a)" by (cases "pmm_alloc_frame example_pmm")
  with example_avail have "a \<noteq> 0" using pmm.alloc_zero_iff [OF example_pmm_facts(1)] by auto
  with r have run: "pmm_run example_pmm p {a}"
    using pmm_run_alloc [OF pmm_run_start r] by simp
  obtain p' b where "pmm_alloc_frame p = (p', b)" by (cases "pmm_alloc_frame p")
  with run pmm_no_double_allocation [OF example_pmm_facts(1) run] show ?thesis by blast
qed

lemma pmm_free_count:
  assumes "pmm_inv p"
  shows "unat (pmm_free_frames p) = card {f. f < pmm_frame_count p \<and> \<not> pmm_is_used p f}"
proof -
  have sub: "used_set p \<subseteq> {f. f < pmm_frame_count p}" by (auto simp: used_set_def)
  have "{f. f < pmm_frame_count p \<and> \<not> pmm_is_used p f} = {f. f < pmm_frame_count p} - used_set p"
    by (auto simp: used_set_def)
  then have "card {f. f < pmm_frame_count p \<and> \<not> pmm_is_used p f}
    = unat (pmm_frame_count p) - card (used_set p)"
    using card_Diff_subset [OF finite_used_set sub] by (simp add: card_below)
  then show ?thesis using assms used_set_bound [of p]
    by (simp add: pmm_free_frames_def pmm_inv_def word_less_nat_alt unat_minus_le word_le_nat_alt)
qed

text \<open>Allocation fails exactly when the reported number of free frames is 0, in any consistent
  state whose frame 0 is reserved (as the initialisation leaves it), and otherwise the number goes
  down by one.\<close>

theorem pmm_alloc_fails_iff_full:
  assumes "pmm_inv p" and "0 < pmm_total_frames p" and "pmm_is_used p 0"
  shows "snd (pmm_alloc_frame p) = 0 \<longleftrightarrow> pmm_free_frames p = 0"
proof -
  let ?F = "{f. f < pmm_frame_count p \<and> \<not> pmm_is_used p f}"
  have "finite {f::u32. f < pmm_frame_count p}" by simp
  then have fin: "finite ?F" by (rule rev_finite_subset) auto
  have bound: "pmm_frame_count p \<le> 32768" using assms(1) by (simp add: pmm_inv_def PMM_MAX_FRAMES_def)
  have "pmm_avail p = {} \<longleftrightarrow> ?F = {}"
  proof
    assume e: "pmm_avail p = {}"
    have "f \<notin> ?F" for f
    proof
      assume f: "f \<in> ?F"
      then have "f < 32768" using bound less_le_trans by blast
      note fa = frame_addr [OF this]
      have "f \<noteq> 0" using f assms(3) by auto
      with f fa have "f * 4096 \<in> pmm_avail p" by (simp add: pmm_avail_def pmm_pool_def)
      with e show False by simp
    qed
    then show "?F = {}" by blast
  qed (auto simp: pmm_avail_def pmm_pool_def)
  also have "\<dots> \<longleftrightarrow> pmm_free_frames p = 0"
    by (simp only: card_0_eq [OF fin, symmetric] pmm_free_count [OF assms(1), symmetric] unat_eq_zero)
  finally show ?thesis using pmm.alloc_zero_iff [OF assms(1)] by simp
qed

theorem pmm_alloc_fails_iff_full_witness:
  "pmm_free_frames example_pmm \<noteq> 0"
proof -
  have "pmm_is_used example_pmm 0" by (simp add: example_is_used)
  then have "snd (pmm_alloc_frame example_pmm) = 0 \<longleftrightarrow> pmm_free_frames example_pmm = 0"
    using pmm_alloc_fails_iff_full [OF example_pmm_facts(1)]
    by (simp add: pmm_total_frames_def example_pmm_facts(2))
  then show ?thesis using example_avail pmm.alloc_zero_iff [OF example_pmm_facts(1)] by auto
qed

text \<open>C16: on a map of non-empty ranges that ends below 4 GiB the allocator manages, after the initialisation, the frames up to
  and including the one at the end of the highest range, at most 32768, and a managed frame is free exactly when the last
  range that reaches into it is usable RAM (or, with no usable range at all, the memory above 1 MiB does) and it is none
  of the frames reserved for frame 0, the kernel image, the boot page tables, the stack and the bitmap.\<close>

theorem pmm_init_exact:
  assumes "multiboot_is_valid mb" and "image_fits img" and "memory_end mb < 2 ^ 32"
    and "\<forall>e \<in> set (mmap_entries mb). 0 < unat (me_len e)"
  shows "unat (pmm_total_frames (pmm_init img mb p)) = min 32768 (memory_end mb div 4096 + 1)
    \<and> (\<forall>f < pmm_total_frames (pmm_init img mb p). pmm_is_used (pmm_init img mb p) f
          = (f \<in> kernel_frames img \<or> \<not> usable_frame mb (unat f)))
    \<and> pmm_inv (pmm_init img mb p)"
proof -
  note spec = pmm_init_used [OF assms(1,2)]
  have "pmm_is_used (pmm_init img mb p) f = (f \<in> kernel_frames img \<or> \<not> usable_frame mb (unat f))"
    if "f < pmm_total_frames (pmm_init img mb p)" for f
    using that spec(1,2) code_ram_exact [OF assms(3,4)] by simp
  then show ?thesis using spec init_count_end [OF assms(3)] by simp
qed

theorem pmm_init_exact_witness:
  "\<not> pmm_is_used (pmm_init example_image example_multiboot zero_pmm) 0x200
   \<and> pmm_is_used (pmm_init example_image example_multiboot zero_pmm) 0x110"
proof -
  have m: "memory_end example_multiboot < 2 ^ 32" "\<forall>e \<in> set (mmap_entries example_multiboot). 0 < unat (me_len e)"
    "memory_end example_multiboot = 0x8000000"
    by (simp_all add: memory_end_def example_entries example_upper)
  from pmm_init_exact [OF example_valid example_fits m(1,2), of zero_pmm]
  have "unat (pmm_total_frames (pmm_init example_image example_multiboot zero_pmm)) = 32768"
    "\<forall>f < pmm_total_frames (pmm_init example_image example_multiboot zero_pmm).
       pmm_is_used (pmm_init example_image example_multiboot zero_pmm) f
         = (f \<in> kernel_frames example_image \<or> \<not> usable_frame example_multiboot (unat f))"
    by (simp_all add: m(3))
  then show ?thesis
    by (auto simp: word_less_nat_alt example_kernel_frames usable_frame_def example_entries reaches_def
        pmm_region_usable_def MULTIBOOT_MEMORY_AVAILABLE_def)
qed

lemma region_frames_byte:
  assumes "a \<le> x" and "x < b"
  shows "addr_to_frame x \<in> region_frames a b"
proof -
  have "unat a div 4096 \<le> unat x div 4096" "unat x div 4096 \<le> (unat b - 1) div 4096"
    using assms by (auto simp: word_le_nat_alt word_less_nat_alt intro!: div_le_mono)
  then show ?thesis using assms by (auto simp: region_frames_def unat_addr_to_frame)
qed

definition image_byte :: "kernel_image \<Rightarrow> u32 \<Rightarrow> bool" where
  "image_byte img x \<longleftrightarrow>
     (KERNEL_PHYSICAL_START \<le> x \<and> x < virt_to_phys (kernel_end img))
     \<or> (virt_to_phys (boot_page_directory img) \<le> x
        \<and> x < virt_to_phys (boot_page_table1 img) + PMM_PAGE_SIZE)
     \<or> (virt_to_phys (stack_bottom img) \<le> x \<and> x < virt_to_phys (stack_top img))
     \<or> (virt_to_phys (bitmap_addr img) \<le> x
        \<and> x < virt_to_phys (bitmap_addr img) + PMM_MAX_FRAMES div 8)"

lemma image_byte_frame: "image_byte img x \<Longrightarrow> addr_to_frame x \<in> kernel_frames img"
  by (auto simp: image_byte_def kernel_frames_def intro: region_frames_byte)



text \<open>Reserving the bytes from \<open>a\<close> to \<open>b\<close> marks every frame that holds one of them
  and one frame more, the one after the last; the comment of \<open>pmm_reserve_region\<close> promises
  the frames that intersect the range.\<close>

theorem pmm_reserve_region_extra_frame:
  assumes "a < b" and "unat b + 4095 < 4294967296"
  shows "used_set (pmm_reserve_region a b p) = used_set p
    \<union> {f. f < pmm_total_frames p \<and> ((\<exists>x. a \<le> x \<and> x < b \<and> addr_to_frame x = f)
          \<or> f = addr_to_frame (b - 1) + 1)}"
proof -
  have b: "unat (b - 1) = unat b - 1"
    using assms(1) by (subst unat_minus_le) (auto simp: word_le_nat_alt word_less_nat_alt)
  have next_frame: "unat (addr_to_frame (b - 1) + 1) = (unat b - 1) div 4096 + 1"
    using assms(2) by (simp add: unat_plus_u32 unat_addr_to_frame b)
  have "(\<exists>x. a \<le> x \<and> x < b \<and> addr_to_frame x = f)
    \<longleftrightarrow> unat a div 4096 \<le> unat f \<and> unat f \<le> (unat b - 1) div 4096" for f
  proof
    assume "\<exists>x. a \<le> x \<and> x < b \<and> addr_to_frame x = f"
    then show "unat a div 4096 \<le> unat f \<and> unat f \<le> (unat b - 1) div 4096"
      by (auto simp: word_le_nat_alt word_less_nat_alt unat_addr_to_frame intro!: div_le_mono)
  next
    assume f: "unat a div 4096 \<le> unat f \<and> unat f \<le> (unat b - 1) div 4096"
    let ?x = "max a (f * 4096)"
    have "unat f * 4096 \<le> unat b - 1" using f by (simp add: less_eq_div_iff_mult_less_eq)
    then have fx: "unat (f * 4096) = unat f * 4096" "unat f * 4096 < unat b"
      using assms by (auto simp: unat_mult_small word_less_nat_alt)
    then have x: "unat ?x = max (unat a) (unat f * 4096)" by (auto simp: max_def word_le_nat_alt)
    have "unat a div 4096 = unat f" if "unat f * 4096 < unat a"
      using that f by (intro antisym) (simp_all add: less_eq_div_iff_mult_less_eq)
    then have "unat (addr_to_frame ?x) = unat f"
      unfolding unat_addr_to_frame x by (simp add: max_def)
    then show "\<exists>x. a \<le> x \<and> x < b \<and> addr_to_frame x = f"
      using fx x assms(1) by (intro exI [of _ ?x]) (auto simp: word_less_nat_alt u32_eqI)
  qed
  moreover have "f = addr_to_frame (b - 1) + 1 \<longleftrightarrow> unat f = (unat b - 1) div 4096 + 1" for f
    using next_frame by (metis u32_eqI)
  moreover have "unat a div 4096 \<le> (unat b - 1) div 4096"
    using assms(1) by (intro div_le_mono) (simp add: word_less_nat_alt)
  ultimately have "(unat a div 4096 \<le> unat f \<and> unat f \<le> (unat b - 1) div 4096 + 1) \<longleftrightarrow>
      ((\<exists>x. a \<le> x \<and> x < b \<and> addr_to_frame x = f) \<or> f = addr_to_frame (b - 1) + 1)" for f
    by (simp only:) linarith
  then show ?thesis unfolding used_set_reserve_region [OF assms] pmm_total_frames_def by blast
qed

theorem pmm_reserve_region_extra_frame_witness:
  "0x122 \<in> used_set (pmm_reserve_region 0x121000 0x122000 example_pmm)"
  using pmm_reserve_region_extra_frame [of "0x121000" "0x122000" example_pmm]
  by (simp add: pmm_total_frames_def example_pmm_facts(2) addr_to_frame_def PMM_PAGE_SIZE_def)

text \<open>The frame numbers of a range at or above 4 GiB are those of its address modulo 4 GiB: when the last entry of the map is
  usable memory there, as on a PC with more than 3 GiB, the frames below are freed, whatever the map says about them.\<close>

theorem pmm_init_high_memory_aliases:
  assumes "multiboot_is_valid mb" and "image_fits img" and "mmap_entries mb = es @ [e]" and "pmm_region_usable (me_type e)"
    and "me_addr e = 0x100000000" and "unat (me_len e) = n" and "0 < n" and "n \<le> 4294967296"
    and "f < pmm_init_count mb" and "unat f * 4096 < n" and "f \<notin> kernel_frames img"
  shows "\<not> pmm_is_used (pmm_init img mb p) f"
proof -
  have a: "unat (me_addr e + me_len e) = 4294967296 + n" using assms(5,6,8) by (subst unat_plus_u64) simp_all
  then have ne: "me_addr e + me_len e \<noteq> 0" by auto
  have m: "unat (me_addr e + me_len e - 1) = 4294967296 + (n - 1)" using unat_minus_one [OF ne] a assms(7) by simp
  let ?a = "ucast (me_addr e + me_len e - 1) :: u32"
  have "unat ?a = n - 1" unfolding unat_low32 m mod_add_self1 using assms(7,8) by simp
  moreover have "(n - 1) div 4096 < 1048576" using assms(7,8) by (intro less_mult_imp_div_less) simp
  ultimately have "unat (region_end_frame (me_addr e) (me_len e)) = (n - 1) div 4096 + 1"
    using ne by (simp add: region_end_frame_def Let_def unat_plus_u32 unat_addr_to_frame)
  moreover have "unat (region_start_frame (me_addr e)) = 0"
    using assms(5) by (simp add: region_start_frame_def unat_addr_to_frame unat_low32)
  ultimately have "entry_frames e f"
    using assms(7,10) by (simp add: entry_frames_def word_le_nat_alt word_less_nat_alt less_Suc_eq_le less_eq_div_iff_mult_less_eq)
  then have "code_frees (es @ [e]) f b" for b by (induction es arbitrary: b) (simp_all add: assms(4))
  then show ?thesis
    using pmm_init_used(2) [OF assms(1,2,9)] assms(3,4,11) by (simp add: code_ram_def)
qed

text \<open>The video memory is reported reserved; with 1 GiB of memory above 4 GiB its first frame is free after all.\<close>

definition high_multiboot :: multiboot where
  "high_multiboot = \<lparr>mb_valid = True, mb_mem_upper_kb = 130048,
     mmap_storage = (\<lambda>i. if i = 0 then \<lparr>me_addr = 0x100000, me_len = 0x7EE0000, me_type = 1\<rparr>
       else if i = 1 then \<lparr>me_addr = 0xA0000, me_len = 0x60000, me_type = 2\<rparr>
       else \<lparr>me_addr = 0x100000000, me_len = 0x40000000, me_type = 1\<rparr>),
     mmap_entry_count = 3\<rparr>"

theorem pmm_init_high_memory_aliases_witness:
  "\<not> pmm_is_used (pmm_init example_image high_multiboot zero_pmm) 0xB8 \<and> \<not> usable_frame high_multiboot 0xB8"
proof -
  have e: "mmap_entries high_multiboot = [\<lparr>me_addr = 0x100000, me_len = 0x7EE0000, me_type = 1\<rparr>,
      \<lparr>me_addr = 0xA0000, me_len = 0x60000, me_type = 2\<rparr>] @ [\<lparr>me_addr = 0x100000000, me_len = 0x40000000, me_type = 1\<rparr>]"
    by (simp add: mmap_entries_def multiboot_mmap_entry_count_def multiboot_get_mmap_def high_multiboot_def upt_conv_Cons)
  have "multiboot_get_mem_upper_kb high_multiboot = 130048"
    by (simp add: multiboot_get_mem_upper_kb_def high_multiboot_def)
  then have c: "pmm_init_count high_multiboot = 32768"
    by (simp add: pmm_init_count_def pmm_highest_def e pmm_mark_highest_def addr_to_frame_def PMM_PAGE_SIZE_def PMM_MAX_FRAMES_def)
  have "multiboot_is_valid high_multiboot" by (simp add: multiboot_is_valid_def high_multiboot_def)
  from pmm_init_high_memory_aliases [OF this example_fits e, of "0x40000000" "0xB8" zero_pmm]
  have "\<not> pmm_is_used (pmm_init example_image high_multiboot zero_pmm) 0xB8"
    by (simp add: c example_kernel_frames pmm_region_usable_def MULTIBOOT_MEMORY_AVAILABLE_def)
  moreover have "\<not> usable_frame high_multiboot 0xB8"
    by (simp add: usable_frame_def e reaches_def pmm_region_usable_def MULTIBOOT_MEMORY_AVAILABLE_def MULTIBOOT_MEMORY_ACPI_RECLAIMABLE_def)
  ultimately show ?thesis by blast
qed

text \<open>When the highest region ends exactly at 4 GiB, as it does on a PC whose map lists the
  firmware region below 4 GiB, the end truncated to 32 bits is 0: the allocator then manages frame 0
  only and every allocation fails, however much RAM the map reports.\<close>

theorem pmm_init_4gib_wrap:
  assumes "multiboot_is_valid mb" and "image_fits img" and "pmm_highest mb = 0x100000000"
  shows "pmm_total_frames (pmm_init img mb p) = 1
    \<and> pmm_alloc_frame (pmm_init img mb p) = (pmm_init img mb p, 0)"
proof -
  have one: "pmm_init_count mb = 1"
    by (simp add: pmm_init_count_def assms(3) addr_to_frame_def PMM_PAGE_SIZE_def PMM_MAX_FRAMES_def)
  then have count: "pmm_frame_count (pmm_init img mb p) = 1"
    using pmm_init_spec(1) [OF assms(1)] by simp
  have "pmm_avail (pmm_init img mb p) = {}"
    using addr_to_frame_eq_0 by (auto simp: pmm_avail_def pmm_pool_def count word_less_nat_alt unat_eq_zero)
  with pmm.alloc_empty pmm_init_spec(3) [OF assms(1)] count show ?thesis
    by (simp add: pmm_total_frames_def)
qed

definition pc_multiboot :: multiboot where
  "pc_multiboot = \<lparr>mb_valid = True, mb_mem_upper_kb = 130048,
     mmap_storage = (\<lambda>i. if i = 0 then \<lparr>me_addr = 0x100000, me_len = 0x7EE0000, me_type = 1\<rparr>
       else \<lparr>me_addr = 0xFFFC0000, me_len = 0x40000, me_type = 2\<rparr>),
     mmap_entry_count = 2\<rparr>"

theorem pmm_init_4gib_wrap_witness:
  "snd (pmm_alloc_frame (pmm_init example_image pc_multiboot zero_pmm)) = 0"
proof -
  have "mmap_entries pc_multiboot = [\<lparr>me_addr = 0x100000, me_len = 0x7EE0000, me_type = 1\<rparr>,
      \<lparr>me_addr = 0xFFFC0000, me_len = 0x40000, me_type = 2\<rparr>]"
    by (simp add: mmap_entries_def multiboot_mmap_entry_count_def multiboot_get_mmap_def
        pc_multiboot_def upt_conv_Cons)
  moreover have "multiboot_get_mem_upper_kb pc_multiboot = 130048"
    by (simp add: multiboot_get_mem_upper_kb_def pc_multiboot_def)
  ultimately have "pmm_highest pc_multiboot = 0x100000000"
    by (simp add: pmm_highest_def pmm_mark_highest_def)
  moreover have "multiboot_is_valid pc_multiboot"
    by (simp add: multiboot_is_valid_def pc_multiboot_def)
  ultimately show ?thesis using pmm_init_4gib_wrap [OF _ example_fits, of pc_multiboot zero_pmm]
    by simp
qed

end
