(* ===== verification/Mmu.thy ===== *)
theory Mmu
  imports Pmm
begin

text \<open>
  The memory the kernel's pointers reach: physical bytes, the page directory base register and the
  i386 two-level address translation (4 KiB pages, write protection in ring 0 as \<open>boot.S\<close> switches
  it on with CR0.WP). Every pointer access of the paging and heap code goes through it; an access
  that faults is \<open>None\<close>. The accessed and dirty bits the processor sets in table entries are left out.
  Every access walks the tables here; \<open>Tlb\<close> shows that the code flushes what a translation cache needs.
\<close>

section \<open>State and translation\<close>

record vm =
  vm_mem :: memory
  vm_cr3 :: u32
  vm_pmm :: pmm

definition present :: "u32 \<Rightarrow> bool" where
  "present e \<longleftrightarrow> e AND 0x001 \<noteq> 0"

definition writable :: "u32 \<Rightarrow> bool" where
  "writable e \<longleftrightarrow> e AND 0x002 \<noteq> 0"

definition pde_index :: "u32 \<Rightarrow> u32" where
  "pde_index va = drop_bit 22 va"

definition pte_index :: "u32 \<Rightarrow> u32" where
  "pte_index va = drop_bit 12 va AND 0x3FF"

text \<open>Entry \<open>i\<close> of the table in frame \<open>f\<close>.\<close>

definition entry :: "memory \<Rightarrow> u32 \<Rightarrow> u32 \<Rightarrow> u32" where
  "entry m f i = load32 m (f + i * 4)"

text \<open>The frame that holds the page of \<open>va\<close>, for a read or a write.\<close>

definition walk :: "vm \<Rightarrow> bool \<Rightarrow> u32 \<Rightarrow> u32 option" where
  "walk s write va =
     (let pde = entry (vm_mem s) (page_of (vm_cr3 s)) (pde_index va) in
      if \<not> present pde \<or> (write \<and> \<not> writable pde) then None
      else
        let pte = entry (vm_mem s) (page_of pde) (pte_index va) in
        if \<not> present pte \<or> (write \<and> \<not> writable pte) then None else Some (page_of pte))"

definition translate :: "vm \<Rightarrow> bool \<Rightarrow> u32 \<Rightarrow> u32 option" where
  "translate s write va = map_option (\<lambda>f. f + off_of va) (walk s write va)"

section \<open>Accesses\<close>

definition vread8 :: "vm \<Rightarrow> u32 \<Rightarrow> u8 option" where
  "vread8 s va = map_option (vm_mem s) (translate s False va)"

definition vread32 :: "vm \<Rightarrow> u32 \<Rightarrow> u32 option" where
  "vread32 s va = read32 (vread8 s) va"

definition vwrite8 :: "vm \<Rightarrow> u32 \<Rightarrow> u8 \<Rightarrow> vm option" where
  "vwrite8 s va b = map_option (\<lambda>pa. s\<lparr>vm_mem := (vm_mem s)(pa := b)\<rparr>) (translate s True va)"

text \<open>A 32-bit store translates all its bytes before it writes the first.\<close>

definition vwrite32 :: "vm \<Rightarrow> u32 \<Rightarrow> u32 \<Rightarrow> vm option" where
  "vwrite32 s va v = do {
     p0 \<leftarrow> translate s True va;
     p1 \<leftarrow> translate s True (va + 1);
     p2 \<leftarrow> translate s True (va + 2);
     p3 \<leftarrow> translate s True (va + 3);
     Some (s\<lparr>vm_mem := (vm_mem s)(p0 := ucast v, p1 := ucast (drop_bit 8 v),
       p2 := ucast (drop_bit 16 v), p3 := ucast (drop_bit 24 v))\<rparr>) }"

text \<open>The loop of \<open>memset\<close> on virtual memory: the first \<open>n\<close> bytes from \<open>buf\<close>.\<close>

fun vmemset :: "vm \<Rightarrow> u32 \<Rightarrow> u8 \<Rightarrow> nat \<Rightarrow> vm option" where
  "vmemset s buf c 0 = Some s"
| "vmemset s buf c (Suc n) = do { s \<leftarrow> vmemset s buf c n; vwrite8 s (buf + of_nat n) c }"

section \<open>Indices and entries\<close>

lemma unat_pde_index [unats]: "unat (pde_index va) = unat va div 4194304"
  by (simp only: pde_index_def unat_shr22)

lemma unat_pte_index [unats]: "unat (pte_index va) = unat va div 4096 mod 1024"
  by (simp only: pte_index_def unat_and_3FF unat_shr12)

lemma pde_index_less [simp]: "unat (pde_index va) < 1024"
  unfolding unat_pde_index by (rule less_mult_imp_div_less, simp)

lemma pte_index_less [simp]: "unat (pte_index va) < 1024"
  by (simp add: unat_pte_index)

lemma page_of_eq_iff: "page_of x = page_of y \<longleftrightarrow> unat x div 4096 = unat y div 4096"
proof
  assume "page_of x = page_of y"
  then have "unat x div 4096 * 4096 = unat y div 4096 * 4096" by (metis unat_page_of)
  then show "unat x div 4096 = unat y div 4096" by simp
qed (metis u32_eqI unat_page_of)

lemma indices_eq:
  assumes "page_of x = page_of y"
  shows "pde_index x = pde_index y" and "pte_index x = pte_index y"
proof -
  have eq: "unat x div 4096 = unat y div 4096" using assms by (simp only: page_of_eq_iff)
  have "unat x div 4096 div 1024 = unat y div 4096 div 1024" using eq by simp
  then have "unat x div 4194304 = unat y div 4194304" by (simp add: div_mult2_eq [symmetric])
  then show "pde_index x = pde_index y" by (intro u32_eqI) (simp only: unat_pde_index)
  show "pte_index x = pte_index y"
    by (rule u32_eqI) (simp only: unat_pte_index eq)
qed

lemma page_of_eq_indices:
  assumes "pde_index x = pde_index y" and "pte_index x = pte_index y"
  shows "page_of x = page_of y"
proof -
  have "unat x div 4194304 = unat y div 4194304" by (metis assms(1) unat_pde_index)
  then have "unat x div 4096 div 1024 = unat y div 4096 div 1024"
    by (simp add: div_mult2_eq [symmetric])
  moreover have "unat x div 4096 mod 1024 = unat y div 4096 mod 1024"
    by (metis assms(2) unat_pte_index)
  ultimately have "unat x div 4096 = unat y div 4096" by (metis div_mult_mod_eq)
  then show ?thesis by (simp only: page_of_eq_iff)
qed

lemma unat_index_times_4: "unat (i::u32) < 1024 \<Longrightarrow> unat (i * 4) = unat i * 4"
  by (subst unat_mult_small) simp_all

lemma entry_addr:
  assumes "page_aligned f" and "unat i < 1024"
  shows "page_of (f + i * 4) = f" and "word_aligned (f + i * 4)"
    and "off_of (f + i * 4) = i * 4" and "unat (f + i * 4) = unat f + unat i * 4"
proof -
  have i: "unat (i * 4) < 4096" "unat (i * 4) = unat i * 4"
    using assms(2) by (simp_all add: unat_index_times_4)
  show "page_of (f + i * 4) = f" "off_of (f + i * 4) = i * 4"
    using assms(1) i(1) by (simp_all only: pages)
  show u: "unat (f + i * 4) = unat f + unat i * 4"
    using unat_base_plus [OF assms(1) i(1)] i(2) by simp
  from assms(1) obtain k where "unat f = 4096 * k" by (rule page_alignedE)
  then have "unat (f + i * 4) = 4 * (1024 * k + unat i)" using u by simp
  then show "word_aligned (f + i * 4)" by (simp add: word_aligned_def)
qed

lemma entry_addr_inj:
  assumes "page_aligned f" and "page_aligned g" and "unat i < 1024" and "unat j < 1024"
  shows "f + i * 4 = g + j * 4 \<longleftrightarrow> f = g \<and> i = j"
proof
  assume e: "f + i * 4 = g + j * 4"
  then have "f = g" by (metis assms entry_addr(1))
  moreover from e have "unat i * 4 = unat j * 4"
    by (metis assms entry_addr(3) unat_index_times_4)
  ultimately show "f = g \<and> i = j" by (simp add: u32_eqI)
qed simp

lemma entry_store [simp]:
  assumes "page_aligned f" and "page_aligned g" and "unat i < 1024" and "unat j < 1024"
  shows "entry (store32 m (f + i * 4) v) g j = (if f = g \<and> i = j then v else entry m g j)"
  using assms entry_addr(2) [OF assms(1,3)] entry_addr(2) [OF assms(2,4)]
    entry_addr_inj [OF assms(2,1,4,3)]
  by (auto simp: entry_def)

section \<open>Aligned accesses stay in one page\<close>

lemma walk_aligned: "walk s w va = Some f \<Longrightarrow> page_aligned f"
  by (auto simp: walk_def Let_def split: if_splits)

lemma walk_page: "page_of x = page_of y \<Longrightarrow> walk s w x = walk s w y"
  using indices_eq [of x y] by (simp add: walk_def Let_def)

lemma walk_entry [simp]: "page_aligned b \<Longrightarrow> unat i < 1024 \<Longrightarrow> walk s w (b + i * 4) = walk s w b"
  by (rule walk_page) (simp add: entry_addr)

lemma aligned_plus:
  assumes "word_aligned va" and "unat i < 4"
  shows "page_of (va + i) = page_of va" and "off_of (va + i) = off_of va + i"
proof -
  from assms(1) obtain k where k: "unat va = 4 * k"
    by (auto simp: word_aligned_def mod_eq_0_iff_dvd elim!: dvdE)
  have v: "unat (va + i) = unat va + unat i" using assms by (rule word_aligned_off)
  have "n div 4096 = n div 4 div 1024" for n :: nat using div_mult2_eq [of n 4 1024] by simp
  then have d: "(4 * k + unat i) div 4096 = 4 * k div 4096" using assms(2) by simp
  then show p: "page_of (va + i) = page_of va" by (simp only: page_of_eq_iff v k)
  have "page_of va + off_of (va + i) = page_of va + (off_of va + i)"
    using page_split [of "va + i"] page_split [of va] p by (metis add.assoc)
  then show "off_of (va + i) = off_of va + i" by simp
qed

lemma translate_plus:
  assumes "word_aligned va" and "unat i < 4"
  shows "translate s w (va + i) = map_option (\<lambda>p. p + i) (translate s w va)"
  using assms aligned_plus [OF assms] walk_page [of "va + i" va s w]
  by (simp add: translate_def option.map_comp comp_def add.assoc)

lemma vread32_walk:
  assumes "word_aligned va"
  shows "vread32 s va = map_option (\<lambda>f. load32 (vm_mem s) (f + off_of va)) (walk s False va)"
proof (cases "walk s False va")
  case None
  then show ?thesis by (simp add: vread32_def read32_None vread8_def translate_def)
next
  case (Some f)
  have "vread8 s (va + i) = Some (vm_mem s (f + off_of va + i))" if "unat i < 4" for i
    unfolding vread8_def translate_plus [OF assms that, of s False] using Some by (simp add: translate_def)
  then show ?thesis using Some by (simp add: vread32_def read32_SomeI)
qed

lemma vwrite32_walk:
  assumes "word_aligned va"
  shows "vwrite32 s va v =
    map_option (\<lambda>f. s\<lparr>vm_mem := store32 (vm_mem s) (f + off_of va) v\<rparr>) (walk s True va)"
proof (cases "walk s True va")
  case None
  then show ?thesis by (simp add: vwrite32_def translate_def)
next
  case (Some f)
  have "translate s True (va + i) = Some (f + off_of va + i)" if "unat i < 4" for i
    unfolding translate_plus [OF assms that, of s True] using Some by (simp add: translate_def)
  from this [of 0] this [of 1] this [of 2] this [of 3] show ?thesis using Some
    by (simp add: vwrite32_def store32_def)
qed

lemma vread_entry:
  "page_aligned b \<Longrightarrow> unat i < 1024 \<Longrightarrow>
   vread32 s (b + i * 4) = map_option (\<lambda>f. entry (vm_mem s) f i) (walk s False b)"
  by (simp add: vread32_walk entry_addr entry_def)

lemma vwrite_entry:
  "page_aligned b \<Longrightarrow> unat i < 1024 \<Longrightarrow>
   vwrite32 s (b + i * 4) v =
     map_option (\<lambda>f. s\<lparr>vm_mem := store32 (vm_mem s) (f + i * 4) v\<rparr>) (walk s True b)"
  by (simp add: vwrite32_walk entry_addr)

section \<open>Writes outside the tables\<close>

text \<open>Two memories agree on the frame \<open>f\<close>.\<close>

definition same_frame :: "u32 \<Rightarrow> memory \<Rightarrow> memory \<Rightarrow> bool" where
  "same_frame f m m' \<longleftrightarrow> (\<forall>a. page_of a = f \<longrightarrow> m' a = m a)"

lemma load32_same_frame:
  assumes "same_frame f m m'" and "word_aligned a" and "page_of a = f"
  shows "load32 m' a = load32 m a"
proof (rule load32_cong)
  fix i :: u32
  assume "unat i < 4"
  with assms show "m' (a + i) = m (a + i)" by (simp add: same_frame_def aligned_plus)
qed

lemma entry_same_frame:
  "same_frame f m m' \<Longrightarrow> page_aligned f \<Longrightarrow> unat i < 1024 \<Longrightarrow> entry m' f i = entry m f i"
  unfolding entry_def by (rule load32_same_frame [of f]) (simp_all add: entry_addr)

lemma same_frame_store32:
  assumes "word_aligned a" and "page_of a \<noteq> f"
  shows "same_frame f m (store32 m a v)"
  unfolding same_frame_def
proof (intro allI impI)
  fix b
  assume "page_of b = f"
  with assms have "b \<noteq> a + j" if "unat j < 4" for j using aligned_plus(1) [OF assms(1) that] by auto
  then show "store32 m a v b = m b" by (rule store32_other)
qed

lemma same_frame_trans: "same_frame f m m' \<Longrightarrow> same_frame f m' m'' \<Longrightarrow> same_frame f m m''"
  by (simp add: same_frame_def)

lemma same_frame_refl [simp]: "same_frame f m m"
  by (simp add: same_frame_def)

text \<open>The directory entry a virtual address goes through.\<close>

definition dir :: "vm \<Rightarrow> u32 \<Rightarrow> u32" where
  "dir s i = entry (vm_mem s) (page_of (vm_cr3 s)) i"

lemma walk_same:
  assumes "same_frame (page_of (vm_cr3 s)) (vm_mem s) m"
    and "same_frame (page_of (dir s (pde_index va))) (vm_mem s) m"
  shows "walk (s\<lparr>vm_mem := m\<rparr>) w va = walk s w va"
  using entry_same_frame [OF assms(1), of "pde_index va"] entry_same_frame [OF assms(2), of "pte_index va"]
  by (simp add: walk_def dir_def Let_def)

lemma dir_pmm [simp]: "dir (s\<lparr>vm_pmm := p\<rparr>) i = dir s i"
  by (simp add: dir_def)

lemma walk_pmm [simp]: "walk (s\<lparr>vm_pmm := p\<rparr>) w va = walk s w va"
  by (simp add: walk_def Let_def)

section \<open>Filling a page\<close>

text \<open>
  Filling the page at \<open>buf\<close> through its mapping changes the frame behind it and nothing else,
  provided that frame holds none of the tables the translation of \<open>buf\<close> reads.
\<close>

lemma vmemset_page:
  assumes "page_aligned buf" and "walk s True buf = Some f" and "n \<le> 4096"
    and "f \<noteq> page_of (vm_cr3 s)" and "f \<noteq> page_of (dir s (pde_index buf))"
  shows "vmemset s buf c n
    = Some (s\<lparr>vm_mem := (\<lambda>a. if page_of a = f \<and> unat (off_of a) < n then c else vm_mem s a)\<rparr>)"
  using assms(3)
proof (induction n)
  case 0
  then show ?case by simp
next
  case (Suc n)
  let ?m = "\<lambda>a. if page_of a = f \<and> unat (off_of a) < n then c else vm_mem s a"
  have f: "page_aligned f" using assms(2) by (rule walk_aligned)
  have n: "unat (of_nat n :: u32) = n" using Suc.prems by (simp add: unat_of_nat)
  have same: "walk (s\<lparr>vm_mem := ?m\<rparr>) True buf = walk s True buf"
    by (rule walk_same) (use assms(4,5) in \<open>auto simp: same_frame_def\<close>)
  have addr: "page_of (buf + of_nat n) = page_of buf" "off_of (buf + of_nat n) = of_nat n"
    "page_of (f + of_nat n) = f" "off_of (f + of_nat n) = of_nat n"
    using assms(1) f n Suc.prems by (simp_all only: pages page_of_aligned)
  have hit: "translate (s\<lparr>vm_mem := ?m\<rparr>) True (buf + of_nat n) = Some (f + of_nat n)"
    using walk_page [OF addr(1)] same assms(2) addr(2) by (simp add: translate_def)
  have "(a = f + of_nat n) = (page_of a = f \<and> unat (off_of a) = n)" for a
    using addr(3,4) n by (metis addr_eqI u32_eqI)
  then have "?m(f + of_nat n := c)
    = (\<lambda>a. if page_of a = f \<and> unat (off_of a) < Suc n then c else vm_mem s a)"
    by (auto simp: fun_eq_iff less_Suc_eq)
  with Suc hit show ?case by (simp add: vwrite8_def)
qed

end
