(* ===== verification/Boot.thy ===== *)
theory Boot
  imports Mmu
begin

text \<open>
  The page tables \<open>boot.S\<close> builds before it switches paging on, as stores into physical memory:
  one table that maps the first 1023 frames and, last, the VGA text frame, entered in the
  directory at 0 and at 768. The lemmas give every entry and the address translation that results,
  which is the \<open>boot_translate\<close> the Multiboot parser runs under.
\<close>

section \<open>The stores of \<open>boot.S\<close>\<close>

text \<open>The loop at label 1: the first \<open>n\<close> entries of the table at physical address \<open>pt\<close>.\<close>

primrec boot_fill :: "memory \<Rightarrow> u32 \<Rightarrow> nat \<Rightarrow> memory" where
  "boot_fill m pt 0 = m"
| "boot_fill m pt (Suc n) = store32 (boot_fill m pt n) (pt + of_nat n * 4) ((of_nat n * 4096) OR 0x003)"

definition boot_paging :: "u32 \<Rightarrow> u32 \<Rightarrow> memory \<Rightarrow> memory" where
  "boot_paging pd pt m =
     (let pt_phys = virt_to_phys pt; pd_phys = virt_to_phys pd;
          m = boot_fill m pt_phys 1023;
          m = store32 m (pt_phys + 1023 * 4) (0x000B8000 OR 0x003);
          m = store32 m (pd_phys + 0 * 4) (pt_phys + 0x003)
      in store32 m (pd_phys + 768 * 4) (pt_phys + 0x003))"

text \<open>At label 4: \<open>movl $0, boot_page_directory + 0\<close> removes the identity map.\<close>

definition boot_drop_identity :: "u32 \<Rightarrow> vm \<Rightarrow> vm option" where
  "boot_drop_identity pd s = vwrite32 s (pd + 0 * 4) 0"

section \<open>The entries\<close>

text \<open>
  The linker places the tables on page boundaries (\<open>.align 4096\<close> in \<open>.bss\<close>), in different
  pages, inside the megabytes the table maps; the boot loader clears \<open>.bss\<close>.
\<close>

definition boot_placed :: "u32 \<Rightarrow> u32 \<Rightarrow> bool" where
  "boot_placed pd pt \<longleftrightarrow> page_aligned pd \<and> page_aligned pt \<and> pd \<noteq> pt
     \<and> 0xC0000000 \<le> pd \<and> pd < 0xC03FF000 \<and> 0xC0000000 \<le> pt \<and> pt < 0xC03FF000"

definition cleared :: "memory \<Rightarrow> u32 \<Rightarrow> bool" where
  "cleared m f \<longleftrightarrow> (\<forall>i. unat i < 1024 \<longrightarrow> entry m f i = 0)"

lemma boot_placed_phys:
  assumes "page_aligned v" and "0xC0000000 \<le> v" and "v < 0xC03FF000"
  shows "unat (virt_to_phys v) = unat v - 0xC0000000" and "page_aligned (virt_to_phys v)"
    and "unat (virt_to_phys v) < 0x3FF000" and "pde_index v = 768"
    and "pte_index v * 4096 = virt_to_phys v" and "unat (pte_index v) < 1023"
proof -
  have le: "3221225472 \<le> unat v" "unat v < 3225415680" using assms(2,3) by (simp_all add: word_le_nat_alt word_less_nat_alt)
  show p: "unat (virt_to_phys v) = unat v - 0xC0000000"
    using unat_minus_le [OF assms(2)] by (simp add: virt_to_phys_def KERNEL_VIRTUAL_BASE_def)
  show "unat (virt_to_phys v) < 0x3FF000" using le p by simp
  obtain k where k: "unat v = 4096 * k" using assms(1) by (rule page_alignedE)
  then have kb: "786432 \<le> k" "k < 787455" using le by simp_all
  have p': "unat (virt_to_phys v) = 4096 * (k - 786432)" using p k by simp
  then show "page_aligned (virt_to_phys v)" by (simp add: page_aligned_unat)
  have d: "unat v div 4096 = k" using k by simp
  have "unat v div 4194304 = k div 1024" using d div_mult2_eq [of "unat v" 4096 1024] by simp
  also have "\<dots> = 768" using kb by simp
  finally show "pde_index v = 768" by (intro u32_eqI) (simp add: unat_pde_index)
  have "k = (k - 786432) + 768 * 1024" using kb by simp
  then have "k mod 1024 = (k - 786432) mod 1024" by (metis mod_mult_self1)
  then have m: "unat (pte_index v) = k - 786432" using d kb by (simp add: unat_pte_index)
  then show "unat (pte_index v) < 1023" using kb by simp
  have "unat (pte_index v * 4096) = unat (pte_index v) * 4096"
    using m kb by (subst unat_mult_small) simp_all
  then show "pte_index v * 4096 = virt_to_phys v" using p' m by (intro u32_eqI) simp
qed

lemma entry_boot_fill:
  assumes "page_aligned f" and "page_aligned g" and "unat i < 1024" and "n \<le> 1024"
  shows "entry (boot_fill m f n) g i =
    (if f = g \<and> unat i < n then (i * 4096) OR 0x003 else entry m g i)"
  using assms(4)
proof (induction n)
  case 0
  then show ?case by simp
next
  case (Suc n)
  then have n: "unat (of_nat n :: u32) = n" by (simp add: unat_of_nat)
  then have eq: "of_nat n = i \<longleftrightarrow> n = unat i" by (metis u32_eqI)
  show ?case using Suc assms(1-3) n by (auto simp: eq less_Suc_eq)
qed

text \<open>The directory and the table after the stores.\<close>

lemma boot_paging_entries:
  assumes "boot_placed pd pt" and "cleared m (virt_to_phys pd)" and "unat i < 1024"
  shows "entry (boot_paging pd pt m) (virt_to_phys pd) i =
      (if i = 0 \<or> i = 768 then virt_to_phys pt + 0x003 else 0)"
    and "entry (boot_paging pd pt m) (virt_to_phys pt) i =
      (if i = 1023 then 0x000B8000 OR 0x003 else (i * 4096) OR 0x003)"
proof -
  note P = boot_placed_phys [of pd] and T = boot_placed_phys [of pt]
  have d: "page_aligned (virt_to_phys pd)" "page_aligned (virt_to_phys pt)"
    "virt_to_phys pd \<noteq> virt_to_phys pt"
    using P(2) T(2) assms(1) by (auto simp: boot_placed_def virt_to_phys_def)
  have small: "unat (0::u32) < 1024" "unat (768::u32) < 1024" "unat (1023::u32) < 1024" "(1023::nat) \<le> 1024"
    by simp_all
  note entries = boot_paging_def Let_def entry_store entry_boot_fill d d(3) [symmetric] assms(3) small
  have i: "unat i < 1023 \<longleftrightarrow> i \<noteq> 1023"
  proof
    show "i \<noteq> 1023" if "unat i < 1023" using that by auto
    show "unat i < 1023" if "i \<noteq> 1023"
    proof -
      have "unat i \<noteq> 1023" using that u32_eqI [of i 1023] by auto
      then show ?thesis using assms(3) by linarith
    qed
  qed
  show "entry (boot_paging pd pt m) (virt_to_phys pd) i =
      (if i = 0 \<or> i = 768 then virt_to_phys pt + 0x003 else 0)"
    by (simp only: entries) (use assms(2,3) in \<open>auto simp: cleared_def\<close>)
  show "entry (boot_paging pd pt m) (virt_to_phys pt) i =
      (if i = 1023 then 0x000B8000 OR 0x003 else (i * 4096) OR 0x003)"
    using i by (simp only: entries) auto
qed

section \<open>The translation\<close>

lemma page_entry_3:
  assumes "page_aligned f"
  shows "present (f OR 0x003)" "writable (f OR 0x003)" "page_of (f OR 0x003) = f" "f + 0x003 = f OR 0x003"
proof -
  have "f AND 0x003 = 0"
  proof -
    have "f AND 0x003 = (off_of f) AND 0x003" by (simp add: off_of_def and.assoc)
    then show ?thesis using assms by (simp add: page_aligned_def)
  qed
  then show "f + 0x003 = f OR 0x003" by (rule disjunctive_add_eq_or)
  show "page_of (f OR 0x003) = f"
    using assms by (simp add: page_of_def bit.conj_disj_distrib2 page_of_aligned [unfolded page_of_def])
  show "present (f OR 0x003)" "writable (f OR 0x003)"
    by (simp_all add: present_def writable_def bit.conj_disj_distrib2 or_eq_0_iff)
qed

lemma pte_frame_aligned: "unat i < 1024 \<Longrightarrow> page_aligned (i * 4096 :: u32)"
  by (simp add: page_aligned_unat unat_mult_small)

text \<open>
  The walk, for any state with these entries; \<open>low\<close> says whether the identity map is there.
\<close>

definition boot_entries :: "u32 \<Rightarrow> u32 \<Rightarrow> bool \<Rightarrow> vm \<Rightarrow> bool" where
  "boot_entries pd pt low s \<longleftrightarrow> boot_placed pd pt \<and> vm_cr3 s = virt_to_phys pd
     \<and> (\<forall>i. unat i < 1024 \<longrightarrow> entry (vm_mem s) (virt_to_phys pd) i =
          (if i = 768 \<or> (low \<and> i = 0) then virt_to_phys pt + 0x003 else 0))
     \<and> (\<forall>i. unat i < 1024 \<longrightarrow> entry (vm_mem s) (virt_to_phys pt) i =
          (if i = 1023 then 0x000B8000 OR 0x003 else (i * 4096) OR 0x003))"

lemma boot_entriesD:
  assumes "boot_entries pd pt low s"
  shows "page_aligned pd" "page_aligned pt" "pd \<noteq> pt" "vm_cr3 s = virt_to_phys pd"
    "page_aligned (virt_to_phys pd)" "page_aligned (virt_to_phys pt)" "virt_to_phys pd \<noteq> virt_to_phys pt"
    and "unat i < 1024 \<Longrightarrow> dir s i = (if i = 768 \<or> (low \<and> i = 0) then virt_to_phys pt OR 0x003 else 0)"
    and "unat i < 1024 \<Longrightarrow> entry (vm_mem s) (virt_to_phys pt) i =
          (if i = 1023 then 0x000B8000 OR 0x003 else (i * 4096) OR 0x003)"
proof -
  note d = assms [unfolded boot_entries_def boot_placed_def]
  show a: "page_aligned pd" "page_aligned pt" "pd \<noteq> pt" "vm_cr3 s = virt_to_phys pd" using d by blast+
  show p: "page_aligned (virt_to_phys pd)" "page_aligned (virt_to_phys pt)"
    using d boot_placed_phys(2) by blast+
  show "virt_to_phys pd \<noteq> virt_to_phys pt" using a(3) by (simp add: virt_to_phys_def)
  show "unat i < 1024 \<Longrightarrow> dir s i = (if i = 768 \<or> (low \<and> i = 0) then virt_to_phys pt OR 0x003 else 0)"
    using d p a(4) page_entry_3(4) [OF p(2)] by (simp add: dir_def page_of_aligned)
  show "unat i < 1024 \<Longrightarrow> entry (vm_mem s) (virt_to_phys pt) i =
          (if i = 1023 then 0x000B8000 OR 0x003 else (i * 4096) OR 0x003)"
    using d by blast
qed

lemma boot_walk:
  assumes "boot_entries pd pt low s"
  shows "walk s w va =
    (if pde_index va = 768 \<or> (low \<and> pde_index va = 0)
     then Some (if pte_index va = 1023 then 0xB8000 else pte_index va * 4096) else None)"
proof -
  note D = boot_entriesD [OF assms] and e = page_entry_3 [OF boot_entriesD(6) [OF assms]]
    and f = page_entry_3 [OF pte_frame_aligned [OF pte_index_less [of va]]]
  have "page_aligned 0xB8000" by (simp add: page_aligned_def off_of_def)
  note v = page_entry_3 [OF this]
  have w: "walk s w va = (if \<not> present (dir s (pde_index va)) \<or> (w \<and> \<not> writable (dir s (pde_index va))) then None
      else let pte = entry (vm_mem s) (page_of (dir s (pde_index va))) (pte_index va) in
        if \<not> present pte \<or> (w \<and> \<not> writable pte) then None else Some (page_of pte))"
    by (simp add: walk_def dir_def Let_def)
  show ?thesis
  proof (cases "pde_index va = 768 \<or> (low \<and> pde_index va = 0)")
    case True
    then have "dir s (pde_index va) = virt_to_phys pt OR 0x003"
      using D(8) [OF pde_index_less [of va]] by simp
    then show ?thesis using True D(9) [OF pte_index_less [of va]] e f v unfolding w
      by (simp add: Let_def)
  next
    case False
    then have "dir s (pde_index va) = 0" using D(8) [OF pde_index_less [of va]] by auto
    then show ?thesis using False unfolding w by (simp add: present_def)
  qed
qed

lemma boot_walk_directory:
  assumes "boot_entries pd pt low s"
  shows "walk s w pd = Some (virt_to_phys pd)"
proof -
  note P = boot_placed_phys [of pd]
  have "boot_placed pd pt" using assms by (simp add: boot_entries_def)
  then have "pde_index pd = 768" "pte_index pd * 4096 = virt_to_phys pd" "unat (pte_index pd) < 1023"
    using P by (auto simp: boot_placed_def)
  then show ?thesis by (auto simp: boot_walk [OF assms])
qed

text \<open>While the identity map is there, the code reads memory as \<open>boot_read8\<close> does.\<close>

lemma boot_reads:
  assumes "boot_entries pd pt True s"
  shows "vread8 s = boot_read8 (vm_mem s)"
  by (rule ext)
    (auto simp: vread8_def boot_read8_def translate_def boot_walk [OF assms] boot_translate_def Let_def pde_index_def pte_index_def)

text \<open>C25: the page tables \<open>boot.S\<close> stores translate every address as \<open>boot_translate\<close> says: the
  first megabytes at 0 and at 0xC0000000, the VGA frame in the last page of each, all else faults.\<close>

theorem boot_paging_translates:
  assumes "boot_placed pd pt" and "cleared m (virt_to_phys pd)"
  shows "translate \<lparr>vm_mem = boot_paging pd pt m, vm_cr3 = virt_to_phys pd, vm_pmm = p\<rparr> w va
    = boot_translate va"
proof -
  let ?s = "\<lparr>vm_mem = boot_paging pd pt m, vm_cr3 = virt_to_phys pd, vm_pmm = p\<rparr>"
  have s: "boot_entries pd pt True ?s"
    using assms boot_paging_entries [OF assms] by (auto simp: boot_entries_def)
  show ?thesis
    by (auto simp: translate_def boot_walk [OF s] boot_translate_def Let_def pde_index_def pte_index_def)
qed

theorem boot_paging_translates_witness:
  "translate \<lparr>vm_mem = boot_paging 0xC0110000 0xC0111000 (\<lambda>_. 0), vm_cr3 = virt_to_phys 0xC0110000,
     vm_pmm = example_pmm\<rparr> True 0xC0100010 = Some 0x100010"
proof -
  have "boot_placed 0xC0110000 0xC0111000" by (simp add: boot_placed_def page_aligned_def off_of_def)
  moreover have "cleared (\<lambda>_. 0) (virt_to_phys 0xC0110000)"
    by (simp add: cleared_def entry_def load32_def join32_def)
  ultimately have "translate \<lparr>vm_mem = boot_paging 0xC0110000 0xC0111000 (\<lambda>_. 0),
      vm_cr3 = virt_to_phys 0xC0110000, vm_pmm = example_pmm\<rparr> True 0xC0100010 = boot_translate 0xC0100010"
    by (rule boot_paging_translates)
  then show ?thesis by (simp add: boot_translate_def off_of_def Let_def)
qed

lemma boot_drop_identity_entries:
  assumes "boot_entries pd pt True s"
  obtains s' where "boot_drop_identity pd s = Some s'" "boot_entries pd pt False s'" "vm_pmm s' = vm_pmm s"
proof -
  note D = boot_entriesD [OF assms]
  let ?s = "s\<lparr>vm_mem := store32 (vm_mem s) (virt_to_phys pd + 0 * 4) 0\<rparr>"
  have z: "unat (0::u32) < 1024" by simp
  have "boot_drop_identity pd s = Some ?s"
    using boot_walk_directory [OF assms, of True] unfolding boot_drop_identity_def
    by (simp only: vwrite_entry [OF D(1) z] option.map)
  moreover have "boot_entries pd pt False ?s"
    using assms entry_store [OF D(5,5) z] entry_store [OF D(5,6) z] D(7)
    unfolding boot_entries_def by (simp del: mult_zero_left)
  ultimately show thesis using that by simp
qed

end
