(* ===== verification/Paging.thy ===== *)
theory Paging
  imports Boot
begin

text \<open>
  The page tables (\<open>kernel/mm/paging.c\<close>). Every access to the directory and to a table is a
  virtual access, as in the code: the directory through its higher-half address \<open>pd\<close> (the linker
  symbol \<open>boot_page_directory\<close>), a table through the recursive slot 1023. The lemmas show that the
  recursive window reaches the table the hardware walk uses, so that a mapping set up by the code
  is the one the processor follows.
\<close>

section \<open>Operations\<close>

definition PAGING_PAGE_SIZE :: u32 where
  "PAGING_PAGE_SIZE = 4096"

definition PAGING_FLAG_PRESENT :: u32 where
  "PAGING_FLAG_PRESENT = 0x001"

definition PAGING_FLAG_WRITE :: u32 where
  "PAGING_FLAG_WRITE = 0x002"

definition RECURSIVE_PD_INDEX :: u32 where
  "RECURSIVE_PD_INDEX = 1023"

definition RECURSIVE_PT_BASE :: u32 where
  "RECURSIVE_PT_BASE = 0xFFC00000"

definition page_table_virt :: "u32 \<Rightarrow> u32" where
  "page_table_virt pde_idx = RECURSIVE_PT_BASE + pde_idx * PAGING_PAGE_SIZE"

definition paging_init :: "u32 \<Rightarrow> vm \<Rightarrow> vm option" where
  "paging_init pd s =
     (let pd_phys = virt_to_phys pd in
      vwrite32 s (pd + RECURSIVE_PD_INDEX * 4)
        ((pd_phys AND 0xFFFFF000) OR PAGING_FLAG_PRESENT OR PAGING_FLAG_WRITE))"

text \<open>
  The result is the new state and the returned boolean. The middle step is the \<open>if\<close> that makes
  sure the table exists; its \<open>False\<close> is the early return when no frame is left.
\<close>

definition paging_map_page :: "u32 \<Rightarrow> u32 \<Rightarrow> u32 \<Rightarrow> u32 \<Rightarrow> vm \<Rightarrow> (vm \<times> bool) option" where
  "paging_map_page pd virt phys flags s =
     (let pde_idx = pde_index virt;
          pte_idx = pte_index virt
      in if phys AND (PAGING_PAGE_SIZE - 1) \<noteq> 0 then Some (s, False)
      else let flags = flags OR PAGING_FLAG_PRESENT in do {
        pde \<leftarrow> vread32 s (pd + pde_idx * 4);
        (s, ok) \<leftarrow>
          (if pde AND PAGING_FLAG_PRESENT = 0 then
             let (p, new_pt) = pmm_alloc_frame (vm_pmm s);
                 s = s\<lparr>vm_pmm := p\<rparr>
             in if new_pt = 0 then Some (s, False)
             else do {
               s \<leftarrow> vwrite32 s (pd + pde_idx * 4)
                     (new_pt OR PAGING_FLAG_PRESENT OR PAGING_FLAG_WRITE);
               s \<leftarrow> vmemset s (page_table_virt pde_idx) 0 (unat PAGING_PAGE_SIZE);
               Some (s, True) }
           else Some (s, True));
        if \<not> ok then Some (s, False)
        else do {
          s \<leftarrow> vwrite32 s (page_table_virt pde_idx + pte_idx * 4) (phys OR flags);
          Some (s, True) } })"

definition paging_unmap_page :: "u32 \<Rightarrow> u32 \<Rightarrow> vm \<Rightarrow> vm option" where
  "paging_unmap_page pd virt s =
     (let pde_idx = pde_index virt;
          pte_idx = pte_index virt
      in do {
        pde \<leftarrow> vread32 s (pd + pde_idx * 4);
        if pde AND PAGING_FLAG_PRESENT = 0 then Some s
        else vwrite32 s (page_table_virt pde_idx + pte_idx * 4) 0 })"

definition paging_get_physical :: "u32 \<Rightarrow> u32 \<Rightarrow> vm \<Rightarrow> u32 option" where
  "paging_get_physical pd virt s =
     (let pde_idx = pde_index virt;
          pte_idx = pte_index virt
      in do {
        pde \<leftarrow> vread32 s (pd + pde_idx * 4);
        if pde AND PAGING_FLAG_PRESENT = 0 then Some 0
        else do {
          e \<leftarrow> vread32 s (page_table_virt pde_idx + pte_idx * 4);
          if e AND PAGING_FLAG_PRESENT = 0 then Some 0
          else Some (e AND 0xFFFFF000) } })"

section \<open>The invariant\<close>

text \<open>
  \<open>boot_tables pd s\<close> is what \<open>boot.S\<close> leaves: CR3 holds the directory's physical address, the
  directory is mapped writable at \<open>pd\<close>, every present entry is a writable one and leads to a table
  of its own, and no frame of a table or of the directory can be handed out by the allocator.
  \<open>paging_inv\<close> adds the recursive slot.
\<close>

definition table_entry :: "vm \<Rightarrow> u32 \<Rightarrow> bool" where
  "table_entry s i \<longleftrightarrow> unat i < 1023 \<and> present (dir s i)"

definition boot_tables :: "u32 \<Rightarrow> vm \<Rightarrow> bool" where
  "boot_tables pd s \<longleftrightarrow>
     page_aligned pd \<and> vm_cr3 s = virt_to_phys pd \<and> page_aligned (vm_cr3 s) \<and> pmm_inv (vm_pmm s)
     \<and> unat (pde_index pd) < 1023 \<and> walk s True pd = Some (vm_cr3 s)
     \<and> vm_cr3 s \<notin> pmm_avail (vm_pmm s)
     \<and> (\<forall>i. table_entry s i \<longrightarrow> writable (dir s i) \<and> page_of (dir s i) \<noteq> vm_cr3 s
          \<and> page_of (dir s i) \<notin> pmm_avail (vm_pmm s))
     \<and> (\<forall>i j. table_entry s i \<and> table_entry s j \<and> page_of (dir s i) = page_of (dir s j) \<longrightarrow> i = j)"

definition paging_inv :: "u32 \<Rightarrow> vm \<Rightarrow> bool" where
  "paging_inv pd s \<longleftrightarrow> boot_tables pd s
     \<and> present (dir s 1023) \<and> writable (dir s 1023) \<and> page_of (dir s 1023) = vm_cr3 s"

text \<open>The frames that hold the directory or a table.\<close>

definition table_frames :: "vm \<Rightarrow> u32 set" where
  "table_frames s = insert (vm_cr3 s) {page_of (dir s i) | i. table_entry s i}"

section \<open>Entries\<close>

lemma present_bit: "present e \<longleftrightarrow> bit e 0"
  using and_exp_eq_0_iff_not_bit [of e 0] by (simp add: present_def)

lemma writable_bit: "writable e \<longleftrightarrow> bit e 1"
  using and_exp_eq_0_iff_not_bit [of e 1] by (simp add: writable_def)

lemma flag_tests:
  "e AND PAGING_FLAG_PRESENT = 0 \<longleftrightarrow> \<not> present e" "e AND 0xFFFFF000 = page_of e"
  by (simp_all add: PAGING_FLAG_PRESENT_def present_def page_of_def)

lemma page_of_or: "page_of (a OR b) = page_of a OR page_of b"
  by (rule bit_eqI) (auto simp: page_of_def bit_simps)

lemma aligned_flags:
  assumes "page_aligned f"
  shows "\<not> present f \<and> \<not> writable f"
proof -
  have "bit (off_of f) n \<longleftrightarrow> bit f n" if "n < 12" for n
    using that by (simp only: off_of_def page_mask bit_and_iff bit_mask_iff) simp
  from this [of 0] this [of 1] assms show ?thesis
    by (simp add: present_bit writable_bit page_aligned_def)
qed

lemma present_or: "present (a OR b) \<longleftrightarrow> present a \<or> present b"
  by (simp add: present_bit bit_simps)

lemma writable_or: "writable (a OR b) \<longleftrightarrow> writable a \<or> writable b"
  by (simp add: writable_bit bit_simps)

lemma flag_values:
  "present PAGING_FLAG_PRESENT" "\<not> writable PAGING_FLAG_PRESENT" "page_of PAGING_FLAG_PRESENT = 0"
  "\<not> present PAGING_FLAG_WRITE" "writable PAGING_FLAG_WRITE" "page_of PAGING_FLAG_WRITE = 0"
  by (simp_all add: PAGING_FLAG_PRESENT_def PAGING_FLAG_WRITE_def present_def writable_def page_of_def)

lemmas entry_flags = page_of_or present_or writable_or flag_values

section \<open>The recursive window\<close>

lemma page_table_virt:
  assumes "unat i < 1024"
  shows "page_aligned (page_table_virt i)" and "pde_index (page_table_virt i) = 1023"
    and "pte_index (page_table_virt i) = i"
proof -
  have "unat (i * 4096) = unat i * 4096" using assms by (subst unat_mult_small) simp_all
  then have v: "unat (page_table_virt i) = 4290772992 + unat i * 4096"
    using assms by (simp add: page_table_virt_def RECURSIVE_PT_BASE_def PAGING_PAGE_SIZE_def unat_plus_u32)
  have "4290772992 + unat i * 4096 = 4096 * (1047552 + unat i)" by simp
  then have d: "unat (page_table_virt i) div 4096 = 1047552 + unat i"
    "unat (page_table_virt i) mod 4096 = 0"
    unfolding v by (simp_all only: nonzero_mult_div_cancel_left mod_mult_self1_is_0)
  then show "page_aligned (page_table_virt i)" by (simp add: page_aligned_unat)
  have "unat (page_table_virt i) div 4194304 = (1047552 + unat i) div 1024"
    using d(1) div_mult2_eq [of "unat (page_table_virt i)" 4096 1024] by simp
  also have "\<dots> = 1023" using assms by simp
  finally show "pde_index (page_table_virt i) = 1023"
    by (intro u32_eqI) (simp add: unat_pde_index)
  have "1047552 + unat i = unat i + 1023 * 1024" by simp
  then have "(1047552 + unat i) mod 1024 = unat i mod 1024" by (simp only: mod_mult_self1)
  then show "pte_index (page_table_virt i) = i"
    by (intro u32_eqI) (use assms d(1) in \<open>simp add: unat_pte_index\<close>)
qed

lemma walk_write_read: "walk s True va = Some f \<Longrightarrow> walk s w va = Some f"
  by (auto simp: walk_def Let_def split: if_splits)

lemma pagingD:
  assumes "paging_inv pd s"
  shows "page_aligned pd" and "page_aligned (vm_cr3 s)" and "page_of (vm_cr3 s) = vm_cr3 s"
    and "walk s w pd = Some (vm_cr3 s)" and "pmm_inv (vm_pmm s)"
    and "vm_cr3 s \<notin> pmm_avail (vm_pmm s)"
    and "present (dir s 1023)" "writable (dir s 1023)" "page_of (dir s 1023) = vm_cr3 s"
    and "vm_cr3 s = virt_to_phys pd" "unat (pde_index pd) < 1023"
proof -
  note d = assms [unfolded paging_inv_def boot_tables_def]
  show "page_aligned pd" and c: "page_aligned (vm_cr3 s)" and "pmm_inv (vm_pmm s)"
    and "vm_cr3 s \<notin> pmm_avail (vm_pmm s)"
    and "present (dir s 1023)" "writable (dir s 1023)" "page_of (dir s 1023) = vm_cr3 s"
    and "vm_cr3 s = virt_to_phys pd" "unat (pde_index pd) < 1023"
    using d by blast+
  show "page_of (vm_cr3 s) = vm_cr3 s" using c by (rule page_of_aligned)
  show "walk s w pd = Some (vm_cr3 s)" using d walk_write_read by blast
qed

lemma table_entryD:
  assumes "paging_inv pd s" and "table_entry s i"
  shows "writable (dir s i)" and "page_of (dir s i) \<noteq> vm_cr3 s"
    and "page_of (dir s i) \<notin> pmm_avail (vm_pmm s)" and "present (dir s i)"
    and "unat i < 1024"
    and "table_entry s j \<Longrightarrow> page_of (dir s i) = page_of (dir s j) \<Longrightarrow> i = j"
proof -
  note d = assms(1) [unfolded paging_inv_def boot_tables_def]
  show "writable (dir s i)" and "page_of (dir s i) \<noteq> vm_cr3 s"
    and "page_of (dir s i) \<notin> pmm_avail (vm_pmm s)"
    and "table_entry s j \<Longrightarrow> page_of (dir s i) = page_of (dir s j) \<Longrightarrow> i = j"
    using d assms(2) by blast+
  show "present (dir s i)" "unat i < 1024" using assms(2) by (auto simp: table_entry_def)
qed

lemma read_dir:
  "paging_inv pd s \<Longrightarrow> unat i < 1024 \<Longrightarrow> vread32 s (pd + i * 4) = Some (dir s i)"
  using pagingD(1,3,4) [of pd s] by (simp add: vread_entry dir_def)

lemma walk_window:
  assumes "paging_inv pd s" and "table_entry s i"
  shows "walk s w (page_table_virt i) = Some (page_of (dir s i))"
  using page_table_virt [of i] pagingD(3,7-9) [OF assms(1)] table_entryD [OF assms]
  by (simp add: walk_def Let_def dir_def)

text \<open>The hardware walk of an address outside the window, by its table.\<close>

lemma walk_table:
  "walk s w va =
     (if \<not> present (dir s (pde_index va)) \<or> (w \<and> \<not> writable (dir s (pde_index va))) then None
      else let pte = entry (vm_mem s) (page_of (dir s (pde_index va))) (pte_index va) in
        if \<not> present pte \<or> (w \<and> \<not> writable pte) then None else Some (page_of pte))"
  by (simp add: walk_def dir_def Let_def)

section \<open>Writing an entry of a table\<close>

text \<open>
  An address is mappable when it is not in the recursive window and not the page through which
  the directory itself is reached.
\<close>

definition mappable :: "u32 \<Rightarrow> u32 \<Rightarrow> bool" where
  "mappable pd va \<longleftrightarrow> unat (pde_index va) < 1023 \<and> page_of va \<noteq> pd"

definition set_entry :: "vm \<Rightarrow> u32 \<Rightarrow> u32 \<Rightarrow> vm" where
  "set_entry s va v = s\<lparr>vm_mem := store32 (vm_mem s)
     (page_of (dir s (pde_index va)) + pte_index va * 4) v\<rparr>"

lemma set_entry_fields [simp]:
  "vm_cr3 (set_entry s va v) = vm_cr3 s" "vm_pmm (set_entry s va v) = vm_pmm s"
  by (simp_all add: set_entry_def)

lemma window_write:
  assumes "paging_inv pd s" and "table_entry s (pde_index va)"
  shows "vwrite32 s (page_table_virt (pde_index va) + pte_index va * 4) v = Some (set_entry s va v)"
  using assms page_table_virt(1) [of "pde_index va"] walk_window [OF assms]
  by (simp add: vwrite_entry set_entry_def)

lemma window_read:
  assumes "paging_inv pd s" and "table_entry s (pde_index va)"
  shows "vread32 s (page_table_virt (pde_index va) + pte_index va * 4)
    = Some (entry (vm_mem s) (page_of (dir s (pde_index va))) (pte_index va))"
  using assms page_table_virt(1) [of "pde_index va"] walk_window [OF assms]
  by (simp add: vread_entry)

lemma dir_set_entry:
  assumes "paging_inv pd s" and "table_entry s (pde_index va)" and "unat k < 1024"
  shows "dir (set_entry s va v) k = dir s k"
  using table_entryD(2) [OF assms(1,2)] pagingD(2,3) [OF assms(1)] assms(3)
  unfolding dir_def set_entry_fields by (simp add: set_entry_def dir_def)

lemma entry_set_entry:
  assumes "paging_inv pd s" and "table_entry s (pde_index va)" and "table_entry s k" and "unat j < 1024"
  shows "entry (vm_mem (set_entry s va v)) (page_of (dir s k)) j =
    (if k = pde_index va \<and> j = pte_index va then v else entry (vm_mem s) (page_of (dir s k)) j)"
  using table_entryD(6) [OF assms(1,2,3)] assms(4) by (auto simp: set_entry_def)

lemma table_entry_set_entry:
  assumes "paging_inv pd s" and "table_entry s (pde_index va)"
  shows "table_entry (set_entry s va v) k = table_entry s k"
  using dir_set_entry [OF assms, of k v] by (cases "unat k < 1023") (auto simp: table_entry_def)

text \<open>The hardware walk afterwards: the page of the entry follows it, every other address is as before.\<close>

lemma walk_set_entry:
  assumes "paging_inv pd s" and "table_entry s (pde_index va)" and "page_of x = page_of va"
  shows "walk (set_entry s va v) w x =
    (if \<not> present v \<or> (w \<and> \<not> writable v) then None else Some (page_of v))"
proof -
  have x: "pde_index x = pde_index va" "pte_index x = pte_index va"
    using assms(3) by (rule indices_eq)+
  show ?thesis
    using entry_set_entry [OF assms(1,2,2), of "pte_index va" v] table_entryD(1,4) [OF assms(1,2)]
    unfolding walk_table [of "set_entry s va v"] dir_set_entry [OF assms(1,2) pde_index_less] x
    by (simp add: Let_def)
qed

lemma walk_set_entry_other:
  assumes "paging_inv pd s" and "table_entry s (pde_index va)" and "page_of x \<noteq> page_of va"
  shows "walk (set_entry s va v) w x = walk s w x"
proof -
  note dirs = dir_set_entry [OF assms(1,2) pde_index_less]
  have other: "\<not> (pde_index x = pde_index va \<and> pte_index x = pte_index va)"
    using assms(3) page_of_eq_indices by blast
  consider "\<not> present (dir s (pde_index x))" | "table_entry s (pde_index x)" | "pde_index x = 1023"
  proof -
    have "unat (pde_index x) < 1023 \<or> unat (pde_index x) = 1023"
      using pde_index_less [of x] by linarith
    then have "unat (pde_index x) < 1023 \<or> pde_index x = 1023"
      by (metis u32_eqI unat_numeral_1023)
    then show thesis using that by (auto simp: table_entry_def)
  qed
  then show ?thesis
  proof cases
    case 1
    then show ?thesis by (simp add: walk_table dirs)
  next
    case 2
    show ?thesis
      using entry_set_entry [OF assms(1,2) 2, of "pte_index x" v] other
      unfolding walk_table [of "set_entry s va v"] walk_table [of s] dirs by (simp add: Let_def)
  next
    case 3
    have "entry (vm_mem (set_entry s va v)) (vm_cr3 s) (pte_index x) = entry (vm_mem s) (vm_cr3 s) (pte_index x)"
      using dir_set_entry [OF assms(1,2) pte_index_less, of v x] pagingD(3) [OF assms(1)]
    by (simp add: dir_def)
    moreover have "dir (set_entry s va v) 1023 = dir s 1023"
      by (rule dir_set_entry [OF assms(1,2)]) simp
    ultimately show ?thesis
      using pagingD(9) [OF assms(1)]
      unfolding walk_table [of "set_entry s va v"] walk_table [of s] 3 by (simp add: Let_def)
  qed
qed

lemma paging_inv_set_entry:
  assumes "paging_inv pd s" and "table_entry s (pde_index va)" and "mappable pd va"
  shows "paging_inv pd (set_entry s va v)"
proof -
  have "page_of pd \<noteq> page_of va"
    using assms(3) pagingD(1) [OF assms(1)] by (auto simp: mappable_def)
  then have walk: "walk (set_entry s va v) True pd = Some (vm_cr3 s)"
    using walk_set_entry_other [OF assms(1,2)] pagingD(4) [OF assms(1)] by simp
  have dirs: "dir (set_entry s va v) k = dir s k" if "unat k < 1024" for k
    using that by (rule dir_set_entry [OF assms(1,2)])
  have te: "table_entry (set_entry s va v) k = table_entry s k" for k
    by (rule table_entry_set_entry [OF assms(1,2)])
  have small: "unat k < 1024" if "table_entry s k" for k using that by (simp add: table_entry_def)
  have own: "writable (dir (set_entry s va v) i) \<and> page_of (dir (set_entry s va v) i) \<noteq> vm_cr3 s
      \<and> page_of (dir (set_entry s va v) i) \<notin> pmm_avail (vm_pmm s)" if "table_entry s i" for i
    using table_entryD(1-3) [OF assms(1) that] dirs [OF small [OF that]] by simp
  have inj: "i = j" if "table_entry s i" "table_entry s j"
    "page_of (dir (set_entry s va v) i) = page_of (dir (set_entry s va v) j)" for i j
    using table_entryD(6) [OF assms(1) that(1,2)] that(3)
    unfolding dirs [OF small [OF that(1)]] dirs [OF small [OF that(2)]] by blast
  have d: "dir (set_entry s va v) 1023 = dir s 1023" by (rule dirs) simp
  show ?thesis
    using pagingD [OF assms(1)] walk own inj
    unfolding paging_inv_def boot_tables_def te set_entry_fields d by blast
qed

section \<open>Installing a table\<close>

definition new_table :: "vm \<Rightarrow> u32 \<Rightarrow> pmm \<Rightarrow> u32 \<Rightarrow> vm" where
  "new_table s i p f = s\<lparr>vm_pmm := p, vm_mem := (\<lambda>a. if page_of a = f then 0
     else store32 (vm_mem s) (vm_cr3 s + i * 4) (f OR PAGING_FLAG_PRESENT OR PAGING_FLAG_WRITE) a)\<rparr>"

lemma new_table_fields [simp]:
  "vm_cr3 (new_table s i p f) = vm_cr3 s" "vm_pmm (new_table s i p f) = p"
  by (simp_all add: new_table_def)

lemma new_entry:
  assumes "page_aligned f"
  shows "present (f OR PAGING_FLAG_PRESENT OR PAGING_FLAG_WRITE)"
    and "writable (f OR PAGING_FLAG_PRESENT OR PAGING_FLAG_WRITE)"
    and "page_of (f OR PAGING_FLAG_PRESENT OR PAGING_FLAG_WRITE) = f"
  using assms by (simp_all add: entry_flags)

lemma entry_zero:
  assumes "page_aligned f" and "unat j < 1024"
  shows "entry (\<lambda>a. if page_of a = f then 0 else m a) f j = 0"
proof -
  note e = entry_addr [OF assms]
  have "page_of (f + j * 4 + i) = f" if "unat i < 4" for i
    using aligned_plus(1) [OF e(2) that] e(1) by simp
  from this [of 0] this [of 1] this [of 2] this [of 3] show ?thesis
    by (simp add: entry_def load32_def join32_def)
qed

lemma entry_other_frame:
  "page_aligned g \<Longrightarrow> unat j < 1024 \<Longrightarrow> g \<noteq> f \<Longrightarrow>
   entry (\<lambda>a. if page_of a = f then c else m a) g j = entry m g j"
  by (rule entry_same_frame) (auto simp: same_frame_def)

text \<open>The situation in which \<open>paging_map_page\<close> installs the table \<open>f\<close> at entry \<open>i\<close>.\<close>

definition installs :: "u32 \<Rightarrow> vm \<Rightarrow> u32 \<Rightarrow> pmm \<Rightarrow> u32 \<Rightarrow> bool" where
  "installs pd s i p f \<longleftrightarrow> paging_inv pd s \<and> unat i < 1023 \<and> \<not> present (dir s i)
     \<and> pmm_alloc_frame (vm_pmm s) = (p, f) \<and> f \<noteq> 0"

lemma installs_frame:
  assumes "installs pd s i p f"
  shows "f \<in> pmm_avail (vm_pmm s)" "page_aligned f" "pmm_inv p"
    and "pmm_avail p = pmm_avail (vm_pmm s) - {f}" "pmm_pool p = pmm_pool (vm_pmm s)"
    and "f \<noteq> vm_cr3 s" "table_entry s k \<Longrightarrow> page_of (dir s k) \<noteq> f"
proof -
  have inv: "pmm_inv (vm_pmm s)" using assms pagingD(5) by (auto simp: installs_def)
  have ne: "pmm_avail (vm_pmm s) \<noteq> {}"
    using assms pmm.alloc_zero_iff [OF inv] by (auto simp: installs_def)
  note t = pmm.alloc_takes [OF inv ne, of p f]
  with assms show f: "f \<in> pmm_avail (vm_pmm s)" and "pmm_inv p"
    and "pmm_avail p = pmm_avail (vm_pmm s) - {f}" "pmm_pool p = pmm_pool (vm_pmm s)"
    by (auto simp: installs_def)
  then show "page_aligned f" by (simp add: pmm_avail_def pmm_pool_def)
  show "f \<noteq> vm_cr3 s" using f assms pagingD(6) by (auto simp: installs_def)
  show "table_entry s k \<Longrightarrow> page_of (dir s k) \<noteq> f"
    using f assms table_entryD(3) by (auto simp: installs_def)
qed

lemma installs_dir:
  assumes "installs pd s i p f" and "unat k < 1024"
  shows "dir (new_table s i p f) k =
    (if k = i then f OR PAGING_FLAG_PRESENT OR PAGING_FLAG_WRITE else dir s k)"
proof -
  have inv: "paging_inv pd s" and i: "unat i < 1024" using assms(1) by (auto simp: installs_def)
  show ?thesis
    using pagingD(2,3) [OF inv] assms(2) i installs_frame(6) [OF assms(1)]
    unfolding dir_def new_table_fields by (simp add: new_table_def entry_other_frame)
qed

lemma installs_entry:
  assumes "installs pd s i p f" and "page_aligned g" and "g \<noteq> vm_cr3 s" and "unat j < 1024"
  shows "entry (vm_mem (new_table s i p f)) g j = (if g = f then 0 else entry (vm_mem s) g j)"
proof -
  have inv: "paging_inv pd s" and i: "unat i < 1024" using assms(1) by (auto simp: installs_def)
  show ?thesis
    using pagingD(2) [OF inv] assms(2-4) i
    by (cases "g = f") (simp_all add: new_table_def entry_other_frame entry_zero)
qed

lemma installs_table_entry:
  assumes "installs pd s i p f"
  shows "table_entry (new_table s i p f) k \<longleftrightarrow> k = i \<or> table_entry s k"
  using assms installs_dir [OF assms, of k] new_entry(1) [OF installs_frame(2) [OF assms]]
  by (cases "unat k < 1023") (auto simp: table_entry_def installs_def)

lemma window_or_table:
  obtains (window) "pde_index x = 1023" | (table) "unat (pde_index x) < 1023"
proof -
  have "unat (pde_index x) < 1023 \<or> unat (pde_index x) = 1023"
    using pde_index_less [of x] by linarith
  then show thesis using that by (metis u32_eqI unat_numeral_1023)
qed

text \<open>A new, empty table changes no translation outside the recursive window.\<close>

lemma installs_walk:
  assumes "installs pd s i p f" and "unat (pde_index x) < 1023"
  shows "walk (new_table s i p f) w x = walk s w x"
proof -
  have inv: "paging_inv pd s" and absent: "\<not> present (dir s i)" using assms(1) by (auto simp: installs_def)
  note frame = installs_frame [OF assms(1)]
  have d: "dir (new_table s i p f) (pde_index x) = (if pde_index x = i then
      f OR PAGING_FLAG_PRESENT OR PAGING_FLAG_WRITE else dir s (pde_index x))"
    by (rule installs_dir [OF assms(1) pde_index_less])
  consider "pde_index x = i" | "pde_index x \<noteq> i" "\<not> present (dir s (pde_index x))"
    | "pde_index x \<noteq> i" "table_entry s (pde_index x)"
    using assms(2) by (auto simp: table_entry_def)
  then show ?thesis
  proof cases
    case 1
    have "entry (vm_mem (new_table s i p f)) f (pte_index x) = 0"
      using installs_entry [OF assms(1) frame(2,6) pte_index_less] by simp
    then show ?thesis
      using 1 absent new_entry [OF frame(2)]
      unfolding walk_table [of "new_table s i p f"] walk_table [of s] d
      by (simp add: Let_def present_def)
  next
    case 2
    then show ?thesis
      unfolding walk_table [of "new_table s i p f"] walk_table [of s] d by simp
  next
    case 3
    then have "entry (vm_mem (new_table s i p f)) (page_of (dir s (pde_index x))) (pte_index x)
      = entry (vm_mem s) (page_of (dir s (pde_index x))) (pte_index x)"
      using installs_entry [OF assms(1) _ _ pte_index_less] table_entryD(2) [OF inv 3(2)]
        frame(7) [OF 3(2)] by simp
    then show ?thesis using 3
      unfolding walk_table [of "new_table s i p f"] walk_table [of s] d by (simp add: Let_def)
  qed
qed

lemma installs_inv:
  assumes "installs pd s i p f"
  shows "paging_inv pd (new_table s i p f)"
proof -
  have inv: "paging_inv pd s" and i: "unat i < 1023" using assms by (auto simp: installs_def)
  note frame = installs_frame [OF assms] and new = new_entry [OF installs_frame(2) [OF assms]]
  let ?s = "new_table s i p f"
  have d: "dir ?s k = dir s k" if "table_entry s k" for k
  proof -
    have "k \<noteq> i" using that assms by (auto simp: installs_def table_entry_def)
    then show ?thesis using installs_dir [OF assms, of k] that by (simp add: table_entry_def)
  qed
  have di: "dir ?s i = f OR PAGING_FLAG_PRESENT OR PAGING_FLAG_WRITE"
    using installs_dir [OF assms, of i] i by simp
  have d1023: "dir ?s 1023 = dir s 1023"
    using installs_dir [OF assms, of 1023] i by auto
  have walk: "walk ?s True pd = Some (vm_cr3 s)"
    using installs_walk [OF assms pagingD(11) [OF inv]] pagingD(4) [OF inv] by simp
  have own: "writable (dir ?s k) \<and> page_of (dir ?s k) \<noteq> vm_cr3 s \<and> page_of (dir ?s k) \<notin> pmm_avail p"
    if "table_entry ?s k" for k
    using that di d new frame table_entryD(1-3) [OF inv]
    by (auto simp: installs_table_entry [OF assms])
  have inj: "j = k" if "table_entry ?s j" "table_entry ?s k" "page_of (dir ?s j) = page_of (dir ?s k)" for j k
    using that di d new(3) frame(7) table_entryD(6) [OF inv]
    unfolding installs_table_entry [OF assms] by metis
  have cr3: "vm_cr3 s \<notin> pmm_avail p" using pagingD(6) [OF inv] frame(4) by blast
  show ?thesis
    using pagingD [OF inv] frame(3) walk own inj cr3
    unfolding paging_inv_def boot_tables_def new_table_fields d1023 by blast
qed

section \<open>The operations on a consistent address space\<close>

definition linked :: "vm \<Rightarrow> u32 \<Rightarrow> pmm \<Rightarrow> u32 \<Rightarrow> vm" where
  "linked s i p f = s\<lparr>vm_pmm := p, vm_mem := store32 (vm_mem s) (vm_cr3 s + i * 4)
     (f OR PAGING_FLAG_PRESENT OR PAGING_FLAG_WRITE)\<rparr>"

lemma linked_fields [simp]: "vm_cr3 (linked s i p f) = vm_cr3 s"
  by (simp add: linked_def)

lemma linked_dir:
  assumes "installs pd s i p f" and "unat k < 1024"
  shows "dir (linked s i p f) k = (if k = i then f OR PAGING_FLAG_PRESENT OR PAGING_FLAG_WRITE else dir s k)"
proof -
  have "paging_inv pd s" and "unat i < 1024" using assms(1) by (auto simp: installs_def)
  then show ?thesis using pagingD(2,3) assms(2) by (auto simp: dir_def linked_def)
qed

text \<open>Through the window the new table can be cleared; the frame holds neither the directory nor another table.\<close>

lemma linked_window:
  assumes "installs pd s i p f"
  shows "walk (linked s i p f) True (page_table_virt i) = Some f"
    and "f \<noteq> page_of (dir (linked s i p f) (pde_index (page_table_virt i)))"
proof -
  have inv: "paging_inv pd s" and i: "unat i < 1024" "i \<noteq> 1023"
    using assms by (auto simp: installs_def)
  note frame = installs_frame [OF assms] and new = new_entry [OF installs_frame(2) [OF assms]]
  note D = pagingD(2,3,7-9) [OF inv] and pt = page_table_virt [OF i(1)]
  have d: "dir (linked s i p f) 1023 = dir s 1023" using linked_dir [OF assms, of 1023] i by auto
  have di: "entry (vm_mem (linked s i p f)) (vm_cr3 s) i = f OR PAGING_FLAG_PRESENT OR PAGING_FLAG_WRITE"
    using linked_dir [OF assms i(1)] D(2) by (simp add: dir_def)
  show "walk (linked s i p f) True (page_table_virt i) = Some f"
    unfolding walk_table [of "linked s i p f"] pt d using D di new by simp
  show "f \<noteq> page_of (dir (linked s i p f) (pde_index (page_table_virt i)))"
    using frame(6) D(5) by (simp add: pt d)
qed

text \<open>The clearing loop after \<open>n\<close> bytes.\<close>

definition half_cleared :: "vm \<Rightarrow> u32 \<Rightarrow> pmm \<Rightarrow> u32 \<Rightarrow> nat \<Rightarrow> vm" where
  "half_cleared s i p f n = (linked s i p f)\<lparr>vm_mem := (\<lambda>a. if page_of a = f \<and> unat (off_of a) < n then 0
     else vm_mem (linked s i p f) a)\<rparr>"

lemma half_cleared:
  assumes "installs pd s i p f" and "n \<le> 4096"
  shows "vmemset (linked s i p f) (page_table_virt i) 0 n = Some (half_cleared s i p f n)"
proof -
  have i: "unat i < 1024" and inv: "paging_inv pd s" using assms(1) by (auto simp: installs_def)
  show ?thesis unfolding half_cleared_def
    by (rule vmemset_page [OF page_table_virt(1) [OF i] linked_window(1) [OF assms(1)] assms(2)])
      (use installs_frame(6) [OF assms(1)] linked_window(2) [OF assms(1)] pagingD(3) [OF inv] in simp_all)
qed

lemma half_cleared_all: "half_cleared s i p f 4096 = new_table s i p f"
  by (simp add: half_cleared_def new_table_def linked_def unat_off_of cong: if_cong)

lemma installs_steps:
  assumes "installs pd s i p f"
  shows "vwrite32 (s\<lparr>vm_pmm := p\<rparr>) (pd + i * 4) (f OR PAGING_FLAG_PRESENT OR PAGING_FLAG_WRITE)
    = Some (linked s i p f)"
    and "vmemset (linked s i p f) (page_table_virt i) 0 4096 = Some (new_table s i p f)"
proof -
  have inv: "paging_inv pd s" and i: "unat i < 1024" using assms by (auto simp: installs_def)
  show "vwrite32 (s\<lparr>vm_pmm := p\<rparr>) (pd + i * 4) (f OR PAGING_FLAG_PRESENT OR PAGING_FLAG_WRITE)
    = Some (linked s i p f)"
    using pagingD(1,4) [OF inv] i by (simp add: vwrite_entry linked_def)
  show "vmemset (linked s i p f) (page_table_virt i) 0 4096 = Some (new_table s i p f)"
    using half_cleared [OF assms order_refl] by (simp only: half_cleared_all)
qed

text \<open>
  \<open>paging_map_page\<close> in three cases: the table is there, there is no frame for it, or a table is
  installed first.
\<close>

lemma map_present:
  assumes "paging_inv pd s" and "page_aligned phys" and "table_entry s (pde_index virt)"
  shows "paging_map_page pd virt phys flags s =
    Some (set_entry s virt (phys OR (flags OR PAGING_FLAG_PRESENT)), True)"
  using assms read_dir [OF assms(1) pde_index_less, of virt] window_write [OF assms(1,3)]
    table_entryD(4) [OF assms(1,3)]
  by (simp add: paging_map_page_def Let_def flag_tests page_aligned_def off_of_def PAGING_PAGE_SIZE_def)

lemma map_no_frame:
  assumes "paging_inv pd s" and "page_aligned phys" and "\<not> present (dir s (pde_index virt))"
    and "pmm_avail (vm_pmm s) = {}"
  shows "paging_map_page pd virt phys flags s = Some (s, False)"
  using assms(2,3) read_dir [OF assms(1) pde_index_less, of virt]
    pmm.alloc_empty [OF pagingD(5) [OF assms(1)] assms(4)]
  by (simp add: paging_map_page_def Let_def flag_tests page_aligned_def off_of_def PAGING_PAGE_SIZE_def)

lemma map_install:
  assumes "installs pd s (pde_index virt) p f" and "page_aligned phys"
  shows "paging_map_page pd virt phys flags s =
    Some (set_entry (new_table s (pde_index virt) p f) virt (phys OR (flags OR PAGING_FLAG_PRESENT)), True)"
proof -
  have inv: "paging_inv pd s" and absent: "\<not> present (dir s (pde_index virt))"
    and alloc: "pmm_alloc_frame (vm_pmm s) = (p, f)" "f \<noteq> 0"
    using assms(1) by (auto simp: installs_def)
  have te: "table_entry (new_table s (pde_index virt) p f) (pde_index virt)"
    by (simp add: installs_table_entry [OF assms(1)])
  show ?thesis
    using assms(2) absent alloc read_dir [OF inv pde_index_less, of virt]
      installs_steps [OF assms(1)] window_write [OF installs_inv [OF assms(1)] te]
    by (simp add: paging_map_page_def Let_def flag_tests page_aligned_def off_of_def PAGING_PAGE_SIZE_def)
qed

lemma map_misaligned:
  "\<not> page_aligned phys \<Longrightarrow> paging_map_page pd virt phys flags s = Some (s, False)"
  by (simp add: paging_map_page_def Let_def page_aligned_def off_of_def PAGING_PAGE_SIZE_def)

text \<open>The table state in which the new entry is written: the old one, or the one with a new table.\<close>

definition ready :: "u32 \<Rightarrow> vm \<Rightarrow> u32 \<Rightarrow> vm \<Rightarrow> bool" where
  "ready pd s i t \<longleftrightarrow> paging_inv pd t \<and> table_entry t i
     \<and> (t = s \<or> (\<exists>p f. installs pd s i p f \<and> t = new_table s i p f))"

lemma ready_walk: "ready pd s i t \<Longrightarrow> unat (pde_index x) < 1023 \<Longrightarrow> walk t w x = walk s w x"
  using installs_walk by (auto simp: ready_def)

lemma map_cases:
  assumes "paging_inv pd s" and "unat (pde_index virt) < 1023"
  obtains (fail) "paging_map_page pd virt phys flags s = Some (s, False)"
      "\<not> page_aligned phys \<or> (\<not> present (dir s (pde_index virt)) \<and> pmm_avail (vm_pmm s) = {})"
    | (mapped) t where "paging_map_page pd virt phys flags s =
        Some (set_entry t virt (phys OR (flags OR PAGING_FLAG_PRESENT)), True)"
      "page_aligned phys" "present (dir s (pde_index virt)) \<or> pmm_avail (vm_pmm s) \<noteq> {}"
      "ready pd s (pde_index virt) t"
proof -
  let ?i = "pde_index virt"
  obtain p f where pf: "pmm_alloc_frame (vm_pmm s) = (p, f)" by fastforce
  consider "\<not> page_aligned phys" | "page_aligned phys" "table_entry s ?i"
    | "page_aligned phys" "\<not> present (dir s ?i)" "pmm_avail (vm_pmm s) = {}"
    | "page_aligned phys" "installs pd s ?i p f" "pmm_avail (vm_pmm s) \<noteq> {}"
    using assms pf pmm.alloc_zero_iff [OF pagingD(5) [OF assms(1)]]
    by (auto simp: table_entry_def installs_def)
  then show thesis
  proof cases
    case 1
    then show thesis using fail [OF map_misaligned] by blast
  next
    case 2
    then show thesis
      using mapped [OF map_present [OF assms(1) 2]] table_entryD(4) [OF assms(1)] assms(1)
      by (auto simp: ready_def)
  next
    case 3
    show thesis by (rule fail [OF map_no_frame [OF assms(1) 3]]) (use 3 in blast)
  next
    case 4
    have "ready pd s ?i (new_table s ?i p f)"
      using 4 installs_inv installs_table_entry by (auto simp: ready_def)
    then show thesis using mapped [OF map_install [OF 4(2,1)]] 4 by blast
  qed
qed

lemma table_frames_set_entry:
  assumes "paging_inv pd t" and "table_entry t (pde_index va)"
  shows "table_frames (set_entry t va v) = table_frames t"
proof -
  have "dir (set_entry t va v) k = dir t k" if "table_entry t k" for k
    using dir_set_entry [OF assms] that by (simp add: table_entry_def)
  then show ?thesis by (force simp: table_frames_def table_entry_set_entry [OF assms])
qed

lemma set_entry_mem:
  assumes "paging_inv pd t" and "table_entry t (pde_index va)" and "page_of a \<notin> table_frames t"
  shows "vm_mem (set_entry t va v) a = vm_mem t a"
proof -
  let ?f = "page_of (dir t (pde_index va))"
  have "?f \<in> table_frames t" using assms(2) by (auto simp: table_frames_def)
  with assms(3) have "?f \<noteq> page_of a" by auto
  with same_frame_store32 [of "?f + pte_index va * 4" "page_of a"] show ?thesis
    by (simp add: set_entry_def same_frame_def entry_addr)
qed

lemma table_frames_new_table:
  assumes "installs pd s i p f"
  shows "table_frames (new_table s i p f) = insert f (table_frames s)"
proof -
  have d: "dir (new_table s i p f) k = (if k = i then f OR PAGING_FLAG_PRESENT OR PAGING_FLAG_WRITE else dir s k)"
    if "unat k < 1023" for k using installs_dir [OF assms, of k] that by simp
  have te: "table_entry s k \<Longrightarrow> unat k < 1023 \<and> k \<noteq> i" "unat i < 1023" for k
    using assms by (auto simp: table_entry_def installs_def)
  have "page_of (dir (new_table s i p f) i) = f"
    using d [OF te(2)] new_entry(3) [OF installs_frame(2) [OF assms]] by simp
  moreover have "page_of (dir (new_table s i p f) k) = page_of (dir s k)" if "table_entry s k" for k
    using d te(1) [OF that] by simp
  ultimately show ?thesis
    unfolding table_frames_def installs_table_entry [OF assms] new_table_fields by force
qed

lemma new_table_mem:
  assumes "installs pd s i p f" and "page_of a \<notin> table_frames (new_table s i p f)"
  shows "vm_mem (new_table s i p f) a = vm_mem s a"
proof -
  have i: "unat i < 1024" and inv: "paging_inv pd s" using assms(1) by (auto simp: installs_def)
  have "page_of a \<noteq> f" "page_of a \<noteq> vm_cr3 s"
    using assms(2) table_frames_new_table [OF assms(1)] by (auto simp: table_frames_def)
  then show ?thesis
    using same_frame_store32 [of "vm_cr3 s + i * 4" "page_of a"] entry_addr [OF pagingD(2) [OF inv] i]
    by (simp add: new_table_def same_frame_def)
qed

lemma ready_frames:
  assumes "ready pd s i t"
  shows "page_of a \<notin> table_frames t \<longrightarrow> vm_mem t a = vm_mem s a" and "vm_cr3 t = vm_cr3 s"
    and "vm_pmm t = vm_pmm s \<and> table_frames t = table_frames s
       \<or> (\<exists>f \<in> pmm_avail (vm_pmm s). pmm_avail (vm_pmm t) = pmm_avail (vm_pmm s) - {f}
            \<and> table_frames t = insert f (table_frames s))"
  using assms new_table_mem table_frames_new_table installs_frame(1,4) by (auto simp: ready_def)

text \<open>
  Addresses of one page translate alike, and an entry with flag bits only below bit 12 leads to
  the frame it was built from.
\<close>

lemma new_pte:
  assumes "page_aligned phys" and "page_of flags = 0"
  shows "present (phys OR (flags OR PAGING_FLAG_PRESENT))"
    and "writable (phys OR (flags OR PAGING_FLAG_PRESENT)) \<longleftrightarrow> writable flags"
    and "page_of (phys OR (flags OR PAGING_FLAG_PRESENT)) = phys"
  using assms aligned_flags [OF assms(1)] by (simp_all add: entry_flags)

lemma get_physical_eq:
  assumes "paging_inv pd s"
  shows "paging_get_physical pd va s = Some (case walk s False va of None \<Rightarrow> 0 | Some f \<Rightarrow> f)"
proof (cases "present (dir s (pde_index va))")
  case False
  then show ?thesis using read_dir [OF assms pde_index_less, of va]
    by (simp add: paging_get_physical_def Let_def flag_tests walk_table)
next
  case True
  have window: "walk s False (page_table_virt (pde_index va)) = Some (page_of (dir s (pde_index va)))"
  proof (cases rule: window_or_table [of va])
    case window
    then show ?thesis
      using page_table_virt [of 1023] pagingD(3,7-9) [OF assms]
      by (simp add: walk_table Let_def dir_def)
  next
    case table
    then show ?thesis using True by (intro walk_window [OF assms]) (simp add: table_entry_def)
  qed
  then have "vread32 s (page_table_virt (pde_index va) + pte_index va * 4)
    = Some (entry (vm_mem s) (page_of (dir s (pde_index va))) (pte_index va))"
    using page_table_virt(1) [of "pde_index va"] by (simp add: vread_entry)
  then show ?thesis using True read_dir [OF assms pde_index_less, of va]
    by (simp add: paging_get_physical_def Let_def flag_tests walk_table)
qed

lemma unmap_eq:
  assumes "paging_inv pd s" and "unat (pde_index va) < 1023"
  shows "paging_unmap_page pd va s =
    Some (if present (dir s (pde_index va)) then set_entry s va 0 else s)"
proof -
  have "table_entry s (pde_index va)" if "present (dir s (pde_index va))"
    using that assms(2) by (simp add: table_entry_def)
  then show ?thesis using read_dir [OF assms(1) pde_index_less, of va] window_write [OF assms(1)]
    by (auto simp: paging_unmap_page_def Let_def flag_tests)
qed

section \<open>From the boot tables to the recursive slot\<close>

text \<open>
  The tables of \<open>boot.S\<close> meet \<open>boot_tables\<close> once the identity map is gone and the allocator
  keeps both pages back.
\<close>

lemma boot_entries_tables:
  assumes "boot_entries pd pt False s" and "pmm_inv (vm_pmm s)"
    and "virt_to_phys pd \<notin> pmm_avail (vm_pmm s)" and "virt_to_phys pt \<notin> pmm_avail (vm_pmm s)"
  shows "boot_tables pd s"
proof -
  note D = boot_entriesD [OF assms(1)] and e = page_entry_3 [OF boot_entriesD(6) [OF assms(1)]]
  have pd: "pde_index pd = 768"
    using boot_placed_phys(4) assms(1) by (auto simp: boot_entries_def boot_placed_def)
  have te: "i = 768 \<and> dir s i = virt_to_phys pt OR 0x003" if "table_entry s i" for i
    using that D(8) [of i] by (auto simp: table_entry_def present_def split: if_splits)
  show ?thesis
    unfolding boot_tables_def D(4)
    using D(1,5,7) e pd assms(2-4) boot_walk_directory [OF assms(1), of True] te by auto
qed

lemma paging_init_step:
  assumes "boot_tables pd s"
  obtains s' where "paging_init pd s = Some s'" "paging_inv pd s'" "vm_pmm s' = vm_pmm s"
    and "\<And>x w. unat (pde_index x) < 1023 \<Longrightarrow> walk s' w x = walk s w x"
    and "\<And>i. unat i < 1023 \<Longrightarrow> dir s' i = dir s i"
    and "table_frames s' = table_frames s"
    and "\<And>a. page_of a \<noteq> vm_cr3 s \<Longrightarrow> vm_mem s' a = vm_mem s a"
proof -
  let ?v = "(virt_to_phys pd AND 0xFFFFF000) OR PAGING_FLAG_PRESENT OR PAGING_FLAG_WRITE"
  let ?s = "s\<lparr>vm_mem := store32 (vm_mem s) (vm_cr3 s + 1023 * 4) ?v\<rparr>"
  note b = assms [unfolded boot_tables_def]
  have small: "unat (1023::u32) < 1024" by simp
  have "page_aligned (vm_cr3 s)" "virt_to_phys pd = vm_cr3 s" using b by (blast intro: sym)+
  then have cr3: "page_aligned (vm_cr3 s)" "page_of (vm_cr3 s) = vm_cr3 s" "virt_to_phys pd = vm_cr3 s"
    using page_of_aligned by blast+
  have run: "paging_init pd s = Some ?s"
  proof -
    have "page_aligned pd" "walk s True pd = Some (vm_cr3 s)" using b by blast+
    then show ?thesis unfolding paging_init_def Let_def RECURSIVE_PD_INDEX_def
      by (simp only: vwrite_entry [OF _ small] option.map)
  qed
  obtain v where v_eq: "?v = v" by blast
  have v: "present v" "writable v" "page_of v = vm_cr3 s"
    using cr3(2) unfolding v_eq [symmetric] cr3(3) by (simp_all add: flag_tests entry_flags)
  obtain t where t: "?s = t" by blast
  have mem_t: "vm_mem t = store32 (vm_mem s) (vm_cr3 s + 1023 * 4) v"
    unfolding t [symmetric] v_eq by simp
  have fields: "vm_cr3 t = vm_cr3 s" "vm_pmm t = vm_pmm s" by (simp_all add: t [symmetric])
  have mem: "entry (vm_mem t) g j = (if vm_cr3 s = g \<and> 1023 = j then v else entry (vm_mem s) g j)"
    if "page_aligned g" "unat j < 1024" for g j
    using entry_store [OF cr3(1) that(1) small that(2)] by (simp only: mem_t)
  have d: "dir t i = (if i = 1023 then v else dir s i)" if "unat i < 1024" for i
    using that cr3(1,2) mem fields by (auto simp: dir_def)
  have d': "dir t i = dir s i" if "unat i < 1023" for i using that d [of i] by auto
  have te: "table_entry t i = table_entry s i" for i
    by (cases "unat i < 1023") (simp_all add: table_entry_def d')
  have walk: "walk t w x = walk s w x" if "unat (pde_index x) < 1023" for x w
  proof (cases "present (dir s (pde_index x))")
    case True
    then have "table_entry s (pde_index x)" using that by (simp add: table_entry_def)
    then have "page_of (dir s (pde_index x)) \<noteq> vm_cr3 s" using b by blast
    then show ?thesis unfolding walk_table [of t] walk_table [of s] d' [OF that]
      by (simp add: mem)
  next
    case False
    then show ?thesis unfolding walk_table [of t] walk_table [of s] d' [OF that] by simp
  qed
  have "unat (pde_index pd) < 1023" "walk s True pd = Some (vm_cr3 s)" using b by blast+
  then have "walk t True pd = Some (vm_cr3 s)" using walk by simp
  moreover have "table_entry s i \<Longrightarrow> dir t i = dir s i" for i using d' by (simp add: table_entry_def)
  ultimately have "boot_tables pd t" using b unfolding boot_tables_def te fields by metis
  then have "paging_inv pd t" using v d [OF small] fields by (simp add: paging_inv_def)
  moreover have "page_of (dir t i) = page_of (dir s i)" if "table_entry s i" for i
    using d' that by (simp add: table_entry_def)
  then have "table_frames t = table_frames s" unfolding table_frames_def te fields by force
  moreover have "vm_mem t a = vm_mem s a" if "page_of a \<noteq> vm_cr3 s" for a
    using same_frame_store32 [of "vm_cr3 s + 1023 * 4" "page_of a" "vm_mem s" v] entry_addr [OF cr3(1) small] that
    by (simp add: mem_t same_frame_def)
  ultimately show thesis using that [of t] run walk fields d' unfolding t by blast
qed

lemma paging_init_spec:
  assumes "boot_tables pd s"
  obtains s' where "paging_init pd s = Some s'" "paging_inv pd s'" "vm_pmm s' = vm_pmm s"
    and "\<And>x w. unat (pde_index x) < 1023 \<Longrightarrow> walk s' w x = walk s w x"
proof (cases rule: paging_init_step [OF assms])
  case (1 s')
  show thesis by (rule that [OF 1(1-4)])
qed

section \<open>An example address space\<close>

definition example_boot_vm :: vm where
  "example_boot_vm = \<lparr>vm_mem = store32 (boot_paging 0xC0110000 0xC0111000 (\<lambda>_. 0)) 0x110000 0,
     vm_cr3 = 0x110000, vm_pmm = example_pmm\<rparr>"

definition example_vm :: vm where
  "example_vm = the (paging_init 0xC0110000 example_boot_vm)"

lemma example_boot_entries: "boot_entries 0xC0110000 0xC0111000 False example_boot_vm"
proof -
  have placed: "boot_placed 0xC0110000 0xC0111000"
    by (simp add: boot_placed_def page_aligned_def off_of_def)
  have "cleared (\<lambda>_. 0) (virt_to_phys 0xC0110000)"
    by (simp add: cleared_def entry_def load32_def join32_def)
  note e = boot_paging_entries [OF placed this]
  have phys: "virt_to_phys 0xC0110000 = 0x110000" "virt_to_phys 0xC0111000 = 0x111000"
    by (simp_all add: virt_to_phys_def KERNEL_VIRTUAL_BASE_def)
  have al: "page_aligned 0x110000" "page_aligned 0x111000" by (simp_all add: page_aligned_def off_of_def)
  have z: "unat (0::u32) < 1024" by simp
  have "entry (store32 m 0x110000 0) g i = (if 0x110000 = g \<and> 0 = i then 0 else entry m g i)"
    if "page_aligned g" "unat i < 1024" for m g i
    using entry_store [OF al(1) that(1) z that(2), of m 0] by simp
  then show ?thesis
    using placed e phys al by (auto simp: boot_entries_def example_boot_vm_def)
qed

lemma example_boot_tables: "boot_tables 0xC0110000 example_boot_vm"
  by (rule boot_entries_tables [OF example_boot_entries])
    (simp_all add: example_boot_vm_def example_pmm_facts pmm_avail_def virt_to_phys_def
      KERNEL_VIRTUAL_BASE_def addr_to_frame_def PMM_PAGE_SIZE_def example_is_used)

lemma example_vm:
  "paging_inv 0xC0110000 example_vm" "vm_pmm example_vm = example_pmm"
  "unat (pde_index x) < 1023 \<Longrightarrow> walk example_vm w x =
     (if pde_index x = 768 then Some (if pte_index x = 1023 then 0xB8000 else pte_index x * 4096) else None)"
proof -
  obtain s' where s': "paging_init 0xC0110000 example_boot_vm = Some s'" "paging_inv 0xC0110000 s'"
    "vm_pmm s' = vm_pmm example_boot_vm"
    "\<And>x w. unat (pde_index x) < 1023 \<Longrightarrow> walk s' w x = walk example_boot_vm w x"
    using paging_init_spec [OF example_boot_tables] by blast
  then show "paging_inv 0xC0110000 example_vm" "vm_pmm example_vm = example_pmm"
    by (simp_all add: example_vm_def example_boot_vm_def)
  show "unat (pde_index x) < 1023 \<Longrightarrow> walk example_vm w x =
     (if pde_index x = 768 then Some (if pte_index x = 1023 then 0xB8000 else pte_index x * 4096) else None)"
    using s'(1,4) boot_walk [OF example_boot_entries] by (simp add: example_vm_def)
qed

lemma example_vm_boot_dir:
  assumes "unat i < 1023"
  shows "dir example_vm i = dir example_boot_vm i"
proof (cases rule: paging_init_step [OF example_boot_tables])
  case (1 s')
  show ?thesis using 1(5) [OF assms] by (simp add: example_vm_def 1(1))
qed

lemma example_vm_dir:
  assumes "unat i < 1023"
  shows "present (dir example_vm i) \<longleftrightarrow> i = 768"
proof -
  have "dir example_vm i = dir example_boot_vm i" using assms by (rule example_vm_boot_dir)
  then show ?thesis
    using boot_entriesD(8) [OF example_boot_entries, of i] assms
      page_entry_3(1) [OF boot_entriesD(6) [OF example_boot_entries]] by (auto simp: present_def)
qed

lemma example_table_frames: "table_frames example_vm = {0x110000, 0x111000}"
proof -
  have i: "table_entry example_vm i \<longleftrightarrow> i = 768" for i using example_vm_dir [of i] by (auto simp: table_entry_def)
  have "page_of (dir example_vm 768) = 0x111000"
    using boot_entriesD(8) [OF example_boot_entries, of 768] page_entry_3(3) [OF boot_entriesD(6) [OF example_boot_entries]]
    by (simp add: example_vm_boot_dir virt_to_phys_def KERNEL_VIRTUAL_BASE_def)
  moreover have "vm_cr3 example_vm = 0x110000"
    using pagingD(10) [OF example_vm(1)] by (simp add: virt_to_phys_def KERNEL_VIRTUAL_BASE_def)
  ultimately show ?thesis by (auto simp: table_frames_def i)
qed

text \<open>A page in a part of the address space that has no table yet is mapped with a table of its own.\<close>

lemma example_maps:
  obtains s' where "paging_map_page 0xC0110000 0xC2000000 0x300000 2 example_vm = Some (s', True)"
    "table_frames s' \<noteq> table_frames example_vm"
proof -
  have "page_aligned 0x300000" by (simp add: page_aligned_def off_of_def)
  moreover have "pmm_avail (vm_pmm example_vm) \<noteq> {}" using example_avail by (auto simp: example_vm(2))
  moreover have i: "pde_index 0xC2000000 = 776" "unat (pde_index 0xC2000000) < 1023" by (simp_all add: pde_index_def)
  ultimately obtain t where t: "paging_map_page 0xC0110000 0xC2000000 0x300000 2 example_vm
      = Some (set_entry t 0xC2000000 (0x300000 OR (2 OR PAGING_FLAG_PRESENT)), True)"
    "ready 0xC0110000 example_vm (pde_index 0xC2000000) t"
    using map_cases [OF example_vm(1) i(2), of "0x300000" 2] by blast
  have r: "paging_inv 0xC0110000 t" "table_entry t (pde_index 0xC2000000)" using t(2) by (simp_all add: ready_def)
  have "\<not> table_entry example_vm (pde_index 0xC2000000)" using example_vm_dir [OF i(2)] i(1) by (simp add: table_entry_def)
  then obtain p f where n: "installs 0xC0110000 example_vm (pde_index 0xC2000000) p f" "t = new_table example_vm (pde_index 0xC2000000) p f"
    using t(2) unfolding ready_def by blast
  have "f \<notin> table_frames example_vm" using installs_frame(6,7) [OF n(1)] by (auto simp: table_frames_def)
  then have "table_frames t \<noteq> table_frames example_vm" using table_frames_new_table [OF n(1)] n(2) by auto
  then show thesis using that [OF t(1)] table_frames_set_entry [OF r] by simp
qed

section \<open>Properties\<close>

text \<open>Mapping a page outside the recursive window and other than the directory's own never
  faults and keeps the tables consistent; it succeeds exactly when the frame is page aligned and
  the table exists or a frame is free for it, and a failed call changes nothing.\<close>

theorem paging_map_page_result:
  assumes "paging_inv pd s" and "mappable pd virt"
  shows "\<exists>s' ok. paging_map_page pd virt phys flags s = Some (s', ok) \<and> paging_inv pd s'
    \<and> (ok \<longleftrightarrow> page_aligned phys \<and> (present (dir s (pde_index virt)) \<or> pmm_avail (vm_pmm s) \<noteq> {}))
    \<and> (\<not> ok \<longrightarrow> s' = s)"
proof -
  have "unat (pde_index virt) < 1023" using assms(2) by (simp add: mappable_def)
  with assms(1) show ?thesis
  proof (cases rule: map_cases [of pd s virt phys flags])
    case fail
    then show ?thesis using assms(1) by auto
  next
    case (mapped t)
    then show ?thesis using paging_inv_set_entry [OF _ _ assms(2)] by (auto simp: ready_def)
  qed
qed

lemma example_mappable: "mappable 0xC0110000 0xC2000000" "mappable 0xC0110000 0xC2001000"
  by (simp_all add: mappable_def pde_index_def page_of_def)

theorem paging_map_page_result_witness:
  "\<exists>s'. paging_map_page 0xC0110000 0xC2000000 0x121000 2 example_vm = Some (s', True)
    \<and> paging_inv 0xC0110000 s'"
proof -
  have "page_aligned 0x121000" by (simp add: page_aligned_def off_of_def)
  moreover have "pmm_avail (vm_pmm example_vm) \<noteq> {}" using example_avail by (auto simp: example_vm(2))
  ultimately show ?thesis
    using paging_map_page_result [OF example_vm(1) example_mappable(1), of "0x121000" 2] by auto
qed

text \<open>C18: after a successful call the processor translates every address of the page to the frame,
  for writes only if the flags allow them, and every other address outside the recursive window
  as before.\<close>

theorem paging_map_page_translates:
  assumes "paging_inv pd s" and "mappable pd virt" and "page_of flags = 0"
    and "paging_map_page pd virt phys flags s = Some (s', True)" and "unat (pde_index x) < 1023"
  shows "translate s' w x =
    (if page_of x = page_of virt then if w \<and> \<not> writable flags then None else Some (phys + off_of x)
     else translate s w x)"
proof -
  have i: "unat (pde_index virt) < 1023" using assms(2) by (simp add: mappable_def)
  show ?thesis
  proof (cases rule: map_cases [OF assms(1) i, of phys flags])
    case 1
    then show ?thesis using assms(4) by simp
  next
    case (2 t)
    then have s': "s' = set_entry t virt (phys OR (flags OR PAGING_FLAG_PRESENT))"
      and t: "paging_inv pd t" "table_entry t (pde_index virt)"
      using assms(4) by (simp_all add: ready_def)
    note new = new_pte [OF 2(2) assms(3)]
    show ?thesis
    proof (cases "page_of x = page_of virt")
      case True
      then show ?thesis
        using walk_set_entry [OF t True] new by (simp add: translate_def s')
    next
      case False
      then show ?thesis
        using walk_set_entry_other [OF t False] ready_walk [OF 2(4) assms(5)] False by (simp add: translate_def s')
    qed
  qed
qed

theorem paging_map_page_translates_witness:
  "\<exists>s'. paging_map_page 0xC0110000 0xC2000000 0x121000 2 example_vm = Some (s', True)
    \<and> translate s' True 0xC2000004 = Some 0x121004 \<and> translate s' True 0xC0110008 = Some 0x110008"
proof -
  have "page_aligned 0x121000" by (simp add: page_aligned_def off_of_def)
  moreover have "pmm_avail (vm_pmm example_vm) \<noteq> {}" using example_avail by (auto simp: example_vm(2))
  ultimately obtain s' where s': "paging_map_page 0xC0110000 0xC2000000 0x121000 2 example_vm = Some (s', True)"
    using map_cases [OF example_vm(1), of "0xC2000000" "0x121000" 2] example_mappable(1)
    by (auto simp: mappable_def)
  have f: "page_of 2 = 0" "writable 2" by (simp_all add: page_of_def writable_def)
  note t = paging_map_page_translates [OF example_vm(1) example_mappable(1) f(1) s']
  have "walk example_vm True 0xC0110008 = Some 0x110000"
    by (subst example_vm(3)) (simp_all add: pde_index_def pte_index_def)
  then show ?thesis using s' t [of "0xC2000004" True] t [of "0xC0110008" True] f(2)
    by (simp add: page_of_def off_of_def pde_index_def translate_def)
qed

text \<open>C19: a call that maps a page writes only to the frames that hold the directory or a table,
  takes at most one frame from the allocator, and only to make it a table.\<close>

theorem paging_map_page_frame:
  assumes "paging_inv pd s" and "mappable pd virt"
    and "paging_map_page pd virt phys flags s = Some (s', ok)"
  shows "(page_of a \<notin> table_frames s' \<longrightarrow> vm_mem s' a = vm_mem s a) \<and> vm_cr3 s' = vm_cr3 s
    \<and> (vm_pmm s' = vm_pmm s \<and> table_frames s' = table_frames s
       \<or> (\<exists>f \<in> pmm_avail (vm_pmm s). pmm_avail (vm_pmm s') = pmm_avail (vm_pmm s) - {f}
            \<and> table_frames s' = insert f (table_frames s)))"
proof -
  have i: "unat (pde_index virt) < 1023" using assms(2) by (simp add: mappable_def)
  show ?thesis
  proof (cases rule: map_cases [OF assms(1) i, of phys flags])
    case 1
    then show ?thesis using assms(3) by simp
  next
    case (2 t)
    then have t: "paging_inv pd t" "table_entry t (pde_index virt)" by (simp_all add: ready_def)
    have "s' = set_entry t virt (phys OR (flags OR PAGING_FLAG_PRESENT))" using 2 assms(3) by simp
    then show ?thesis
      using ready_frames [OF 2(4)] set_entry_mem [OF t] table_frames_set_entry [OF t] by simp
  qed
qed

theorem paging_map_page_frame_witness:
  "\<exists>s' f. paging_map_page 0xC0110000 0xC2000000 0x300000 2 example_vm = Some (s', True)
    \<and> f \<in> pmm_avail example_pmm \<and> pmm_avail (vm_pmm s') = pmm_avail example_pmm - {f}
    \<and> table_frames s' = {f, 0x110000, 0x111000} \<and> vm_mem s' 0xB8000 = vm_mem example_vm 0xB8000"
proof -
  obtain s' where s': "paging_map_page 0xC0110000 0xC2000000 0x300000 2 example_vm = Some (s', True)"
    "table_frames s' \<noteq> table_frames example_vm" by (rule example_maps)
  note r = paging_map_page_frame [OF example_vm(1) example_mappable(1) s'(1), where a = "0xB8000"]
  obtain f where f: "f \<in> pmm_avail example_pmm" "pmm_avail (vm_pmm s') = pmm_avail example_pmm - {f}"
    "table_frames s' = {f, 0x110000, 0x111000}"
    using r s'(2) unfolding example_vm(2) example_table_frames by blast
  have "0xB8000 \<notin> pmm_avail example_pmm"
    by (simp add: pmm_avail_def addr_to_frame_def PMM_PAGE_SIZE_def example_is_used)
  then have "page_of 0xB8000 \<notin> table_frames s'" using f(1,3) by (auto simp: page_of_def)
  then have "vm_mem s' 0xB8000 = vm_mem example_vm 0xB8000" using r by blast
  with s'(1) f show ?thesis by blast
qed

text \<open>\<open>paging_get_physical\<close> returns the frame the processor's walk reaches, and 0 where it
  faults, for every address.\<close>

theorem paging_get_physical_walk:
  assumes "paging_inv pd s"
  shows "paging_get_physical pd va s = Some (case walk s False va of None \<Rightarrow> 0 | Some f \<Rightarrow> f)"
  using assms by (rule get_physical_eq)

theorem paging_get_physical_walk_witness:
  "paging_get_physical 0xC0110000 0xC0123456 example_vm = Some 0x123000
   \<and> paging_get_physical 0xC0110000 0xC1000000 example_vm = Some 0"
proof -
  have "walk example_vm False 0xC0123456 = Some 0x123000" "walk example_vm False 0xC1000000 = None"
    by (subst example_vm(3), simp_all add: pde_index_def pte_index_def)+
  then show ?thesis using paging_get_physical_walk [OF example_vm(1)] by simp
qed

text \<open>C20: unmapping never faults, keeps the tables consistent and takes no frame; afterwards the
  page faults, reads back as 0, and every other address outside the window translates as before.\<close>

theorem paging_unmap_page_translates:
  assumes "paging_inv pd s" and "mappable pd virt"
  shows "\<exists>s'. paging_unmap_page pd virt s = Some s' \<and> paging_inv pd s' \<and> vm_pmm s' = vm_pmm s
    \<and> paging_get_physical pd virt s' = Some 0
    \<and> (\<forall>x w. unat (pde_index x) < 1023 \<longrightarrow>
         translate s' w x = (if page_of x = page_of virt then None else translate s w x))"
proof -
  have i: "unat (pde_index virt) < 1023" using assms(2) by (simp add: mappable_def)
  show ?thesis
  proof (cases "present (dir s (pde_index virt))")
    case True
    then have te: "table_entry s (pde_index virt)" using i by (simp add: table_entry_def)
    note inv = paging_inv_set_entry [OF assms(1) te assms(2), of 0]
    have "walk (set_entry s virt 0) w x = (if page_of x = page_of virt then None else walk s w x)" for w x
      using walk_set_entry [OF assms(1) te] walk_set_entry_other [OF assms(1) te]
      by (simp add: present_def)
    then show ?thesis
      using True inv by (simp add: unmap_eq [OF assms(1) i] get_physical_eq translate_def)
  next
    case False
    then have "walk s w x = None" if "page_of x = page_of virt" for w x
      using indices_eq [OF that] by (simp add: walk_table)
    then show ?thesis
      using False assms(1) by (simp add: unmap_eq [OF assms(1) i] get_physical_eq translate_def)
  qed
qed

theorem paging_unmap_page_translates_witness:
  "\<exists>s'. paging_unmap_page 0xC0110000 0xC0123000 example_vm = Some s' \<and> translate s' False 0xC0123456 = None
    \<and> translate s' False 0xC0124456 = Some 0x124456"
proof -
  have "mappable 0xC0110000 0xC0123000" by (simp add: mappable_def pde_index_def page_of_def)
  from paging_unmap_page_translates [OF example_vm(1) this]
  obtain s' where s': "paging_unmap_page 0xC0110000 0xC0123000 example_vm = Some s'"
    "\<forall>x w. unat (pde_index x) < 1023 \<longrightarrow>
       translate s' w x = (if page_of x = page_of 0xC0123000 then None else translate example_vm w x)"
    by auto
  have "walk example_vm False 0xC0124456 = Some 0x124000"
    by (subst example_vm(3)) (simp_all add: pde_index_def pte_index_def)
  then show ?thesis using s'(1) s'(2) [rule_format, of "0xC0123456" False]
      s'(2) [rule_format, of "0xC0124456" False]
    by (simp add: page_of_def off_of_def pde_index_def translate_def)
qed

text \<open>A page that was mapped reads back as its frame, and mapping then unmapping it leaves the
  translation of every other address as it was.\<close>

theorem paging_map_unmap_roundtrip:
  assumes "paging_inv pd s" and "mappable pd virt" and "page_of flags = 0"
    and "paging_map_page pd virt phys flags s = Some (s', True)"
  shows "paging_get_physical pd virt s' = Some phys
    \<and> (\<exists>t. paging_unmap_page pd virt s' = Some t \<and> paging_get_physical pd virt t = Some 0
        \<and> (\<forall>x w. unat (pde_index x) < 1023 \<and> page_of x \<noteq> page_of virt \<longrightarrow>
             translate t w x = translate s w x))"
proof -
  have i: "unat (pde_index virt) < 1023" using assms(2) by (simp add: mappable_def)
  show ?thesis
  proof (cases rule: map_cases [OF assms(1) i, of phys flags])
    case 1
    then show ?thesis using assms(4) by simp
  next
    case (2 t)
    then have s': "s' = set_entry t virt (phys OR (flags OR PAGING_FLAG_PRESENT))"
      and t: "paging_inv pd t" "table_entry t (pde_index virt)"
      using assms(4) by (simp_all add: ready_def)
    note inv = paging_inv_set_entry [OF t assms(2), of "phys OR (flags OR PAGING_FLAG_PRESENT)", folded s']
    have te: "table_entry s' (pde_index virt)" by (simp add: s' table_entry_set_entry [OF t] t(2))
    have "walk (set_entry s' virt 0) w x = (if page_of x = page_of virt then None else walk s w x)"
      if "unat (pde_index x) < 1023" for w x
      using walk_set_entry [OF inv te] walk_set_entry_other [OF inv te] walk_set_entry_other [OF t]
        ready_walk [OF 2(4) that] by (simp add: present_def s')
    moreover have "walk s' False virt = Some phys"
      using walk_set_entry [OF t refl] new_pte [OF 2(2) assms(3)] by (simp add: s')
    ultimately show ?thesis
      using te paging_inv_set_entry [OF inv te assms(2), of 0] i
      by (auto simp: unmap_eq [OF inv i] get_physical_eq [OF inv] get_physical_eq table_entry_def
          translate_def)
  qed
qed

theorem paging_map_unmap_roundtrip_witness:
  "\<exists>s'. paging_map_page 0xC0110000 0xC2000000 0x122000 2 example_vm = Some (s', True)
    \<and> paging_get_physical 0xC0110000 0xC2000000 s' = Some 0x122000"
proof -
  have "page_aligned 0x122000" by (simp add: page_aligned_def off_of_def)
  moreover have "pmm_avail (vm_pmm example_vm) \<noteq> {}" using example_avail by (auto simp: example_vm(2))
  ultimately obtain s' where s': "paging_map_page 0xC0110000 0xC2000000 0x122000 2 example_vm = Some (s', True)"
    using map_cases [OF example_vm(1), of "0xC2000000" "0x122000" 2] example_mappable(1)
    by (auto simp: mappable_def)
  have "page_of 2 = 0" by (simp add: page_of_def)
  from paging_map_unmap_roundtrip [OF example_vm(1) example_mappable(1) this s'] s' show ?thesis by blast
qed

text \<open>From the tables \<open>boot.S\<close> leaves, \<open>paging_init\<close> never faults, establishes the invariant
  of the recursive slot, and changes no translation below the window.\<close>

theorem paging_init_establishes:
  assumes "boot_entries pd pt True s" and "pmm_inv (vm_pmm s)"
    and "virt_to_phys pd \<notin> pmm_avail (vm_pmm s)" and "virt_to_phys pt \<notin> pmm_avail (vm_pmm s)"
  shows "\<exists>t s'. boot_drop_identity pd s = Some t \<and> paging_init pd t = Some s' \<and> paging_inv pd s'
    \<and> (\<forall>x w. unat (pde_index x) < 1023 \<longrightarrow>
         translate s' w x = (if pde_index x = 0 then None else boot_translate x))"
proof -
  obtain t where t: "boot_drop_identity pd s = Some t" "boot_entries pd pt False t" "vm_pmm t = vm_pmm s"
    using boot_drop_identity_entries [OF assms(1)] by blast
  then have "boot_tables pd t" using assms(2-4) by (intro boot_entries_tables [OF t(2)]) simp_all
  then obtain s' where s': "paging_init pd t = Some s'" "paging_inv pd s'"
    "\<And>x w. unat (pde_index x) < 1023 \<Longrightarrow> walk s' w x = walk t w x"
    using paging_init_spec by blast
  have "translate s' w x = (if pde_index x = 0 then None else boot_translate x)"
    if "unat (pde_index x) < 1023" for x w
    using s'(3) [OF that] boot_walk [OF t(2)]
    by (simp add: translate_def boot_translate_def Let_def pde_index_def pte_index_def)
  then show ?thesis using t(1) s'(1,2) by blast
qed

theorem paging_init_establishes_witness:
  "\<exists>t s'. boot_drop_identity 0xC0110000 \<lparr>vm_mem = boot_paging 0xC0110000 0xC0111000 (\<lambda>_. 0),
       vm_cr3 = 0x110000, vm_pmm = example_pmm\<rparr> = Some t
    \<and> paging_init 0xC0110000 t = Some s' \<and> paging_inv 0xC0110000 s'"
proof -
  let ?s = "\<lparr>vm_mem = boot_paging 0xC0110000 0xC0111000 (\<lambda>_. 0), vm_cr3 = 0x110000, vm_pmm = example_pmm\<rparr>"
  have phys: "virt_to_phys 0xC0110000 = 0x110000" "virt_to_phys 0xC0111000 = 0x111000"
    by (simp_all add: virt_to_phys_def KERNEL_VIRTUAL_BASE_def)
  have placed: "boot_placed 0xC0110000 0xC0111000"
    by (simp add: boot_placed_def page_aligned_def off_of_def)
  have "cleared (\<lambda>_. 0) (virt_to_phys 0xC0110000)"
    by (simp add: cleared_def entry_def load32_def join32_def)
  from boot_paging_entries [OF placed this] placed have "boot_entries 0xC0110000 0xC0111000 True ?s"
    by (auto simp: boot_entries_def phys)
  moreover have "pmm_inv (vm_pmm ?s)" "virt_to_phys 0xC0110000 \<notin> pmm_avail (vm_pmm ?s)"
    "virt_to_phys 0xC0111000 \<notin> pmm_avail (vm_pmm ?s)"
    by (simp_all add: phys example_pmm_facts pmm_avail_def addr_to_frame_def PMM_PAGE_SIZE_def example_is_used)
  ultimately show ?thesis using paging_init_establishes by blast
qed

end
