(* ===== verification/Region.thy ===== *)
theory Region
  imports Paging
begin

text \<open>
  A stretch of kernel virtual memory that is backed by frames of its own: every page mapped
  writable, no frame behind two pages, none of them a page table or free in the allocator. Loads
  and stores inside it never fault and behave like an array; the recursive page tables are out of
  their reach. The heap lives in such a region and grows it a page at a time.
\<close>

section \<open>Writes outside the tables\<close>

lemma frames_table:
  "vm_cr3 s \<in> table_frames s" "table_entry s i \<Longrightarrow> page_of (dir s i) \<in> table_frames s"
  by (auto simp: table_frames_def)

definition tables_kept :: "vm \<Rightarrow> memory \<Rightarrow> bool" where
  "tables_kept s m \<longleftrightarrow> (\<forall>g \<in> table_frames s. same_frame g (vm_mem s) m)"

lemma tables_kept_dir:
  assumes "paging_inv pd s" and "tables_kept s m" and "unat i < 1024"
  shows "dir (s\<lparr>vm_mem := m\<rparr>) i = dir s i"
proof -
  have "same_frame (vm_cr3 s) (vm_mem s) m" using assms(2) frames_table(1) by (auto simp: tables_kept_def)
  then show ?thesis
    using entry_same_frame [of "vm_cr3 s"] pagingD(2,3) [OF assms(1)] assms(3) by (simp add: dir_def)
qed

lemma tables_kept_entries:
  assumes "paging_inv pd s" and "tables_kept s m"
  shows "table_entry (s\<lparr>vm_mem := m\<rparr>) i = table_entry s i"
    and "table_frames (s\<lparr>vm_mem := m\<rparr>) = table_frames s"
proof -
  have d: "dir (s\<lparr>vm_mem := m\<rparr>) i = dir s i" if "unat i < 1023" for i
    using tables_kept_dir [OF assms] that by simp
  show e: "table_entry (s\<lparr>vm_mem := m\<rparr>) i = table_entry s i" for i
    using d [of i] by (auto simp: table_entry_def)
  have "page_of (dir (s\<lparr>vm_mem := m\<rparr>) i) = page_of (dir s i)" if "table_entry s i" for i
    using d that by (simp add: table_entry_def)
  then show "table_frames (s\<lparr>vm_mem := m\<rparr>) = table_frames s"
    unfolding table_frames_def e by force
qed

lemma tables_kept_walk:
  assumes "paging_inv pd s" and "tables_kept s m"
  shows "walk (s\<lparr>vm_mem := m\<rparr>) w x = walk s w x"
proof (cases "present (dir s (pde_index x))")
  case True
  have "page_of (dir s (pde_index x)) \<in> table_frames s"
  proof (cases rule: window_or_table [of x])
    case window
    then show ?thesis using pagingD(9) [OF assms(1)] frames_table(1) by simp
  next
    case table
    then show ?thesis using True by (intro frames_table(2)) (simp add: table_entry_def)
  qed
  then show ?thesis
    using assms(2) frames_table(1) [of s] pagingD(3) [OF assms(1)]
    by (intro walk_same) (simp_all add: tables_kept_def)
next
  case False
  then show ?thesis
    using tables_kept_dir [OF assms pde_index_less, of x]
    unfolding walk_table [of "s\<lparr>vm_mem := m\<rparr>"] walk_table [of s] by simp
qed

lemma tables_kept_inv:
  assumes "paging_inv pd s" and "tables_kept s m"
  shows "paging_inv pd (s\<lparr>vm_mem := m\<rparr>)"
proof -
  let ?t = "s\<lparr>vm_mem := m\<rparr>"
  have d: "dir ?t i = dir s i" if "table_entry s i" for i
    using tables_kept_dir [OF assms] that by (simp add: table_entry_def)
  have d1023: "dir ?t 1023 = dir s 1023" by (rule tables_kept_dir [OF assms]) simp
  note w = tables_kept_walk [OF assms] and te = tables_kept_entries(1) [OF assms]
  have own: "\<forall>i. table_entry s i \<longrightarrow> writable (dir ?t i) \<and> page_of (dir ?t i) \<noteq> vm_cr3 s
      \<and> page_of (dir ?t i) \<notin> pmm_avail (vm_pmm s)"
    using table_entryD(1-3) [OF assms(1)] d by metis
  have inj: "\<forall>i j. table_entry s i \<and> table_entry s j \<and> page_of (dir ?t i) = page_of (dir ?t j) \<longrightarrow> i = j"
    using table_entryD(6) [OF assms(1)] d by metis
  have f: "vm_cr3 ?t = vm_cr3 s" "vm_pmm ?t = vm_pmm s" by simp_all
  show ?thesis
    unfolding paging_inv_def boot_tables_def te w f d1023
    using pagingD [OF assms(1)] own inj by blast
qed

text \<open>The allocator's state matters only for the frames it could hand out.\<close>

lemma paging_inv_pmm:
  assumes "paging_inv pd s" and "pmm_inv p" and "pmm_avail p \<inter> table_frames s = {}"
  shows "paging_inv pd (s\<lparr>vm_pmm := p\<rparr>)"
proof -
  have te: "table_entry (s\<lparr>vm_pmm := p\<rparr>) i = table_entry s i" for i by (simp add: table_entry_def)
  have f: "vm_cr3 (s\<lparr>vm_pmm := p\<rparr>) = vm_cr3 s" "vm_pmm (s\<lparr>vm_pmm := p\<rparr>) = p" by simp_all
  have own: "\<forall>i. table_entry s i \<longrightarrow> writable (dir s i) \<and> page_of (dir s i) \<noteq> vm_cr3 s
      \<and> page_of (dir s i) \<notin> pmm_avail p"
    using table_entryD(1,2) [OF assms(1)] assms(3) frames_table(2) by blast
  have inj: "\<forall>i j. table_entry s i \<and> table_entry s j \<and> page_of (dir s i) = page_of (dir s j) \<longrightarrow> i = j"
    using table_entryD(6) [OF assms(1)] by metis
  have "vm_cr3 s \<notin> pmm_avail p" using assms(3) frames_table(1) by blast
  then show ?thesis
    unfolding paging_inv_def boot_tables_def te walk_pmm dir_pmm f
    using pagingD [OF assms(1)] own inj assms(2) by blast
qed

lemma table_frames_avail: "paging_inv pd s \<Longrightarrow> pmm_avail (vm_pmm s) \<inter> table_frames s = {}"
  using pagingD(6) table_entryD(3) by (auto simp: table_frames_def)

lemma table_frames_pmm [simp]: "table_frames (s\<lparr>vm_pmm := p\<rparr>) = table_frames s"
  by (simp add: table_frames_def table_entry_def)

section \<open>Regions\<close>

definition within :: "u32 \<Rightarrow> u32 \<Rightarrow> u32 \<Rightarrow> bool" where
  "within lo hi va \<longleftrightarrow> lo \<le> va \<and> va < hi"

definition region :: "u32 \<Rightarrow> u32 \<Rightarrow> u32 \<Rightarrow> vm \<Rightarrow> bool" where
  "region pd lo hi s \<longleftrightarrow> paging_inv pd s \<and> page_aligned lo \<and> page_aligned hi \<and> lo \<le> hi
     \<and> (\<forall>va. within lo hi va \<longrightarrow> (\<exists>f. walk s True va = Some f \<and> f \<notin> table_frames s \<and> f \<notin> pmm_avail (vm_pmm s)))
     \<and> (\<forall>va vb. within lo hi va \<and> within lo hi vb \<and> walk s True va = walk s True vb \<longrightarrow> page_of va = page_of vb)"

lemma regionD:
  assumes "region pd lo hi s"
  shows "paging_inv pd s" "page_aligned lo" "page_aligned hi" "lo \<le> hi"
    and "within lo hi va \<Longrightarrow> within lo hi vb \<Longrightarrow> walk s True va = walk s True vb \<Longrightarrow> page_of va = page_of vb"
  using assms unfolding region_def by blast+

lemma regionE:
  assumes "region pd lo hi s" and "within lo hi va"
  obtains f where "\<And>w. walk s w va = Some f" "f \<notin> table_frames s" "f \<notin> pmm_avail (vm_pmm s)" "page_aligned f"
proof -
  obtain f where f: "walk s True va = Some f" "f \<notin> table_frames s" "f \<notin> pmm_avail (vm_pmm s)"
    using assms unfolding region_def by blast
  then show thesis using walk_write_read walk_aligned that by metis
qed

lemma within_page:
  assumes "page_aligned lo" and "page_aligned hi" and "page_of x = page_of y"
  shows "within lo hi x \<longleftrightarrow> within lo hi y"
proof -
  have e: "unat x div 4096 = unat y div 4096" using assms(3) by (simp only: page_of_eq_iff)
  obtain k l where k: "unat lo = 4096 * k" and l: "unat hi = 4096 * l"
    using assms(1,2) by (metis page_alignedE)
  have "within lo hi z \<longleftrightarrow> k \<le> unat z div 4096 \<and> unat z div 4096 < l" for z
    unfolding within_def word_le_nat_alt word_less_nat_alt k l
    by (simp add: less_eq_div_iff_mult_less_eq div_less_iff_less_mult mult.commute)
  with e show ?thesis by simp
qed

lemma region_read8: "region pd lo hi s \<Longrightarrow> within lo hi va \<Longrightarrow> \<exists>b. vread8 s va = Some b"
  by (erule (1) regionE) (simp add: vread8_def translate_def)

lemma region_read32:
  assumes "region pd lo hi s" and "within lo hi va" and "word_aligned va"
  shows "\<exists>v. vread32 s va = Some v"
  using assms by (auto simp: vread32_walk elim!: regionE)

text \<open>A store to bytes of one page of the region: physical memory \<open>m\<close> differs only in its frame.\<close>

lemma region_store:
  assumes "region pd lo hi s" and "within lo hi va" and "walk s True va = Some f"
    and "\<And>g. g \<noteq> f \<Longrightarrow> same_frame g (vm_mem s) m"
  shows "region pd lo hi (s\<lparr>vm_mem := m\<rparr>)" and "tables_kept s m"
proof -
  have "f \<notin> table_frames s" using assms(2,3) regionE [OF assms(1)] by (metis option.inject)
  then show k: "tables_kept s m" using assms(4) unfolding tables_kept_def by metis
  note inv = regionD(1) [OF assms(1)]
  show "region pd lo hi (s\<lparr>vm_mem := m\<rparr>)"
    using assms(1) tables_kept_inv [OF inv k]
    unfolding region_def tables_kept_walk [OF inv k] tables_kept_entries(2) [OF inv k] by simp
qed

lemma region_write8:
  assumes "region pd lo hi s" and "within lo hi va"
  shows "\<exists>s'. vwrite8 s va b = Some s' \<and> region pd lo hi s' \<and> vm_pmm s' = vm_pmm s
    \<and> (\<forall>x. within lo hi x \<longrightarrow> vread8 s' x = (if x = va then Some b else vread8 s x))"
proof -
  obtain f where f: "\<And>w. walk s w va = Some f" "page_aligned f"
    using regionE [OF assms] by blast
  let ?p = "f + off_of va"
  let ?m = "(vm_mem s)(?p := b)"
  have p: "page_of ?p = f" "off_of ?p = off_of va" using f(2) by (simp_all add: pages unat_off_of)
  have other: "same_frame g (vm_mem s) ?m" if "g \<noteq> f" for g
    using that p by (auto simp: same_frame_def)
  note st = region_store [OF assms f(1) other] and inv = regionD(1) [OF assms(1)]
  have "vread8 (s\<lparr>vm_mem := ?m\<rparr>) x = (if x = va then Some b else vread8 s x)" if x: "within lo hi x" for x
  proof -
    obtain g where g: "\<And>w. walk s w x = Some g" "page_aligned g"
      using regionE [OF assms(1) x] by blast
    have "g + off_of x = ?p \<longleftrightarrow> x = va"
    proof
      assume e: "g + off_of x = ?p"
      have "page_of (g + off_of x) = g" "off_of (g + off_of x) = off_of x"
        using g(2) by (simp_all add: pages unat_off_of)
      with e p have "g = f" "off_of x = off_of va" by simp_all
      then show "x = va" using regionD(5) [OF assms(1) x assms(2)] f(1) g(1) by (simp add: addr_eqI)
    qed (use f(1) g(1) in auto)
    then show ?thesis
      using g(1) by (auto simp: vread8_def translate_def tables_kept_walk [OF inv st(2)])
  qed
  moreover have "vwrite8 s va b = Some (s\<lparr>vm_mem := ?m\<rparr>)"
    using f(1) by (simp add: vwrite8_def translate_def)
  ultimately show ?thesis using st(1) by auto
qed

lemma region_write32:
  assumes "region pd lo hi s" and "within lo hi va" and "word_aligned va"
  shows "\<exists>s'. vwrite32 s va v = Some s' \<and> region pd lo hi s' \<and> vm_pmm s' = vm_pmm s
    \<and> vread32 s' va = Some v
    \<and> (\<forall>x. within lo hi x \<and> (\<forall>i. unat i < 4 \<longrightarrow> x \<noteq> va + i) \<longrightarrow> vread8 s' x = vread8 s x)"
proof -
  obtain f where f: "\<And>w. walk s w va = Some f" "page_aligned f"
    using regionE [OF assms(1,2)] by blast
  let ?p = "f + off_of va"
  let ?m = "store32 (vm_mem s) ?p v"
  have off: "unat (off_of va) mod 4 = 0"
  proof -
    have "unat va mod 4 = 0" using assms(3) by (simp add: word_aligned_def)
    then show ?thesis by (simp add: unat_off_of mod_mod_cancel)
  qed
  have p: "page_of ?p = f" "off_of ?p = off_of va" using f(2) by (simp_all add: pages unat_off_of)
  have "unat ?p mod 4 = 0"
    using off f(2) by (auto simp: unat_base_plus unat_off_of elim!: page_alignedE)
  then have wp: "word_aligned ?p" by (simp add: word_aligned_def)
  have other: "same_frame g (vm_mem s) ?m" if "g \<noteq> f" for g
    using that p by (intro same_frame_store32 [OF wp]) auto
  note st = region_store [OF assms(1,2) f(1) other] and inv = regionD(1) [OF assms(1)]
  have "vread8 (s\<lparr>vm_mem := ?m\<rparr>) x = vread8 s x"
    if x: "within lo hi x" and ne: "\<forall>i. unat i < 4 \<longrightarrow> x \<noteq> va + i" for x
  proof -
    obtain g where g: "\<And>w. walk s w x = Some g" "page_aligned g"
      using regionE [OF assms(1) x] by blast
    have gx: "page_of (g + off_of x) = g" "off_of (g + off_of x) = off_of x"
      using g(2) by (simp_all add: pages unat_off_of)
    have "g + off_of x \<noteq> ?p + j" if j: "unat j < 4" for j
    proof
      assume e: "g + off_of x = ?p + j"
      have "g = f" using e gx(1) aligned_plus(1) [OF wp j] p(1) by simp
      then have pg: "page_of x = page_of va"
        using regionD(5) [OF assms(1) x assms(2)] f(1) g(1) by simp
      have "off_of x = off_of (va + j)"
        using e gx(2) aligned_plus(2) [OF wp j] aligned_plus(2) [OF assms(3) j] p(2) by simp
      then have "x = va + j" using pg aligned_plus(1) [OF assms(3) j] by (simp add: addr_eqI)
      then show False using ne j by blast
    qed
    then have "store32 (vm_mem s) ?p v (g + off_of x) = vm_mem s (g + off_of x)"
      by (rule store32_other)
    then show ?thesis using g(1) by (simp add: vread8_def translate_def tables_kept_walk [OF inv st(2)])
  qed
  moreover have "vwrite32 s va v = Some (s\<lparr>vm_mem := ?m\<rparr>)"
    using f(1) by (simp add: vwrite32_walk [OF assms(3)])
  moreover have "vread32 (s\<lparr>vm_mem := ?m\<rparr>) va = Some v"
    using f(1) tables_kept_walk [OF inv st(2)] by (simp add: vread32_walk [OF assms(3)])
  ultimately show ?thesis using st(1) by auto
qed

section \<open>Growing a region\<close>

lemma pde_index_mono: "x \<le> y \<Longrightarrow> unat (pde_index x) \<le> unat (pde_index y)"
  by (simp add: unat_pde_index word_le_nat_alt div_le_mono)

lemma within_grow:
  assumes "page_aligned hi" and "unat (pde_index hi) < 1023" and "lo \<le> hi"
  shows "unat (hi + 4096) = unat hi + 4096" and "page_aligned (hi + 4096)"
    and "within lo (hi + 4096) x \<longleftrightarrow> within lo hi x \<or> page_of x = hi"
proof -
  have "unat hi < 4290772992"
    using assms(2) unfolding unat_pde_index by (simp add: div_less_iff_less_mult)
  then show u: "unat (hi + 4096) = unat hi + 4096" by (subst unat_plus_small) simp_all
  obtain k where k: "unat hi = 4096 * k" using assms(1) by (rule page_alignedE)
  then have "unat (hi + 4096) = 4096 * (k + 1)" using u by simp
  then show "page_aligned (hi + 4096)" by (simp add: page_aligned_unat)
  have "page_of x = hi \<longleftrightarrow> unat x div 4096 = k"
    using page_of_eq_iff [of x hi] page_of_aligned [OF assms(1)] k by simp
  moreover have "unat lo \<le> 4096 * k" using assms(3) k by (simp add: word_le_nat_alt)
  moreover have "unat x div 4096 = k \<longleftrightarrow> 4096 * k \<le> unat x \<and> unat x < 4096 * k + 4096"
    by (auto simp: less_mult_imp_div_less div_nat_eqI)
  ultimately show "within lo (hi + 4096) x \<longleftrightarrow> within lo hi x \<or> page_of x = hi"
    unfolding within_def word_le_nat_alt word_less_nat_alt u k by linarith
qed

lemma region_reads_same:
  assumes "region pd lo hi s" and "within lo hi x"
    and "\<And>w. walk s' w x = walk s w x"
    and "\<And>a. page_of a \<notin> table_frames s' \<Longrightarrow> vm_mem s' a = vm_mem s a"
    and "table_frames s' \<subseteq> table_frames s \<union> pmm_avail (vm_pmm s)"
  shows "vread8 s' x = vread8 s x"
proof -
  obtain f where f: "\<And>w. walk s w x = Some f" "f \<notin> table_frames s" "f \<notin> pmm_avail (vm_pmm s)" "page_aligned f"
    using regionE [OF assms(1,2)] by blast
  have "page_of (f + off_of x) = f" using f(4) by (simp add: pages unat_off_of)
  moreover have "f \<notin> table_frames s'" using f(2,3) assms(5) by blast
  ultimately have "vm_mem s' (f + off_of x) = vm_mem s (f + off_of x)" using assms(4) by simp
  then show ?thesis using f(1) assms(3) by (simp add: vread8_def translate_def)
qed

lemma region_pmm:
  assumes "region pd lo hi s" and "pmm_inv p" and "pmm_avail p \<subseteq> pmm_avail (vm_pmm s)"
  shows "region pd lo hi (s\<lparr>vm_pmm := p\<rparr>)"
proof -
  have "pmm_avail p \<inter> table_frames s = {}"
    using table_frames_avail [OF regionD(1) [OF assms(1)]] assms(3) by blast
  note inv = paging_inv_pmm [OF regionD(1) [OF assms(1)] assms(2) this]
  have f: "vm_pmm (s\<lparr>vm_pmm := p\<rparr>) = p" by simp
  show ?thesis
    using assms(1,3) inv unfolding region_def walk_pmm table_frames_pmm f by blast
qed

text \<open>The frame that is given back when the page could not be mapped.\<close>

lemma vread8_pmm [simp]: "vread8 (s\<lparr>vm_pmm := p\<rparr>) x = vread8 s x"
  by (simp add: vread8_def translate_def)

lemma region_map_page:
  assumes "region pd lo hi s" and "mappable pd hi"
    and "pmm_alloc_frame (vm_pmm s) = (p, f)" and "f \<noteq> 0"
  obtains (failed) "paging_map_page pd hi f PAGING_FLAG_WRITE (s\<lparr>vm_pmm := p\<rparr>) = Some (s\<lparr>vm_pmm := p\<rparr>, False)"
      "region pd lo hi (s\<lparr>vm_pmm := pmm_free_frame f p\<rparr>)" "pmm_avail (vm_pmm s) = {f}"
      "pmm_avail (pmm_free_frame f p) = {f}"
    | (grown) s' where "paging_map_page pd hi f PAGING_FLAG_WRITE (s\<lparr>vm_pmm := p\<rparr>) = Some (s', True)"
      "region pd lo (hi + 4096) s'" "pmm_avail (vm_pmm s') \<subset> pmm_avail (vm_pmm s)"
      "\<And>x. within lo hi x \<Longrightarrow> vread8 s' x = vread8 s x"
      "card (pmm_avail (vm_pmm s)) \<le> card (pmm_avail (vm_pmm s')) + 2"
proof -
  let ?s = "s\<lparr>vm_pmm := p\<rparr>"
  note inv = regionD(1) [OF assms(1)]
  have pinv: "pmm_inv (vm_pmm s)" using inv by (rule pagingD)
  have ne: "pmm_avail (vm_pmm s) \<noteq> {}" using pmm.alloc_zero_iff [OF pinv] assms(3,4) by auto
  then have f: "f \<in> pmm_avail (vm_pmm s)" and p: "pmm_avail p = pmm_avail (vm_pmm s) - {f}"
    "pmm_pool p = pmm_pool (vm_pmm s)" "pmm_inv p"
    using pmm.alloc_takes [OF pinv _ assms(3)] by blast+
  have fp: "page_aligned f" "f \<in> pmm_pool p" using f pmm.avail_pool pmm.pool_frame p(2) by blast+
  have i: "unat (pde_index hi) < 1023" using assms(2) by (simp add: mappable_def)
  have reg: "region pd lo hi ?s" by (rule region_pmm [OF assms(1) p(3)]) (use p(1) in blast)
  show thesis
  proof (cases rule: map_cases [OF regionD(1) [OF reg] i, of f PAGING_FLAG_WRITE])
    case 1
    from 1(2) have none: "pmm_avail p = {}" using fp(1) by simp
    have rel: "pmm_avail (pmm_free_frame f p) = insert f (pmm_avail p)" "pmm_inv (pmm_free_frame f p)"
      using pmm.release_returns [OF p(3) fp(2)] by blast+
    have "pmm_avail (vm_pmm s) = {f}" using none p(1) f by blast
    moreover have "pmm_avail (pmm_free_frame f p) = {f}" using rel(1) none by simp
    ultimately show thesis
      using failed [OF 1(1)] region_pmm [OF assms(1) rel(2)] by simp
  next
    case (2 t)
    obtain v where v: "f OR (PAGING_FLAG_WRITE OR PAGING_FLAG_PRESENT) = v" by blast
    have new: "present v" "writable v" "page_of v = f"
      using new_pte [OF fp(1), of PAGING_FLAG_WRITE] by (simp_all add: flag_values v)
    let ?t = "set_entry t hi v"
    have t: "paging_inv pd t" "table_entry t (pde_index hi)" using 2(4) by (simp_all add: ready_def)
    note fr = ready_frames [OF 2(4)] and g = within_grow [OF regionD(3) [OF assms(1)] i regionD(4) [OF assms(1)]]
    have tf: "table_frames ?t \<subseteq> table_frames s \<union> pmm_avail p" "pmm_avail (vm_pmm ?t) \<subseteq> pmm_avail p"
      using fr(3) table_frames_set_entry [OF t] by auto
    have w_hi: "walk ?t w x = Some f" if "page_of x = hi" for w x
      using walk_set_entry [OF t, of x v w] that new page_of_aligned [OF regionD(3) [OF assms(1)]] by simp
    have old: "page_of x \<noteq> hi" "unat (pde_index x) < 1023" if x: "within lo hi x" for x
    proof -
      have "\<not> within lo hi hi" by (simp add: within_def)
      then show "page_of x \<noteq> hi"
        using within_page [OF regionD(2,3) [OF assms(1)], of x hi] x page_of_aligned [OF regionD(3) [OF assms(1)]] by auto
      show "unat (pde_index x) < 1023"
        using pde_index_mono [of x hi] x i by (force simp: within_def)
    qed
    have w_old: "walk ?t w x = walk s w x" if x: "within lo hi x" for w x
      using walk_set_entry_other [OF t, of x v w] ready_walk [OF 2(4) old(2) [OF x], of w] old(1) [OF x]
        page_of_aligned [OF regionD(3) [OF assms(1)]] by simp
    have reads: "vread8 ?t x = vread8 s x" if x: "within lo hi x" for x
    proof (rule region_reads_same [OF assms(1) x w_old [OF x]])
      show "vm_mem ?t a = vm_mem s a" if "page_of a \<notin> table_frames ?t" for a
        using that fr(1) set_entry_mem [OF t] table_frames_set_entry [OF t] by simp
      show "table_frames ?t \<subseteq> table_frames s \<union> pmm_avail (vm_pmm s)" using tf(1) p(1) by blast
    qed
    have f_out: "f \<notin> table_frames ?t" "f \<notin> pmm_avail (vm_pmm ?t)"
      using tf p(1) f table_frames_avail [OF inv] by blast+
    have backed: "\<exists>h. walk ?t True va = Some h \<and> h \<notin> table_frames ?t \<and> h \<notin> pmm_avail (vm_pmm ?t)"
      if "within lo (hi + 4096) va" for va
    proof (cases "page_of va = hi")
      case True
      then show ?thesis using w_hi f_out by blast
    next
      case False
      then have va: "within lo hi va" using that g(3) by blast
      obtain h where "\<And>w. walk s w va = Some h" "h \<notin> table_frames s" "h \<notin> pmm_avail (vm_pmm s)"
        using regionE [OF assms(1) va] by blast
      then show ?thesis using w_old [OF va] tf p(1) by auto
    qed
    have apart: "page_of va = page_of vb"
      if va: "within lo (hi + 4096) va" and vb: "within lo (hi + 4096) vb" and e: "walk ?t True va = walk ?t True vb" for va vb
    proof -
      have no: "walk ?t True x \<noteq> Some f" if x: "within lo hi x" for x
        using regionE [OF assms(1) x] w_old [OF x] f by (metis option.inject)
      show ?thesis using va vb e g(3) w_hi no w_old regionD(5) [OF assms(1)] by metis
    qed
    have "mappable pd hi" by (rule assms(2))
    note inv' = paging_inv_set_entry [OF t this, of v]
    have "lo \<le> hi + 4096" using regionD(4) [OF assms(1)] g(1) by (simp add: word_le_nat_alt)
    then have "region pd lo (hi + 4096) ?t"
      unfolding region_def using inv' regionD(2) [OF assms(1)] g(2) backed apart by blast
    moreover have "pmm_avail (vm_pmm ?t) \<subset> pmm_avail (vm_pmm s)" using tf(2) p(1) f by blast
    moreover have "card (pmm_avail (vm_pmm s)) \<le> card (pmm_avail (vm_pmm ?t)) + 2"
    proof -
      obtain g' where "pmm_avail p \<subseteq> insert g' (pmm_avail (vm_pmm ?t))" using fr(3) by auto
      then have "pmm_avail (vm_pmm s) \<subseteq> insert f (insert g' (pmm_avail (vm_pmm ?t)))" using p(1) by blast
      then have "card (pmm_avail (vm_pmm s)) \<le> card (insert f (insert g' (pmm_avail (vm_pmm ?t))))"
        by (intro card_mono) simp_all
      also have "\<dots> \<le> card (pmm_avail (vm_pmm ?t)) + 2"
        by (simp add: card_insert_if)
      finally show ?thesis .
    qed
    ultimately show thesis using grown [of ?t] 2(1) reads unfolding v by blast
  qed
qed

lemma region_shrink:
  assumes "region pd lo hi s" and "page_aligned hi'" and "lo \<le> hi'" and "hi' \<le> hi"
  shows "region pd lo hi' s"
proof -
  have sub: "within lo hi' x \<Longrightarrow> within lo hi x" for x
    using assms(4) by (auto simp: within_def)
  show ?thesis using assms(1-3) sub unfolding region_def by meson
qed

lemma region_empty: "paging_inv pd s \<Longrightarrow> page_aligned lo \<Longrightarrow> region pd lo lo s"
  by (auto simp: region_def within_def)

end
