(* ===== verification/Tlb.thy ===== *)
theory Tlb
  imports Region
begin

text \<open>
  The translation cache of the processor and the code that keeps it right: \<open>invlpg\<close> in
  \<open>kernel/mm/paging.c\<close> and the reload of CR3 at the end of \<open>boot.S\<close>. \<open>Paging\<close> runs the code
  on a processor that walks the tables at every access; here the same code, with its flushes, runs on one
  that may use what it walked earlier. Between any two accesses the processor may load entries for any
  pages on speculation and drop others: the plan of these events is part of the state, and the
  theorems hold for every plan. The operations are shown to have the results of \<open>Paging\<close>, and every
  mapped address to translate as the tables say. One thing is not right: a new page table is entered in the
  directory before it is cleared, so a speculative walk of what the frame held before can be cached.
\<close>

section \<open>The processor with a translation cache\<close>

text \<open>The cache takes a page to its frame and whether it may be written. An event loads or drops an entry.\<close>

record tlb_entry =
  te_frame :: u32
  te_write :: bool

datatype tlb_event = Fill u32 | Evict u32

record tvm =
  tvm_vm :: vm
  tvm_tlb :: "u32 \<Rightarrow> tlb_entry option"
  tvm_plan :: "tlb_event list list"

definition tlb_fill :: "u32 \<Rightarrow> tvm \<Rightarrow> tvm" where
  "tlb_fill va t =
     (case walk (tvm_vm t) False va of
        None \<Rightarrow> t
      | Some f \<Rightarrow> t\<lparr>tvm_tlb := (tvm_tlb t)(page_of va \<mapsto> \<lparr>te_frame = f, te_write = (walk (tvm_vm t) True va \<noteq> None)\<rparr>)\<rparr>)"

fun tlb_step :: "tlb_event \<Rightarrow> tvm \<Rightarrow> tvm" where
  "tlb_step (Fill va) t = tlb_fill va t"
| "tlb_step (Evict va) t = t\<lparr>tvm_tlb := (tvm_tlb t)(page_of va := None)\<rparr>"

text \<open>What the processor does of its own accord before the next access: the next part of the plan.\<close>

definition tlb_chance :: "tvm \<Rightarrow> tvm" where
  "tlb_chance t =
     (case tvm_plan t of
        [] \<Rightarrow> t
      | es # plan \<Rightarrow> fold tlb_step es (t\<lparr>tvm_plan := plan\<rparr>))"

text \<open>A cached entry is used as it is; a page that is not cached is walked, and cached.\<close>

definition tlb_translate :: "bool \<Rightarrow> u32 \<Rightarrow> tvm \<Rightarrow> (u32 \<times> tvm) option" where
  "tlb_translate write va t =
     (let t = tlb_chance t in
      case tvm_tlb t (page_of va) of
        Some e \<Rightarrow> if write \<and> \<not> te_write e then None else Some (te_frame e + off_of va, t)
      | None \<Rightarrow> map_option (\<lambda>f. (f + off_of va, tlb_fill va t)) (walk (tvm_vm t) write va))"

text \<open>Accesses. The words of the directory and of the tables are aligned, so each lies in one page.\<close>

definition tlb_read32 :: "u32 \<Rightarrow> tvm \<Rightarrow> (u32 \<times> tvm) option" where
  "tlb_read32 va t = do {
     (pa, t) \<leftarrow> tlb_translate False va t;
     Some (load32 (vm_mem (tvm_vm t)) pa, t) }"

definition tlb_write32 :: "u32 \<Rightarrow> u32 \<Rightarrow> tvm \<Rightarrow> tvm option" where
  "tlb_write32 va v t = do {
     (pa, t) \<leftarrow> tlb_translate True va t;
     Some (t\<lparr>tvm_vm := (tvm_vm t)\<lparr>vm_mem := store32 (vm_mem (tvm_vm t)) pa v\<rparr>\<rparr>) }"

definition tlb_write8 :: "u32 \<Rightarrow> u8 \<Rightarrow> tvm \<Rightarrow> tvm option" where
  "tlb_write8 va b t = do {
     (pa, t) \<leftarrow> tlb_translate True va t;
     Some (t\<lparr>tvm_vm := (tvm_vm t)\<lparr>vm_mem := (vm_mem (tvm_vm t))(pa := b)\<rparr>\<rparr>) }"

fun tlb_memset :: "u32 \<Rightarrow> u8 \<Rightarrow> nat \<Rightarrow> tvm \<Rightarrow> tvm option" where
  "tlb_memset buf c 0 t = Some t"
| "tlb_memset buf c (Suc n) t = do { t \<leftarrow> tlb_memset buf c n t; tlb_write8 (buf + of_nat n) c t }"

text \<open>\<open>invlpg\<close> drops the entry of one page, a load of CR3 drops them all.\<close>

definition invlpg :: "u32 \<Rightarrow> tvm \<Rightarrow> tvm" where
  "invlpg virt t = (let t = tlb_chance t in t\<lparr>tvm_tlb := (tvm_tlb t)(page_of virt := None)\<rparr>)"

definition load_cr3 :: "u32 \<Rightarrow> tvm \<Rightarrow> tvm" where
  "load_cr3 v t = t\<lparr>tvm_vm := (tvm_vm t)\<lparr>vm_cr3 := v\<rparr>, tvm_tlb := Map.empty\<rparr>"

section \<open>The code with its flushes\<close>

text \<open>At label 4 of \<open>boot.S\<close>: the identity map is removed and CR3 loaded with what it holds.\<close>

definition tlb_drop_identity :: "u32 \<Rightarrow> tvm \<Rightarrow> tvm option" where
  "tlb_drop_identity pd t = do {
     t \<leftarrow> tlb_write32 (pd + 0 * 4) 0 t;
     let ecx = vm_cr3 (tvm_vm t);
     Some (load_cr3 ecx t) }"

definition tlb_paging_init :: "u32 \<Rightarrow> tvm \<Rightarrow> tvm option" where
  "tlb_paging_init pd t =
     (let pd_phys = virt_to_phys pd in
      tlb_write32 (pd + RECURSIVE_PD_INDEX * 4)
        ((pd_phys AND 0xFFFFF000) OR PAGING_FLAG_PRESENT OR PAGING_FLAG_WRITE) t)"

definition tlb_map_page :: "u32 \<Rightarrow> u32 \<Rightarrow> u32 \<Rightarrow> u32 \<Rightarrow> tvm \<Rightarrow> (tvm \<times> bool) option" where
  "tlb_map_page pd virt phys flags t =
     (let pde_idx = pde_index virt;
          pte_idx = pte_index virt
      in if phys AND (PAGING_PAGE_SIZE - 1) \<noteq> 0 then Some (t, False)
      else let flags = flags OR PAGING_FLAG_PRESENT in do {
        (pde, t) \<leftarrow> tlb_read32 (pd + pde_idx * 4) t;
        (t, ok) \<leftarrow>
          (if pde AND PAGING_FLAG_PRESENT = 0 then
             let (p, new_pt) = pmm_alloc_frame (vm_pmm (tvm_vm t));
                 t = t\<lparr>tvm_vm := (tvm_vm t)\<lparr>vm_pmm := p\<rparr>\<rparr>
             in if new_pt = 0 then Some (t, False)
             else do {
               t \<leftarrow> tlb_write32 (pd + pde_idx * 4)
                     (new_pt OR PAGING_FLAG_PRESENT OR PAGING_FLAG_WRITE) t;
               t \<leftarrow> tlb_memset (page_table_virt pde_idx) 0 (unat PAGING_PAGE_SIZE) t;
               Some (t, True) }
           else Some (t, True));
        if \<not> ok then Some (t, False)
        else do {
          t \<leftarrow> tlb_write32 (page_table_virt pde_idx + pte_idx * 4) (phys OR flags) t;
          Some (invlpg virt t, True) } })"

definition tlb_unmap_page :: "u32 \<Rightarrow> u32 \<Rightarrow> tvm \<Rightarrow> tvm option" where
  "tlb_unmap_page pd virt t =
     (let pde_idx = pde_index virt;
          pte_idx = pte_index virt
      in do {
        (pde, t) \<leftarrow> tlb_read32 (pd + pde_idx * 4) t;
        if pde AND PAGING_FLAG_PRESENT = 0 then Some t
        else do {
          t \<leftarrow> tlb_write32 (page_table_virt pde_idx + pte_idx * 4) 0 t;
          Some (invlpg virt t) } })"

definition tlb_get_physical :: "u32 \<Rightarrow> u32 \<Rightarrow> tvm \<Rightarrow> (u32 \<times> tvm) option" where
  "tlb_get_physical pd virt t =
     (let pde_idx = pde_index virt;
          pte_idx = pte_index virt
      in do {
        (pde, t) \<leftarrow> tlb_read32 (pd + pde_idx * 4) t;
        if pde AND PAGING_FLAG_PRESENT = 0 then Some (0, t)
        else do {
          (e, t) \<leftarrow> tlb_read32 (page_table_virt pde_idx + pte_idx * 4) t;
          if e AND PAGING_FLAG_PRESENT = 0 then Some (0, t)
          else Some (e AND 0xFFFFF000, t) } })"

section \<open>Agreement of the cache with the tables\<close>

text \<open>An entry is right when it says what a walk of the tables says.\<close>

definition entry_right :: "vm \<Rightarrow> u32 \<Rightarrow> tlb_entry \<Rightarrow> bool" where
  "entry_right s va e \<longleftrightarrow> walk s False va = Some (te_frame e) \<and> (te_write e \<longleftrightarrow> walk s True va \<noteq> None)"

text \<open>All entries for the pages of \<open>P\<close> are right.\<close>

definition agrees :: "(u32 \<Rightarrow> bool) \<Rightarrow> tvm \<Rightarrow> bool" where
  "agrees P t \<longleftrightarrow>
     (\<forall>va e. tvm_tlb t (page_of va) = Some e \<and> P (page_of va) \<longrightarrow> entry_right (tvm_vm t) va e)"

text \<open>
  Soundness: a page that is mapped has no wrong entry, and the window of the recursive slot has
  none at all. Exactness: there is no wrong entry.
\<close>

definition settled :: "vm \<Rightarrow> u32 \<Rightarrow> bool" where
  "settled s va \<longleftrightarrow> pde_index va = 1023 \<or> walk s False va \<noteq> None"

definition tlb_sound :: "tvm \<Rightarrow> bool" where
  "tlb_sound t \<longleftrightarrow> agrees (settled (tvm_vm t)) t"

definition tlb_exact :: "tvm \<Rightarrow> bool" where
  "tlb_exact t \<longleftrightarrow> agrees (\<lambda>_. True) t"

lemma agreesD:
  "agrees P t \<Longrightarrow> tvm_tlb t (page_of va) = Some e \<Longrightarrow> P (page_of va) \<Longrightarrow> entry_right (tvm_vm t) va e"
  by (simp add: agrees_def)

lemma agrees_mono: "agrees P t \<Longrightarrow> (\<And>va. Q va \<Longrightarrow> P va) \<Longrightarrow> agrees Q t"
  by (auto simp: agrees_def)

lemma walk_page_of [simp]: "walk s w (page_of va) = walk s w va"
  by (rule walk_page) simp

lemma pde_index_page_of [simp]: "pde_index (page_of va) = pde_index va"
  by (rule indices_eq) simp

lemma settled_page_of [simp]: "settled s (page_of va) = settled s va"
  by (simp add: settled_def)

text \<open>What happens without an access: the tables stay, new entries are right.\<close>

definition idles :: "tvm \<Rightarrow> tvm \<Rightarrow> bool" where
  "idles t t' \<longleftrightarrow> tvm_vm t' = tvm_vm t
     \<and> (\<forall>va e. tvm_tlb t' (page_of va) = Some e \<longrightarrow>
          tvm_tlb t (page_of va) = Some e \<or> entry_right (tvm_vm t) va e)"

lemma idles_refl [simp]: "idles t t"
  by (simp add: idles_def)

lemma idles_trans: "idles t u \<Longrightarrow> idles u v \<Longrightarrow> idles t v"
  by (auto simp: idles_def)

lemma idles_agrees: "idles t t' \<Longrightarrow> agrees P t \<Longrightarrow> agrees P t'"
  by (auto simp: idles_def agrees_def)

lemma idles_vm: "idles t t' \<Longrightarrow> tvm_vm t' = tvm_vm t"
  by (simp add: idles_def)

lemma idles_fill: "idles t (tlb_fill va t)"
proof (cases "walk (tvm_vm t) False va")
  case (Some f)
  have "entry_right (tvm_vm t) x \<lparr>te_frame = f, te_write = (walk (tvm_vm t) True va \<noteq> None)\<rparr>" if "page_of x = page_of va" for x
    using Some walk_page [OF that] by (simp add: entry_right_def)
  then show ?thesis using Some by (simp add: idles_def tlb_fill_def)
qed (simp add: tlb_fill_def)

lemma idles_event: "idles t (tlb_step e t)"
  by (cases e) (simp_all add: idles_fill, simp add: idles_def)

lemma idles_events: "idles t (fold tlb_step es t)"
proof (induction es arbitrary: t)
  case (Cons e es)
  show ?case using idles_trans [OF idles_event Cons.IH] by simp
qed simp

lemma idles_chance: "idles t (tlb_chance t)"
proof (cases "tvm_plan t")
  case (Cons es plan)
  have "idles t (t\<lparr>tvm_plan := plan\<rparr>)" by (simp add: idles_def)
  then show ?thesis using Cons idles_trans [OF _ idles_events] by (simp add: tlb_chance_def)
qed (simp add: tlb_chance_def)

section \<open>Accesses to pages with right entries\<close>

lemma tlb_translate_agrees:
  assumes "agrees P t" and "P (page_of va)"
  shows "map_option fst (tlb_translate w va t) = translate (tvm_vm t) w va"
    and "tlb_translate w va t = Some (pa, t') \<Longrightarrow> idles t t'"
proof -
  let ?u = "tlb_chance t"
  have vm: "tvm_vm ?u = tvm_vm t" using idles_chance by (rule idles_vm)
  have right: "entry_right (tvm_vm t) va e" if "tvm_tlb ?u (page_of va) = Some e" for e
    using agreesD [OF idles_agrees [OF idles_chance assms(1)] that assms(2)] vm by simp
  have wr: "walk (tvm_vm t) True va = Some g \<Longrightarrow> walk (tvm_vm t) False va = Some g" for g
    by (rule walk_write_read)
  show "map_option fst (tlb_translate w va t) = translate (tvm_vm t) w va"
  proof (cases "tvm_tlb ?u (page_of va)")
    case None
    then show ?thesis
      by (simp add: tlb_translate_def Let_def vm translate_def option.map_comp comp_def)
  next
    case (Some e)
    then show ?thesis using right [OF Some] wr
      by (cases w) (auto simp: tlb_translate_def Let_def vm translate_def entry_right_def split: prod.splits)
  qed
  show "tlb_translate w va t = Some (pa, t') \<Longrightarrow> idles t t'"
    using idles_chance [of t] idles_trans [OF idles_chance idles_fill]
    by (auto simp: tlb_translate_def Let_def split: option.splits prod.splits if_splits)
qed

lemma tlb_translate_hit:
  assumes "agrees P t" and "P (page_of va)" and "walk (tvm_vm t) w va = Some f"
  obtains t' where "tlb_translate w va t = Some (f + off_of va, t')" "idles t t'"
proof -
  have "map_option fst (tlb_translate w va t) = Some (f + off_of va)"
    using tlb_translate_agrees(1) [OF assms(1,2)] assms(3) by (simp add: translate_def)
  then obtain t' where t': "tlb_translate w va t = Some (f + off_of va, t')" by auto
  show thesis by (rule that [OF t' tlb_translate_agrees(2) [OF assms(1,2) t']])
qed

text \<open>A change of the tables that leaves the translations of the mapped pages of \<open>P\<close>.\<close>

definition stable :: "(u32 \<Rightarrow> bool) \<Rightarrow> vm \<Rightarrow> vm \<Rightarrow> bool" where
  "stable P s s' \<longleftrightarrow>
     (\<forall>va w. P (page_of va) \<and> walk s False va \<noteq> None \<longrightarrow> walk s' w va = walk s w va)"

lemma agrees_stable:
  assumes "agrees P t" and "stable P (tvm_vm t) s'"
  shows "agrees P (t\<lparr>tvm_vm := s'\<rparr>)"
proof -
  have "entry_right s' va e" if "tvm_tlb t (page_of va) = Some e" "P (page_of va)" for va e
    using agreesD [OF assms(1) that] assms(2) that(2) by (auto simp: entry_right_def stable_def)
  then show ?thesis by (simp add: agrees_def)
qed

lemma tlb_read32_right:
  assumes "agrees P t" and "P (page_of va)" and "word_aligned va" and "vread32 (tvm_vm t) va = Some v"
  obtains t' where "tlb_read32 va t = Some (v, t')" "idles t t'"
proof -
  obtain f where f: "walk (tvm_vm t) False va = Some f" "v = load32 (vm_mem (tvm_vm t)) (f + off_of va)"
    using assms(4) by (auto simp: vread32_walk [OF assms(3)])
  obtain t' where t': "tlb_translate False va t = Some (f + off_of va, t')" "idles t t'"
    using assms(1,2) f(1) by (rule tlb_translate_hit)
  show thesis by (rule that [OF _ t'(2)]) (simp add: tlb_read32_def t'(1) f(2) idles_vm [OF t'(2)])
qed

lemma tlb_write32_right:
  assumes "agrees P t" and "P (page_of va)" and "word_aligned va"
    and "vwrite32 (tvm_vm t) va v = Some s'" and "stable Q (tvm_vm t) s'" and "agrees Q t"
  shows "\<exists>t'. tlb_write32 va v t = Some t' \<and> tvm_vm t' = s' \<and> agrees Q t'"
proof -
  obtain f where f: "walk (tvm_vm t) True va = Some f"
    "s' = (tvm_vm t)\<lparr>vm_mem := store32 (vm_mem (tvm_vm t)) (f + off_of va) v\<rparr>"
    using assms(4) by (auto simp: vwrite32_walk [OF assms(3)])
  obtain u where u: "tlb_translate True va t = Some (f + off_of va, u)" "idles t u"
    using assms(1,2) f(1) by (rule tlb_translate_hit)
  have "agrees Q (u\<lparr>tvm_vm := s'\<rparr>)"
    using idles_agrees [OF u(2) assms(6)] assms(5) idles_vm [OF u(2)] by (intro agrees_stable) simp_all
  then show ?thesis using idles_vm [OF u(2)] by (simp add: tlb_write32_def u(1) f(2))
qed

lemma tlb_write8_right:
  assumes "agrees P t" and "P (page_of va)"
    and "vwrite8 (tvm_vm t) va b = Some s'" and "stable P (tvm_vm t) s'"
  shows "\<exists>t'. tlb_write8 va b t = Some t' \<and> tvm_vm t' = s' \<and> agrees P t'"
proof -
  obtain f where f: "walk (tvm_vm t) True va = Some f"
    "s' = (tvm_vm t)\<lparr>vm_mem := (vm_mem (tvm_vm t))(f + off_of va := b)\<rparr>"
    using assms(3) by (auto simp: vwrite8_def translate_def)
  obtain u where u: "tlb_translate True va t = Some (f + off_of va, u)" "idles t u"
    using assms(1,2) f(1) by (rule tlb_translate_hit)
  have "agrees P (u\<lparr>tvm_vm := s'\<rparr>)"
    using idles_agrees [OF u(2) assms(1)] assms(4) idles_vm [OF u(2)] by (intro agrees_stable) simp_all
  then show ?thesis using idles_vm [OF u(2)] by (simp add: tlb_write8_def u(1) f(2))
qed

lemma tlb_memset_right:
  assumes "agrees P t" and "\<And>k. k < n \<Longrightarrow> P (page_of (buf + of_nat k))"
    and "vmemset (tvm_vm t) buf c n = Some s'"
    and "\<And>k s1 s2. k < n \<Longrightarrow> vmemset (tvm_vm t) buf c k = Some s1 \<Longrightarrow>
      vmemset (tvm_vm t) buf c (Suc k) = Some s2 \<Longrightarrow> stable P s1 s2"
  shows "\<exists>t'. tlb_memset buf c n t = Some t' \<and> tvm_vm t' = s' \<and> agrees P t'"
  using assms(2-4)
proof (induction n arbitrary: s')
  case 0
  then show ?case using assms(1) by simp
next
  case (Suc n)
  from Suc.prems(2) obtain s1 where s1: "vmemset (tvm_vm t) buf c n = Some s1"
    "vwrite8 s1 (buf + of_nat n) c = Some s'" by (auto split: bind_splits)
  have "\<exists>u. tlb_memset buf c n t = Some u \<and> tvm_vm u = s1 \<and> agrees P u"
    by (rule Suc.IH [OF _ s1(1)], rule Suc.prems(1), simp, rule Suc.prems(3) [OF less_SucI])
  then obtain u where u: "tlb_memset buf c n t = Some u" "tvm_vm u = s1" "agrees P u" by blast
  have st: "stable P s1 s'" by (rule Suc.prems(3) [OF _ s1(1) Suc.prems(2)]) simp
  obtain t' where "tlb_write8 (buf + of_nat n) c u = Some t'" "tvm_vm t' = s'" "agrees P t'"
    using tlb_write8_right [OF u(3) Suc.prems(1) [OF lessI]] s1(2) st u(2) by auto
  then show ?case using u(1) by simp
qed

section \<open>The pages the code itself uses\<close>

lemma tlb_read_dir:
  assumes "paging_inv pd (tvm_vm t)" and "agrees P t" and "P pd" and "unat i < 1024"
  obtains t' where "tlb_read32 (pd + i * 4) t = Some (dir (tvm_vm t) i, t')" "idles t t'"
proof (rule tlb_read32_right [OF assms(2)])
  have pd: "page_aligned pd" using assms(1) by (rule pagingD)
  show "P (page_of (pd + i * 4))" "word_aligned (pd + i * 4)" using assms(3) entry_addr [OF pd assms(4)] by simp_all
  show "vread32 (tvm_vm t) (pd + i * 4) = Some (dir (tvm_vm t) i)" using assms(1,4) by (rule read_dir)
qed (rule that)

lemma pages_settled:
  "paging_inv pd s \<Longrightarrow> settled s pd" "unat i < 1024 \<Longrightarrow> settled s (page_table_virt i)"
  using pagingD(4) [of pd s False] page_table_virt(2) [of i] by (simp_all add: settled_def)

text \<open>A flush makes room for the entry that was just written; all other entries stay as right as they were.\<close>

lemma invlpg_agrees:
  assumes "agrees (\<lambda>x. P x \<and> page_of x \<noteq> page_of virt) t"
  shows "agrees (\<lambda>x. P x \<or> page_of x = page_of virt) (invlpg virt t)"
  using idles_agrees [OF idles_chance assms] by (auto simp: agrees_def invlpg_def Let_def)

lemma invlpg_vm [simp]: "tvm_vm (invlpg virt t) = tvm_vm t"
  using idles_vm [OF idles_chance, of t] by (simp add: invlpg_def Let_def)

lemma tlb_set_entry:
  assumes "paging_inv pd (tvm_vm t)" and "table_entry (tvm_vm t) (pde_index virt)"
    and "agrees P t" and "P (page_table_virt (pde_index virt))"
  obtains u where "tlb_write32 (page_table_virt (pde_index virt) + pte_index virt * 4) v t = Some u"
    "tvm_vm u = set_entry (tvm_vm t) virt v"
    "agrees (\<lambda>x. P x \<or> page_of x = page_of virt) (invlpg virt u)"
proof -
  let ?Q = "\<lambda>x. P x \<and> page_of x \<noteq> page_of virt"
  note e = entry_addr [OF page_table_virt(1) [OF pde_index_less] pte_index_less, of virt virt]
  have "stable ?Q (tvm_vm t) (set_entry (tvm_vm t) virt v)"
    using walk_set_entry_other [OF assms(1,2)] by (simp add: stable_def)
  moreover have "agrees ?Q t" using assms(3) by (rule agrees_mono) simp
  ultimately obtain u where "tlb_write32 (page_table_virt (pde_index virt) + pte_index virt * 4) v t = Some u"
    "tvm_vm u = set_entry (tvm_vm t) virt v" "agrees ?Q u"
    using tlb_write32_right [of P t, OF assms(3) _ e(2) window_write [OF assms(1,2)], of ?Q] assms(4) e(1) by auto
  then show thesis using that invlpg_agrees by blast
qed

lemma settled_set_entry:
  assumes "paging_inv pd s" and "table_entry s (pde_index virt)" and "settled (set_entry s virt v) x"
  shows "settled s x \<or> page_of x = page_of virt"
proof (cases "page_of x = page_of virt")
  case False
  show ?thesis using assms(3) unfolding settled_def walk_set_entry_other [OF assms(1,2) False] by blast
qed simp

section \<open>Installing a table\<close>

text \<open>Linking and clearing the new table leaves what is mapped outside its four megabytes.\<close>

lemma stable_linked:
  assumes "installs pd s i p f"
  shows "stable (\<lambda>x. pde_index x \<noteq> i) s (linked s i p f)"
proof -
  have inv: "paging_inv pd s" and i: "unat i < 1023" "unat i < 1024" and absent: "\<not> present (dir s i)"
    using assms by (auto simp: installs_def)
  have "walk (linked s i p f) w x = walk s w x" if "pde_index x \<noteq> i" "walk s False x \<noteq> None" for x w
  proof -
    have d: "dir (linked s i p f) (pde_index x) = dir s (pde_index x)"
      using linked_dir [OF assms pde_index_less] that(1) by simp
    have pr: "present (dir s (pde_index x))" using that(2) by (cases "present (dir s (pde_index x))") (simp_all add: walk_table [of s])
    have "entry (vm_mem (linked s i p f)) (page_of (dir s (pde_index x))) (pte_index x)
      = entry (vm_mem s) (page_of (dir s (pde_index x))) (pte_index x)"
    proof (cases rule: window_or_table [of x])
      case table
      then have "page_of (dir s (pde_index x)) \<noteq> vm_cr3 s"
        using table_entryD(2) [OF inv] pr by (simp add: table_entry_def)
      then show ?thesis using pagingD(2) [OF inv] i(2) by (simp add: linked_def)
    next
      case window
      then have w: "page_of (dir s (pde_index x)) = vm_cr3 s" using pagingD(9) [OF inv] by simp
      have "dir s (pte_index x) = entry (vm_mem s) (vm_cr3 s) (pte_index x)"
        using pagingD(3) [OF inv] by (simp add: dir_def)
      then have "pte_index x \<noteq> i" using that(2) absent w pr by (auto simp: walk_table [of s] Let_def)
      then show ?thesis using w linked_dir [OF assms pte_index_less, of x] pagingD(3) [OF inv]
        by (simp add: dir_def)
    qed
    then show ?thesis unfolding walk_table [of "linked s i p f"] walk_table [of s] d by (simp add: Let_def)
  qed
  then show ?thesis by (simp add: stable_def)
qed

lemma walk_half_cleared:
  assumes "installs pd s i p f" and "pde_index x \<noteq> i"
  shows "walk (half_cleared s i p f n) w x = walk (linked s i p f) w x"
proof -
  have inv: "paging_inv pd s" using assms by (simp add: installs_def)
  note frame = installs_frame [OF assms(1)]
  have same: "same_frame g (vm_mem (linked s i p f)) (vm_mem (half_cleared s i p f n))" if "g \<noteq> f" for g
    using that by (simp add: same_frame_def half_cleared_def)
  have cr3: "vm_cr3 (half_cleared s i p f n) = vm_cr3 s" by (simp add: half_cleared_def)
  have d: "dir (half_cleared s i p f n) (pde_index x) = dir s (pde_index x)"
    "dir (linked s i p f) (pde_index x) = dir s (pde_index x)"
    using linked_dir [OF assms(1) pde_index_less, of x] assms(2) pagingD(2,3) [OF inv]
      entry_same_frame [OF same [OF frame(6) [symmetric]] _ pde_index_less, of x]
    by (simp_all add: dir_def cr3)
  have "page_of (dir s (pde_index x)) \<noteq> f" if "present (dir s (pde_index x))"
  proof (cases rule: window_or_table [of x])
    case table
    then show ?thesis using frame(7) that by (simp add: table_entry_def)
  next
    case window
    then show ?thesis using frame(6) pagingD(9) [OF inv] by simp
  qed
  then show ?thesis using entry_same_frame [OF same _ pte_index_less]
    unfolding walk_table [of "half_cleared s i p f n"] walk_table [of "linked s i p f"] d by (simp add: Let_def)
qed

lemma tlb_install:
  assumes "installs pd (tvm_vm t) i p f" and "agrees P t" and "P pd" and "P (page_table_virt i)"
    and "\<And>x. P x \<Longrightarrow> pde_index x \<noteq> i"
  obtains u v where "tlb_write32 (pd + i * 4) (f OR PAGING_FLAG_PRESENT OR PAGING_FLAG_WRITE)
      (t\<lparr>tvm_vm := (tvm_vm t)\<lparr>vm_pmm := p\<rparr>\<rparr>) = Some u"
    "tlb_memset (page_table_virt i) 0 4096 u = Some v" "tvm_vm v = new_table (tvm_vm t) i p f" "agrees P v"
proof -
  let ?s = "tvm_vm t" let ?t = "t\<lparr>tvm_vm := ?s\<lparr>vm_pmm := p\<rparr>\<rparr>"
  have inv: "paging_inv pd ?s" and i: "unat i < 1024" using assms(1) by (auto simp: installs_def)
  note e = entry_addr [OF pagingD(1) [OF inv] i] and pt = page_table_virt [OF i]
  have "stable P ?s (linked ?s i p f)"
    using stable_linked [OF assms(1)] assms(5) by (fastforce simp: stable_def)
  then have "stable P (tvm_vm ?t) (linked ?s i p f)" by (simp add: stable_def)
  moreover have "agrees P ?t" using assms(2) by (intro agrees_stable) (simp_all add: stable_def)
  ultimately obtain u where u: "tlb_write32 (pd + i * 4) (f OR PAGING_FLAG_PRESENT OR PAGING_FLAG_WRITE) ?t = Some u"
    "tvm_vm u = linked ?s i p f" "agrees P u"
    using tlb_write32_right [of P ?t "pd + i * 4" _ "linked ?s i p f" P] installs_steps(1) [OF assms(1)]
      e(1,2) assms(3) by auto
  have pages: "page_of (page_table_virt i + of_nat k) = page_table_virt i" if "k < 4096" for k
    using that pt(1) by (simp add: pages unat_of_nat_small)
  have "\<exists>v. tlb_memset (page_table_virt i) 0 4096 u = Some v \<and> tvm_vm v = new_table ?s i p f \<and> agrees P v"
  proof (rule tlb_memset_right [OF u(3)])
    show "P (page_of (page_table_virt i + of_nat k))" if "k < 4096" for k using pages [OF that] assms(4) by simp
    show "vmemset (tvm_vm u) (page_table_virt i) 0 4096 = Some (new_table ?s i p f)"
      using installs_steps(2) [OF assms(1)] u(2) by simp
    fix k s1 s2
    assume k: "k < 4096" and "vmemset (tvm_vm u) (page_table_virt i) 0 k = Some s1"
      and "vmemset (tvm_vm u) (page_table_virt i) 0 (Suc k) = Some s2"
    then have "s1 = half_cleared ?s i p f k" "s2 = half_cleared ?s i p f (Suc k)"
      using half_cleared [OF assms(1), of k] half_cleared [OF assms(1), of "Suc k"] u(2) by simp_all
    moreover have "pde_index x \<noteq> i" if "P (page_of x)" for x using assms(5) [OF that] by simp
    ultimately show "stable P s1 s2" using walk_half_cleared [OF assms(1)] by (simp add: stable_def)
  qed
  then show thesis using that u(1) by blast
qed

section \<open>The operations under any plan\<close>

lemma flag_zero [simp]: "e AND PAGING_FLAG_PRESENT = 0 \<longleftrightarrow> \<not> present e"
  by (rule flag_tests)

lemma aligned_test: "phys AND (PAGING_PAGE_SIZE - 1) \<noteq> 0 \<longleftrightarrow> \<not> page_aligned phys"
  by (simp add: page_aligned_def off_of_def PAGING_PAGE_SIZE_def)

text \<open>
  \<open>P\<close> stands for the pages whose entries are right before. It has the directory's page and the
  recursive window in it. The entry at \<open>virt\<close> is right afterwards, and so are those of \<open>P\<close>, except in the four
  megabytes of a table that had to be installed.
\<close>

lemma tlb_map_step:
  assumes "paging_inv pd (tvm_vm t)" and "unat (pde_index virt) < 1023" and "agrees P t"
    and "P pd" and "P (page_table_virt (pde_index virt))"
    and "paging_map_page pd virt phys flags (tvm_vm t) = Some (s', ok)"
  obtains t' where "tlb_map_page pd virt phys flags t = Some (t', ok)" "tvm_vm t' = s'"
    "\<not> ok \<longrightarrow> agrees P t'"
    "ok \<longrightarrow> agrees (\<lambda>x. P x \<and> (pde_index x = pde_index virt \<longrightarrow> present (dir (tvm_vm t) (pde_index virt)))
       \<or> page_of x = page_of virt) t'"
proof (cases "page_aligned phys")
  case False
  then have "s' = tvm_vm t" "\<not> ok" using assms(6) map_misaligned [OF False] by simp_all
  then show thesis using that [of t] False assms(3) by (simp add: tlb_map_page_def Let_def aligned_test)
next
  case True
  let ?s = "tvm_vm t" let ?i = "pde_index virt"
  obtain u where u: "tlb_read32 (pd + ?i * 4) t = Some (dir ?s ?i, u)" "idles t u"
    using tlb_read_dir [OF assms(1,3,4) pde_index_less] .
  have vm: "tvm_vm u = ?s" using u(2) by (rule idles_vm)
  have au: "agrees P u" using u(2) assms(3) by (rule idles_agrees)
  have inv: "paging_inv pd (tvm_vm u)" using assms(1) by (simp only: vm)
  obtain p f where pf: "pmm_alloc_frame (vm_pmm ?s) = (p, f)" by fastforce
  consider "table_entry ?s ?i" | "\<not> present (dir ?s ?i)" "f = 0" | "installs pd ?s ?i p f"
    using assms(1,2) pf by (auto simp: table_entry_def installs_def)
  then show thesis
  proof cases
    case 1
    have s': "s' = set_entry ?s virt (phys OR (flags OR PAGING_FLAG_PRESENT))" and ok: "ok"
      using assms(6) map_present [OF assms(1) True 1] by simp_all
    obtain v where v: "tlb_write32 (page_table_virt ?i + pte_index virt * 4)
        (phys OR (flags OR PAGING_FLAG_PRESENT)) u = Some v"
      "tvm_vm v = s'" "agrees (\<lambda>x. P x \<or> page_of x = page_of virt) (invlpg virt v)"
      unfolding s' vm [symmetric] by (rule tlb_set_entry [OF inv _ au assms(5)]) (simp only: vm 1)
    show thesis
    proof (rule that [of "invlpg virt v"])
      show "tlb_map_page pd virt phys flags t = Some (invlpg virt v, ok)"
        using True 1 ok u(1) v(1) by (simp add: tlb_map_page_def Let_def aligned_test table_entry_def)
    qed (use v ok in \<open>auto elim: agrees_mono\<close>)
  next
    case 2
    then have "s' = ?s\<lparr>vm_pmm := p\<rparr>" "\<not> ok" using assms(6) True pf read_dir [OF assms(1) pde_index_less, of virt]
      by (simp_all add: paging_map_page_def Let_def aligned_test)
    then show thesis
      using that [of "u\<lparr>tvm_vm := s'\<rparr>"] agrees_stable [OF au, of s'] True 2 pf u(1) vm
      by (simp add: tlb_map_page_def Let_def aligned_test stable_def)
  next
    case 3
    let ?P = "\<lambda>x. P x \<and> pde_index x \<noteq> ?i"
    have pd: "pde_index pd \<noteq> ?i" 
      using 3 pagingD(4) [OF assms(1), of False] by (auto simp: installs_def walk_table)
    have win: "pde_index (page_table_virt ?i) \<noteq> ?i" using page_table_virt(2) [of ?i] assms(2) by auto
    have "agrees ?P u" by (rule agrees_mono [OF au]) simp
    with 3 have "installs pd (tvm_vm u) ?i p f" "agrees ?P u" by (simp_all only: vm)
    note install = tlb_install [OF this, unfolded vm]
    obtain v w where vw: "tlb_write32 (pd + ?i * 4) (f OR PAGING_FLAG_PRESENT OR PAGING_FLAG_WRITE)
        (u\<lparr>tvm_vm := ?s\<lparr>vm_pmm := p\<rparr>\<rparr>) = Some v"
      "tlb_memset (page_table_virt ?i) 0 4096 v = Some w" "tvm_vm w = new_table ?s ?i p f" "agrees ?P w"
      by (rule install) (use pd win assms(4,5) in blast)+
    have te: "table_entry (tvm_vm w) ?i" and new: "paging_inv pd (tvm_vm w)"
      using installs_table_entry [OF 3] installs_inv [OF 3] vw(3) by simp_all
    have s': "s' = set_entry (tvm_vm w) virt (phys OR (flags OR PAGING_FLAG_PRESENT))" and ok: "ok"
      using assms(6) map_install [OF 3 True] vw(3) by simp_all
    obtain x where x: "tlb_write32 (page_table_virt ?i + pte_index virt * 4)
        (phys OR (flags OR PAGING_FLAG_PRESENT)) w = Some x"
      "tvm_vm x = s'" "agrees (\<lambda>x. ?P x \<or> page_of x = page_of virt) (invlpg virt x)"
      unfolding s' by (rule tlb_set_entry [OF new te vw(4)]) (use assms(5) win in blast)+
    show thesis
    proof (rule that [of "invlpg virt x"])
      show "tlb_map_page pd virt phys flags t = Some (invlpg virt x, ok)"
        using True 3 ok u(1) vm pf vw(1,2) x(1) unfolding tlb_map_page_def Let_def aligned_test
        by (simp add: installs_def PAGING_PAGE_SIZE_def)
    qed (use x ok 3 in \<open>auto elim!: agrees_mono simp: installs_def\<close>)
  qed
qed

lemma tlb_unmap_step:
  assumes "paging_inv pd (tvm_vm t)" and "unat (pde_index virt) < 1023" and "agrees P t"
    and "P pd" and "P (page_table_virt (pde_index virt))"
    and "paging_unmap_page pd virt (tvm_vm t) = Some s'"
  obtains t' where "tlb_unmap_page pd virt t = Some t'" "tvm_vm t' = s'" "agrees P t'"
    "present (dir (tvm_vm t) (pde_index virt)) \<longrightarrow> agrees (\<lambda>x. P x \<or> page_of x = page_of virt) t'"
proof -
  let ?s = "tvm_vm t" let ?i = "pde_index virt"
  obtain u where u: "tlb_read32 (pd + ?i * 4) t = Some (dir ?s ?i, u)" "idles t u"
    using tlb_read_dir [OF assms(1,3,4) pde_index_less] .
  have vm: "tvm_vm u = ?s" using u(2) by (rule idles_vm)
  have au: "agrees P u" using u(2) assms(3) by (rule idles_agrees)
  have inv: "paging_inv pd (tvm_vm u)" using assms(1) by (simp only: vm)
  note s' = assms(6) [unfolded unmap_eq [OF assms(1,2)]]
  show thesis
  proof (cases "present (dir ?s ?i)")
    case False
    then show thesis using that [of u] u vm au s' by (simp add: tlb_unmap_page_def Let_def)
  next
    case True
    then have te: "table_entry ?s ?i" using assms(2) by (simp add: table_entry_def)
    obtain v where v: "tlb_write32 (page_table_virt ?i + pte_index virt * 4) 0 u = Some v"
      "tvm_vm v = set_entry ?s virt 0" "agrees (\<lambda>x. P x \<or> page_of x = page_of virt) (invlpg virt v)"
      unfolding vm [symmetric] by (rule tlb_set_entry [OF inv _ au assms(5)]) (simp only: vm te)
    show thesis
    proof (rule that [of "invlpg virt v"])
      show "agrees P (invlpg virt v)" using v(3) by (rule agrees_mono) simp
    qed (use True u(1) v s' in \<open>simp_all add: tlb_unmap_page_def Let_def\<close>)
  qed
qed

section \<open>Pages the cache does not know\<close>

text \<open>
  No entry for the four megabytes of directory entry \<open>i\<close>, and none planned. An access elsewhere keeps it so.
\<close>

definition unplanned :: "u32 \<Rightarrow> tvm \<Rightarrow> bool" where
  "unplanned i t \<longleftrightarrow> (\<forall>es \<in> set (tvm_plan t). \<forall>e \<in> set es. \<forall>va. e = Fill va \<longrightarrow> pde_index va \<noteq> i)"

definition uncached :: "u32 \<Rightarrow> tvm \<Rightarrow> bool" where
  "uncached i t \<longleftrightarrow> unplanned i t \<and> (\<forall>va. pde_index va = i \<longrightarrow> tvm_tlb t (page_of va) = None)"

lemma uncached_vm [simp]: "uncached i (t\<lparr>tvm_vm := s\<rparr>) = uncached i t"
  by (simp add: uncached_def unplanned_def)

lemma uncached_fill:
  assumes "uncached i t" and "pde_index va \<noteq> i"
  shows "uncached i (tlb_fill va t)"
proof -
  have "page_of x \<noteq> page_of va" if "pde_index x = i" for x
    using indices_eq(1) [of x va] that assms(2) by auto
  then show ?thesis using assms(1)
    by (auto simp: tlb_fill_def uncached_def unplanned_def split: option.splits)
qed

lemma uncached_step:
  "uncached i t \<Longrightarrow> (\<forall>va. e = Fill va \<longrightarrow> pde_index va \<noteq> i) \<Longrightarrow> uncached i (tlb_step e t)"
  by (cases e) (simp_all add: uncached_fill, simp add: uncached_def unplanned_def)

lemma uncached_steps:
  "uncached i t \<Longrightarrow> (\<forall>e \<in> set es. \<forall>va. e = Fill va \<longrightarrow> pde_index va \<noteq> i) \<Longrightarrow> uncached i (fold tlb_step es t)"
  by (induction es arbitrary: t) (simp_all add: uncached_step)

lemma uncached_chance:
  assumes "uncached i t"
  shows "uncached i (tlb_chance t)"
proof (cases "tvm_plan t")
  case (Cons es plan)
  have "uncached i (t\<lparr>tvm_plan := plan\<rparr>)" using assms Cons by (simp add: uncached_def unplanned_def)
  moreover have "\<forall>e \<in> set es. \<forall>va. e = Fill va \<longrightarrow> pde_index va \<noteq> i"
    using assms Cons by (simp add: uncached_def unplanned_def)
  ultimately show ?thesis using Cons by (simp add: tlb_chance_def uncached_steps)
qed (simp add: tlb_chance_def assms)

lemma uncached_translate:
  assumes "uncached i t" and "tlb_translate w va t = Some (pa, t')" and "pde_index va \<noteq> i"
  shows "uncached i t'"
  using assms(2) uncached_chance [OF assms(1)] uncached_fill [OF uncached_chance [OF assms(1)] assms(3)]
  by (auto simp: tlb_translate_def Let_def split: option.splits if_splits)

lemma uncached_flush: "uncached i t \<Longrightarrow> uncached i (invlpg va t)"
  using uncached_chance [of i t] by (simp add: invlpg_def Let_def) (simp add: uncached_def unplanned_def)

lemma uncached_access:
  "uncached i t \<Longrightarrow> tlb_read32 va t = Some (v, t') \<Longrightarrow> pde_index va \<noteq> i \<Longrightarrow> uncached i t'"
  "uncached i t \<Longrightarrow> tlb_write32 va v t = Some t' \<Longrightarrow> pde_index va \<noteq> i \<Longrightarrow> uncached i t'"
  "uncached i t \<Longrightarrow> tlb_write8 va b t = Some t' \<Longrightarrow> pde_index va \<noteq> i \<Longrightarrow> uncached i t'"
  by (auto simp: tlb_read32_def tlb_write32_def tlb_write8_def split: bind_splits dest: uncached_translate)

lemma uncached_memset:
  "uncached i t \<Longrightarrow> tlb_memset buf c n t = Some t' \<Longrightarrow> (\<And>k. k < n \<Longrightarrow> pde_index (buf + of_nat k) \<noteq> i)
   \<Longrightarrow> uncached i t'"
proof (induction n arbitrary: t')
  case (Suc n)
  then obtain u where u: "tlb_memset buf c n t = Some u" "tlb_write8 (buf + of_nat n) c u = Some t'"
    by (auto split: bind_splits)
  have "uncached i u" using Suc.IH [OF Suc.prems(1) u(1)] Suc.prems(3) by simp
  then show ?case using u(2) Suc.prems(3) [OF lessI] by (rule uncached_access(3))
qed simp

text \<open>The pages \<open>paging_map_page\<close> itself touches.\<close>

lemma touched_pages:
  "page_aligned pd \<Longrightarrow> unat j < 1024 \<Longrightarrow> pde_index (pd + j * 4) = pde_index pd"
  "unat i < 1024 \<Longrightarrow> unat j < 1024 \<Longrightarrow> pde_index (page_table_virt i + j * 4) = 1023"
  "unat i < 1024 \<Longrightarrow> k < 4096 \<Longrightarrow> pde_index (page_table_virt i + of_nat k) = 1023"
proof -
  show "pde_index (pd + j * 4) = pde_index pd" if "page_aligned pd" "unat j < 1024"
    using indices_eq(1) [of "pd + j * 4" pd] entry_addr(1) [OF that] that(1) by simp
  show "pde_index (page_table_virt i + j * 4) = 1023" if "unat i < 1024" "unat j < 1024"
    using indices_eq(1) [of "page_table_virt i + j * 4" "page_table_virt i"] page_table_virt [OF that(1)]
      entry_addr(1) [OF page_table_virt(1) [OF that(1)] that(2)] by simp
  show "pde_index (page_table_virt i + of_nat k) = 1023" if "unat i < 1024" "k < 4096"
    using indices_eq(1) [of "page_table_virt i + of_nat k" "page_table_virt i"] page_table_virt [OF that(1)] that(2)
    by (simp add: pages unat_of_nat_small)
qed

lemma tlb_map_runs:
  assumes "tlb_map_page pd virt phys flags t = Some (t', ok)"
  obtains (misaligned) "t' = t" "\<not> ok"
    | (no_frame) pde u s where "tlb_read32 (pd + pde_index virt * 4) t = Some (pde, u)" "t' = u\<lparr>tvm_vm := s\<rparr>" "\<not> ok"
    | (present) pde u v where "tlb_read32 (pd + pde_index virt * 4) t = Some (pde, u)" "present pde"
        "tlb_write32 (page_table_virt (pde_index virt) + pte_index virt * 4) (phys OR (flags OR PAGING_FLAG_PRESENT)) u = Some v"
        "t' = invlpg virt v" "ok"
    | (absent) pde u p f v w x where "tlb_read32 (pd + pde_index virt * 4) t = Some (pde, u)"
        "pmm_alloc_frame (vm_pmm (tvm_vm u)) = (p, f)"
        "tlb_write32 (pd + pde_index virt * 4) (f OR PAGING_FLAG_PRESENT OR PAGING_FLAG_WRITE)
          (u\<lparr>tvm_vm := (tvm_vm u)\<lparr>vm_pmm := p\<rparr>\<rparr>) = Some v"
        "tlb_memset (page_table_virt (pde_index virt)) 0 4096 v = Some w"
        "tlb_write32 (page_table_virt (pde_index virt) + pte_index virt * 4) (phys OR (flags OR PAGING_FLAG_PRESENT)) w = Some x"
        "t' = invlpg virt x" "ok"
proof (cases "page_aligned phys")
  case False
  then show thesis using assms misaligned by (simp add: tlb_map_page_def Let_def aligned_test)
next
  case True
  then obtain pde u where u: "tlb_read32 (pd + pde_index virt * 4) t = Some (pde, u)"
    using assms by (auto simp: tlb_map_page_def Let_def aligned_test split: bind_splits)
  obtain p f where pf: "pmm_alloc_frame (vm_pmm (tvm_vm u)) = (p, f)" by fastforce
  note run = assms [unfolded tlb_map_page_def Let_def aligned_test, simplified, simplified True u, simplified]
  consider "present pde" | "\<not> present pde" "f = 0" | "\<not> present pde" "f \<noteq> 0" by blast
  then show thesis
  proof cases
    case 1
    then show thesis using run present [OF u] by (auto split: bind_splits)
  next
    case 2
    then show thesis using run pf no_frame [OF u] by auto
  next
    case 3
    then show thesis using run pf absent [OF u pf] by (auto simp: PAGING_PAGE_SIZE_def split: bind_splits)
  qed
qed

lemma uncached_map:
  assumes "uncached i t" and "page_aligned pd" and "pde_index pd \<noteq> i" and "i \<noteq> 1023"
    and "tlb_map_page pd virt phys flags t = Some (t', ok)"
  shows "uncached i t'"
proof -
  note access = touched_pages(1) [OF assms(2) pde_index_less] touched_pages(2,3) [OF pde_index_less]
  have read: "uncached i u" if "tlb_read32 (pd + pde_index virt * 4) t = Some (v, u)" for u v
    using uncached_access(1) [OF assms(1) that] access(1) assms(3) by simp
  have link: "uncached i v"
    if "tlb_write32 (pd + pde_index virt * 4) x (u\<lparr>tvm_vm := s\<rparr>) = Some v" "uncached i u" for u v x s
    using uncached_access(2) [OF _ that(1)] that(2) access(1) assms(3) by simp
  have store: "uncached i v"
    if "tlb_write32 (page_table_virt (pde_index virt) + pte_index virt * 4) x u = Some v" "uncached i u" for u v x
    using uncached_access(2) [OF that(2,1)] access(2) assms(4) by simp
  have fill: "uncached i v" if "tlb_memset (page_table_virt (pde_index virt)) 0 4096 u = Some v" "uncached i u" for u v
    using uncached_memset [OF that(2,1)] access(3) assms(4) by simp
  show ?thesis using assms(5)
  proof (cases rule: tlb_map_runs)
    case misaligned
    then show ?thesis using assms(1) by simp
  next
    case no_frame
    then show ?thesis using read by simp
  next
    case present
    then show ?thesis using uncached_flush [OF store] read by simp
  next
    case absent
    then show ?thesis using uncached_flush [OF store [OF _ fill [OF _ link]]] read by simp
  qed
qed

section \<open>Soundness is kept\<close>

lemma exact_agrees: "tlb_exact t \<Longrightarrow> agrees P t"
  unfolding tlb_exact_def by (erule agrees_mono) simp

lemma tlb_exact_sound: "tlb_exact t \<Longrightarrow> tlb_sound t"
  unfolding tlb_sound_def by (rule exact_agrees)

lemma tlb_sound_idles: "tlb_sound t \<Longrightarrow> idles t t' \<Longrightarrow> tlb_sound t'"
  unfolding tlb_sound_def using idles_agrees idles_vm by simp

lemma tlb_sound_vm:
  assumes "tlb_sound t" and "\<And>x w. walk s' w x = walk (tvm_vm t) w x"
  shows "tlb_sound (t\<lparr>tvm_vm := s'\<rparr>)"
proof -
  have "settled s' = settled (tvm_vm t)" using assms(2) by (simp add: settled_def fun_eq_iff)
  then show ?thesis
    using assms agrees_stable [of "settled (tvm_vm t)" t s'] by (simp add: tlb_sound_def stable_def)
qed

text \<open>On a sound cache every settled address translates as the tables say.\<close>

lemma tlb_sound_translate:
  "tlb_sound t \<Longrightarrow> settled (tvm_vm t) x \<Longrightarrow> map_option fst (tlb_translate w x t) = translate (tvm_vm t) w x"
  using tlb_translate_agrees(1) [of "settled (tvm_vm t)" t x w] by (simp add: tlb_sound_def)

lemma map_walk_other:
  assumes "paging_inv pd s" and "unat (pde_index virt) < 1023"
    and "paging_map_page pd virt phys flags s = Some (s', ok)"
    and "unat (pde_index x) < 1023" and "page_of x \<noteq> page_of virt"
  shows "walk s' w x = walk s w x"
proof (cases rule: map_cases [OF assms(1,2), of phys flags])
  case (2 t)
  then show ?thesis using walk_set_entry_other [OF _ _ assms(5)] ready_walk [OF 2(4) assms(4)] assms(3)
    by (auto simp: ready_def)
qed (use assms(3) in simp)

lemma map_failed: "paging_map_page pd virt phys flags s = Some (s', ok) \<Longrightarrow> \<not> ok \<Longrightarrow> paging_inv pd s \<Longrightarrow>
   unat (pde_index virt) < 1023 \<Longrightarrow> s' = s"
  by (cases rule: map_cases [of pd s virt phys flags]) auto

lemma tlb_map_sound:
  assumes "paging_inv pd (tvm_vm t)" and "unat (pde_index virt) < 1023" and "tlb_sound t"
    and "paging_map_page pd virt phys flags (tvm_vm t) = Some (s', ok)"
  obtains t' where "tlb_map_page pd virt phys flags t = Some (t', ok)" "tvm_vm t' = s'" "tlb_sound t'"
    "ok \<longrightarrow> agrees (\<lambda>x. page_of x = page_of virt) t'"
proof -
  let ?s = "tvm_vm t" let ?P = "settled (tvm_vm t)" let ?i = "pde_index virt"
  obtain t' where t': "tlb_map_page pd virt phys flags t = Some (t', ok)" "tvm_vm t' = s'"
    "\<not> ok \<longrightarrow> agrees ?P t'"
    "ok \<longrightarrow> agrees (\<lambda>x. ?P x \<and> (pde_index x = ?i \<longrightarrow> present (dir ?s ?i)) \<or> page_of x = page_of virt) t'"
    by (rule tlb_map_step [OF assms(1,2) assms(3) [unfolded tlb_sound_def] pages_settled(1) [OF assms(1)]
      pages_settled(2) [OF pde_index_less] assms(4)])
  have "tlb_sound t'"
  proof (cases ok)
    case False
    then have "s' = ?s" using map_failed [OF assms(4) _ assms(1,2)] by simp
    then show ?thesis using False t'(2,3) by (simp add: tlb_sound_def)
  next
    case True
    have "?P x \<and> (pde_index x = ?i \<longrightarrow> present (dir ?s ?i)) \<or> page_of x = page_of virt" if "settled s' x" for x
    proof (cases rule: window_or_table [of x])
      case window
      then show ?thesis using assms(2) by (auto simp: settled_def)
    next
      case table
      then have "pde_index x \<noteq> 1023" by auto
      then have "walk ?s False x \<noteq> None \<or> page_of x = page_of virt"
        using that map_walk_other [OF assms(1,2,4) table, of False] unfolding settled_def by metis
      moreover have "pde_index x = ?i \<and> \<not> present (dir ?s ?i) \<longrightarrow> walk ?s False x = None"
        by (simp add: walk_table)
      ultimately show ?thesis unfolding settled_def by argo
    qed
    then show ?thesis unfolding tlb_sound_def t'(2) by (rule agrees_mono [OF t'(4) [rule_format, OF True]])
  qed
  moreover have "agrees (\<lambda>x. page_of x = page_of virt) t'" if ok by (rule agrees_mono [OF t'(4) [rule_format, OF that]]) simp
  ultimately show thesis using that t'(1,2) by blast
qed

lemma tlb_unmap_sound:
  assumes "paging_inv pd (tvm_vm t)" and "unat (pde_index virt) < 1023" and "tlb_sound t"
  obtains t' where "tlb_unmap_page pd virt t = Some t'" "paging_unmap_page pd virt (tvm_vm t) = Some (tvm_vm t')"
    "tlb_sound t'" "present (dir (tvm_vm t) (pde_index virt)) \<longrightarrow> agrees (\<lambda>x. page_of x = page_of virt) t'"
proof -
  let ?s = "tvm_vm t" let ?P = "settled (tvm_vm t)"
  note run = unmap_eq [OF assms(1,2)]
  obtain t' where t': "tlb_unmap_page pd virt t = Some t'"
    "tvm_vm t' = (if present (dir ?s (pde_index virt)) then set_entry ?s virt 0 else ?s)" "agrees ?P t'"
    "present (dir ?s (pde_index virt)) \<longrightarrow> agrees (\<lambda>x. ?P x \<or> page_of x = page_of virt) t'"
    by (rule tlb_unmap_step [OF assms(1,2) assms(3) [unfolded tlb_sound_def] pages_settled(1) [OF assms(1)]
      pages_settled(2) [OF pde_index_less] run])
  have "tlb_sound t'"
  proof (cases "present (dir ?s (pde_index virt))")
    case False
    then show ?thesis using t'(2,3) by (simp add: tlb_sound_def)
  next
    case True
    then have te: "table_entry ?s (pde_index virt)" using assms(2) by (simp add: table_entry_def)
    show ?thesis unfolding tlb_sound_def
      by (rule agrees_mono [OF t'(4) [rule_format, OF True]], rule settled_set_entry [OF assms(1) te])
        (use True t'(2) in simp)
  qed
  moreover have "agrees (\<lambda>x. page_of x = page_of virt) t'" if "present (dir ?s (pde_index virt))"
    by (rule agrees_mono [OF t'(4) [rule_format, OF that]]) simp
  ultimately show thesis using that [of t'] t'(1,2) run by simp
qed

lemma tlb_get_physical_sound:
  assumes "paging_inv pd (tvm_vm t)" and "tlb_sound t"
  obtains t' where "tlb_get_physical pd va t
      = Some (case walk (tvm_vm t) False va of None \<Rightarrow> 0 | Some f \<Rightarrow> f, t')" "idles t t'"
proof -
  let ?s = "tvm_vm t" let ?i = "pde_index va" let ?a = "page_table_virt (pde_index va) + pte_index va * 4"
  obtain u where u: "tlb_read32 (pd + ?i * 4) t = Some (dir ?s ?i, u)" "idles t u"
    using tlb_read_dir [OF assms(1) assms(2) [unfolded tlb_sound_def] pages_settled(1) [OF assms(1)] pde_index_less] by blast
  show thesis
  proof (cases "present (dir ?s ?i)")
    case False
    then show thesis using that [of u] u by (simp add: tlb_get_physical_def Let_def walk_table [of ?s])
  next
    case True
    obtain e where e: "vread32 ?s ?a = Some e"
      using get_physical_eq [OF assms(1), of va] True read_dir [OF assms(1) pde_index_less, of va]
      by (auto simp: paging_get_physical_def Let_def split: bind_splits)
    note addr = entry_addr [OF page_table_virt(1) [OF pde_index_less] pte_index_less, of va va]
    have vm: "tvm_vm u = ?s" using u(2) by (rule idles_vm)
    have "agrees (settled ?s) u" using idles_agrees [OF u(2)] assms(2) by (simp add: tlb_sound_def)
    then obtain v where v: "tlb_read32 ?a u = Some (e, v)" "idles u v"
      by (rule tlb_read32_right [OF _ _ addr(2)]) (simp_all add: addr(1) pages_settled vm e)
    have "paging_get_physical pd va ?s = Some (if present e then page_of e else 0)"
      using True e read_dir [OF assms(1) pde_index_less, of va]
      by (simp add: paging_get_physical_def Let_def flag_tests)
    then have "(if present e then page_of e else 0) = (case walk ?s False va of None \<Rightarrow> 0 | Some f \<Rightarrow> f)"
      by (simp add: get_physical_eq [OF assms(1)])
    then show thesis using that [of v] True u v idles_trans [OF u(2) v(2)]
      by (cases "present e") (simp_all add: tlb_get_physical_def Let_def flag_tests)
  qed
qed

text \<open>
  No wrong entry at all: where the table is there nothing else can be cached, and where it is not its pages had
  no entry and get none unless the plan has them.
\<close>

lemma exact_uncached:
  assumes "tlb_exact t" and "\<not> present (dir (tvm_vm t) i)" and "unplanned i t"
  shows "uncached i t"
proof -
  have "tvm_tlb t (page_of va) = None" if "pde_index va = i" for va
  proof (rule ccontr)
    assume "tvm_tlb t (page_of va) \<noteq> None"
    then obtain e where "entry_right (tvm_vm t) va e" using assms(1) by (auto simp: tlb_exact_def agrees_def)
    then show False using assms(2) that by (simp add: entry_right_def walk_table)
  qed
  then show ?thesis using assms(3) by (simp add: uncached_def)
qed

lemma tlb_map_exact:
  assumes "paging_inv pd (tvm_vm t)" and "unat (pde_index virt) < 1023" and "tlb_exact t"
    and "present (dir (tvm_vm t) (pde_index virt)) \<or> unplanned (pde_index virt) t"
    and "paging_map_page pd virt phys flags (tvm_vm t) = Some (s', ok)"
    and "tlb_map_page pd virt phys flags t = Some (u, ok)"
  shows "tlb_exact u"
proof -
  let ?i = "pde_index virt"
  obtain t' where t': "tlb_map_page pd virt phys flags t = Some (t', ok)" "tvm_vm t' = s'"
    "\<not> ok \<longrightarrow> agrees (\<lambda>_. True) t'"
    "ok \<longrightarrow> agrees (\<lambda>x. True \<and> (pde_index x = ?i \<longrightarrow> present (dir (tvm_vm t) ?i)) \<or> page_of x = page_of virt) t'"
    by (rule tlb_map_step [OF assms(1,2) assms(3) [unfolded tlb_exact_def] TrueI TrueI assms(5)])
  have u: "u = t'" using t'(1) assms(6) by simp
  show ?thesis
  proof (cases "ok \<and> \<not> present (dir (tvm_vm t) ?i)")
    case False
    then show ?thesis using t'(3,4) by (cases ok) (simp_all add: tlb_exact_def u)
  next
    case True
    have "pde_index pd \<noteq> ?i" "?i \<noteq> 1023"
      using True pagingD(4) [OF assms(1), of False] assms(2) by (auto simp: walk_table)
    moreover have "uncached ?i t" using exact_uncached [OF assms(3)] True assms(4) by blast
    ultimately have "uncached ?i t'" using uncached_map t'(1) pagingD(1) [OF assms(1)] by blast
    then show ?thesis using True t'(4) unfolding tlb_exact_def agrees_def uncached_def u by force
  qed
qed

lemma map_walk_new:
  assumes "paging_inv pd s" and "unat (pde_index virt) < 1023"
    and "paging_map_page pd virt phys flags s = Some (s', True)" and "page_of flags = 0"
    and "page_of x = page_of virt"
  shows "walk s' w x = (if w \<and> \<not> writable flags then None else Some phys)"
proof (cases rule: map_cases [OF assms(1,2), of phys flags])
  case (2 t)
  then have t: "paging_inv pd t" "table_entry t (pde_index virt)" by (simp_all add: ready_def)
  show ?thesis using 2(1) assms(3) walk_set_entry [OF t assms(5)] new_pte [OF 2(2) assms(4)] by auto
qed (use assms(3) in simp)

section \<open>From the boot tables\<close>

lemma boot_flush:
  assumes "boot_entries pd pt True (tvm_vm t)" and "tlb_exact t"
  obtains u where "tlb_drop_identity pd t = Some u" "boot_drop_identity pd (tvm_vm t) = Some (tvm_vm u)"
    "boot_entries pd pt False (tvm_vm u)" "vm_pmm (tvm_vm u) = vm_pmm (tvm_vm t)" "tvm_tlb u = Map.empty"
proof -
  obtain s' where s': "boot_drop_identity pd (tvm_vm t) = Some s'" "boot_entries pd pt False s'"
    "vm_pmm s' = vm_pmm (tvm_vm t)"
    using boot_drop_identity_entries [OF assms(1)] by blast
  have al: "word_aligned (pd + 0 * 4)" by (rule entry_addr [OF boot_entriesD(1) [OF assms(1)]]) simp
  have "stable (\<lambda>_. False) (tvm_vm t) s'" "agrees (\<lambda>_. False) t" by (simp_all add: stable_def agrees_def)
  then obtain v where v: "tlb_write32 (pd + 0 * 4) 0 t = Some v" "tvm_vm v = s'"
    using tlb_write32_right [OF assms(2) [unfolded tlb_exact_def] TrueI al s'(1) [unfolded boot_drop_identity_def]]
    by blast
  have "tvm_vm (load_cr3 (vm_cr3 s') v) = s'" by (simp add: load_cr3_def v(2))
  then show thesis using that [of "load_cr3 (vm_cr3 s') v"] v s'
    by (simp add: tlb_drop_identity_def Let_def) (simp add: load_cr3_def)
qed

lemma empty_exact: "tvm_tlb t = Map.empty \<Longrightarrow> tlb_exact t"
  by (simp add: tlb_exact_def agrees_def)

lemma init_exact:
  assumes "boot_entries pd pt False (tvm_vm t)" and "boot_tables pd (tvm_vm t)" and "tlb_exact t"
  obtains t' where "tlb_paging_init pd t = Some t'" "paging_init pd (tvm_vm t) = Some (tvm_vm t')"
    "paging_inv pd (tvm_vm t')" "tlb_exact t'"
    "\<And>x w. unat (pde_index x) < 1023 \<Longrightarrow> walk (tvm_vm t') w x = walk (tvm_vm t) w x"
proof (cases rule: paging_init_spec [OF assms(2)])
  case (1 s')
  note s' = 1(1,2,4)
  have "dir (tvm_vm t) 1023 = 0" using boot_entriesD(8) [OF assms(1), of 1023] by simp
  then have "walk (tvm_vm t) w x = None" if "pde_index x = 1023" for x w
    using that by (simp add: walk_table present_def)
  then have "stable (\<lambda>_. True) (tvm_vm t) s'"
    using s'(3) window_or_table unfolding stable_def by metis
  moreover have al: "word_aligned (pd + RECURSIVE_PD_INDEX * 4)"
    unfolding RECURSIVE_PD_INDEX_def by (rule entry_addr [OF boot_entriesD(1) [OF assms(1)]]) simp
  ultimately obtain t' where "tlb_paging_init pd t = Some t'" "tvm_vm t' = s'" "tlb_exact t'"
    using tlb_write32_right [OF assms(3) [unfolded tlb_exact_def] TrueI al
        s'(1) [unfolded paging_init_def Let_def]] assms(3)
    unfolding tlb_paging_init_def Let_def tlb_exact_def by blast
  then show thesis using that s' by blast
qed

text \<open>A page that is not mapped and has no entry faults at the next access, whatever the plan says.\<close>

lemma unmapped_faults:
  assumes "agrees (\<lambda>x. page_of x = page_of va) t" and "walk (tvm_vm t) False va = None"
  shows "tlb_translate w va t = None"
proof -
  have "walk (tvm_vm t) True va = None"
    using assms(2) walk_write_read by (metis not_None_eq)
  then have "translate (tvm_vm t) w va = None" using assms(2) by (cases w) (simp_all add: translate_def)
  then show ?thesis using tlb_translate_agrees(1) [OF assms(1), of va w] by simp
qed

section \<open>Histories\<close>

text \<open>
  What the kernel does to an address space after \<open>paging_init\<close>, in any order: the operations of
  \<open>paging.c\<close>, loads and stores at mapped addresses whose frames hold no table, allocations and
  releases of frames that hold none.
\<close>

inductive tlb_run :: "u32 \<Rightarrow> tvm \<Rightarrow> tvm \<Rightarrow> bool" for pd t where
  start: "tlb_run pd t t"
| map: "tlb_run pd t u \<Longrightarrow> mappable pd virt \<Longrightarrow> tlb_map_page pd virt phys flags u = Some (v, ok) \<Longrightarrow> tlb_run pd t v"
| unmap: "tlb_run pd t u \<Longrightarrow> mappable pd virt \<Longrightarrow> tlb_unmap_page pd virt u = Some v \<Longrightarrow> tlb_run pd t v"
| query: "tlb_run pd t u \<Longrightarrow> tlb_get_physical pd va u = Some (pa, v) \<Longrightarrow> tlb_run pd t v"
| load: "tlb_run pd t u \<Longrightarrow> walk (tvm_vm u) False va \<noteq> None \<Longrightarrow> tlb_translate False va u = Some (pa, v) \<Longrightarrow> tlb_run pd t v"
| store: "tlb_run pd t u \<Longrightarrow> walk (tvm_vm u) True va = Some f \<Longrightarrow> f \<notin> table_frames (tvm_vm u) \<Longrightarrow>
    tlb_write8 va b u = Some v \<Longrightarrow> tlb_run pd t v"
| alloc: "tlb_run pd t u \<Longrightarrow> pmm_alloc_frame (vm_pmm (tvm_vm u)) = (p, f) \<Longrightarrow>
    tlb_run pd t (u\<lparr>tvm_vm := (tvm_vm u)\<lparr>vm_pmm := p\<rparr>\<rparr>)"
| release: "tlb_run pd t u \<Longrightarrow> f \<in> pmm_pool (vm_pmm (tvm_vm u)) \<Longrightarrow> f \<notin> table_frames (tvm_vm u) \<Longrightarrow>
    tlb_run pd t (u\<lparr>tvm_vm := (tvm_vm u)\<lparr>vm_pmm := pmm_free_frame f (vm_pmm (tvm_vm u))\<rparr>\<rparr>)"

lemma map_inv:
  assumes "paging_inv pd s" and "mappable pd virt" and "paging_map_page pd virt phys flags s = Some (s', ok)"
  shows "paging_inv pd s'"
proof -
  have "unat (pde_index virt) < 1023" using assms(2) by (simp add: mappable_def)
  from map_cases [OF assms(1) this, of phys flags] show ?thesis
    using assms(1,3) paging_inv_set_entry [OF _ _ assms(2)] by cases (auto simp: ready_def)
qed

lemma unmap_inv:
  assumes "paging_inv pd s" and "mappable pd virt" and "paging_unmap_page pd virt s = Some s'"
  shows "paging_inv pd s'"
proof -
  have i: "unat (pde_index virt) < 1023" using assms(2) by (simp add: mappable_def)
  show ?thesis using assms(3) assms(1) i paging_inv_set_entry [OF assms(1) _ assms(2)]
    by (auto simp: unmap_eq [OF assms(1) i] table_entry_def)
qed

lemma store_sound:
  assumes "paging_inv pd (tvm_vm u)" and "tlb_sound u" and "walk (tvm_vm u) True va = Some f"
    and "f \<notin> table_frames (tvm_vm u)" and "tlb_write8 va b u = Some v"
  shows "paging_inv pd (tvm_vm v) \<and> tlb_sound v"
proof -
  let ?s = "tvm_vm u" let ?m = "(vm_mem (tvm_vm u))(f + off_of va := b)"
  have f: "page_of (f + off_of va) = f"
    using walk_aligned [OF assms(3)] by (simp add: pages unat_off_of)
  have kept: "tables_kept ?s ?m" using f assms(4) by (auto simp: tables_kept_def same_frame_def)
  have walk: "walk (?s\<lparr>vm_mem := ?m\<rparr>) w x = walk ?s w x" for w x by (rule tables_kept_walk [OF assms(1) kept])
  have "settled ?s (page_of va)" using walk_write_read [OF assms(3), of False] by (simp add: settled_def)
  moreover have "vwrite8 ?s va b = Some (?s\<lparr>vm_mem := ?m\<rparr>)" by (simp add: vwrite8_def translate_def assms(3))
  ultimately obtain v' where "tlb_write8 va b u = Some v'" "tvm_vm v' = ?s\<lparr>vm_mem := ?m\<rparr>" "agrees (settled ?s) v'"
    using tlb_write8_right [OF assms(2) [unfolded tlb_sound_def], of va b] by (auto simp: stable_def walk)
  moreover have "settled (?s\<lparr>vm_mem := ?m\<rparr>) = settled ?s" by (simp add: settled_def walk fun_eq_iff)
  ultimately show ?thesis using assms(5) tables_kept_inv [OF assms(1) kept] by (simp add: tlb_sound_def)
qed

lemma alloc_inv:
  assumes "paging_inv pd s" and "pmm_alloc_frame (vm_pmm s) = (p, f)"
  shows "paging_inv pd (s\<lparr>vm_pmm := p\<rparr>)"
proof -
  note k = pmm.alloc_keeps [OF pagingD(5) [OF assms(1)], unfolded assms(2), simplified]
  show ?thesis using table_frames_avail [OF assms(1)] k by (intro paging_inv_pmm [OF assms(1)]) auto
qed

lemma release_inv:
  assumes "paging_inv pd s" and "f \<in> pmm_pool (vm_pmm s)" and "f \<notin> table_frames s"
  shows "paging_inv pd (s\<lparr>vm_pmm := pmm_free_frame f (vm_pmm s)\<rparr>)"
proof -
  note r = pmm.release_returns [OF pagingD(5) [OF assms(1)] assms(2)]
  show ?thesis using table_frames_avail [OF assms(1)] r assms(3) by (intro paging_inv_pmm [OF assms(1)]) auto
qed

lemma tlb_run_keeps:
  assumes "tlb_run pd t u" and "paging_inv pd (tvm_vm t)" and "tlb_sound t"
  shows "paging_inv pd (tvm_vm u) \<and> tlb_sound u"
  using assms(1)
proof (induction rule: tlb_run.induct)
  case start
  show ?case using assms(2,3) by simp
next
  case (map u virt phys flags v ok)
  then have inv: "paging_inv pd (tvm_vm u)" "tlb_sound u" and i: "unat (pde_index virt) < 1023"
    by (simp_all add: mappable_def)
  obtain s' ok' where s': "paging_map_page pd virt phys flags (tvm_vm u) = Some (s', ok')"
    using map_cases [OF inv(1) i, of phys flags] by metis
  show ?case
    by (rule tlb_map_sound [OF inv(1) i inv(2) s']) (use map.hyps(3) map_inv [OF inv(1) map.hyps(2) s'] in simp)
next
  case (unmap u virt v)
  then have inv: "paging_inv pd (tvm_vm u)" "tlb_sound u" and i: "unat (pde_index virt) < 1023"
    by (simp_all add: mappable_def)
  show ?case
    by (rule tlb_unmap_sound [OF inv(1) i inv(2)]) (use unmap.hyps(3) unmap_inv [OF inv(1) unmap.hyps(2)] in simp)
next
  case (query u va pa v)
  then have inv: "paging_inv pd (tvm_vm u)" "tlb_sound u" by simp_all
  show ?case
    by (rule tlb_get_physical_sound [OF inv, of va])
      (use query.hyps(2) inv idles_vm tlb_sound_idles in auto)
next
  case (load u va pa v)
  then have "idles u v"
    using tlb_translate_agrees(2) [of "settled (tvm_vm u)" u va False pa v]
    by (auto simp: tlb_sound_def settled_def)
  then show ?case using load.IH idles_vm tlb_sound_idles by metis
next
  case (store u va f b v)
  then show ?case using store_sound by blast
next
  case (alloc u p f)
  then show ?case using alloc_inv tlb_sound_vm [of u "(tvm_vm u)\<lparr>vm_pmm := p\<rparr>"] by auto
next
  case (release u f)
  then show ?case
    using release_inv tlb_sound_vm [of u "(tvm_vm u)\<lparr>vm_pmm := pmm_free_frame f (vm_pmm (tvm_vm u))\<rparr>"] by auto
qed

section \<open>A table that is linked before it is cleared\<close>

text \<open>Each access uses up one part of the plan; without events it changes only the entry of its own page.\<close>

lemma plan_steps: "tvm_plan (fold tlb_step es t) = tvm_plan t"
proof (induction es arbitrary: t)
  case (Cons e es)
  have "tvm_plan (tlb_step e t) = tvm_plan t"
    by (cases e) (simp_all add: tlb_fill_def split: option.split)
  then show ?case using Cons by simp
qed simp

lemma translate_plan:
  assumes "tlb_translate w va t = Some (pa, t')"
  shows "tvm_plan t' = tl (tvm_plan t)"
    and "q \<noteq> page_of va \<Longrightarrow> tvm_tlb t' q = tvm_tlb (tlb_chance t) q"
proof -
  have c: "tvm_plan (tlb_chance t) = tl (tvm_plan t)"
    by (simp add: tlb_chance_def plan_steps split: list.split)
  then show "tvm_plan t' = tl (tvm_plan t)"
    using assms by (auto simp: tlb_translate_def Let_def tlb_fill_def split: option.splits if_splits)
  show "q \<noteq> page_of va \<Longrightarrow> tvm_tlb t' q = tvm_tlb (tlb_chance t) q"
    using assms by (auto simp: tlb_translate_def Let_def tlb_fill_def split: option.splits if_splits)
qed

lemma chance_idle: "tvm_plan t = [] \<Longrightarrow> tlb_chance t = t"
  by (simp add: tlb_chance_def)

lemma access_plan:
  "tlb_read32 va t = Some (v, t') \<Longrightarrow> tvm_plan t' = tl (tvm_plan t)"
  "tlb_write32 va v t = Some t' \<Longrightarrow> tvm_plan t' = tl (tvm_plan t)"
  "tlb_write8 va b t = Some t' \<Longrightarrow> tvm_plan t' = tl (tvm_plan t)"
  by (auto simp: tlb_read32_def tlb_write32_def tlb_write8_def split: bind_splits dest: translate_plan(1))

lemma access_keeps:
  "tlb_write32 va v t = Some t' \<Longrightarrow> q \<noteq> page_of va \<Longrightarrow> tvm_tlb t' q = tvm_tlb (tlb_chance t) q"
  "tlb_write8 va b t = Some t' \<Longrightarrow> q \<noteq> page_of va \<Longrightarrow> tvm_tlb t' q = tvm_tlb (tlb_chance t) q"
  by (auto simp: tlb_write32_def tlb_write8_def split: bind_splits dest: translate_plan(2))

text \<open>The clearing loop when the processor loads the entry of \<open>x\<close> before its first store.\<close>

lemma memset_loads:
  assumes "tvm_plan v = [[Fill x]]" and "walk (tvm_vm v) False x = Some g"
    and "\<And>k. k \<le> n \<Longrightarrow> page_of (buf + of_nat k) \<noteq> page_of x" and "tlb_memset buf c (Suc n) v = Some w"
  shows "tvm_plan w = [] \<and> (\<exists>e. tvm_tlb w (page_of x) = Some e \<and> te_frame e = g)"
  using assms(3,4)
proof (induction n arbitrary: w)
  case 0
  then have run: "tlb_write8 buf c v = Some w" by simp
  let ?v = "tlb_chance v"
  have v: "?v = tlb_fill x (v\<lparr>tvm_plan := []\<rparr>)" using assms(1) by (simp add: tlb_chance_def)
  have e: "\<exists>e. tvm_tlb ?v (page_of x) = Some e \<and> te_frame e = g"
    unfolding v using assms(2) by (simp add: tlb_fill_def)
  have "tvm_tlb w (page_of x) = tvm_tlb ?v (page_of x)"
    using access_keeps(2) [OF run, of "page_of x"] 0 by fastforce
  then show ?case using e access_plan(3) [OF run] assms(1) by simp
next
  case (Suc n)
  obtain u where u: "tlb_memset buf c (Suc n) v = Some u" "tlb_write8 (buf + of_nat (Suc n)) c u = Some w"
    using Suc.prems(2) unfolding tlb_memset.simps(2) [of buf c "Suc n"] by (auto split: bind_splits)
  have "tvm_plan u = [] \<and> (\<exists>e. tvm_tlb u (page_of x) = Some e \<and> te_frame e = g)"
    by (rule Suc.IH [OF _ u(1)]) (use Suc.prems(1) in simp)
  then show ?case
    using access_plan(3) [OF u(2)] access_keeps(2) [OF u(2), of "page_of x"] Suc.prems(1) [OF order_refl]
      chance_idle [of u] by auto
qed

lemma walk_linked_old:
  assumes "installs pd s i p f" and "pde_index x = i" and "present (entry (vm_mem s) f (pte_index x))"
  shows "walk (linked s i p f) False x = Some (page_of (entry (vm_mem s) f (pte_index x)))"
proof -
  have inv: "paging_inv pd s" and i: "unat i < 1024" using assms(1) by (auto simp: installs_def)
  note frame = installs_frame(2,6) [OF assms(1)]
  have d: "dir (linked s i p f) (pde_index x) = f OR PAGING_FLAG_PRESENT OR PAGING_FLAG_WRITE"
    using linked_dir [OF assms(1) i] assms(2) by simp
  have "entry (vm_mem (linked s i p f)) f (pte_index x) = entry (vm_mem s) f (pte_index x)"
    using frame pagingD(2) [OF inv] i by (simp add: linked_def)
  then show ?thesis using assms(3) unfolding walk_table [of "linked s i p f"] d
    by (simp add: new_entry [OF frame(1)] Let_def)
qed

lemma map_loads_old_entry:
  assumes "installs pd s (pde_index virt) p f" and "page_aligned phys"
    and "pde_index x = pde_index virt" and "page_of x \<noteq> page_of virt"
    and "present (entry (vm_mem s) f (pte_index x))"
    and "t = \<lparr>tvm_vm = s, tvm_tlb = Map.empty, tvm_plan = [[], [], [Fill x]]\<rparr>"
    and "tlb_map_page pd virt phys flags t = Some (t', True)"
  shows "tvm_plan t' = [] \<and> (\<exists>e. tvm_tlb t' (page_of x) = Some e
    \<and> te_frame e = page_of (entry (vm_mem s) f (pte_index x)))"
  using assms(7)
proof (cases rule: tlb_map_runs)
  case (present pde u v)
  have inv: "paging_inv pd (tvm_vm t)" and ab: "\<not> present (dir (tvm_vm t) (pde_index virt))"
    using assms(1,6) by (auto simp: installs_def)
  have "agrees (\<lambda>_. True) t" by (simp add: assms(6) agrees_def)
  then have "pde = dir (tvm_vm t) (pde_index virt)"
    by (cases rule: tlb_read_dir [OF inv _ TrueI pde_index_less, of virt]) (use present(1) in simp_all)
  then show ?thesis using present(2) ab by simp
next
  case (absent pde u p' f' v w y)
  let ?i = "pde_index virt"
  have inv: "paging_inv pd (tvm_vm t)" "unat ?i < 1023" and pf: "pmm_alloc_frame (vm_pmm s) = (p, f)"
    and s: "tvm_vm t = s" using assms(1,6) by (auto simp: installs_def)
  have exact: "agrees (\<lambda>_. True) t" by (simp add: assms(6) agrees_def)
  have q: "idles t u"
    by (cases rule: tlb_read_dir [OF inv(1) exact TrueI pde_index_less, of virt]) (use absent(1) in simp_all)
  have vm: "tvm_vm u = s" "p' = p" "f' = f" using idles_vm [OF q] s absent(2) pf by simp_all
  have "agrees (\<lambda>_. True) (u\<lparr>tvm_vm := s\<lparr>vm_pmm := p\<rparr>\<rparr>)"
    using idles_agrees [OF q exact] vm(1) by (intro agrees_stable) (simp_all add: stable_def)
  then have "tvm_vm v = linked s ?i p f"
    using tlb_write32_right [of "\<lambda>_. True" "u\<lparr>tvm_vm := s\<lparr>vm_pmm := p\<rparr>\<rparr>" "pd + ?i * 4"
        "f OR PAGING_FLAG_PRESENT OR PAGING_FLAG_WRITE" "linked s ?i p f" "\<lambda>_. False"]
      absent(3) vm installs_steps(1) [OF assms(1)]
      entry_addr(2) [OF pagingD(1) [OF inv(1)] pde_index_less, of virt]
    by (auto simp: stable_def agrees_def)
  then have walk: "walk (tvm_vm v) False x = Some (page_of (entry (vm_mem s) f (pte_index x)))"
    using walk_linked_old [OF assms(1,3,5)] by simp
  have other: "page_of z \<noteq> page_of x" if "pde_index z = 1023" for z
    using indices_eq(1) [of z x] that assms(3) inv(2) by auto
  have "tvm_plan v = [[Fill x]]" using access_plan(1) [OF absent(1)] access_plan(2) [OF absent(3)] assms(6) by simp
  then have w: "tvm_plan w = [] \<and> (\<exists>e. tvm_tlb w (page_of x) = Some e
      \<and> te_frame e = page_of (entry (vm_mem s) f (pte_index x)))"
    using memset_loads [OF _ walk, of 4095 "page_table_virt ?i" 0 w] absent(4)
      other [OF touched_pages(3) [OF pde_index_less]] by simp
  then show ?thesis
    using absent(6) access_plan(2) [OF absent(5)] access_keeps(1) [OF absent(5), of "page_of x"]
      other [OF touched_pages(2) [OF pde_index_less pte_index_less], of virt virt] assms(4) chance_idle [of w] chance_idle [of y]
    by (auto simp: invlpg_def Let_def)
qed simp_all

section \<open>Properties\<close>

text \<open>C21: on a processor with a translation cache, whatever it loads on speculation or drops, \<open>paging_map_page\<close> has the
  result it has without the cache, no mapped page has a wrong entry afterwards, and the new mapping is in force
  at once. The cache stays free of wrong entries altogether if the table was there, or if the
  processor loads nothing of the table's four megabytes on speculation.\<close>

theorem tlb_map_page_refines:
  assumes "paging_inv pd (tvm_vm t)" and "mappable pd virt" and "tlb_sound t"
    and "paging_map_page pd virt phys flags (tvm_vm t) = Some (s', ok)"
  shows "\<exists>t'. tlb_map_page pd virt phys flags t = Some (t', ok) \<and> tvm_vm t' = s' \<and> tlb_sound t'
    \<and> (ok \<longrightarrow> (\<forall>x w. page_of x = page_of virt \<longrightarrow> map_option fst (tlb_translate w x t') = translate s' w x))
    \<and> (tlb_exact t \<and> (present (dir (tvm_vm t) (pde_index virt)) \<or> unplanned (pde_index virt) t) \<longrightarrow> tlb_exact t')"
proof -
  let ?i = "pde_index virt" let ?s = "tvm_vm t"
  have i: "unat ?i < 1023" using assms(2) by (simp add: mappable_def)
  obtain t' where t': "tlb_map_page pd virt phys flags t = Some (t', ok)" "tvm_vm t' = s'" "tlb_sound t'"
    "ok \<longrightarrow> agrees (\<lambda>x. page_of x = page_of virt) t'"
    by (rule tlb_map_sound [OF assms(1) i assms(3,4)])
  have exact: "tlb_exact t'" if "tlb_exact t" "present (dir ?s ?i) \<or> unplanned ?i t"
    by (rule tlb_map_exact [OF assms(1) i that assms(4) t'(1)])
  have "map_option fst (tlb_translate w x t') = translate s' w x" if "ok" "page_of x = page_of virt" for x w
    using tlb_translate_agrees(1) [OF t'(4) [rule_format, OF that(1)], of x w] that(2) t'(2) by simp
  then show ?thesis using t'(1-3) exact by blast
qed

text \<open>A processor on the example address space: it has one page in the cache, and plans to load and drop others.\<close>

definition example_tvm :: tvm where
  "example_tvm = \<lparr>tvm_vm = example_vm, tvm_tlb = [0xC0123000 \<mapsto> \<lparr>te_frame = 0x123000, te_write = True\<rparr>],
     tvm_plan = [[Fill 0xC0124000], [Evict 0xC0124000, Fill 0xC0125000], [], [Fill 0xC0123000]]\<rparr>"

lemma example_tvm:
  "tvm_vm example_tvm = example_vm" "paging_inv 0xC0110000 (tvm_vm example_tvm)" "tlb_exact example_tvm"
proof -
  show vm: "tvm_vm example_tvm = example_vm" by (simp add: example_tvm_def)
  then show "paging_inv 0xC0110000 (tvm_vm example_tvm)" by (simp add: example_vm(1))
  have "entry_right example_vm va \<lparr>te_frame = 0x123000, te_write = True\<rparr>" if "page_of va = 0xC0123000" for va
  proof -
    have i: "pde_index va = pde_index 0xC0123000" "pte_index va = pte_index 0xC0123000"
      using indices_eq [of va "0xC0123000"] that by (simp_all add: page_of_def)
    have "walk example_vm w va = Some 0x123000" for w
      by (subst example_vm(3), simp_all only: i) (simp_all add: pde_index_def pte_index_def)
    then show ?thesis by (simp add: entry_right_def)
  qed
  then show "tlb_exact example_tvm" unfolding tlb_exact_def agrees_def vm by (simp add: example_tvm_def)
qed

theorem tlb_map_page_refines_witness:
  "\<exists>t'. tlb_map_page 0xC0110000 0xC2000000 0x121000 2 example_tvm = Some (t', True) \<and> tlb_exact t'
    \<and> map_option fst (tlb_translate True 0xC2000004 t') = Some 0x121004"
proof -
  have "page_aligned 0x121000" by (simp add: page_aligned_def off_of_def)
  moreover have "pmm_avail (vm_pmm example_vm) \<noteq> {}" using example_avail by (auto simp: example_vm(2))
  moreover have i: "unat (pde_index 0xC2000000) < 1023" using example_mappable(1) by (simp add: mappable_def)
  ultimately obtain s where s: "paging_map_page 0xC0110000 0xC2000000 0x121000 2 example_vm = Some (s, True)"
    by (cases rule: map_cases [OF example_vm(1) i, of "0x121000" 2]) auto
  have "page_of 2 = 0" "writable 2" by (simp_all add: page_of_def writable_def)
  note walk = map_walk_new [OF example_vm(1) i s this(1)]
  have "unplanned (pde_index 0xC2000000) example_tvm" by (simp add: unplanned_def example_tvm_def pde_index_def)
  then obtain t' where t': "tlb_map_page 0xC0110000 0xC2000000 0x121000 2 example_tvm = Some (t', True)" "tlb_exact t'"
    "\<And>x w. page_of x = 0xC2000000 \<Longrightarrow> map_option fst (tlb_translate w x t') = translate s w x"
    using tlb_map_page_refines [OF example_tvm(2) example_mappable(1) tlb_exact_sound [OF example_tvm(3)], of "0x121000" 2 s True]
      s example_tvm(1,3) by (auto simp: page_of_def)
  have "translate s True 0xC2000004 = Some 0x121004"
    using walk [of "0xC2000004" True] \<open>writable 2\<close> by (simp add: translate_def page_of_def off_of_def)
  moreover have "map_option fst (tlb_translate True 0xC2000004 t') = translate s True 0xC2000004"
    by (rule t'(3)) (simp add: page_of_def)
  ultimately show ?thesis using t'(1,2) by auto
qed

text \<open>C22: \<open>paging_unmap_page\<close> flushes what it removes: with a translation cache it still never faults and has the
  result it has without one, no mapped page has a wrong entry afterwards, and the next access to the page
  faults even if its translation was cached, if the page's table was there.\<close>

theorem tlb_unmap_page_flushes:
  assumes "paging_inv pd (tvm_vm t)" and "mappable pd virt" and "tlb_sound t"
  shows "\<exists>t'. tlb_unmap_page pd virt t = Some t' \<and> paging_unmap_page pd virt (tvm_vm t) = Some (tvm_vm t')
    \<and> tlb_sound t' \<and> (present (dir (tvm_vm t) (pde_index virt)) \<longrightarrow>
        (\<forall>x w. page_of x = page_of virt \<longrightarrow> tlb_translate w x t' = None))"
proof -
  let ?i = "pde_index virt" let ?s = "tvm_vm t"
  have i: "unat ?i < 1023" using assms(2) by (simp add: mappable_def)
  obtain t' where t': "tlb_unmap_page pd virt t = Some t'" "paging_unmap_page pd virt ?s = Some (tvm_vm t')"
    "tlb_sound t'" "present (dir ?s ?i) \<longrightarrow> agrees (\<lambda>x. page_of x = page_of virt) t'"
    by (rule tlb_unmap_sound [OF assms(1) i assms(3)])
  have "tlb_translate w x t' = None" if "present (dir ?s ?i)" "page_of x = page_of virt" for x w
  proof (rule unmapped_faults)
    show "agrees (\<lambda>z. page_of z = page_of x) t'" using t'(4) that by simp
    have "table_entry ?s ?i" using that(1) i by (simp add: table_entry_def)
    from walk_set_entry [OF assms(1) this that(2), of 0 False] show "walk (tvm_vm t') False x = None"
      using t'(2) that(1) by (simp add: unmap_eq [OF assms(1) i] present_def)
  qed
  then show ?thesis using t'(1-3) by blast
qed

theorem tlb_unmap_page_flushes_witness:
  "tlb_translate False 0xC0123456 example_tvm \<noteq> None
   \<and> (\<exists>t'. tlb_unmap_page 0xC0110000 0xC0123000 example_tvm = Some t' \<and> tlb_translate False 0xC0123456 t' = None)"
proof -
  have m: "mappable 0xC0110000 0xC0123000" by (simp add: mappable_def pde_index_def page_of_def)
  have "walk example_vm False 0xC0123456 = Some 0x123000"
    by (subst example_vm(3)) (simp_all add: pde_index_def pte_index_def)
  then have w: "translate example_vm False 0xC0123456 \<noteq> None" "settled example_vm 0xC0123456"
    by (simp_all add: translate_def settled_def)
  have "present (dir example_vm (pde_index 0xC0123000))"
    using example_vm_dir [of "pde_index 0xC0123000"] by (simp add: pde_index_def)
  with tlb_unmap_page_flushes [OF example_tvm(2) m tlb_exact_sound [OF example_tvm(3)]]
  obtain t' where "tlb_unmap_page 0xC0110000 0xC0123000 example_tvm = Some t'"
    "tlb_translate False 0xC0123456 t' = None" by (auto simp: example_tvm(1) page_of_def)
  moreover have "tlb_translate False 0xC0123456 example_tvm \<noteq> None"
    using tlb_sound_translate [OF tlb_exact_sound [OF example_tvm(3)], of "0xC0123456" False] w example_tvm(1)
    by auto
  ultimately show ?thesis by blast
qed

text \<open>C23: every history of the address space, with any mappings, removals, queries, loads, stores, allocations and
  releases, and whatever the processor caches or drops in between, keeps the page tables
  consistent, and every mapped address translates as the tables say.\<close>

theorem tlb_run_translates:
  assumes "tlb_run pd t u" and "paging_inv pd (tvm_vm t)" and "tlb_sound t"
  shows "paging_inv pd (tvm_vm u) \<and> tlb_sound u
    \<and> (\<forall>x w. walk (tvm_vm u) False x \<noteq> None \<longrightarrow> map_option fst (tlb_translate w x u) = translate (tvm_vm u) w x)"
  using tlb_run_keeps [OF assms] tlb_sound_translate [of u] by (simp add: settled_def)

theorem tlb_run_translates_witness:
  "\<exists>t u. tlb_run 0xC0110000 example_tvm u \<and> tlb_unmap_page 0xC0110000 0xC0123000 t = Some u
    \<and> map_option fst (tlb_translate True 0xC0124004 u) = Some 0x124004"
proof -
  have m: "mappable 0xC0110000 0xC0123000" by (simp add: mappable_def pde_index_def page_of_def)
  have i: "unat (pde_index 0xC0123000) < 1023" by (simp add: pde_index_def)
  obtain u where u: "tlb_unmap_page 0xC0110000 0xC0123000 example_tvm = Some u"
    "paging_unmap_page 0xC0110000 0xC0123000 example_vm = Some (tvm_vm u)"
    by (rule tlb_unmap_sound [OF example_tvm(2) i tlb_exact_sound [OF example_tvm(3)]]) (simp add: example_tvm(1))
  have run: "tlb_run 0xC0110000 example_tvm u" by (rule tlb_run.unmap [OF tlb_run.start m u(1)])
  have te: "table_entry example_vm (pde_index 0xC0123000)"
    using example_vm_dir [of "pde_index 0xC0123000"] i by (simp add: table_entry_def) (simp add: pde_index_def)
  have "page_of 0xC0124004 \<noteq> page_of 0xC0123000" by (simp add: page_of_def)
  moreover have "tvm_vm u = set_entry example_vm 0xC0123000 0"
    using u(2) te by (simp add: unmap_eq [OF example_vm(1) i] table_entry_def)
  ultimately have "walk (tvm_vm u) w 0xC0124004 = walk example_vm w 0xC0124004" for w
    using walk_set_entry_other [OF example_vm(1) te] by (simp only:)
  also have "walk example_vm w 0xC0124004 = Some 0x124000" for w
    by (subst example_vm(3)) (simp_all add: pde_index_def pte_index_def)
  finally have "walk (tvm_vm u) w 0xC0124004 = Some 0x124000" for w .
  then have "map_option fst (tlb_translate True 0xC0124004 u) = Some 0x124004"
    using tlb_run_translates [OF run example_tvm(2) tlb_exact_sound [OF example_tvm(3)]]
    by (simp add: translate_def off_of_def)
  then show ?thesis using run u(1) by blast
qed

text \<open>The reload of CR3 in \<open>boot.S\<close> is needed and enough: however many identity addresses were cached, after it
  each of them faults, and after \<open>paging_init\<close> too; both have the result they have without a
  cache, and the kernel starts with no wrong entry.\<close>

theorem tlb_boot_flushes:
  assumes "boot_entries pd pt True (tvm_vm t)" and "tlb_exact t" and "pmm_inv (vm_pmm (tvm_vm t))"
    and "virt_to_phys pd \<notin> pmm_avail (vm_pmm (tvm_vm t))" and "virt_to_phys pt \<notin> pmm_avail (vm_pmm (tvm_vm t))"
  shows "\<exists>u v. tlb_drop_identity pd t = Some u \<and> boot_drop_identity pd (tvm_vm t) = Some (tvm_vm u)
    \<and> tlb_paging_init pd u = Some v \<and> paging_init pd (tvm_vm u) = Some (tvm_vm v)
    \<and> paging_inv pd (tvm_vm v) \<and> tlb_exact v
    \<and> (\<forall>x w. pde_index x = 0 \<longrightarrow> tlb_translate w x u = None \<and> tlb_translate w x v = None)"
proof -
  obtain u where u: "tlb_drop_identity pd t = Some u" "boot_drop_identity pd (tvm_vm t) = Some (tvm_vm u)"
    "boot_entries pd pt False (tvm_vm u)" "vm_pmm (tvm_vm u) = vm_pmm (tvm_vm t)" "tvm_tlb u = Map.empty"
    by (rule boot_flush [OF assms(1,2)])
  have exact: "tlb_exact u" using u(5) by (rule empty_exact)
  have tables: "boot_tables pd (tvm_vm u)" using assms(3-5) u(4) by (intro boot_entries_tables [OF u(3)]) simp_all
  show ?thesis
  proof (cases rule: init_exact [OF u(3) tables exact])
    case (1 v)
    have none: "walk (tvm_vm u) False x = None" "walk (tvm_vm v) False x = None" if "pde_index x = 0" for x
      using boot_walk [OF u(3)] 1(5) [of x] that by simp_all
    have "tlb_translate w x u = None \<and> tlb_translate w x v = None" if "pde_index x = 0" for x w
      using unmapped_faults [OF exact_agrees [OF exact] none(1) [OF that]]
        unmapped_faults [OF exact_agrees [OF 1(4)] none(2) [OF that]] by simp
    then show ?thesis using u(1,2) 1(1-4) by blast
  qed
qed

theorem tlb_boot_flushes_witness:
  "let t = \<lparr>tvm_vm = \<lparr>vm_mem = boot_paging 0xC0110000 0xC0111000 (\<lambda>_. 0), vm_cr3 = 0x110000, vm_pmm = example_pmm\<rparr>,
       tvm_tlb = Map.empty, tvm_plan = [[Fill 0x5000], [Fill 0x6000]]\<rparr>
   in \<exists>u v. tlb_drop_identity 0xC0110000 t = Some u \<and> tlb_paging_init 0xC0110000 u = Some v
      \<and> tlb_translate False 0x5004 v = None"
proof -
  let ?s = "\<lparr>vm_mem = boot_paging 0xC0110000 0xC0111000 (\<lambda>_. 0), vm_cr3 = 0x110000, vm_pmm = example_pmm\<rparr>"
  let ?t = "\<lparr>tvm_vm = ?s, tvm_tlb = Map.empty, tvm_plan = [[Fill 0x5000], [Fill 0x6000]]\<rparr>"
  have phys: "virt_to_phys 0xC0110000 = 0x110000" "virt_to_phys 0xC0111000 = 0x111000"
    by (simp_all add: virt_to_phys_def KERNEL_VIRTUAL_BASE_def)
  have placed: "boot_placed 0xC0110000 0xC0111000"
    by (simp add: boot_placed_def page_aligned_def off_of_def)
  have "cleared (\<lambda>_. 0) (virt_to_phys 0xC0110000)"
    by (simp add: cleared_def entry_def load32_def join32_def)
  from boot_paging_entries [OF placed this] placed have e: "boot_entries 0xC0110000 0xC0111000 True (tvm_vm ?t)"
    by (auto simp: boot_entries_def phys)
  have "pmm_inv (vm_pmm (tvm_vm ?t))" "virt_to_phys 0xC0110000 \<notin> pmm_avail (vm_pmm (tvm_vm ?t))"
    "virt_to_phys 0xC0111000 \<notin> pmm_avail (vm_pmm (tvm_vm ?t))"
    by (simp_all add: phys example_pmm_facts pmm_avail_def addr_to_frame_def PMM_PAGE_SIZE_def example_is_used)
  from tlb_boot_flushes [OF e empty_exact this] obtain u v where
    "tlb_drop_identity 0xC0110000 ?t = Some u" "tlb_paging_init 0xC0110000 u = Some v"
    "\<And>x w. pde_index x = 0 \<Longrightarrow> tlb_translate w x v = None" by auto
  then show ?thesis unfolding Let_def using pde_index_def [of "0x5004"] by auto
qed

text \<open>C24: what \<open>paging_map_page\<close> does not flush: it enters a new page table in the directory before it clears it. If
  the frame held a word that looks like a present entry, and the processor loads that entry on speculation
  before the first store of the clearing loop, then after the call the code's own query says the page
  is not mapped, but an access goes to the frame of the old word instead of faulting.\<close>

theorem tlb_new_table_stale:
  assumes "installs pd s (pde_index virt) p f" and "page_aligned phys"
    and "pde_index x = pde_index virt" and "page_of x \<noteq> page_of virt"
    and "present (entry (vm_mem s) f (pte_index x))"
    and "t = \<lparr>tvm_vm = s, tvm_tlb = Map.empty, tvm_plan = [[], [], [Fill x]]\<rparr>"
  shows "\<exists>t'. tlb_map_page pd virt phys flags t = Some (t', True) \<and> tlb_sound t'
    \<and> map_option fst (tlb_get_physical pd x t') = Some 0
    \<and> map_option fst (tlb_translate False x t') = Some (page_of (entry (vm_mem s) f (pte_index x)) + off_of x)"
proof -
  let ?i = "pde_index virt"
  have inv: "paging_inv pd (tvm_vm t)" and i: "unat ?i < 1023" and absent: "\<not> present (dir s ?i)"
    using assms(1,6) by (auto simp: installs_def)
  have t: "tvm_vm t = s" "tlb_sound t" using assms(6) by (simp_all add: tlb_exact_sound empty_exact)
  obtain s' where run: "paging_map_page pd virt phys flags (tvm_vm t) = Some (s', True)"
    using map_install [OF assms(1,2)] t(1) by blast
  obtain t' where t': "tlb_map_page pd virt phys flags t = Some (t', True)" "tvm_vm t' = s'" "tlb_sound t'"
    by (rule tlb_map_sound [OF inv i t(2) run])
  have old: "tvm_plan t' = [] \<and> (\<exists>e. tvm_tlb t' (page_of x) = Some e
      \<and> te_frame e = page_of (entry (vm_mem s) f (pte_index x)))"
    by (rule map_loads_old_entry [OF assms t'(1)])
  then have hit: "map_option fst (tlb_translate False x t') = Some (page_of (entry (vm_mem s) f (pte_index x)) + off_of x)"
    by (auto simp: tlb_translate_def Let_def chance_idle)
  have "walk s False x = None" using absent assms(3) by (simp add: walk_table)
  then have none: "walk s' False x = None"
    using map_walk_other [OF inv i run, of x False] assms(3,4) i t(1) by simp
  have "present (dir s (pde_index pd))"
    using pagingD(4) [OF inv, of False] t(1) by (cases "present (dir s (pde_index pd))") (simp_all add: walk_table)
  then have "page_of virt \<noteq> pd" using absent by auto
  then have inv': "paging_inv pd (tvm_vm t')"
    using map_inv [OF inv _ run] i t'(2) by (simp add: mappable_def)
  have "map_option fst (tlb_get_physical pd x t') = Some 0"
    by (cases rule: tlb_get_physical_sound [OF inv' t'(3), of x]) (simp add: t'(2) none)
  then show ?thesis using t'(1,3) hit by blast
qed

theorem tlb_new_table_stale_witness:
  "\<exists>t t'. tvm_tlb t = Map.empty \<and> tlb_map_page 0xC0110000 0xC2000000 0x121000 2 t = Some (t', True)
    \<and> map_option fst (tlb_get_physical 0xC0110000 0xC2001004 t') = Some 0
    \<and> map_option fst (tlb_translate False 0xC2001004 t') = Some 0x5004"
proof -
  obtain p f where pf: "pmm_alloc_frame example_pmm = (p, f)" by fastforce
  have inv: "pmm_inv example_pmm" by (rule example_pmm_facts)
  have ne: "pmm_avail example_pmm \<noteq> {}" using example_avail by auto
  have f: "f \<in> pmm_avail example_pmm" "f \<noteq> 0" "page_aligned f"
    using pmm.alloc_takes [OF inv ne pf] pmm.pool_frame pmm.avail_pool by blast+
  let ?m = "store32 (vm_mem example_vm) (f + 1 * 4) 0x5003" let ?s = "example_vm\<lparr>vm_mem := ?m\<rparr>"
  have one: "unat (1::u32) < 1024" by simp
  have "f \<notin> table_frames example_vm"
    using table_frames_avail [OF example_vm(1)] f(1) by (auto simp: example_vm(2))
  then have kept: "tables_kept example_vm ?m"
    using same_frame_store32 [OF entry_addr(2) [OF f(3) one]] entry_addr(1) [OF f(3) one]
    unfolding tables_kept_def by metis
  have i: "pde_index 0xC2001004 = pde_index 0xC2000000" "pte_index 0xC2001004 = 1"
    "unat (pde_index 0xC2000000) < 1023" "pde_index 0xC2000000 \<noteq> 768"
    by (simp_all add: pde_index_def pte_index_def)
  have d: "dir ?s (pde_index 0xC2000000) = dir example_vm (pde_index 0xC2000000)"
    by (rule tables_kept_dir [OF example_vm(1) kept pde_index_less])
  have "installs 0xC0110000 ?s (pde_index 0xC2000000) p f"
    unfolding installs_def d using tables_kept_inv [OF example_vm(1) kept] i(3,4) example_vm_dir [OF i(3)] pf f(2)
    by (simp add: example_vm(2))
  moreover have e: "entry (vm_mem ?s) f (pte_index 0xC2001004) = 0x5003"
    using entry_store [OF f(3,3) one one] by (simp only: i(2)) simp
  ultimately obtain t' where t':
    "tlb_map_page 0xC0110000 0xC2000000 0x121000 2
       \<lparr>tvm_vm = ?s, tvm_tlb = Map.empty, tvm_plan = [[], [], [Fill 0xC2001004]]\<rparr> = Some (t', True)"
    "map_option fst (tlb_get_physical 0xC0110000 0xC2001004 t') = Some 0"
    "map_option fst (tlb_translate False 0xC2001004 t')
       = Some (page_of (entry (vm_mem ?s) f (pte_index 0xC2001004)) + off_of 0xC2001004)"
    using tlb_new_table_stale [of "0xC0110000" ?s "0xC2000000" p f "0x121000" "0xC2001004" _ 2, OF _ _ i(1) _ _ refl]
    by (auto simp: page_of_def page_aligned_def off_of_def present_def)
  moreover have "page_of (entry (vm_mem ?s) f (pte_index 0xC2001004)) + off_of 0xC2001004 = 0x5004"
    unfolding e by (simp add: page_of_def off_of_def)
  ultimately show ?thesis by (intro exI conjI) (auto intro: t'(1))
qed

end
