(* ===== verification/Kheap_Block.thy ===== *)
theory Kheap_Block
  imports Region
begin

text \<open>
  The block headers of the kernel heap (\<open>kheap_block_t\<close> in \<open>kernel/mm/kheap.c\<close>): where the
  compiler puts the fields, and how the heap code reads and writes them through virtual memory.
  The locale \<open>header_store\<close> is the interface the heap's list operations use: a finite map of
  headers that field reads look up and field writes update. It is interpreted on the paged memory
  for headers that lie apart in a region.
\<close>

section \<open>Layout\<close>

record kheap_block =
  kb_size :: u32
  kb_free :: bool
  kb_next :: u32
  kb_prev :: u32

definition get_size :: "vm \<Rightarrow> u32 \<Rightarrow> u32 option" where
  "get_size s b = vread32 s b"

definition get_free :: "vm \<Rightarrow> u32 \<Rightarrow> bool option" where
  "get_free s b = map_option (\<lambda>x. x \<noteq> 0) (vread8 s (b + 4))"

definition get_next :: "vm \<Rightarrow> u32 \<Rightarrow> u32 option" where
  "get_next s b = vread32 s (b + 8)"

definition get_prev :: "vm \<Rightarrow> u32 \<Rightarrow> u32 option" where
  "get_prev s b = vread32 s (b + 12)"

definition set_size :: "vm \<Rightarrow> u32 \<Rightarrow> u32 \<Rightarrow> vm option" where
  "set_size s b v = vwrite32 s b v"

definition set_free :: "vm \<Rightarrow> u32 \<Rightarrow> bool \<Rightarrow> vm option" where
  "set_free s b v = vwrite8 s (b + 4) (if v then 1 else 0)"

definition set_next :: "vm \<Rightarrow> u32 \<Rightarrow> u32 \<Rightarrow> vm option" where
  "set_next s b v = vwrite32 s (b + 8) v"

definition set_prev :: "vm \<Rightarrow> u32 \<Rightarrow> u32 \<Rightarrow> vm option" where
  "set_prev s b v = vwrite32 s (b + 12) v"

definition block_at :: "vm \<Rightarrow> u32 \<Rightarrow> kheap_block option" where
  "block_at s b = do {
     sz \<leftarrow> get_size s b; fr \<leftarrow> get_free s b; nx \<leftarrow> get_next s b; pv \<leftarrow> get_prev s b;
     Some \<lparr>kb_size = sz, kb_free = fr, kb_next = nx, kb_prev = pv\<rparr> }"

section \<open>The interface\<close>

locale header_store =
  fixes holds :: "'s \<Rightarrow> (u32 \<Rightarrow> kheap_block option) \<Rightarrow> bool"
    and kept :: "u32 set \<Rightarrow> 's \<Rightarrow> 's \<Rightarrow> bool"
    and gsize :: "'s \<Rightarrow> u32 \<Rightarrow> u32 option" and gfree :: "'s \<Rightarrow> u32 \<Rightarrow> bool option"
    and gnext :: "'s \<Rightarrow> u32 \<Rightarrow> u32 option" and gprev :: "'s \<Rightarrow> u32 \<Rightarrow> u32 option"
    and ssize :: "'s \<Rightarrow> u32 \<Rightarrow> u32 \<Rightarrow> 's option" and sfree :: "'s \<Rightarrow> u32 \<Rightarrow> bool \<Rightarrow> 's option"
    and snext :: "'s \<Rightarrow> u32 \<Rightarrow> u32 \<Rightarrow> 's option" and sprev :: "'s \<Rightarrow> u32 \<Rightarrow> u32 \<Rightarrow> 's option"
  assumes reads: "holds s h \<Longrightarrow> h b = Some k \<Longrightarrow> gsize s b = Some (kb_size k) \<and> gfree s b = Some (kb_free k)
      \<and> gnext s b = Some (kb_next k) \<and> gprev s b = Some (kb_prev k)"
    and size_law: "holds s h \<Longrightarrow> h b = Some k \<Longrightarrow>
      \<exists>s'. ssize s b v = Some s' \<and> holds s' (h(b \<mapsto> k\<lparr>kb_size := v\<rparr>)) \<and> kept {b} s s'"
    and free_law: "holds s h \<Longrightarrow> h b = Some k \<Longrightarrow>
      \<exists>s'. sfree s b w = Some s' \<and> holds s' (h(b \<mapsto> k\<lparr>kb_free := w\<rparr>)) \<and> kept {b} s s'"
    and next_law: "holds s h \<Longrightarrow> h b = Some k \<Longrightarrow>
      \<exists>s'. snext s b v = Some s' \<and> holds s' (h(b \<mapsto> k\<lparr>kb_next := v\<rparr>)) \<and> kept {b} s s'"
    and prev_law: "holds s h \<Longrightarrow> h b = Some k \<Longrightarrow>
      \<exists>s'. sprev s b v = Some s' \<and> holds s' (h(b \<mapsto> k\<lparr>kb_prev := v\<rparr>)) \<and> kept {b} s s'"
    and kept_refl: "kept D s s"
    and kept_trans: "kept D s t \<Longrightarrow> kept D t u \<Longrightarrow> kept D s u"
    and kept_mono: "kept D s t \<Longrightarrow> D \<subseteq> E \<Longrightarrow> kept E s t"
begin

text \<open>A step of the code that succeeds, ends in the headers \<open>h\<close> and writes only headers of \<open>D\<close>.\<close>

definition ends :: "'s \<Rightarrow> 's option \<Rightarrow> (u32 \<Rightarrow> kheap_block option) \<Rightarrow> u32 set \<Rightarrow> bool" where
  "ends s r h D \<longleftrightarrow> (\<exists>s'. r = Some s' \<and> holds s' h \<and> kept D s s')"

lemma ends_Some: "holds s h \<Longrightarrow> ends s (Some s) h D"
  by (auto simp: ends_def kept_refl)

lemma ends_step: "kept D s t \<Longrightarrow> ends t r h D \<Longrightarrow> ends s r h D"
  by (auto simp: ends_def intro: kept_trans)

text \<open>Field reads and writes in front of the rest \<open>f\<close> of the code.\<close>

lemma ends_get:
  assumes "holds s h" and "h b = Some k"
  shows "ends s (f (kb_size k)) h' D \<Longrightarrow> ends s (Option.bind (gsize s b) f) h' D"
    and "ends s (f' (kb_free k)) h' D \<Longrightarrow> ends s (Option.bind (gfree s b) f') h' D"
    and "ends s (f (kb_next k)) h' D \<Longrightarrow> ends s (Option.bind (gnext s b) f) h' D"
    and "ends s (f (kb_prev k)) h' D \<Longrightarrow> ends s (Option.bind (gprev s b) f) h' D"
  using reads [OF assms] by simp_all

lemma ends_set:
  assumes "holds s h" and "h b = Some k" and "b \<in> D"
  shows "(\<And>t. holds t (h(b \<mapsto> k\<lparr>kb_size := v\<rparr>)) \<Longrightarrow> ends t (f t) h' D) \<Longrightarrow> ends s (Option.bind (ssize s b v) f) h' D"
    and "(\<And>t. holds t (h(b \<mapsto> k\<lparr>kb_free := w\<rparr>)) \<Longrightarrow> ends t (f t) h' D) \<Longrightarrow> ends s (Option.bind (sfree s b w) f) h' D"
    and "(\<And>t. holds t (h(b \<mapsto> k\<lparr>kb_next := v\<rparr>)) \<Longrightarrow> ends t (f t) h' D) \<Longrightarrow> ends s (Option.bind (snext s b v) f) h' D"
    and "(\<And>t. holds t (h(b \<mapsto> k\<lparr>kb_prev := v\<rparr>)) \<Longrightarrow> ends t (f t) h' D) \<Longrightarrow> ends s (Option.bind (sprev s b v) f) h' D"
proof -
  have D: "{b} \<subseteq> D" using assms(3) by simp
  note k = kept_mono [OF _ D]
  show "(\<And>t. holds t (h(b \<mapsto> k\<lparr>kb_size := v\<rparr>)) \<Longrightarrow> ends t (f t) h' D) \<Longrightarrow> ends s (Option.bind (ssize s b v) f) h' D"
    using size_law [OF assms(1,2), of v] k ends_step by fastforce
  show "(\<And>t. holds t (h(b \<mapsto> k\<lparr>kb_free := w\<rparr>)) \<Longrightarrow> ends t (f t) h' D) \<Longrightarrow> ends s (Option.bind (sfree s b w) f) h' D"
    using free_law [OF assms(1,2), of w] k ends_step by fastforce
  show "(\<And>t. holds t (h(b \<mapsto> k\<lparr>kb_next := v\<rparr>)) \<Longrightarrow> ends t (f t) h' D) \<Longrightarrow> ends s (Option.bind (snext s b v) f) h' D"
    using next_law [OF assms(1,2), of v] k ends_step by fastforce
  show "(\<And>t. holds t (h(b \<mapsto> k\<lparr>kb_prev := v\<rparr>)) \<Longrightarrow> ends t (f t) h' D) \<Longrightarrow> ends s (Option.bind (sprev s b v) f) h' D"
    using prev_law [OF assms(1,2), of v] k ends_step by fastforce
qed

text \<open>The same for a write with nothing after it.\<close>

lemma ends_final:
  assumes "holds s h" and "h b = Some k" and "b \<in> D"
  shows "ends s (sfree s b w) (h(b \<mapsto> k\<lparr>kb_free := w\<rparr>)) D"
    and "ends s (snext s b v) (h(b \<mapsto> k\<lparr>kb_next := v\<rparr>)) D"
    and "ends s (sprev s b v) (h(b \<mapsto> k\<lparr>kb_prev := v\<rparr>)) D"
  using ends_set(2) [OF assms, of w Some] ends_set(3) [OF assms, of v Some]
    ends_set(4) [OF assms, of v Some] by (simp_all add: ends_Some)

lemma ends_next_eq:
  "holds s h \<Longrightarrow> h b = Some k \<Longrightarrow> b \<in> D \<Longrightarrow> h' = h(b \<mapsto> k\<lparr>kb_next := v\<rparr>) \<Longrightarrow> ends s (snext s b v) h' D"
  by (simp add: ends_final)

lemma ends_prev_eq:
  "holds s h \<Longrightarrow> h b = Some k \<Longrightarrow> b \<in> D \<Longrightarrow> h' = h(b \<mapsto> k\<lparr>kb_prev := v\<rparr>) \<Longrightarrow> ends s (sprev s b v) h' D"
  by (simp add: ends_final)

text \<open>
  Appending the block \<open>n\<close> to the block \<open>b\<close> before it: the sizes add up and \<open>n\<close> leaves the list.
\<close>

lemma absorb:
  assumes "holds s h" and "h b = Some k" and "h n = Some m" and "b \<noteq> n"
    and "kb_next m \<noteq> 0 \<Longrightarrow> h (kb_next m) = Some q" and "kb_next m \<noteq> b" and "kb_next m \<noteq> n"
    and "h' = (let h1 = h(b \<mapsto> k\<lparr>kb_size := kb_size k + kb_size m, kb_next := kb_next m\<rparr>) in
      if kb_next m = 0 then h1 else h1(kb_next m \<mapsto> q\<lparr>kb_prev := b\<rparr>))"
  shows "ends s (do { z \<leftarrow> gsize s b; y \<leftarrow> gsize s n; s \<leftarrow> ssize s b (z + y); x \<leftarrow> gnext s n;
      s \<leftarrow> snext s b x; x \<leftarrow> gnext s n; if x \<noteq> 0 then sprev s x b else Some s }) h'
    (insert b (if kb_next m = 0 then {} else {kb_next m}))"
proof -
  note get = ends_get and set = ends_set
  show ?thesis
    apply (rule get(1) [OF assms(1,2)])
    apply (rule get(1) [OF assms(1,3)])
    apply (rule set(1) [OF assms(1,2)], simp)
    apply (rule get(3) [where k = m], assumption, use assms(3,4) in simp)
    apply (rule set(3), assumption, simp, simp)
    apply (rule get(3) [where k = m], assumption, use assms(3,4) in simp)
    apply (cases "kb_next m = 0")
     apply (use assms(8) in \<open>simp add: ends_Some\<close>)
    apply (simp only: if_True not_False_eq_True)
    subgoal for t t'
      using ends_final(3) [of t' _ "kb_next m" q] assms(2-8) by (simp add: Let_def)
    done
qed

text \<open>
  Cutting the block \<open>b\<close> at \<open>r\<close>: a used block of \<open>n\<close> bytes and a free one with the rest.
\<close>

lemma carve:
  assumes "holds s h" and "h b = Some k" and "h r = Some m" and "b \<noteq> r"
    and "kb_next k \<noteq> 0 \<Longrightarrow> h (kb_next k) = Some q" and "kb_next k \<noteq> b" and "kb_next k \<noteq> r"
    and "h' = (let h1 = h(b \<mapsto> \<lparr>kb_size = n, kb_free = False, kb_next = r, kb_prev = kb_prev k\<rparr>,
        r \<mapsto> \<lparr>kb_size = kb_size k - n, kb_free = True, kb_next = kb_next k, kb_prev = b\<rparr>) in
      if kb_next k = 0 then h1 else h1(kb_next k \<mapsto> q\<lparr>kb_prev := r\<rparr>))"
    and "D = insert b (insert r (if kb_next k = 0 then {} else {kb_next k}))"
  shows "ends s (do { z \<leftarrow> gsize s b; s \<leftarrow> ssize s r (z - n); s \<leftarrow> sfree s r True; x \<leftarrow> gnext s b;
      s \<leftarrow> snext s r x; s \<leftarrow> sprev s r b; x \<leftarrow> gnext s b;
      s \<leftarrow> (if x \<noteq> 0 then sprev s x r else Some s);
      s \<leftarrow> ssize s b n; s \<leftarrow> sfree s b False; snext s b r }) h' D"
proof -
  note get = ends_get and set = ends_set
  obtain h4 where h4: "h4 = h(r \<mapsto> \<lparr>kb_size = kb_size k - n, kb_free = True, kb_next = kb_next k, kb_prev = b\<rparr>)"
    by blast
  obtain h5 where h5: "h5 = (if kb_next k = 0 then h4 else h4(kb_next k \<mapsto> q\<lparr>kb_prev := r\<rparr>))" by blast
  have b5: "h5 b = Some k" using assms(2,4,6) by (simp add: h4 h5)
  have tail: "ends t (do { s \<leftarrow> ssize t b n; s \<leftarrow> sfree s b False; snext s b r }) h' D"
    if t: "holds t h5" for t
    apply (rule set(1) [OF t b5], simp add: assms(9))
    apply (rule set(2), assumption, simp, simp add: assms(9))
    apply (rule ends_next_eq, assumption, simp, simp add: assms(9))
    apply (rule ext)
    apply (use assms(4,6-8) in \<open>auto simp: h4 h5 Let_def\<close>)
    done
  show ?thesis
    apply (rule get(1) [OF assms(1,2)])
    apply (rule set(1) [OF assms(1,3)], simp add: assms(9))
    apply (rule set(2), assumption, simp, simp add: assms(9))
    apply (rule get(3) [where k = k], assumption, use assms(2,4) in simp)
    apply (rule set(3), assumption, simp, simp add: assms(9))
    apply (rule set(4), assumption, simp, simp add: assms(9))
    apply (rule get(3) [where k = k], assumption, use assms(2,4) in simp)
    subgoal for t1 t2 t3 t4
    proof (cases "kb_next k = 0")
      case True
      assume "holds t4 (h(r \<mapsto> m\<lparr>kb_size := kb_size k - n\<rparr>, r \<mapsto> m\<lparr>kb_size := kb_size k - n, kb_free := True\<rparr>,
        r \<mapsto> m\<lparr>kb_size := kb_size k - n, kb_free := True, kb_next := kb_next k\<rparr>,
        r \<mapsto> m\<lparr>kb_size := kb_size k - n, kb_free := True, kb_next := kb_next k, kb_prev := b\<rparr>))"
      then have "holds t4 h4" by (cases m) (simp add: h4)
      then show ?thesis using True tail by (simp add: h5)
    next
      case False
      assume "holds t4 (h(r \<mapsto> m\<lparr>kb_size := kb_size k - n\<rparr>, r \<mapsto> m\<lparr>kb_size := kb_size k - n, kb_free := True\<rparr>,
        r \<mapsto> m\<lparr>kb_size := kb_size k - n, kb_free := True, kb_next := kb_next k\<rparr>,
        r \<mapsto> m\<lparr>kb_size := kb_size k - n, kb_free := True, kb_next := kb_next k, kb_prev := b\<rparr>))"
      then have "holds t4 h4" by (cases m) (simp add: h4)
      moreover have "h4 (kb_next k) = Some q" using assms(5,7) False by (simp add: h4)
      ultimately show ?thesis using False tail assms(9) by (simp add: set(4) h5)
    qed
    done
qed

end

section \<open>Headers in a region\<close>

definition header_place :: "u32 \<Rightarrow> u32 \<Rightarrow> u32 \<Rightarrow> bool" where
  "header_place lo hi b \<longleftrightarrow> word_aligned b \<and> lo \<le> b \<and> unat b + 16 \<le> unat hi"

definition apart :: "u32 \<Rightarrow> u32 \<Rightarrow> bool" where
  "apart b c \<longleftrightarrow> unat b + 16 \<le> unat c \<or> unat c + 16 \<le> unat b"

definition headers :: "u32 \<Rightarrow> u32 \<Rightarrow> u32 \<Rightarrow> vm \<Rightarrow> (u32 \<Rightarrow> kheap_block option) \<Rightarrow> bool" where
  "headers pd lo hi s h \<longleftrightarrow> region pd lo hi s
     \<and> (\<forall>b k. h b = Some k \<longrightarrow> header_place lo hi b \<and> block_at s b = Some k)
     \<and> (\<forall>b c. h b \<noteq> None \<and> h c \<noteq> None \<and> b \<noteq> c \<longrightarrow> apart b c)"

text \<open>The bytes of the region outside the headers at \<open>D\<close>, and the allocator, are as before.\<close>

definition outside :: "u32 set \<Rightarrow> u32 \<Rightarrow> bool" where
  "outside D x \<longleftrightarrow> (\<forall>b \<in> D. \<not> (unat b \<le> unat x \<and> unat x < unat b + 16))"

definition kept :: "u32 \<Rightarrow> u32 \<Rightarrow> u32 set \<Rightarrow> vm \<Rightarrow> vm \<Rightarrow> bool" where
  "kept lo hi D s s' \<longleftrightarrow> vm_pmm s' = vm_pmm s
     \<and> (\<forall>x. within lo hi x \<and> outside D x \<longrightarrow> vread8 s' x = vread8 s x)"

lemma header_bytes:
  assumes "header_place lo hi b" and "unat j < 16"
  shows "unat (b + j) = unat b + unat j" and "within lo hi (b + j)"
proof -
  have "unat b + 16 < 4294967296 + 1" using assms(1) u32_less_bound [of hi] unfolding header_place_def by linarith
  then show u: "unat (b + j) = unat b + unat j"
    using assms(2) by (intro unat_plus_small) linarith
  show "within lo hi (b + j)"
    using assms by (simp add: within_def word_le_nat_alt word_less_nat_alt u header_place_def)
qed

lemma header_words:
  assumes "header_place lo hi b" and "d = 0 \<or> d = 4 \<or> d = 8 \<or> d = 12"
  shows "word_aligned (b + d)" and "within lo hi (b + d)"
proof -
  have d: "unat d < 16" using assms(2) by auto
  have "unat d mod 4 = 0" using assms(2) by auto
  then have "(unat b + unat d) mod 4 = 0"
    using assms(1) by (simp add: header_place_def word_aligned_def mod_add_eq [symmetric])
  then show "word_aligned (b + d)" by (simp add: word_aligned_def header_bytes(1) [OF assms(1) d])
  show "within lo hi (b + d)" by (rule header_bytes(2) [OF assms(1) d])
qed

lemma vread32_bytes:
  assumes "\<And>i. unat i < 4 \<Longrightarrow> vread8 s' (a + i) = vread8 s (a + i)"
  shows "vread32 s' a = vread32 s a"
  using assms [of 0] assms [of 1] assms [of 2] assms [of 3] by (simp add: vread32_def read32_def)

lemma block_at_bytes:
  assumes "header_place lo hi b" and "\<And>x. unat b \<le> unat x \<Longrightarrow> unat x < unat b + 16 \<Longrightarrow> vread8 s' x = vread8 s x"
  shows "block_at s' b = block_at s b"
proof -
  have byte: "vread8 s' (b + j) = vread8 s (b + j)" if "unat j < 16" for j
    using assms(2) header_bytes(1) [OF assms(1) that] that by simp
  have word: "vread32 s' (b + d) = vread32 s (b + d)" if "unat d < 13" for d
  proof (rule vread32_bytes)
    fix i :: u32
    assume i: "unat i < 4"
    then have "unat (d + i) = unat d + unat i" using that by (intro unat_plus_small) simp
    then show "vread8 s' (b + d + i) = vread8 s (b + d + i)"
      using byte [of "d + i"] i that by (simp add: add.assoc)
  qed
  show ?thesis
    using word [of 0] word [of 8] word [of 12] byte [of 4]
    by (simp add: block_at_def get_size_def get_free_def get_next_def get_prev_def)
qed

lemma headers_update:
  assumes "headers pd lo hi s h" and "h b = Some k" and "region pd lo hi s'" and "vm_pmm s' = vm_pmm s"
    and "\<And>x. within lo hi x \<Longrightarrow> \<not> (unat b \<le> unat x \<and> unat x < unat b + 16) \<Longrightarrow> vread8 s' x = vread8 s x"
    and "block_at s' b = Some k'"
  shows "headers pd lo hi s' (h(b \<mapsto> k')) \<and> kept lo hi {b} s s'"
proof
  have "header_place lo hi c \<and> block_at s' c = Some l" if c: "(h(b \<mapsto> k')) c = Some l" for c l
  proof (cases "c = b")
    case True
    then show ?thesis using assms(1,2,6) c by (auto simp: headers_def)
  next
    case False
    then have l: "h c = Some l" using c by simp
    then have place: "header_place lo hi c" "block_at s c = Some l" and ap: "apart c b"
      using assms(1,2) False unfolding headers_def by blast+
    have "vread8 s' x = vread8 s x" if "unat c \<le> unat x" "unat x < unat c + 16" for x
    proof (rule assms(5))
      show "within lo hi x"
        using that place(1) by (simp add: header_place_def within_def word_le_nat_alt word_less_nat_alt)
      show "\<not> (unat b \<le> unat x \<and> unat x < unat b + 16)" using that ap by (auto simp: apart_def)
    qed
    from block_at_bytes [OF place(1) this] place show ?thesis by simp
  qed
  then show "headers pd lo hi s' (h(b \<mapsto> k'))"
    using assms(1-3) unfolding headers_def by (metis fun_upd_apply option.distinct(1))
  show "kept lo hi {b} s s'" using assms(4,5) by (simp add: kept_def outside_def)
qed

lemma headersD:
  assumes "headers pd lo hi s h" and "h b = Some k"
  shows "region pd lo hi s" and "header_place lo hi b"
    and "vread32 s (b + 0) = Some (kb_size k)" "map_option (\<lambda>x. x \<noteq> 0) (vread8 s (b + 4)) = Some (kb_free k)"
      "vread32 s (b + 8) = Some (kb_next k)" "vread32 s (b + 12) = Some (kb_prev k)"
proof -
  show "region pd lo hi s" using assms(1) by (simp add: headers_def)
  show "header_place lo hi b" using assms by (auto simp: headers_def)
  have "block_at s b = Some k" using assms by (auto simp: headers_def)
  then show "vread32 s (b + 0) = Some (kb_size k)" "map_option (\<lambda>x. x \<noteq> 0) (vread8 s (b + 4)) = Some (kb_free k)"
      "vread32 s (b + 8) = Some (kb_next k)" "vread32 s (b + 12) = Some (kb_prev k)"
    by (auto simp: block_at_def get_size_def get_free_def get_next_def get_prev_def bind_eq_Some_conv)
qed

lemma block_at_eq:
  assumes "vread32 s (b + 0) = Some (kb_size k)" "map_option (\<lambda>x. x \<noteq> 0) (vread8 s (b + 4)) = Some (kb_free k)"
    "vread32 s (b + 8) = Some (kb_next k)" "vread32 s (b + 12) = Some (kb_prev k)"
  shows "block_at s b = Some k"
  using assms by (auto simp: block_at_def get_size_def get_free_def get_next_def get_prev_def)

lemma field_distinct:
  assumes "header_place lo hi b" and "d = 0 \<or> d = 4 \<or> d = 8 \<or> d = 12" and "e = 0 \<or> e = 4 \<or> e = 8 \<or> e = 12"
    and "d \<noteq> e" and "unat i < 4" and "unat j < 4"
  shows "b + d + i \<noteq> b + e + j"
  by (rule word_aligned_distinct [OF header_words(1) [OF assms(1,2)] header_words(1) [OF assms(1,3)] _ assms(5,6)])
    (use assms(4) in simp)

lemma field_outside:
  assumes "header_place lo hi b" and "d = 0 \<or> d = 4 \<or> d = 8 \<or> d = 12" and "unat i < 4"
    and "\<not> (unat b \<le> unat x \<and> unat x < unat b + 16)"
  shows "x \<noteq> b + d + i"
proof
  assume x: "x = b + d + i"
  have d: "unat d \<le> 12" "unat d < 16" using assms(2) by auto
  then have "unat (d + i) = unat d + unat i" using assms(3) by (intro unat_plus_small) simp
  then have "unat x = unat b + (unat d + unat i)"
    using header_bytes(1) [OF assms(1), of "d + i"] x d assms(3) by (simp add: add.assoc)
  then show False using assms(3,4) d by simp
qed

lemma write_field32:
  assumes "headers pd lo hi s h" and "h b = Some k" and "d = 0 \<or> d = 8 \<or> d = 12"
  obtains s' where "vwrite32 s (b + d) v = Some s'" "region pd lo hi s'" "vm_pmm s' = vm_pmm s"
    and "vread32 s' (b + d) = Some v" "vread8 s' (b + 4) = vread8 s (b + 4)"
    and "\<And>e. e = 0 \<or> e = 8 \<or> e = 12 \<Longrightarrow> e \<noteq> d \<Longrightarrow> vread32 s' (b + e) = vread32 s (b + e)"
    and "\<And>x. within lo hi x \<Longrightarrow> \<not> (unat b \<le> unat x \<and> unat x < unat b + 16) \<Longrightarrow> vread8 s' x = vread8 s x"
proof -
  note reg = headersD(1) [OF assms(1,2)] and place = headersD(2) [OF assms(1,2)]
  have d: "d = 0 \<or> d = 4 \<or> d = 8 \<or> d = 12" using assms(3) by blast
  obtain s' where s': "vwrite32 s (b + d) v = Some s'" "region pd lo hi s'" "vm_pmm s' = vm_pmm s"
    "vread32 s' (b + d) = Some v"
    "\<forall>x. within lo hi x \<and> (\<forall>i. unat i < 4 \<longrightarrow> x \<noteq> b + d + i) \<longrightarrow> vread8 s' x = vread8 s x"
    using region_write32 [OF reg header_words(2,1) [OF place d]] by blast
  have byte: "vread8 s' (b + e + i) = vread8 s (b + e + i)"
    if e: "e = 0 \<or> e = 4 \<or> e = 8 \<or> e = 12" "e \<noteq> d" and i: "unat i < 4" for e i
  proof -
    have "unat e < 13" using e(1) by auto
    then have "unat (e + i) = unat e + unat i" "unat (e + i) < 16"
      using i by (simp_all add: unat_plus_small)
    then have "within lo hi (b + e + i)" using header_bytes(2) [OF place, of "e + i"] by (simp add: add.assoc)
    moreover have "b + e + i \<noteq> b + d + j" if "unat j < 4" for j
      by (rule field_distinct [OF place e(1) d e(2) i that])
    ultimately show ?thesis using s'(5) by blast
  qed
  have "vread32 s' (b + e) = vread32 s (b + e)" if "e = 0 \<or> e = 8 \<or> e = 12" "e \<noteq> d" for e
    by (rule vread32_bytes [OF byte]) (use that in auto)
  moreover have "vread8 s' (b + 4) = vread8 s (b + 4)" using byte [of 4 0] assms(3) by auto
  moreover have "vread8 s' x = vread8 s x"
    if "within lo hi x" "\<not> (unat b \<le> unat x \<and> unat x < unat b + 16)" for x
    using s'(5) that field_outside [OF place d] by blast
  ultimately show thesis using that s'(1-4) by blast
qed

lemma set_size_law:
  assumes "headers pd lo hi s h" and "h b = Some k"
  shows "\<exists>s'. set_size s b v = Some s' \<and> headers pd lo hi s' (h(b \<mapsto> k\<lparr>kb_size := v\<rparr>)) \<and> kept lo hi {b} s s'"
proof -
  obtain s' where w: "vwrite32 s (b + 0) v = Some s'" "region pd lo hi s'" "vm_pmm s' = vm_pmm s"
    "vread32 s' (b + 0) = Some v" "vread8 s' (b + 4) = vread8 s (b + 4)"
    "\<And>e. e = 0 \<or> e = 8 \<or> e = 12 \<Longrightarrow> e \<noteq> 0 \<Longrightarrow> vread32 s' (b + e) = vread32 s (b + e)"
    "\<And>x. within lo hi x \<Longrightarrow> \<not> (unat b \<le> unat x \<and> unat x < unat b + 16) \<Longrightarrow> vread8 s' x = vread8 s x"
    by (rule write_field32 [OF assms, of 0 v]) auto
  have "block_at s' b = Some (k\<lparr>kb_size := v\<rparr>)"
    by (rule block_at_eq) (use w headersD [OF assms] in simp_all)
  then show ?thesis
    using headers_update [OF assms w(2,3,7)] w(1) by (auto simp: set_size_def)
qed

lemma set_next_law:
  assumes "headers pd lo hi s h" and "h b = Some k"
  shows "\<exists>s'. set_next s b v = Some s' \<and> headers pd lo hi s' (h(b \<mapsto> k\<lparr>kb_next := v\<rparr>)) \<and> kept lo hi {b} s s'"
proof -
  obtain s' where w: "vwrite32 s (b + 8) v = Some s'" "region pd lo hi s'" "vm_pmm s' = vm_pmm s"
    "vread32 s' (b + 8) = Some v" "vread8 s' (b + 4) = vread8 s (b + 4)"
    "\<And>e. e = 0 \<or> e = 8 \<or> e = 12 \<Longrightarrow> e \<noteq> 8 \<Longrightarrow> vread32 s' (b + e) = vread32 s (b + e)"
    "\<And>x. within lo hi x \<Longrightarrow> \<not> (unat b \<le> unat x \<and> unat x < unat b + 16) \<Longrightarrow> vread8 s' x = vread8 s x"
    by (rule write_field32 [OF assms, of 8 v]) auto
  have "block_at s' b = Some (k\<lparr>kb_next := v\<rparr>)"
    by (rule block_at_eq) (use w w(6) [of 0] headersD [OF assms] in simp_all)
  then show ?thesis
    using headers_update [OF assms w(2,3,7)] w(1) by (auto simp: set_next_def)
qed

lemma set_prev_law:
  assumes "headers pd lo hi s h" and "h b = Some k"
  shows "\<exists>s'. set_prev s b v = Some s' \<and> headers pd lo hi s' (h(b \<mapsto> k\<lparr>kb_prev := v\<rparr>)) \<and> kept lo hi {b} s s'"
proof -
  obtain s' where w: "vwrite32 s (b + 12) v = Some s'" "region pd lo hi s'" "vm_pmm s' = vm_pmm s"
    "vread32 s' (b + 12) = Some v" "vread8 s' (b + 4) = vread8 s (b + 4)"
    "\<And>e. e = 0 \<or> e = 8 \<or> e = 12 \<Longrightarrow> e \<noteq> 12 \<Longrightarrow> vread32 s' (b + e) = vread32 s (b + e)"
    "\<And>x. within lo hi x \<Longrightarrow> \<not> (unat b \<le> unat x \<and> unat x < unat b + 16) \<Longrightarrow> vread8 s' x = vread8 s x"
    by (rule write_field32 [OF assms, of 12 v]) auto
  have "block_at s' b = Some (k\<lparr>kb_prev := v\<rparr>)"
    by (rule block_at_eq) (use w w(6) [of 0] headersD [OF assms] in simp_all)
  then show ?thesis
    using headers_update [OF assms w(2,3,7)] w(1) by (auto simp: set_prev_def)
qed

lemma set_free_law:
  assumes "headers pd lo hi s h" and "h b = Some k"
  shows "\<exists>s'. set_free s b w = Some s' \<and> headers pd lo hi s' (h(b \<mapsto> k\<lparr>kb_free := w\<rparr>)) \<and> kept lo hi {b} s s'"
proof -
  note reg = headersD(1) [OF assms] and place = headersD(2) [OF assms]
  have four: "(4::u32) = 0 \<or> (4::u32) = 4 \<or> (4::u32) = 8 \<or> (4::u32) = 12" by simp
  obtain s' where s': "set_free s b w = Some s'" "region pd lo hi s'" "vm_pmm s' = vm_pmm s"
    "\<forall>x. within lo hi x \<longrightarrow> vread8 s' x = (if x = b + 4 then Some (if w then 1 else 0) else vread8 s x)"
    using region_write8 [OF reg header_words(2) [OF place four]] unfolding set_free_def by blast
  have byte: "vread8 s' (b + e + i) = vread8 s (b + e + i)"
    if e: "e = 0 \<or> e = 8 \<or> e = 12" and i: "unat i < 4" for e i
  proof -
    have "unat e < 13" using e by auto
    then have "unat (e + i) = unat e + unat i" "unat (e + i) < 16"
      using i by (simp_all add: unat_plus_small)
    then have "within lo hi (b + e + i)" using header_bytes(2) [OF place, of "e + i"] by (simp add: add.assoc)
    moreover have "b + e + i \<noteq> b + 4 + 0"
      by (rule field_distinct [OF place _ four _ i]) (use e in auto)
    ultimately show ?thesis using s'(4) by simp
  qed
  have words: "vread32 s' (b + e) = vread32 s (b + e)" if "e = 0 \<or> e = 8 \<or> e = 12" for e
    by (rule vread32_bytes [OF byte]) (use that in auto)
  have "block_at s' b = Some (k\<lparr>kb_free := w\<rparr>)"
    by (rule block_at_eq) (use words words [of 0] s'(4) header_words(2) [OF place four] headersD [OF assms] in simp_all)
  moreover have "vread8 s' x = vread8 s x"
    if "within lo hi x" "\<not> (unat b \<le> unat x \<and> unat x < unat b + 16)" for x
    using s'(4) that field_outside [OF place four, of 0 x] by simp
  ultimately show ?thesis
    using headers_update [OF assms s'(2,3)] s'(1) by blast
qed

interpretation hs: header_store "headers pd lo hi" "kept lo hi" get_size get_free get_next get_prev
  set_size set_free set_next set_prev for pd lo hi
proof unfold_locales
  fix s h b k
  assume "headers pd lo hi s h" "h b = Some k"
  note d = headersD(3-6) [OF this]
  show "get_size s b = Some (kb_size k) \<and> get_free s b = Some (kb_free k)
      \<and> get_next s b = Some (kb_next k) \<and> get_prev s b = Some (kb_prev k)"
    using d by (simp add: get_size_def get_free_def get_next_def get_prev_def)
qed ((rule set_size_law set_free_law set_next_law set_prev_law; assumption)
    | auto simp: kept_def outside_def)+

text \<open>The headers of a region that grew without losing a byte.\<close>

lemma headers_grow:
  assumes "headers pd lo hi s h" and "region pd lo hi' s'" and "hi \<le> hi'"
    and "\<And>x. within lo hi x \<Longrightarrow> vread8 s' x = vread8 s x"
  shows "headers pd lo hi' s' h"
proof -
  have "header_place lo hi' b \<and> block_at s' b = Some k" if "h b = Some k" for b k
  proof -
    have place: "header_place lo hi b" "block_at s b = Some k"
      using assms(1) that by (auto simp: headers_def)
    have "block_at s' b = block_at s b"
      by (rule block_at_bytes [OF place(1) assms(4)])
        (use place(1) in \<open>simp add: header_place_def within_def word_le_nat_alt word_less_nat_alt\<close>)
    then show ?thesis using place assms(3) by (simp add: header_place_def word_le_nat_alt)
  qed
  then show ?thesis using assms(1,2) unfolding headers_def by blast
qed

end
