(* ===== verification/Kheap.thy ===== *)
theory Kheap
  imports Kheap_Block
begin

text \<open>
  The kernel heap (\<open>kernel/mm/kheap.c\<close>): a doubly linked list of blocks that tile the mapped
  part of the heap, first-fit allocation with splitting, coalescing on release, growth by mapping
  pages. The list of blocks, each a size and a free bit, is the abstract heap; the operations on
  the headers in virtual memory refine operations on that list.
\<close>

section \<open>Constants and state\<close>

definition KHEAP_START :: u32 where
  "KHEAP_START = 0xC2000000"

definition KHEAP_MAX_BYTES :: u32 where
  "KHEAP_MAX_BYTES = 16 * 1024 * 1024"

definition KHEAP_ALIGN :: u32 where
  "KHEAP_ALIGN = 8"

text \<open>\<open>sizeof(kheap_block_t)\<close> on i386: two words, a padded bool and a pointer.\<close>

definition sizeof_kheap_block :: u32 where
  "sizeof_kheap_block = 16"

definition KHEAP_MIN_BLOCK :: u32 where
  "KHEAP_MIN_BLOCK = sizeof_kheap_block + KHEAP_ALIGN"

definition KHEAP_GROW_PAGES :: u32 where
  "KHEAP_GROW_PAGES = 4"

record heap =
  kh_vm :: vm
  kh_start :: u32
  kh_end :: u32
  kh_first :: u32

section \<open>Operations\<close>

definition kheap_align :: "u32 \<Rightarrow> u32" where
  "kheap_align n = (n + KHEAP_ALIGN - 1) AND NOT (KHEAP_ALIGN - 1)"

definition kheap_block_from_ptr :: "u32 \<Rightarrow> u32" where
  "kheap_block_from_ptr ptr = ptr - sizeof_kheap_block"

text \<open>
  The loop of \<open>kheap_extend\<close>: map \<open>n\<close> pages from \<open>map_at\<close>. The second component of the result
  is the final \<open>map_at\<close>, or \<open>None\<close> for the early returns of \<open>false\<close>.
\<close>

primrec kheap_map_pages :: "u32 \<Rightarrow> u32 \<Rightarrow> nat \<Rightarrow> u32 \<Rightarrow> vm \<Rightarrow> (vm \<times> u32 option) option" where
  "kheap_map_pages pd start 0 map_at s = Some (s, Some map_at)"
| "kheap_map_pages pd start (Suc n) map_at s =
     (if map_at + PAGING_PAGE_SIZE - start > KHEAP_MAX_BYTES then Some (s, None)
      else
        let (p, frame) = pmm_alloc_frame (vm_pmm s);
            s = s\<lparr>vm_pmm := p\<rparr>
        in if frame = 0 then Some (s, None)
        else do {
          (s, ok) \<leftarrow> paging_map_page pd map_at frame PAGING_FLAG_WRITE s;
          if \<not> ok then Some (s\<lparr>vm_pmm := pmm_free_frame frame (vm_pmm s)\<rparr>, None)
          else kheap_map_pages pd start n (map_at + PAGING_PAGE_SIZE) s })"

text \<open>\<open>while (last->next != NULL) last = last->next\<close>\<close>

partial_function (option) kheap_last :: "vm \<Rightarrow> u32 \<Rightarrow> u32 option" where
  "kheap_last s b = do {
     next \<leftarrow> get_next s b;
     if next \<noteq> 0 then kheap_last s next else Some b }"

definition kheap_extend :: "u32 \<Rightarrow> u32 \<Rightarrow> heap \<Rightarrow> (heap \<times> bool) option" where
  "kheap_extend pd min_bytes S =
     (let mapped = kh_end S - kh_start S in
      if mapped \<ge> KHEAP_MAX_BYTES then Some (S, False)
      else
        let need_bytes = (if min_bytes < KHEAP_GROW_PAGES * PAGING_PAGE_SIZE
                          then KHEAP_GROW_PAGES * PAGING_PAGE_SIZE else min_bytes);
            pages = (need_bytes + PAGING_PAGE_SIZE - 1) div PAGING_PAGE_SIZE
        in do {
          (s, r) \<leftarrow> kheap_map_pages pd (kh_start S) (unat pages) (kh_end S) (kh_vm S);
          case r of None \<Rightarrow> Some (S\<lparr>kh_vm := s\<rparr>, False)
          | Some map_at \<Rightarrow>
              let block = kh_end S in do {
                s \<leftarrow> set_size s block (map_at - kh_end S);
                s \<leftarrow> set_free s block True;
                s \<leftarrow> set_next s block 0;
                s \<leftarrow> set_prev s block 0;
                if kh_first S = 0 then
                  Some (S\<lparr>kh_vm := s, kh_first := block, kh_end := map_at\<rparr>, True)
                else do {
                  last \<leftarrow> kheap_last s (kh_first S);
                  fr \<leftarrow> get_free s last;
                  merge \<leftarrow> (if fr then do { z \<leftarrow> get_size s last; Some (last + z = block) }
                           else Some False);
                  if merge then do {
                    z \<leftarrow> get_size s last;
                    y \<leftarrow> get_size s block;
                    s \<leftarrow> set_size s last (z + y);
                    Some (S\<lparr>kh_vm := s, kh_end := map_at\<rparr>, True) }
                  else do {
                    s \<leftarrow> set_prev s block last;
                    s \<leftarrow> set_next s last block;
                    Some (S\<lparr>kh_vm := s, kh_end := map_at\<rparr>, True) } } } })"

definition kheap_split :: "vm \<Rightarrow> u32 \<Rightarrow> u32 \<Rightarrow> vm option" where
  "kheap_split s block needed = do {
     z \<leftarrow> get_size s block;
     if z < needed + KHEAP_MIN_BLOCK then set_free s block False
     else let remainder = block + needed in do {
       z \<leftarrow> get_size s block;
       s \<leftarrow> set_size s remainder (z - needed);
       s \<leftarrow> set_free s remainder True;
       x \<leftarrow> get_next s block;
       s \<leftarrow> set_next s remainder x;
       s \<leftarrow> set_prev s remainder block;
       x \<leftarrow> get_next s block;
       s \<leftarrow> (if x \<noteq> 0 then set_prev s x remainder else Some s);
       s \<leftarrow> set_size s block needed;
       s \<leftarrow> set_free s block False;
       set_next s block remainder } }"

text \<open>
  Both branches of \<open>kheap_coalesce\<close> append a block \<open>n\<close> to the block \<open>b\<close> before it.
\<close>

definition kheap_absorb :: "vm \<Rightarrow> u32 \<Rightarrow> u32 \<Rightarrow> vm option" where
  "kheap_absorb s b n = do {
     z \<leftarrow> get_size s b;
     y \<leftarrow> get_size s n;
     s \<leftarrow> set_size s b (z + y);
     x \<leftarrow> get_next s n;
     s \<leftarrow> set_next s b x;
     x \<leftarrow> get_next s n;
     if x \<noteq> 0 then set_prev s x b else Some s }"

definition kheap_coalesce :: "vm \<Rightarrow> u32 \<Rightarrow> vm option" where
  "kheap_coalesce s block = do {
     next \<leftarrow> get_next s block;
     fr \<leftarrow> (if next \<noteq> 0 then get_free s next else Some False);
     s \<leftarrow> (if fr then kheap_absorb s block next else Some s);
     prev \<leftarrow> get_prev s block;
     fr \<leftarrow> (if prev \<noteq> 0 then get_free s prev else Some False);
     if fr then kheap_absorb s prev block else Some s }"

definition kheap_init :: "u32 \<Rightarrow> heap \<Rightarrow> heap option" where
  "kheap_init pd S = do {
     (S, ok) \<leftarrow> kheap_extend pd PAGING_PAGE_SIZE
       (S\<lparr>kh_start := KHEAP_START, kh_end := KHEAP_START, kh_first := 0\<rparr>);
     Some S }"

text \<open>The inner loop of \<open>kmalloc\<close>: the first free block that is large enough, or NULL.\<close>

partial_function (option) kheap_find :: "vm \<Rightarrow> u32 \<Rightarrow> u32 \<Rightarrow> u32 option" where
  "kheap_find s cur needed =
     (if cur = 0 then Some 0
      else do {
        fr \<leftarrow> get_free s cur;
        fit \<leftarrow> (if fr then do { z \<leftarrow> get_size s cur; Some (z \<ge> needed) } else Some False);
        if fit then Some cur
        else do { next \<leftarrow> get_next s cur; kheap_find s next needed } })"

partial_function (option) kmalloc_loop :: "u32 \<Rightarrow> u32 \<Rightarrow> heap \<Rightarrow> (heap \<times> u32) option" where
  "kmalloc_loop pd needed S = do {
     cur \<leftarrow> kheap_find (kh_vm S) (kh_first S) needed;
     if cur \<noteq> 0 then do {
       s \<leftarrow> kheap_split (kh_vm S) cur needed;
       Some (S\<lparr>kh_vm := s\<rparr>, cur + sizeof_kheap_block) }
     else do {
       (S, ok) \<leftarrow> kheap_extend pd needed S;
       if \<not> ok then Some (S, 0) else kmalloc_loop pd needed S } }"

definition kmalloc_needed :: "u32 \<Rightarrow> u32" where
  "kmalloc_needed sz =
     (let needed = kheap_align (sz + sizeof_kheap_block)
      in if needed < KHEAP_MIN_BLOCK then KHEAP_MIN_BLOCK else needed)"

definition kmalloc :: "u32 \<Rightarrow> u32 \<Rightarrow> heap \<Rightarrow> (heap \<times> u32) option" where
  "kmalloc pd sz S =
     (if sz = 0 then Some (S, 0) else kmalloc_loop pd (kmalloc_needed sz) S)"

definition kfree :: "u32 \<Rightarrow> heap \<Rightarrow> heap option" where
  "kfree ptr S =
     (if ptr = 0 then Some S
      else let block = kheap_block_from_ptr ptr in do {
        s \<leftarrow> set_free (kh_vm S) block True;
        s \<leftarrow> kheap_coalesce s block;
        Some (S\<lparr>kh_vm := s\<rparr>) })"

definition kheap_total_bytes :: "heap \<Rightarrow> u32" where
  "kheap_total_bytes S = kh_end S - kh_start S"

partial_function (option) kheap_used_loop :: "vm \<Rightarrow> u32 \<Rightarrow> u32 \<Rightarrow> u32 option" where
  "kheap_used_loop s cur used =
     (if cur = 0 then Some used
      else do {
        fr \<leftarrow> get_free s cur;
        used \<leftarrow> (if \<not> fr then do { z \<leftarrow> get_size s cur; Some (used + z) } else Some used);
        next \<leftarrow> get_next s cur;
        kheap_used_loop s next used })"

definition kheap_used_bytes :: "heap \<Rightarrow> u32 option" where
  "kheap_used_bytes S = kheap_used_loop (kh_vm S) (kh_first S) 0"

section \<open>The list of blocks\<close>

text \<open>
  The abstract heap: sizes and free bits in address order. \<open>end_of\<close> is the address after the
  blocks \<open>bs\<close> laid out from \<open>a\<close>, \<open>last_of\<close> the address of the last of them (\<open>pv\<close> if there
  is none), \<open>starts\<close> the addresses of all.
\<close>

type_synonym blocks = "(u32 \<times> bool) list"

fun end_of :: "u32 \<Rightarrow> blocks \<Rightarrow> u32" where
  "end_of a [] = a"
| "end_of a ((z, fr) # bs) = end_of (a + z) bs"

fun last_of :: "u32 \<Rightarrow> u32 \<Rightarrow> blocks \<Rightarrow> u32" where
  "last_of pv a [] = pv"
| "last_of pv a ((z, fr) # bs) = last_of a (a + z) bs"

fun starts :: "u32 \<Rightarrow> blocks \<Rightarrow> u32 list" where
  "starts a [] = []"
| "starts a ((z, fr) # bs) = a # starts (a + z) bs"

definition total :: "blocks \<Rightarrow> nat" where
  "total bs = sum_list (map (\<lambda>b. unat (fst b)) bs)"

definition used_total :: "blocks \<Rightarrow> nat" where
  "used_total bs = sum_list (map (\<lambda>b. if snd b then 0 else unat (fst b)) bs)"

definition sizes_ok :: "blocks \<Rightarrow> bool" where
  "sizes_ok bs \<longleftrightarrow> (\<forall>(z, fr) \<in> set bs. 24 \<le> unat z \<and> unat z mod 8 = 0)"

fun no_adjacent_free :: "blocks \<Rightarrow> bool" where
  "no_adjacent_free ((z, fr) # (y, fr') # bs) \<longleftrightarrow> \<not> (fr \<and> fr') \<and> no_adjacent_free ((y, fr') # bs)"
| "no_adjacent_free bs \<longleftrightarrow> True"

text \<open>The headers \<open>h\<close> describe the blocks \<open>bs\<close> from \<open>a\<close>, linked both ways.\<close>

fun chain :: "(u32 \<Rightarrow> kheap_block option) \<Rightarrow> u32 \<Rightarrow> u32 \<Rightarrow> blocks \<Rightarrow> u32 \<Rightarrow> bool" where
  "chain h pv a [] nx \<longleftrightarrow> True"
| "chain h pv a ((z, fr) # bs) nx \<longleftrightarrow>
     h a = Some \<lparr>kb_size = z, kb_free = fr, kb_next = (if bs = [] then nx else a + z), kb_prev = pv\<rparr>
     \<and> chain h a (a + z) bs nx"

lemma total_simps [simp]:
  "total [] = 0" "total ((z, fr) # bs) = unat z + total bs" "total (xs @ ys) = total xs + total ys"
  by (simp_all add: total_def)

lemma used_total_simps [simp]:
  "used_total [] = 0" "used_total ((z, fr) # bs) = (if fr then 0 else unat z) + used_total bs"
  "used_total (xs @ ys) = used_total xs + used_total ys"
  by (simp_all add: used_total_def)

lemma used_total_le: "used_total bs \<le> total bs"
  by (induction bs) auto

lemma sizes_ok_simps [simp]:
  "sizes_ok []" "sizes_ok ((z, fr) # bs) \<longleftrightarrow> 24 \<le> unat z \<and> unat z mod 8 = 0 \<and> sizes_ok bs"
  "sizes_ok (xs @ ys) \<longleftrightarrow> sizes_ok xs \<and> sizes_ok ys"
  by (auto simp: sizes_ok_def)

lemma chain_append:
  "chain h pv a (xs @ ys) nx \<longleftrightarrow>
     chain h pv a xs (if ys = [] then nx else end_of a xs)
     \<and> chain h (last_of pv a xs) (end_of a xs) ys nx"
  by (induction xs arbitrary: pv a) auto

lemma starts_append: "starts a (xs @ ys) = starts a xs @ starts (end_of a xs) ys"
  by (induction a xs rule: starts.induct) auto

lemma end_of_append: "end_of a (xs @ ys) = end_of (end_of a xs) ys"
  by (induction a xs rule: end_of.induct) auto

lemma last_of_append: "last_of pv a (xs @ ys) = last_of (last_of pv a xs) (end_of a xs) ys"
  by (induction xs arbitrary: pv a) auto

lemma unat_end_of: "unat a + total bs < 4294967296 \<Longrightarrow> unat (end_of a bs) = unat a + total bs"
proof (induction a bs rule: end_of.induct)
  case (2 a z fr bs)
  then have "unat (a + z) = unat a + unat z" by (intro unat_plus_small) simp
  with 2 show ?case by simp
qed simp

lemma starts_bounds:
  "c \<in> set (starts a bs) \<Longrightarrow> unat a + total bs < 4294967296 \<Longrightarrow> sizes_ok bs \<Longrightarrow>
   unat a \<le> unat c \<and> unat c + 24 \<le> unat a + total bs"
proof (induction a bs rule: starts.induct)
  case (2 a z fr bs)
  then have u: "unat (a + z) = unat a + unat z" by (intro unat_plus_small) simp
  show ?case using 2 u by auto
qed simp

lemma chain_cong:
  assumes "\<And>c. c \<in> set (starts a bs) \<Longrightarrow> h' c = h c"
  shows "chain h' pv a bs nx = chain h pv a bs nx"
  using assms by (induction h pv a bs nx rule: chain.induct) auto

lemma chain_starts: "chain h pv a bs nx \<Longrightarrow> c \<in> set (starts a bs) \<Longrightarrow> h c \<noteq> None"
  by (induction h pv a bs nx rule: chain.induct) auto

lemma last_of_start: "bs \<noteq> [] \<Longrightarrow> last_of pv a bs \<in> set (starts a bs)"
proof (induction bs arbitrary: pv a)
  case (Cons b bs)
  then show ?case by (cases b; cases "bs = []") auto
qed simp

text \<open>The last block of a chain, and what changing its \<open>next\<close> does.\<close>

lemma chain_snoc:
  "chain h pv a (xs @ [(z, fr)]) nx \<longleftrightarrow> chain h pv a xs (end_of a xs)
     \<and> h (end_of a xs) = Some \<lparr>kb_size = z, kb_free = fr, kb_next = nx, kb_prev = last_of pv a xs\<rparr>"
  by (simp add: chain_append)

section \<open>Headers of the list in memory\<close>

lemma headers_sub:
  "headers pd lo hi s h \<Longrightarrow> (\<And>b k. h' b = Some k \<Longrightarrow> h b = Some k) \<Longrightarrow> headers pd lo hi s h'"
  unfolding headers_def by (metis option.exhaust option.distinct(1))

text \<open>Memory of the region read as one more header.\<close>

lemma headers_claim:
  assumes "headers pd lo hi s h" and "header_place lo hi r" and "\<And>c. h c \<noteq> None \<Longrightarrow> apart r c"
  obtains k where "headers pd lo hi s (h(r \<mapsto> k))"
proof -
  have reg: "region pd lo hi s" using assms(1) by (simp add: headers_def)
  have read: "\<exists>v. vread32 s (r + d) = Some v" if "d = 0 \<or> d = 4 \<or> d = 8 \<or> d = 12" for d
    using region_read32 [OF reg header_words(2,1) [OF assms(2) that]] .
  have "\<exists>v. vread8 s (r + 4) = Some v"
    using region_read8 [OF reg header_words(2) [OF assms(2)]] by simp
  then obtain k where k: "block_at s r = Some k"
    using read [of 0] read [of 8] read [of 12]
    by (auto simp: block_at_def get_size_def get_free_def get_next_def get_prev_def)
  have "apart c r" if "h c \<noteq> None" for c using assms(3) [OF that] by (auto simp: apart_def)
  then have "headers pd lo hi s (h(r \<mapsto> k))"
    using assms k unfolding headers_def by (auto split: if_splits)
  then show thesis by (rule that)
qed

definition view :: "u32 \<Rightarrow> vm \<Rightarrow> blocks \<Rightarrow> bool" where
  "view pd s bs \<longleftrightarrow> sizes_ok bs \<and> total bs \<le> 16777216
     \<and> (\<exists>h. headers pd KHEAP_START (end_of KHEAP_START bs) s h \<and> chain h 0 KHEAP_START bs 0
          \<and> (\<forall>c. h c \<noteq> None \<longrightarrow> c \<in> set (starts KHEAP_START bs)))"

lemma viewI:
  assumes "headers pd KHEAP_START (end_of KHEAP_START bs) s h" and "chain h 0 KHEAP_START bs 0"
    and "sizes_ok bs" and "total bs \<le> 16777216"
  shows "view pd s bs"
proof -
  let ?h = "\<lambda>c. if c \<in> set (starts KHEAP_START bs) then h c else None"
  have "headers pd KHEAP_START (end_of KHEAP_START bs) s ?h"
    by (rule headers_sub [OF assms(1)]) (auto split: if_splits)
  moreover have "chain ?h 0 KHEAP_START bs 0"
    using assms(2) by (subst chain_cong) auto
  moreover have "\<forall>c. ?h c \<noteq> None \<longrightarrow> c \<in> set (starts KHEAP_START bs)" by simp
  ultimately show ?thesis using assms(3,4) unfolding view_def by blast
qed

lemma unat_KHEAP_START: "unat KHEAP_START = 3254779904"
  by (simp add: KHEAP_START_def)

lemma heap_end_of: "total bs \<le> 16777216 \<Longrightarrow> unat (end_of KHEAP_START bs) = 3254779904 + total bs"
  by (simp add: unat_end_of unat_KHEAP_START)

lemma heap_starts:
  assumes "c \<in> set (starts KHEAP_START bs)" and "sizes_ok bs" and "total bs \<le> 16777216"
  shows "3254779904 \<le> unat c" and "unat c + 24 \<le> 3254779904 + total bs" and "c \<noteq> 0"
proof -
  show "3254779904 \<le> unat c" and "unat c + 24 \<le> 3254779904 + total bs"
    using starts_bounds [OF assms(1)] assms(2,3) by (simp_all add: unat_KHEAP_START)
  then show "c \<noteq> 0" by auto
qed

text \<open>Addresses around one block of the list.\<close>

lemma middle:
  assumes "bs = pre @ (z, fr) # post" and "sizes_ok bs" and "total bs \<le> 16777216"
  shows "unat (end_of KHEAP_START pre) = 3254779904 + total pre"
    and "unat (end_of KHEAP_START pre + z) = 3254779904 + total pre + unat z"
    and "c \<in> set (starts KHEAP_START pre) \<Longrightarrow> 3254779904 \<le> unat c \<and> unat c + 24 \<le> 3254779904 + total pre"
    and "c \<in> set (starts (end_of KHEAP_START pre + z) post) \<Longrightarrow>
      3254779904 + total pre + unat z \<le> unat c \<and> unat c + 24 \<le> 3254779904 + total bs"
    and "unat z \<le> 16777216" "24 \<le> unat z" "unat z mod 8 = 0"
proof -
  have t: "total pre + unat z + total post \<le> 16777216" using assms(1,3) by simp
  show "unat z \<le> 16777216" using t by simp
  show "24 \<le> unat z" "unat z mod 8 = 0" using assms(1,2) by simp_all
  show b: "unat (end_of KHEAP_START pre) = 3254779904 + total pre" using t by (simp add: heap_end_of)
  have "unat z + (3254779904 + total pre) < 4294967296" using t by simp
  then show bz: "unat (end_of KHEAP_START pre + z) = 3254779904 + total pre + unat z"
    using b by (subst unat_plus_small) simp_all
  show "c \<in> set (starts KHEAP_START pre) \<Longrightarrow> 3254779904 \<le> unat c \<and> unat c + 24 \<le> 3254779904 + total pre"
    using heap_starts(1,2) [of c pre] assms(1,2) t by simp
  assume "c \<in> set (starts (end_of KHEAP_START pre + z) post)"
  from starts_bounds [OF this] assms(1,2) bz t
  show "3254779904 + total pre + unat z \<le> unat c \<and> unat c + 24 \<le> 3254779904 + total bs" by simp
qed

text \<open>One block of a heap in memory, with what is around it.\<close>

lemma viewE:
  assumes "view pd s bs" and "bs = pre @ (z, fr) # post"
  obtains h where "headers pd KHEAP_START (end_of KHEAP_START bs) s h"
    and "h (end_of KHEAP_START pre) = Some \<lparr>kb_size = z, kb_free = fr,
      kb_next = (if post = [] then 0 else end_of KHEAP_START pre + z), kb_prev = last_of 0 KHEAP_START pre\<rparr>"
    and "chain h 0 KHEAP_START pre (end_of KHEAP_START pre)"
    and "chain h (end_of KHEAP_START pre) (end_of KHEAP_START pre + z) post 0"
    and "\<And>c. h c \<noteq> None \<Longrightarrow> c \<in> set (starts KHEAP_START bs)"
  using assms by (auto simp: view_def chain_append)

lemma view_ok: "view pd s bs \<Longrightarrow> sizes_ok bs \<and> total bs \<le> 16777216 \<and> region pd KHEAP_START (end_of KHEAP_START bs) s"
  by (auto simp: view_def headers_def)

lemma chain_reprev:
  assumes "chain h pv a bs nx" and "bs \<noteq> [] \<Longrightarrow> h a = Some q" and "a \<notin> set (starts (a + fst (hd bs)) (tl bs))"
    and "\<And>c. c \<in> set (starts a bs) \<Longrightarrow> h' c = (if c = a then Some (q\<lparr>kb_prev := pv'\<rparr>) else h c)"
  shows "chain h' pv' a bs nx"
proof (cases bs)
  case (Cons b bs')
  obtain z fr where b: "b = (z, fr)" by (cases b)
  have "h' c = h c" if "c \<in> set (starts (a + z) bs')" for c
    using assms(3,4) that by (auto simp: Cons b)
  then have "chain h' a (a + z) bs' nx = chain h a (a + z) bs' nx" by (rule chain_cong)
  then show ?thesis using assms by (auto simp: Cons b)
qed simp

text \<open>The block after \<open>post\<close>'s first start is none of the later ones.\<close>

lemma start_not_later:
  assumes "unat a + total bs < 4294967296" and "sizes_ok bs"
  shows "a \<notin> set (starts (a + fst (hd bs)) (tl bs))"
proof (cases bs)
  case (Cons b bs')
  obtain z fr where b: "b = (z, fr)" by (cases b)
  have u: "unat (a + z) = unat a + unat z" using assms by (intro unat_plus_small) (simp add: Cons b)
  show ?thesis
    using starts_bounds [of a "a + z" bs'] assms u by (auto simp: Cons b)
qed simp

section \<open>The steps on the list\<close>

lemma view_set_free:
  assumes "view pd s bs" and "bs = pre @ (z, fr) # post"
  shows "\<exists>s'. set_free s (end_of KHEAP_START pre) w = Some s' \<and> view pd s' (pre @ (z, w) # post)
    \<and> kept KHEAP_START (end_of KHEAP_START bs) (set (starts KHEAP_START bs)) s s'"
proof -
  let ?b = "end_of KHEAP_START pre"
  note ok = view_ok [OF assms(1)]
  obtain h where h: "headers pd KHEAP_START (end_of KHEAP_START bs) s h"
    "h ?b = Some \<lparr>kb_size = z, kb_free = fr,
      kb_next = (if post = [] then 0 else ?b + z), kb_prev = last_of 0 KHEAP_START pre\<rparr>"
    "chain h 0 KHEAP_START pre ?b" "chain h ?b (?b + z) post 0"
    using viewE [OF assms] by metis
  let ?h = "h(?b \<mapsto> \<lparr>kb_size = z, kb_free = w, kb_next = (if post = [] then 0 else ?b + z),
    kb_prev = last_of 0 KHEAP_START pre\<rparr>)"
  have b_in: "?b \<in> set (starts KHEAP_START bs)" by (simp add: assms(2) starts_append)
  then obtain s' where s': "set_free s ?b w = Some s'"
    "headers pd KHEAP_START (end_of KHEAP_START bs) s' ?h"
    "kept KHEAP_START (end_of KHEAP_START bs) (set (starts KHEAP_START bs)) s s'"
    using hs.ends_final(1) [OF h(1,2) b_in, of w] by (auto simp: hs.ends_def)
  note m = middle [OF assms(2)]
  have "chain ?h 0 KHEAP_START pre ?b = chain h 0 KHEAP_START pre ?b"
    by (rule chain_cong) (use ok m(1,3) in force)
  moreover have "chain ?h ?b (?b + z) post 0 = chain h ?b (?b + z) post 0"
    by (rule chain_cong) (use ok m(1,4,6) in force)
  ultimately have "chain ?h 0 KHEAP_START (pre @ (z, w) # post) 0"
    using h(3,4) by (simp add: chain_append)
  moreover have "end_of KHEAP_START (pre @ (z, w) # post) = end_of KHEAP_START bs"
    by (simp add: assms(2) end_of_append)
  ultimately have "view pd s' (pre @ (z, w) # post)"
    using s'(2) ok assms(2) by (intro viewI) simp_all
  with s' show ?thesis by blast
qed

lemma unat_joined: "unat z + unat y \<le> 16777216 \<Longrightarrow> unat ((z::u32) + y) = unat z + unat y"
  by (rule unat_plus_small) simp

lemma view_absorb:
  assumes "view pd s bs" and "bs = pre @ (z, fr) # (y, g) # post"
  shows "\<exists>s'. kheap_absorb s (end_of KHEAP_START pre) (end_of KHEAP_START pre + z) = Some s'
    \<and> view pd s' (pre @ (z + y, fr) # post)
    \<and> kept KHEAP_START (end_of KHEAP_START bs) (set (starts KHEAP_START bs)) s s'"
proof -
  let ?b = "end_of KHEAP_START pre"
  let ?n = "?b + z"
  let ?x = "?n + y"
  note ok = view_ok [OF assms(1)]
  have bs2: "bs = (pre @ [(z, fr)]) @ (y, g) # post" using assms(2) by simp
  note m = middle [OF assms(2)] and m2 = middle [OF bs2]
  obtain h where h: "headers pd KHEAP_START (end_of KHEAP_START bs) s h"
    "h ?b = Some \<lparr>kb_size = z, kb_free = fr, kb_next = ?n, kb_prev = last_of 0 KHEAP_START pre\<rparr>"
    "chain h 0 KHEAP_START pre ?b" "chain h ?b ?n ((y, g) # post) 0"
    by (rule viewE [OF assms], rule that) simp_all
  have t: "total pre + unat z + unat y + total post \<le> 16777216" "24 \<le> unat z" "24 \<le> unat y"
    "unat z mod 8 = 0" "unat y mod 8 = 0" using ok by (simp_all add: assms(2))
  have zy: "unat (z + y) = unat z + unat y" using t(1) by (intro unat_joined) simp
  have ub: "unat ?b = 3254779904 + total pre" "unat ?n = 3254779904 + total pre + unat z"
    "unat ?x = 3254779904 + total pre + unat z + unat y"
  proof -
    show "unat ?b = 3254779904 + total pre" "unat ?n = 3254779904 + total pre + unat z"
      using m(1,2) ok by blast+
    show "unat ?x = 3254779904 + total pre + unat z + unat y"
      using m2(2) ok by (simp add: end_of_append)
  qed
  have ne: "?b \<noteq> ?n" "?x \<noteq> ?b" "?x \<noteq> ?n" "?x \<noteq> 0" "?n \<noteq> 0" "?b \<noteq> 0"
  proof -
    have "unat ?b \<noteq> unat ?n" "unat ?x \<noteq> unat ?b" "unat ?x \<noteq> unat ?n" "unat ?x \<noteq> unat (0::u32)"
      "unat ?n \<noteq> unat (0::u32)" "unat ?b \<noteq> unat (0::u32)"
      unfolding ub unat_0 using t(2,3) by linarith+
    then show "?b \<noteq> ?n" "?x \<noteq> ?b" "?x \<noteq> ?n" "?x \<noteq> 0" "?n \<noteq> 0" "?b \<noteq> 0" by metis+
  qed
  have hn: "h ?n = Some \<lparr>kb_size = y, kb_free = g, kb_next = (if post = [] then 0 else ?x), kb_prev = ?b\<rparr>"
    and hp: "chain h ?n ?x post 0" using h(4) by simp_all
  obtain q where q: "post \<noteq> [] \<Longrightarrow> h ?x = Some q"
    using chain_starts [OF hp, of ?x] by (cases post) auto
  obtain h' where h': "h' = (let h1 = h(?b \<mapsto> \<lparr>kb_size = z + y, kb_free = fr, kb_next = (if post = [] then 0 else ?x),
      kb_prev = last_of 0 KHEAP_START pre\<rparr>) in if post = [] then h1 else h1(?x \<mapsto> q\<lparr>kb_prev := ?b\<rparr>))" by blast
  have D: "insert ?b (if post = [] then {} else {?x}) \<subseteq> set (starts KHEAP_START bs)"
    by (cases post) (auto simp: assms(2) starts_append)
  have "\<exists>s'. kheap_absorb s ?b ?n = Some s' \<and> headers pd KHEAP_START (end_of KHEAP_START bs) s' h'
    \<and> kept KHEAP_START (end_of KHEAP_START bs) (insert ?b (if post = [] then {} else {?x})) s s'"
  proof (cases "post = []")
    case True
    then show ?thesis using hs.absorb [OF h(1,2) hn ne(1), of q h'] ne
      by (simp add: hs.ends_def kheap_absorb_def h' Let_def)
  next
    case False
    then show ?thesis using hs.absorb [OF h(1,2) hn ne(1), of q h'] ne q
      by (simp add: hs.ends_def kheap_absorb_def h' Let_def)
  qed
  then obtain s' where s': "kheap_absorb s ?b ?n = Some s'" "headers pd KHEAP_START (end_of KHEAP_START bs) s' h'"
    "kept KHEAP_START (end_of KHEAP_START bs) (set (starts KHEAP_START bs)) s s'"
    using hs.kept_mono [OF _ D] by blast
  have "chain h' 0 KHEAP_START pre ?b = chain h 0 KHEAP_START pre ?b"
    by (rule chain_cong) (use ok m(3) ub t in \<open>force simp: h' Let_def\<close>)
  moreover have "chain h' ?b ?x post 0"
  proof (rule chain_reprev [OF hp q])
    have "unat ?x + total post < 4294967296" using ub t by simp
    then show "?x \<notin> set (starts (?x + fst (hd post)) (tl post))"
      using start_not_later [of ?x post] ok assms(2) by simp
    fix c
    assume c: "c \<in> set (starts ?x post)"
    then have "unat ?x \<le> unat c" using m2(4) [of c] ok ub by (simp add: end_of_append)
    then have "c \<noteq> ?b" using ub t by auto
    moreover have "post \<noteq> []" using c by auto
    ultimately show "h' c = (if c = ?x then Some (q\<lparr>kb_prev := ?b\<rparr>) else h c)" by (simp add: h' Let_def)
  qed
  ultimately have "chain h' 0 KHEAP_START (pre @ (z + y, fr) # post) 0"
    using h(3) ne by (simp add: chain_append h' Let_def add.assoc)
  moreover have "end_of KHEAP_START (pre @ (z + y, fr) # post) = end_of KHEAP_START bs"
    by (simp add: assms(2) end_of_append add.assoc)
  moreover have "(unat z + unat y) mod 8 = 0" using t(4,5) by (simp add: mod_add_eq [symmetric])
  ultimately have "view pd s' (pre @ (z + y, fr) # post)"
    using s'(2) ok assms(2) zy t by (intro viewI) simp_all
  with s' show ?thesis by blast
qed

text \<open>What a free block of \<open>z\<close> bytes becomes when \<open>needed\<close> of them are taken.\<close>

definition cut :: "u32 \<Rightarrow> u32 \<Rightarrow> blocks" where
  "cut needed z = (if unat z < unat needed + 24 then [(z, False)] else [(needed, False), (z - needed, True)])"

lemma cut_facts:
  assumes "needed \<le> z" and "24 \<le> unat needed" and "unat needed mod 8 = 0" and "unat z mod 8 = 0"
  shows "end_of a (cut needed z) = a + z" and "total (cut needed z) = unat z" and "sizes_ok (cut needed z)"
    and "cut needed z \<noteq> []"
proof -
  have u: "unat (z - needed) = unat z - unat needed" using assms(1) by (rule unat_minus_le)
  have le: "unat needed \<le> unat z" using assms(1) by (simp add: word_le_nat_alt)
  show "end_of a (cut needed z) = a + z" "cut needed z \<noteq> []" by (simp_all add: cut_def)
  show "total (cut needed z) = unat z" using u le by (simp add: cut_def)
  have "(unat z - unat needed) mod 8 = 0"
    using assms(3,4) by (metis dvd_diff_nat mod_eq_0_iff_dvd)
  then show "sizes_ok (cut needed z)" using u le assms by (auto simp: cut_def)
qed

lemma view_split:
  assumes "view pd s bs" and "bs = pre @ (z, fr) # post"
    and "needed \<le> z" and "24 \<le> unat needed" and "unat needed mod 8 = 0"
  shows "\<exists>s'. kheap_split s (end_of KHEAP_START pre) needed = Some s'
    \<and> view pd s' (pre @ cut needed z @ post)
    \<and> kept KHEAP_START (end_of KHEAP_START bs)
        (set (starts KHEAP_START (pre @ cut needed z @ post))) s s'"
proof -
  let ?b = "end_of KHEAP_START pre"
  note ok = view_ok [OF assms(1)] and m = middle [OF assms(2)]
  have zt: "unat z \<le> 16777216" "unat z mod 8 = 0" "24 \<le> unat z" using m(5-7) ok by simp_all
  obtain h where h: "headers pd KHEAP_START (end_of KHEAP_START bs) s h"
    "h ?b = Some \<lparr>kb_size = z, kb_free = fr, kb_next = (if post = [] then 0 else ?b + z),
       kb_prev = last_of 0 KHEAP_START pre\<rparr>"
    "chain h 0 KHEAP_START pre ?b" "chain h ?b (?b + z) post 0"
    "\<And>c. h c \<noteq> None \<Longrightarrow> c \<in> set (starts KHEAP_START bs)"
    by (rule viewE [OF assms(1,2)], rule that) simp_all
  have min: "unat (needed + KHEAP_MIN_BLOCK) = unat needed + 24"
    using assms(3) zt(1) by (subst unat_plus_small)
      (simp_all add: KHEAP_MIN_BLOCK_def sizeof_kheap_block_def KHEAP_ALIGN_def word_le_nat_alt)
  have size: "get_size s ?b = Some z" using hs.reads [OF h(1,2)] by simp
  show ?thesis
  proof (cases "unat z < unat needed + 24")
    case True
    then have "z < needed + KHEAP_MIN_BLOCK" by (simp add: word_less_nat_alt min)
    then have "kheap_split s ?b needed = set_free s ?b False" using size by (simp add: kheap_split_def)
    moreover have "set (starts KHEAP_START (pre @ [(z, False)] @ post)) = set (starts KHEAP_START bs)"
      by (simp add: assms(2) starts_append)
    ultimately show ?thesis using view_set_free [OF assms(1,2), of False] True by (simp add: cut_def)
  next
    case False
    let ?r = "?b + needed" and ?x = "?b + z"
    let ?new = "pre @ [(needed, False), (z - needed, True)] @ post"
    have not_less: "\<not> z < needed + KHEAP_MIN_BLOCK" using False by (simp add: word_less_nat_alt min)
    have tot: "total pre + unat z + total post \<le> 16777216" using ok by (simp add: assms(2))
    have ub: "unat ?b = 3254779904 + total pre" "unat ?x = 3254779904 + total pre + unat z"
      using m(1,2) ok by blast+
    have ur: "unat ?r = 3254779904 + total pre + unat needed"
      using ub(1) tot False by (subst unat_plus_small) simp_all
    have ne: "?b \<noteq> ?r" "?x \<noteq> ?b" "?x \<noteq> ?r" "?x \<noteq> 0"
    proof -
      have "unat ?b \<noteq> unat ?r" "unat ?x \<noteq> unat ?b" "unat ?x \<noteq> unat ?r" "unat ?x \<noteq> unat (0::u32)"
        unfolding ub ur unat_0 using zt assms(4) False by linarith+
      then show "?b \<noteq> ?r" "?x \<noteq> ?b" "?x \<noteq> ?r" "?x \<noteq> 0" by metis+
    qed
    have e: "unat (end_of KHEAP_START bs) = 3254779904 + total bs" using ok by (simp add: heap_end_of)
    have "header_place KHEAP_START (end_of KHEAP_START bs) ?b"
      using h(1,2) by (auto simp: headers_def)
    then have "unat ?b mod 4 = 0" by (simp add: header_place_def word_aligned_def)
    moreover have "unat needed mod 4 = 0" using assms(5) by presburger
    ultimately have "(unat ?b + unat needed) mod 4 = 0" by (simp add: mod_add_eq [symmetric])
    then have place: "header_place KHEAP_START (end_of KHEAP_START bs) ?r"
      using ub(1) ur e False assms(2) by (simp add: header_place_def word_aligned_def word_le_nat_alt unat_KHEAP_START)
    have apart_r: "apart ?r c" if "h c \<noteq> None" for c
    proof -
      have "c \<in> set (starts KHEAP_START pre) \<or> c = ?b \<or> c \<in> set (starts ?x post)"
        using h(5) [OF that] by (auto simp: assms(2) starts_append)
      then show ?thesis
        using m(3,4) [of c] ok ur ub(1) assms(4) False unfolding apart_def by auto
    qed
    obtain k0 where k0: "headers pd KHEAP_START (end_of KHEAP_START bs) s (h(?r \<mapsto> k0))"
      by (rule headers_claim [OF h(1) place apart_r])
    have no_r: "h ?r = None"
    proof (rule ccontr)
      assume "h ?r \<noteq> None"
      from apart_r [OF this] show False by (simp add: apart_def)
    qed
    obtain q where q: "post \<noteq> [] \<Longrightarrow> h ?x = Some q"
      using chain_starts [OF h(4), of ?x] by (cases post) auto
    obtain k where k: "h ?b = Some k" "kb_size k = z" "kb_next k = (if post = [] then 0 else ?x)"
      "kb_prev k = last_of 0 KHEAP_START pre" using h(2) by simp
    obtain h' where h': "h' = (let h1 = (h(?r \<mapsto> k0))(
        ?b \<mapsto> \<lparr>kb_size = needed, kb_free = False, kb_next = ?r, kb_prev = kb_prev k\<rparr>,
        ?r \<mapsto> \<lparr>kb_size = kb_size k - needed, kb_free = True, kb_next = kb_next k, kb_prev = ?b\<rparr>)
      in if kb_next k = 0 then h1 else h1(kb_next k \<mapsto> q\<lparr>kb_prev := ?r\<rparr>))" by blast
    have D: "insert ?b (insert ?r (if post = [] then {} else {?x})) \<subseteq> set (starts KHEAP_START ?new)"
      by (cases post) (auto simp: starts_append)
    have "?b \<noteq> 0" "?r \<noteq> 0" using ub(1) ur by auto
    then have "\<exists>s'. kheap_split s ?b needed = Some s' \<and> headers pd KHEAP_START (end_of KHEAP_START bs) s' h'
      \<and> kept KHEAP_START (end_of KHEAP_START bs) (insert ?b (insert ?r (if post = [] then {} else {?x}))) s s'"
      using hs.carve [OF k0 _ _ ne(1) _ _ _ h' refl] k ne q not_less size
      by (cases "post = []") (simp_all add: hs.ends_def kheap_split_def Let_def)
    then obtain s' where s': "kheap_split s ?b needed = Some s'" "headers pd KHEAP_START (end_of KHEAP_START bs) s' h'"
      "kept KHEAP_START (end_of KHEAP_START bs) (set (starts KHEAP_START ?new)) s s'"
      using hs.kept_mono [OF _ D] by blast
    have "chain h' 0 KHEAP_START pre ?b = chain h 0 KHEAP_START pre ?b"
      by (rule chain_cong) (use ok m(3) ub ur k(3) in \<open>force simp: h' Let_def\<close>)
    moreover have "chain h' ?r ?x post 0"
    proof (rule chain_reprev [OF h(4) q])
      have "unat ?x + total post < 4294967296" using ub tot by simp
      then show "?x \<notin> set (starts (?x + fst (hd post)) (tl post))"
        using start_not_later [of ?x post] ok assms(2) by simp
      fix c
      assume c: "c \<in> set (starts ?x post)"
      then have "unat ?x \<le> unat c" using m(4) [of c] ok ub by simp
      then have "c \<noteq> ?b" "c \<noteq> ?r" using ub ur False zt assms(4) by auto
      moreover have "post \<noteq> []" using c by auto
      ultimately show "h' c = (if c = ?x then Some (q\<lparr>kb_prev := ?r\<rparr>) else h c)" using k(3) ne(4) by (simp add: h' Let_def)
    qed
    ultimately have ch: "chain h' 0 KHEAP_START ?new 0"
      using h(3) ne k by (simp add: chain_append h' Let_def add.assoc)
    note cf = cut_facts [OF assms(3-5) zt(2)]
    have cut: "cut needed z = [(needed, False), (z - needed, True)]" using False by (simp add: cut_def)
    have "end_of KHEAP_START ?new = end_of KHEAP_START bs"
      by (simp add: assms(2) end_of_append)
    moreover have "sizes_ok ?new" "total ?new = total bs"
      using cf(2,3) ok unfolding cut by (simp_all add: assms(2))
    ultimately have "view pd s' ?new"
      using s'(2) ok ch by (intro viewI) simp_all
    then show ?thesis using s' unfolding cut by auto
  qed
qed

section \<open>Walking the list\<close>

fun first_fit :: "u32 \<Rightarrow> u32 \<Rightarrow> blocks \<Rightarrow> u32" where
  "first_fit needed a [] = 0"
| "first_fit needed a ((z, fr) # bs) = (if fr \<and> needed \<le> z then a else first_fit needed (a + z) bs)"

lemma kheap_find_chain:
  "headers pd lo hi s h \<Longrightarrow> chain h pv a bs 0 \<Longrightarrow> 0 < unat a \<Longrightarrow> unat a + total bs < 4294967296 \<Longrightarrow>
   kheap_find s (if bs = [] then 0 else a) needed = Some (first_fit needed a bs)"
proof (induction bs arbitrary: pv a)
  case Nil
  then show ?case by (simp add: kheap_find.simps)
next
  case (Cons b bs)
  obtain z fr where b: "b = (z, fr)" by (cases b)
  have u: "unat (a + z) = unat a + unat z" using Cons.prems(4) by (intro unat_plus_small) (simp add: b)
  have "a \<noteq> 0" using Cons.prems(3) by auto
  then show ?case
    using Cons.IH [OF Cons.prems(1), of a "a + z"] Cons.prems(2-4) u hs.reads [OF Cons.prems(1)]
    by (subst kheap_find.simps) (auto simp: b)
qed

lemma kheap_last_chain:
  "headers pd lo hi s h \<Longrightarrow> chain h pv a bs 0 \<Longrightarrow> bs \<noteq> [] \<Longrightarrow> 0 < unat a \<Longrightarrow>
   unat a + total bs < 4294967296 \<Longrightarrow> kheap_last s a = Some (last_of pv a bs)"
proof (induction bs arbitrary: pv a)
  case (Cons b bs)
  obtain z fr where b: "b = (z, fr)" by (cases b)
  have u: "unat (a + z) = unat a + unat z" using Cons.prems(5) by (intro unat_plus_small) (simp add: b)
  have "a + z \<noteq> 0" using Cons.prems(4) u by (metis add_is_0 less_irrefl unat_0)
  then show ?case
    using Cons.IH [OF Cons.prems(1), of a "a + z"] Cons.prems(2,4,5) u hs.reads [OF Cons.prems(1)]
    by (subst kheap_last.simps) (auto simp: b)
qed simp

lemma kheap_used_chain:
  "headers pd lo hi s h \<Longrightarrow> chain h pv a bs 0 \<Longrightarrow> 0 < unat a \<Longrightarrow> unat a + total bs < 4294967296 \<Longrightarrow>
   kheap_used_loop s (if bs = [] then 0 else a) used = Some (used + of_nat (used_total bs))"
proof (induction bs arbitrary: pv a used)
  case Nil
  then show ?case by (simp add: kheap_used_loop.simps)
next
  case (Cons b bs)
  obtain z fr where b: "b = (z, fr)" by (cases b)
  have u: "unat (a + z) = unat a + unat z" using Cons.prems(4) by (intro unat_plus_small) (simp add: b)
  have "a \<noteq> 0" using Cons.prems(3) by auto
  then show ?case
    using Cons.IH [OF Cons.prems(1), of a "a + z"] Cons.prems(2-4) u hs.reads [OF Cons.prems(1)]
    by (subst kheap_used_loop.simps) (auto simp: b add.assoc)
qed

section \<open>Growing the heap\<close>

text \<open>
  Mapping stops early when the heap's limit is reached or the frames run out, and then the heap
  itself is as before; otherwise the region has grown by all the pages.
\<close>

lemma kheap_map_pages_spec:
  assumes "region pd KHEAP_START at s" and "pd < KHEAP_START" and "unat at \<le> 3271557120"
  shows "\<exists>s' r. kheap_map_pages pd KHEAP_START n at s = Some (s', r)
    \<and> (case r of None \<Rightarrow> region pd KHEAP_START at s'
          \<and> (3271557120 < unat at + n * 4096 \<or> card (pmm_avail (vm_pmm s')) \<le> 1)
        | Some e \<Rightarrow> region pd KHEAP_START e s' \<and> unat e = unat at + n * 4096 \<and> unat e \<le> 3271557120)
    \<and> (\<forall>x. within KHEAP_START at x \<longrightarrow> vread8 s' x = vread8 s x)
    \<and> pmm_avail (vm_pmm s') \<subseteq> pmm_avail (vm_pmm s)
    \<and> card (pmm_avail (vm_pmm s)) \<le> card (pmm_avail (vm_pmm s')) + 2 * n"
  using assms
proof (induction n arbitrary: at s)
  case 0
  then show ?case by simp
next
  case (Suc n)
  note reg = Suc.prems(1)
  note inv = regionD(1) [OF reg] and at = regionD(3,4) [OF reg]
  have lo: "3254779904 \<le> unat at" using at(2) by (simp add: word_le_nat_alt unat_KHEAP_START)
  have u: "unat (at + 4096) = unat at + 4096" using Suc.prems(3) by (subst unat_plus_small) simp_all
  have "unat (at + PAGING_PAGE_SIZE - KHEAP_START) = unat at + 4096 - 3254779904"
    using unat_minus_le [of KHEAP_START "at + 4096"] lo u
    by (simp add: PAGING_PAGE_SIZE_def word_le_nat_alt unat_KHEAP_START)
  then have limit: "at + PAGING_PAGE_SIZE - KHEAP_START > KHEAP_MAX_BYTES \<longleftrightarrow> 3271557120 < unat at + 4096"
    using lo by (auto simp: word_less_nat_alt KHEAP_MAX_BYTES_def)
  obtain p f where pf: "pmm_alloc_frame (vm_pmm s) = (p, f)" by fastforce
  have pinv: "pmm_inv (vm_pmm s)" using inv by (rule pagingD)
  consider "3271557120 < unat at + 4096" | "unat at + 4096 \<le> 3271557120" "f = 0"
    | "unat at + 4096 \<le> 3271557120" "f \<noteq> 0" by linarith
  then show ?case
  proof cases
    case 1
    then show ?thesis using limit reg by simp
  next
    case 2
    then have "pmm_avail (vm_pmm s) = {}" using pmm.alloc_zero_iff [OF pinv] pf by simp
    moreover have "p = vm_pmm s" using pmm.alloc_empty [OF pinv calculation] pf by simp
    ultimately show ?thesis using 2 limit pf reg by simp
  next
    case 3
    have "unat (pde_index at) < 1023"
      using 3(1) unfolding unat_pde_index by (simp add: div_less_iff_less_mult)
    moreover have "pd < at" using Suc.prems(2) at(2) by simp
    ultimately have mp: "mappable pd at" using at(1) by (auto simp: mappable_def)
    have lim: "\<not> at + PAGING_PAGE_SIZE - KHEAP_START > KHEAP_MAX_BYTES" using limit 3(1) by simp
    show ?thesis
    proof (cases rule: region_map_page [OF reg mp pf 3(2)])
      case 1
      have "s\<lparr>vm_pmm := p, vm_pmm := pmm_free_frame f p\<rparr> = s\<lparr>vm_pmm := pmm_free_frame f p\<rparr>" by simp
      then show ?thesis using 1 pf 3(2) lim by simp
    next
      case (2 t)
      have step: "kheap_map_pages pd KHEAP_START (Suc n) at s = kheap_map_pages pd KHEAP_START n (at + 4096) t"
        using 2(1) pf 3(2) lim by (simp add: PAGING_PAGE_SIZE_def)
      obtain s' r where IH: "kheap_map_pages pd KHEAP_START n (at + 4096) t = Some (s', r)"
        "case r of None \<Rightarrow> region pd KHEAP_START (at + 4096) s'
            \<and> (3271557120 < unat (at + 4096) + n * 4096 \<or> card (pmm_avail (vm_pmm s')) \<le> 1)
          | Some e \<Rightarrow> region pd KHEAP_START e s' \<and> unat e = unat (at + 4096) + n * 4096 \<and> unat e \<le> 3271557120"
        "\<forall>x. within KHEAP_START (at + 4096) x \<longrightarrow> vread8 s' x = vread8 t x"
        "pmm_avail (vm_pmm s') \<subseteq> pmm_avail (vm_pmm t)"
        "card (pmm_avail (vm_pmm t)) \<le> card (pmm_avail (vm_pmm s')) + 2 * n"
        using Suc.IH [OF 2(2) Suc.prems(2)] 3(1) u by auto
      have le: "at \<le> at + 4096" using u by (simp add: word_le_nat_alt)
      have grow: "within KHEAP_START at x \<Longrightarrow> within KHEAP_START (at + 4096) x" for x
        using le by (auto simp: within_def)
      have "region pd KHEAP_START at s'" if "region pd KHEAP_START (at + 4096) s'"
        using region_shrink [OF that at le] .
      moreover have "vread8 s' x = vread8 s x" if "within KHEAP_START at x" for x
        using IH(3) 2(4) that grow by simp
      moreover have "card (pmm_avail (vm_pmm s)) \<le> card (pmm_avail (vm_pmm s')) + 2 * Suc n"
        using IH(5) 2(5) by simp
      moreover have "pmm_avail (vm_pmm s') \<subseteq> pmm_avail (vm_pmm s)" using IH(4) 2(3) by blast
      ultimately show ?thesis
        unfolding step using IH(1,2) u by (cases r) (auto simp: algebra_simps)
    qed
  qed
qed

text \<open>
  The heap's invariant: its variables and the headers in its region describe the blocks \<open>bs\<close>,
  which tile the mapped range, are large enough and aligned, and no two neighbours are free.
\<close>

definition heap_inv :: "u32 \<Rightarrow> heap \<Rightarrow> blocks \<Rightarrow> bool" where
  "heap_inv pd S bs \<longleftrightarrow> kh_start S = KHEAP_START \<and> pd < KHEAP_START \<and> view pd (kh_vm S) bs
     \<and> no_adjacent_free bs \<and> kh_end S = end_of KHEAP_START bs
     \<and> kh_first S = (if bs = [] then 0 else KHEAP_START)"

definition grow :: "u32 \<Rightarrow> blocks \<Rightarrow> blocks" where
  "grow n bs = (if bs \<noteq> [] \<and> snd (last bs) then butlast bs @ [(fst (last bs) + n, True)]
     else bs @ [(n, True)])"

text \<open>The bytes \<open>kheap_extend\<close> maps for a request.\<close>

definition extend_bytes :: "u32 \<Rightarrow> nat" where
  "extend_bytes m = (4095 + max (unat m) 16384) div 4096 * 4096"

lemma extend_pages:
  assumes "unat m \<le> 0xFFFFF000"
    and "need = (if m < KHEAP_GROW_PAGES * PAGING_PAGE_SIZE then KHEAP_GROW_PAGES * PAGING_PAGE_SIZE else m)"
  shows "unat ((need + PAGING_PAGE_SIZE - 1) div PAGING_PAGE_SIZE) * 4096 = extend_bytes m"
    and "unat m \<le> extend_bytes m" and "16384 \<le> extend_bytes m" and "extend_bytes m mod 4096 = 0"
proof -
  have n: "unat need = max (unat m) 16384"
    using assms(2) by (simp add: KHEAP_GROW_PAGES_def PAGING_PAGE_SIZE_def word_less_nat_alt max_def)
  then have "unat (4095 + need) = 4095 + max (unat m) 16384"
    using assms(1) by (subst unat_plus_small) simp_all
  moreover have "need + PAGING_PAGE_SIZE - 1 = 4095 + need" by (simp add: PAGING_PAGE_SIZE_def)
  moreover have page: "unat PAGING_PAGE_SIZE = 4096" by (simp add: PAGING_PAGE_SIZE_def)
  ultimately have "unat ((need + PAGING_PAGE_SIZE - 1) div PAGING_PAGE_SIZE)
      = (4095 + max (unat m) 16384) div unat PAGING_PAGE_SIZE"
    by (simp only: unat_word_div)
  then show "unat ((need + PAGING_PAGE_SIZE - 1) div PAGING_PAGE_SIZE) * 4096 = extend_bytes m"
    unfolding extend_bytes_def page by (rule arg_cong [where f = "\<lambda>x. x * 4096"])
  have "x \<le> (4095 + x) div 4096 * 4096" for x :: nat
  proof -
    have "(4095 + x) mod 4096 < 4096" by (rule mod_less_divisor) simp
    then show ?thesis using div_mult_mod_eq [of "4095 + x" 4096] by linarith
  qed
  then have "max (unat m) 16384 \<le> extend_bytes m" unfolding extend_bytes_def .
  then show "unat m \<le> extend_bytes m" "16384 \<le> extend_bytes m" by simp_all
  show "extend_bytes m mod 4096 = 0" by (simp add: extend_bytes_def)
qed

lemma no_adjacent_free_append:
  "no_adjacent_free (xs @ ys) \<longleftrightarrow> no_adjacent_free xs \<and> no_adjacent_free ys
     \<and> \<not> (xs \<noteq> [] \<and> ys \<noteq> [] \<and> snd (last xs) \<and> snd (hd ys))"
proof (induction xs)
  case (Cons b xs)
  have head: "no_adjacent_free (b # zs) \<longleftrightarrow> (zs = [] \<or> \<not> (snd b \<and> snd (hd zs))) \<and> no_adjacent_free zs" for zs
    by (cases zs; cases b) auto
  show ?case using Cons by (cases "xs = []") (auto simp: head)
qed simp

text \<open>The new block at the old end of the heap, its header written but not yet linked.\<close>

lemma extend_block:
  assumes "view pd s bs" and "region pd KHEAP_START e t"
    and "unat e = 3254779904 + total bs + n" and "16384 \<le> n" and "total bs + n \<le> 16777216"
    and "\<And>x. within KHEAP_START (end_of KHEAP_START bs) x \<Longrightarrow> vread8 t x = vread8 s x"
  shows "\<exists>u h. do { t \<leftarrow> set_size t (end_of KHEAP_START bs) (e - end_of KHEAP_START bs);
        t \<leftarrow> set_free t (end_of KHEAP_START bs) True; t \<leftarrow> set_next t (end_of KHEAP_START bs) 0;
        set_prev t (end_of KHEAP_START bs) 0 } = Some u
    \<and> headers pd KHEAP_START e u h \<and> chain h 0 KHEAP_START bs 0
    \<and> h (end_of KHEAP_START bs) = Some \<lparr>kb_size = e - end_of KHEAP_START bs, kb_free = True, kb_next = 0, kb_prev = 0\<rparr>
    \<and> (\<forall>x. within KHEAP_START (end_of KHEAP_START bs) x \<longrightarrow> vread8 u x = vread8 s x) \<and> vm_pmm u = vm_pmm t"
proof -
  let ?b = "end_of KHEAP_START bs"
  note ok = view_ok [OF assms(1)]
  have ub: "unat ?b = 3254779904 + total bs" using ok by (simp add: heap_end_of)
  obtain h where h: "headers pd KHEAP_START ?b s h" "chain h 0 KHEAP_START bs 0"
    "\<And>c. h c \<noteq> None \<Longrightarrow> c \<in> set (starts KHEAP_START bs)"
    using assms(1) unfolding view_def by blast
  have "?b \<le> e" using ub assms(3) by (simp add: word_le_nat_alt)
  note ht = headers_grow [OF h(1) assms(2) this assms(6)]
  have "page_aligned ?b" using ok regionD(3) by blast
  then have "unat ?b mod 4 = 0"
    by (auto elim!: page_alignedE)
  then have place: "header_place KHEAP_START e ?b"
    using ub assms(3,4) by (simp add: header_place_def word_aligned_def word_le_nat_alt unat_KHEAP_START)
  have "apart ?b c" if "h c \<noteq> None" for c
    using heap_starts(2) [OF h(3) [OF that]] ok ub by (simp add: apart_def)
  then obtain k0 where k0: "headers pd KHEAP_START e t (h(?b \<mapsto> k0))"
    using headers_claim [OF ht place] by blast
  have hb: "(h(?b \<mapsto> k0)) ?b = Some k0" and mem: "?b \<in> {?b}" by simp_all
  obtain h' where h': "h' = h(?b \<mapsto> \<lparr>kb_size = e - ?b, kb_free = True, kb_next = 0, kb_prev = 0\<rparr>)" by blast
  have "\<exists>u. do { t \<leftarrow> set_size t ?b (e - ?b); t \<leftarrow> set_free t ?b True; t \<leftarrow> set_next t ?b 0;
        set_prev t ?b 0 } = Some u \<and> headers pd KHEAP_START e u h' \<and> kept KHEAP_START e {?b} t u"
    unfolding hs.ends_def [symmetric]
    apply (rule hs.ends_set(1) [OF k0 hb mem])
    apply (rule hs.ends_set(2), assumption, simp, simp)
    apply (rule hs.ends_set(3), assumption, simp, simp)
    apply (rule hs.ends_prev_eq, assumption, simp, simp)
    apply (rule ext, cases k0, simp add: h')
    done
  then obtain u where u: "do { t \<leftarrow> set_size t ?b (e - ?b); t \<leftarrow> set_free t ?b True; t \<leftarrow> set_next t ?b 0;
        set_prev t ?b 0 } = Some u" "headers pd KHEAP_START e u h'" "kept KHEAP_START e {?b} t u" by blast
  have "?b \<notin> set (starts KHEAP_START bs)" using heap_starts(2) [of ?b bs] ok ub by auto
  then have "chain h' 0 KHEAP_START bs 0"
    using h(2) by (subst chain_cong [where h = h]) (auto simp: h')
  moreover have "vread8 u x = vread8 s x" if x: "within KHEAP_START ?b x" for x
  proof -
    have "within KHEAP_START e x" "outside {?b} x"
      using x \<open>?b \<le> e\<close> by (auto simp: within_def outside_def word_less_nat_alt word_le_nat_alt)
    then show ?thesis using u(3) assms(6) [OF x] by (simp add: kept_def)
  qed
  moreover have "vm_pmm u = vm_pmm t" using u(3) by (simp add: kept_def)
  ultimately show ?thesis using u(1,2) by (auto simp: h')
qed

text \<open>Linking the new block: merged into a free last block, appended after a used one.\<close>

lemma extend_merge:
  assumes "headers pd KHEAP_START e u h" and "chain h 0 KHEAP_START (xs @ [(z, True)]) 0"
    and "sizes_ok (xs @ [(z, True)])" and "unat e = 3254779904 + total (xs @ [(z, True)]) + n"
    and "n mod 8 = 0" and "total (xs @ [(z, True)]) + n \<le> 16777216" and "y = e - end_of KHEAP_START (xs @ [(z, True)])"
  shows "\<exists>t. set_size u (end_of KHEAP_START xs) (z + y) = Some t \<and> view pd t (xs @ [(z + y, True)])
    \<and> end_of KHEAP_START (xs @ [(z + y, True)]) = e \<and> kept KHEAP_START e {end_of KHEAP_START xs} u t"
proof -
  let ?l = "end_of KHEAP_START xs"
  have tot: "total xs + unat z + n \<le> 16777216" using assms(6) by simp
  have end_xs: "end_of KHEAP_START (xs @ [(z, True)]) = ?l + z" by (simp add: end_of_append)
  then have le: "?l + z \<le> e" and ue: "unat (?l + z) = 3254779904 + total xs + unat z"
    using heap_end_of [of "xs @ [(z, True)]"] assms(4,6) by (simp_all add: word_le_nat_alt)
  have uy: "unat y = n" using unat_minus_le [OF le] assms(4,7) ue end_xs by simp
  have uzy: "unat (z + y) = unat z + n" using tot uy by (subst unat_joined) simp_all
  have hl: "h ?l = Some \<lparr>kb_size = z, kb_free = True, kb_next = 0, kb_prev = last_of 0 KHEAP_START xs\<rparr>"
    and ch: "chain h 0 KHEAP_START xs ?l" using assms(2) by (simp_all add: chain_snoc)
  obtain t where t: "set_size u ?l (z + y) = Some t" "headers pd KHEAP_START e t (h(?l \<mapsto>
      \<lparr>kb_size = z + y, kb_free = True, kb_next = 0, kb_prev = last_of 0 KHEAP_START xs\<rparr>))" "kept KHEAP_START e {?l} u t"
    using hs.size_law [OF assms(1) hl, of "z + y"] by auto
  have e: "end_of KHEAP_START (xs @ [(z + y, True)]) = e"
    using assms(7) end_xs by (simp add: end_of_append algebra_simps)
  have ul: "unat ?l = 3254779904 + total xs" using tot by (simp add: heap_end_of)
  have "?l \<notin> set (starts KHEAP_START xs)" using heap_starts(2) [of ?l xs] assms(3) tot ul by auto
  then have "chain (h(?l \<mapsto> \<lparr>kb_size = z + y, kb_free = True, kb_next = 0, kb_prev = last_of 0 KHEAP_START xs\<rparr>))
      0 KHEAP_START (xs @ [(z + y, True)]) 0"
    using ch by (simp add: chain_snoc) (subst chain_cong [where h = h], auto)
  moreover have "(unat z + n) mod 8 = 0" using assms(3,5) by (simp add: mod_add_eq [symmetric])
  ultimately have "view pd t (xs @ [(z + y, True)])"
    using t(2) assms(3) uzy tot by (intro viewI) (simp_all add: e)
  then show ?thesis using t(1,3) e by blast
qed

lemma extend_append:
  assumes "headers pd KHEAP_START e u h" and "chain h 0 KHEAP_START (xs @ [(z, fr)]) 0"
    and "sizes_ok (xs @ [(z, fr)])" and "unat e = 3254779904 + total (xs @ [(z, fr)]) + n"
    and "n mod 8 = 0" "24 \<le> n" and "total (xs @ [(z, fr)]) + n \<le> 16777216" and "b = end_of KHEAP_START (xs @ [(z, fr)])"
    and "h b = Some \<lparr>kb_size = e - b, kb_free = True, kb_next = 0, kb_prev = 0\<rparr>"
  shows "\<exists>t v. set_prev u b (end_of KHEAP_START xs) = Some t \<and> set_next t (end_of KHEAP_START xs) b = Some v
    \<and> view pd v (xs @ [(z, fr), (e - b, True)]) \<and> end_of KHEAP_START (xs @ [(z, fr), (e - b, True)]) = e
    \<and> kept KHEAP_START e {end_of KHEAP_START xs, b} u v"
proof -
  let ?l = "end_of KHEAP_START xs"
  have tot: "total xs + unat z + n \<le> 16777216" "24 \<le> unat z" using assms(3,7) by simp_all
  have b: "b = ?l + z" by (simp add: assms(8) end_of_append)
  have ub: "unat b = 3254779904 + total xs + unat z"
    using heap_end_of [of "xs @ [(z, fr)]"] assms(7,8) by simp
  then have le: "b \<le> e" using assms(4) by (simp add: word_le_nat_alt)
  have uy: "unat (e - b) = n" using unat_minus_le [OF le] assms(4) ub by simp
  have ul: "unat ?l = 3254779904 + total xs" using tot by (simp add: heap_end_of)
  have ne: "?l \<noteq> b" using ub ul tot by auto
  have hl: "h ?l = Some \<lparr>kb_size = z, kb_free = fr, kb_next = 0, kb_prev = last_of 0 KHEAP_START xs\<rparr>"
    and ch: "chain h 0 KHEAP_START xs ?l" using assms(2) by (simp_all add: chain_snoc)
  let ?h1 = "h(b \<mapsto> \<lparr>kb_size = e - b, kb_free = True, kb_next = 0, kb_prev = ?l\<rparr>)"
  let ?h2 = "?h1(?l \<mapsto> \<lparr>kb_size = z, kb_free = fr, kb_next = b, kb_prev = last_of 0 KHEAP_START xs\<rparr>)"
  obtain t where t: "set_prev u b ?l = Some t" "headers pd KHEAP_START e t ?h1" "kept KHEAP_START e {b} u t"
    using hs.prev_law [OF assms(1,9), of ?l] by auto
  have "?h1 ?l = Some \<lparr>kb_size = z, kb_free = fr, kb_next = 0, kb_prev = last_of 0 KHEAP_START xs\<rparr>"
    using hl ne by simp
  then obtain v where v: "set_next t ?l b = Some v" "headers pd KHEAP_START e v ?h2" "kept KHEAP_START e {?l} t v"
    using hs.next_law [OF t(2), of ?l _ b] by auto
  have k: "kept KHEAP_START e {?l, b} u v"
    by (rule hs.kept_trans [OF hs.kept_mono [OF t(3)] hs.kept_mono [OF v(3)]]) simp_all
  have e: "end_of KHEAP_START (xs @ [(z, fr), (e - b, True)]) = e"
    by (simp add: end_of_append b)
  have "c \<noteq> ?l \<and> c \<noteq> b" if "c \<in> set (starts KHEAP_START xs)" for c
    using heap_starts(2) [OF that] assms(3) tot ul ub by auto
  then have "chain ?h2 0 KHEAP_START xs ?l = chain h 0 KHEAP_START xs ?l"
    by (intro chain_cong) auto
  then have "chain ?h2 0 KHEAP_START (xs @ [(z, fr), (e - b, True)]) 0"
    using ch ne by (simp add: chain_append b)
  then have "view pd v (xs @ [(z, fr), (e - b, True)])"
    using v(2) assms(3,5,6) uy tot by (intro viewI) (simp_all add: e)
  then show ?thesis using t(1) v(1) e k by blast
qed

lemma heap_invD:
  assumes "heap_inv pd S bs"
  shows "kh_start S = KHEAP_START" "pd < KHEAP_START" "view pd (kh_vm S) bs" "no_adjacent_free bs"
    "kh_end S = end_of KHEAP_START bs" "kh_first S = (if bs = [] then 0 else KHEAP_START)"
    "sizes_ok bs" "total bs \<le> 16777216" "region pd KHEAP_START (kh_end S) (kh_vm S)"
    "unat (kh_end S) = 3254779904 + total bs"
  using assms view_ok [of pd "kh_vm S" bs] heap_end_of [of bs] by (auto simp: heap_inv_def)

definition bytes_kept :: "u32 \<Rightarrow> u32 set \<Rightarrow> vm \<Rightarrow> vm \<Rightarrow> bool" where
  "bytes_kept hi D s s' \<longleftrightarrow> (\<forall>x. within KHEAP_START hi x \<and> outside D x \<longrightarrow> vread8 s' x = vread8 s x)"

lemma kept_bytes: "kept KHEAP_START e D s s' \<Longrightarrow> hi \<le> e \<Longrightarrow> D \<inter> {x. x < hi} \<subseteq> E \<Longrightarrow> bytes_kept hi E s s'"
  unfolding kept_def bytes_kept_def outside_def within_def
proof (intro allI impI)
  fix x
  assume a: "vm_pmm s' = vm_pmm s \<and> (\<forall>x. (KHEAP_START \<le> x \<and> x < e)
      \<and> (\<forall>b\<in>D. \<not> (unat b \<le> unat x \<and> unat x < unat b + 16)) \<longrightarrow> vread8 s' x = vread8 s x)"
    "hi \<le> e" "D \<inter> {x. x < hi} \<subseteq> E"
    "(KHEAP_START \<le> x \<and> x < hi) \<and> (\<forall>b\<in>E. \<not> (unat b \<le> unat x \<and> unat x < unat b + 16))"
  have "\<not> (unat b \<le> unat x \<and> unat x < unat b + 16)" if "b \<in> D" for b
  proof (cases "b < hi")
    case True
    then show ?thesis using a(3,4) that by blast
  next
    case False
    then have "unat x < unat b" using a(4) by (simp add: word_less_nat_alt)
    then show ?thesis by simp
  qed
  then show "vread8 s' x = vread8 s x" using a(1,2,4) by (meson order_less_le_trans)
qed

lemma bytes_kept_trans: "bytes_kept hi D s t \<Longrightarrow> bytes_kept hi D t u \<Longrightarrow> bytes_kept hi D s u"
  by (simp add: bytes_kept_def)

lemma kheap_extend_mapped:
  assumes "heap_inv pd S bs"
    and "kheap_map_pages pd KHEAP_START (unat ((need + PAGING_PAGE_SIZE - 1) div PAGING_PAGE_SIZE)) (kh_end S) (kh_vm S)
      = Some (t, Some e)"
    and "need = (if m < KHEAP_GROW_PAGES * PAGING_PAGE_SIZE then KHEAP_GROW_PAGES * PAGING_PAGE_SIZE else m)"
    and "region pd KHEAP_START e t" and "unat e = unat (kh_end S) + n" and "unat e \<le> 3271557120"
    and "16384 \<le> n" and "n mod 4096 = 0"
    and "\<And>x. within KHEAP_START (kh_end S) x \<Longrightarrow> vread8 t x = vread8 (kh_vm S) x"
  shows "\<exists>S'. kheap_extend pd m S = Some (S', True) \<and> heap_inv pd S' (grow (of_nat n) bs)
    \<and> bytes_kept (kh_end S) (set (starts KHEAP_START bs)) (kh_vm S) (kh_vm S')
    \<and> vm_pmm (kh_vm S') = vm_pmm t"
proof -
  note D = heap_invD [OF assms(1)]
  let ?b = "end_of KHEAP_START bs"
  have n: "total bs + n \<le> 16777216" using assms(5,6) D(10) by simp
  have le: "?b \<le> e" using assms(5) D(5) by (simp add: word_le_nat_alt)
  have y: "e - ?b = of_nat n"
    using unat_minus_le [OF le] assms(5) D(5) n by (intro u32_eqI) (simp add: unat_of_nat_small)
  have n8: "n mod 8 = 0"
  proof -
    have "4096 dvd n" "(8::nat) dvd 4096" using assms(8) by (simp_all add: mod_eq_0_iff_dvd)
    then have "8 dvd n" by (rule dvd_trans [rotated])
    then show ?thesis by simp
  qed
  have "kh_end S - kh_start S < KHEAP_MAX_BYTES"
    using unat_minus_le [of KHEAP_START ?b] D(1,5,8,10) n assms(7)
    by (simp add: word_less_nat_alt KHEAP_MAX_BYTES_def word_le_nat_alt unat_KHEAP_START)
  then have room: "\<not> kh_end S - kh_start S \<ge> KHEAP_MAX_BYTES" by simp
  obtain u h where u: "do { t \<leftarrow> set_size t ?b (e - ?b); t \<leftarrow> set_free t ?b True; t \<leftarrow> set_next t ?b 0;
        set_prev t ?b 0 } = Some u"
    "headers pd KHEAP_START e u h" "chain h 0 KHEAP_START bs 0"
    "h ?b = Some \<lparr>kb_size = e - ?b, kb_free = True, kb_next = 0, kb_prev = 0\<rparr>"
    "\<And>x. within KHEAP_START ?b x \<Longrightarrow> vread8 u x = vread8 (kh_vm S) x" "vm_pmm u = vm_pmm t"
    using extend_block [OF D(3) assms(4) _ assms(7) n] assms(5,9) D(5,10) by auto
  have ub: "bytes_kept ?b E (kh_vm S) u" for E using u(5) by (simp add: bytes_kept_def)
  obtain t1 t2 t3 where steps: "set_size t ?b (e - ?b) = Some t1" "set_free t1 ?b True = Some t2"
    "set_next t2 ?b 0 = Some t3" "set_prev t3 ?b 0 = Some u"
    using u(1) by (auto simp: bind_eq_Some_conv)
  have e: "?b + of_nat n = e" using y by (simp add: algebra_simps)
  show ?thesis
  proof (cases bs rule: rev_cases)
    case Nil
    have "view pd u (grow (of_nat n) bs)"
      using u(2,4) n assms(7) n8 y e
      by (intro viewI [where h = h]) (simp_all add: Nil grow_def unat_of_nat_small)
    then show ?thesis
      using Nil room D steps assms(2,3) u(6) ub y e [symmetric]
      by (simp add: kheap_extend_def Let_def heap_inv_def grow_def)
  next
    case (snoc xs zf)
    obtain z fr where zf: "zf = (z, fr)" by (cases zf)
    let ?l = "end_of KHEAP_START xs"
    have bs: "bs = xs @ [(z, fr)]" by (simp add: snoc zf)
    have b: "?b = ?l + z" by (simp add: bs end_of_append)
    have ue: "unat e = 3254779904 + total bs + n" using assms(5) D(10) by simp
    have last: "kheap_last u KHEAP_START = Some ?l"
      using kheap_last_chain [OF u(2,3)] D(8) by (simp add: bs last_of_append unat_KHEAP_START)
    have hl: "h ?l = Some \<lparr>kb_size = z, kb_free = fr, kb_next = 0, kb_prev = last_of 0 KHEAP_START xs\<rparr>"
      using u(3) by (simp add: bs chain_snoc)
    note rl = hs.reads [OF u(2) hl] and rb = hs.reads [OF u(2,4)]
    have l_in: "?l \<in> set (starts KHEAP_START bs)" by (simp add: bs starts_append)
    have first: "kh_first S \<noteq> 0" "kh_first S = KHEAP_START" using D(6) by (simp_all add: bs KHEAP_START_def)
    show ?thesis
    proof (cases fr)
      case True
      obtain v where v: "set_size u ?l (z + (e - ?b)) = Some v" "view pd v (xs @ [(z + (e - ?b), True)])"
        "end_of KHEAP_START (xs @ [(z + (e - ?b), True)]) = e" "kept KHEAP_START e {?l} u v"
        using extend_merge [OF u(2), of xs z n "e - ?b"] u(3) D(7) ue n8 n True by (auto simp: bs)
      have g: "grow (of_nat n) bs = xs @ [(z + (e - ?b), True)]" unfolding y using True by (simp add: grow_def bs)
      have "kheap_extend pd m S = Some (S\<lparr>kh_vm := v, kh_end := e\<rparr>, True)"
        using room D(1,5) assms(2) assms(3) [symmetric] steps last rl rb v(1) True first b
        by (simp add: kheap_extend_def Let_def)
      moreover have "heap_inv pd (S\<lparr>kh_vm := v, kh_end := e\<rparr>) (grow (of_nat n) bs)"
        using D(1,2,4,6) v(2,3) True unfolding g
        by (simp add: heap_inv_def bs no_adjacent_free_append)
      moreover have "bytes_kept ?b (set (starts KHEAP_START bs)) (kh_vm S) v"
        by (rule bytes_kept_trans [OF ub kept_bytes [OF v(4) le]]) (use l_in in blast)
      moreover have "vm_pmm v = vm_pmm t" using v(4) u(6) by (simp add: kept_def)
      ultimately show ?thesis unfolding D(5) by auto
    next
      case False
      obtain v w where v: "set_prev u ?b ?l = Some v" "set_next v ?l ?b = Some w"
        "view pd w (xs @ [(z, fr), (e - ?b, True)])"
        "end_of KHEAP_START (xs @ [(z, fr), (e - ?b, True)]) = e" "kept KHEAP_START e {?l, ?b} u w"
        using extend_append [OF u(2), of xs z fr n ?b] u(3,4) D(7) ue n8 n assms(7) by (auto simp: bs)
      have g: "grow (of_nat n) bs = xs @ [(z, fr), (e - ?b, True)]" unfolding y using False by (simp add: grow_def bs)
      have "kheap_extend pd m S = Some (S\<lparr>kh_vm := w, kh_end := e\<rparr>, True)"
        using room D(1,5) assms(2) assms(3) [symmetric] steps last rl rb v(1,2) False first
        by (simp add: kheap_extend_def Let_def)
      moreover have "heap_inv pd (S\<lparr>kh_vm := w, kh_end := e\<rparr>) (grow (of_nat n) bs)"
        using D(1,2,4,6) v(3,4) False unfolding g
        by (simp add: heap_inv_def bs no_adjacent_free_append)
      moreover have "bytes_kept ?b (set (starts KHEAP_START bs)) (kh_vm S) w"
        by (rule bytes_kept_trans [OF ub kept_bytes [OF v(5) le]]) (use l_in in auto)
      moreover have "vm_pmm w = vm_pmm t" using v(5) u(6) by (simp add: kept_def)
      ultimately show ?thesis unfolding D(5) by auto
    qed
  qed
qed

lemma kheap_extend_cases:
  assumes "heap_inv pd S bs" and "unat m \<le> 0xFFFFF000"
  obtains (failed) S' where "kheap_extend pd m S = Some (S', False)" "heap_inv pd S' bs"
      "16777216 < total bs + extend_bytes m \<or> card (pmm_avail (vm_pmm (kh_vm S'))) \<le> 1"
      "bytes_kept (kh_end S) (set (starts KHEAP_START bs)) (kh_vm S) (kh_vm S')"
      "kh_end S' = kh_end S"
      "card (pmm_avail (vm_pmm (kh_vm S))) \<le> card (pmm_avail (vm_pmm (kh_vm S'))) + 2 * (extend_bytes m div 4096)"
    | (extended) S' where "kheap_extend pd m S = Some (S', True)"
      "heap_inv pd S' (grow (of_nat (extend_bytes m)) bs)" "total bs + extend_bytes m \<le> 16777216"
      "bytes_kept (kh_end S) (set (starts KHEAP_START bs)) (kh_vm S) (kh_vm S')"
      "card (pmm_avail (vm_pmm (kh_vm S))) \<le> card (pmm_avail (vm_pmm (kh_vm S'))) + 2 * (extend_bytes m div 4096)"
proof -
  note D = heap_invD [OF assms(1)]
  obtain need where need: "need = (if m < KHEAP_GROW_PAGES * PAGING_PAGE_SIZE
      then KHEAP_GROW_PAGES * PAGING_PAGE_SIZE else m)" by blast
  note pages = extend_pages [OF assms(2) need]
  let ?n = "unat ((need + PAGING_PAGE_SIZE - 1) div PAGING_PAGE_SIZE)"
  have mapped: "unat (kh_end S - kh_start S) = total bs"
    using unat_minus_le [of KHEAP_START "kh_end S"] D(1,10)
    by (simp add: word_le_nat_alt unat_KHEAP_START)
  show thesis
  proof (cases "kh_end S - kh_start S \<ge> KHEAP_MAX_BYTES")
    case True
    then have "16777216 \<le> total bs" using mapped by (simp add: word_le_nat_alt KHEAP_MAX_BYTES_def)
    moreover have "kheap_extend pd m S = Some (S, False)" using True by (simp add: kheap_extend_def)
    ultimately show thesis using failed [of S] assms(1) pages(3) by (simp add: bytes_kept_def)
  next
    case False
    have lim: "unat (kh_end S) \<le> 3271557120" using D(8,10) by simp
    obtain t r where tr: "kheap_map_pages pd KHEAP_START ?n (kh_end S) (kh_vm S) = Some (t, r)"
      "case r of None \<Rightarrow> region pd KHEAP_START (kh_end S) t
          \<and> (3271557120 < unat (kh_end S) + ?n * 4096 \<or> card (pmm_avail (vm_pmm t)) \<le> 1)
        | Some e \<Rightarrow> region pd KHEAP_START e t \<and> unat e = unat (kh_end S) + ?n * 4096 \<and> unat e \<le> 3271557120"
      "\<forall>x. within KHEAP_START (kh_end S) x \<longrightarrow> vread8 t x = vread8 (kh_vm S) x"
      "card (pmm_avail (vm_pmm (kh_vm S))) \<le> card (pmm_avail (vm_pmm t)) + 2 * ?n"
      using kheap_map_pages_spec [OF D(9,2) lim, of ?n] by blast
    show thesis
    proof (cases r)
      case None
      have run: "kheap_extend pd m S = Some (S\<lparr>kh_vm := t\<rparr>, False)"
        using False D(1) tr(1) None need [symmetric] by (simp add: kheap_extend_def Let_def)
      have reg: "region pd KHEAP_START (kh_end S) t" using tr(2) None by simp
      obtain h where h: "headers pd KHEAP_START (kh_end S) (kh_vm S) h" "chain h 0 KHEAP_START bs 0"
        using D(3,5) by (auto simp: view_def)
      have "headers pd KHEAP_START (kh_end S) t h"
        by (rule headers_grow [OF h(1) reg order_refl]) (use tr(3) in blast)
      then have "view pd t bs" using h(2) D(5,7,8) by (intro viewI) simp_all
      then have "heap_inv pd (S\<lparr>kh_vm := t\<rparr>) bs" using D(1,2,4-6) by (simp add: heap_inv_def)
      moreover have "16777216 < total bs + extend_bytes m \<or> card (pmm_avail (vm_pmm t)) \<le> 1"
        using tr(2) None pages(1) D(10) by auto
      moreover have "?n = extend_bytes m div 4096" using pages(1) by simp
      ultimately show thesis using failed [OF run] tr(3,4) by (simp add: bytes_kept_def)
    next
      case (Some e)
      have e: "region pd KHEAP_START e t" "unat e = unat (kh_end S) + extend_bytes m" "unat e \<le> 3271557120"
        using tr(2) Some pages(1) by simp_all
      have rd: "vread8 t x = vread8 (kh_vm S) x" if "within KHEAP_START (kh_end S) x" for x
        using tr(3) that by blast
      obtain S' where S': "kheap_extend pd m S = Some (S', True)" "heap_inv pd S' (grow (of_nat (extend_bytes m)) bs)"
        "bytes_kept (kh_end S) (set (starts KHEAP_START bs)) (kh_vm S) (kh_vm S')" "vm_pmm (kh_vm S') = vm_pmm t"
        using kheap_extend_mapped [OF assms(1) tr(1) [unfolded Some] need e(1,2,3) pages(3,4) rd] by blast
      have "?n = extend_bytes m div 4096" using pages(1) by simp
      then show thesis using extended [OF S'(1,2) _ S'(3)] S'(4) tr(4) e(2,3) D(10) by simp
    qed
  qed
qed

section \<open>Releasing a block\<close>

text \<open>The list after the block at \<open>p\<close> became free: merged with the free neighbours.\<close>

fun join_next :: "u32 \<Rightarrow> blocks \<Rightarrow> blocks" where
  "join_next z ((y, True) # bs) = (z + y, True) # bs"
| "join_next z bs = (z, True) # bs"

definition join_prev :: "blocks \<Rightarrow> blocks \<Rightarrow> blocks" where
  "join_prev pre bs = (if pre \<noteq> [] \<and> snd (last pre)
     then butlast pre @ (fst (last pre) + fst (hd bs), True) # tl bs else pre @ bs)"

definition release :: "blocks \<Rightarrow> u32 \<Rightarrow> blocks \<Rightarrow> blocks" where
  "release pre z post = join_prev pre (join_next z post)"

lemma view_reads:
  assumes "view pd s (pre @ (z, fr) # post)"
  shows "get_size s (end_of KHEAP_START pre) = Some z" "get_free s (end_of KHEAP_START pre) = Some fr"
    "get_next s (end_of KHEAP_START pre) = Some (if post = [] then 0 else end_of KHEAP_START pre + z)"
    "get_prev s (end_of KHEAP_START pre) = Some (last_of 0 KHEAP_START pre)"
proof -
  obtain h where h: "headers pd KHEAP_START (end_of KHEAP_START (pre @ (z, fr) # post)) s h"
    "h (end_of KHEAP_START pre) = Some \<lparr>kb_size = z, kb_free = fr,
      kb_next = (if post = [] then 0 else end_of KHEAP_START pre + z), kb_prev = last_of 0 KHEAP_START pre\<rparr>"
    by (rule viewE [OF assms refl], rule that; assumption)
  from hs.reads [OF this] show "get_size s (end_of KHEAP_START pre) = Some z" "get_free s (end_of KHEAP_START pre) = Some fr"
    "get_next s (end_of KHEAP_START pre) = Some (if post = [] then 0 else end_of KHEAP_START pre + z)"
    "get_prev s (end_of KHEAP_START pre) = Some (last_of 0 KHEAP_START pre)" by simp_all
qed

lemma view_nonzero:
  assumes "view pd s (pre @ (z, fr) # post)"
  shows "end_of KHEAP_START pre \<noteq> 0" "end_of KHEAP_START pre + z \<noteq> 0"
proof -
  have "unat (end_of KHEAP_START pre) \<noteq> 0" "unat (end_of KHEAP_START pre + z) \<noteq> 0"
    using middle(1,2) [OF refl, of pre z fr post] view_ok [OF assms] by simp_all
  then show "end_of KHEAP_START pre \<noteq> 0" "end_of KHEAP_START pre + z \<noteq> 0" by auto
qed

lemma view_join_next:
  assumes "view pd s (pre @ (z, True) # post)"
  shows "\<exists>s1. do { next \<leftarrow> get_next s (end_of KHEAP_START pre);
      fr \<leftarrow> (if next \<noteq> 0 then get_free s next else Some False);
      if fr then kheap_absorb s (end_of KHEAP_START pre) next else Some s } = Some s1
    \<and> view pd s1 (pre @ join_next z post)
    \<and> kept KHEAP_START (end_of KHEAP_START (pre @ (z, True) # post))
        (set (starts KHEAP_START (pre @ (z, True) # post))) s s1"
proof (cases post)
  case Nil
  then show ?thesis using view_reads(3) [OF assms] assms hs.kept_refl by simp
next
  case (Cons b post2)
  obtain y g where b: "b = (y, g)" by (cases b)
  have v: "view pd s ((pre @ [(z, True)]) @ (y, g) # post2)" using assms by (simp add: Cons b)
  have gf: "get_free s (end_of KHEAP_START pre + z) = Some g"
    using view_reads(2) [OF v] by (simp add: end_of_append)
  note nz = view_nonzero(2) [OF assms] and nx = view_reads(3) [OF assms]
  show ?thesis
  proof (cases g)
    case True
    then show ?thesis
      using view_absorb [OF assms, of pre z True y g post2] nz nx gf by (simp add: Cons b)
  next
    case False
    then show ?thesis using nz nx gf assms hs.kept_refl by (simp add: Cons b)
  qed
qed

lemma join_next_form:
  obtains z' post' where "join_next z post = (z', True) # post'" "end_of a ((z', True) # post') = end_of a ((z, True) # post)"
    "set (starts a ((z', True) # post')) \<subseteq> set (starts a ((z, True) # post))"
  by (cases "(z, post)" rule: join_next.cases) (auto simp: add.assoc)

lemma view_coalesce:
  assumes "view pd s (pre @ (z, True) # post)"
  shows "\<exists>s'. kheap_coalesce s (end_of KHEAP_START pre) = Some s' \<and> view pd s' (release pre z post)
    \<and> kept KHEAP_START (end_of KHEAP_START (pre @ (z, True) # post))
        (set (starts KHEAP_START (pre @ (z, True) # post))) s s'"
proof -
  let ?b = "end_of KHEAP_START pre" and ?bs = "pre @ (z, True) # post"
  obtain s1 where s1: "do { next \<leftarrow> get_next s ?b;
      fr \<leftarrow> (if next \<noteq> 0 then get_free s next else Some False);
      if fr then kheap_absorb s ?b next else Some s } = Some s1"
    "view pd s1 (pre @ join_next z post)" "kept KHEAP_START (end_of KHEAP_START ?bs) (set (starts KHEAP_START ?bs)) s s1"
    using view_join_next [OF assms] by blast
  obtain z' post' where j: "join_next z post = (z', True) # post'"
    "end_of ?b ((z', True) # post') = end_of ?b ((z, True) # post)"
    "set (starts ?b ((z', True) # post')) \<subseteq> set (starts ?b ((z, True) # post))"
    using join_next_form by blast
  note v1 = s1(2) [unfolded j(1)]
  have run: "kheap_coalesce s ?b = do { prev \<leftarrow> get_prev s1 ?b;
     fr \<leftarrow> (if prev \<noteq> 0 then get_free s1 prev else Some False);
     if fr then kheap_absorb s1 prev ?b else Some s1 }"
  proof -
    obtain x where x: "get_next s ?b = Some x" using s1(1) by (auto simp: bind_eq_Some_conv)
    then obtain g where "(if x \<noteq> 0 then get_free s x else Some False) = Some g"
      "(if g then kheap_absorb s ?b x else Some s) = Some s1"
      using s1(1) by (auto simp: bind_eq_Some_conv)
    then show ?thesis using x by (simp add: kheap_coalesce_def)
  qed
  show ?thesis
  proof (cases pre rule: rev_cases)
    case Nil
    then show ?thesis
      using run view_reads(4) [OF v1] s1(2,3) by (simp add: release_def join_prev_def)
  next
    case (snoc pp wg)
    obtain w g where wg: "wg = (w, g)" by (cases wg)
    have v2: "view pd s1 (pp @ (w, g) # (z', True) # post')" using v1 by (simp add: snoc wg)
    have b: "?b = end_of KHEAP_START pp + w" by (simp add: snoc wg end_of_append)
    have prev: "get_prev s1 ?b = Some (end_of KHEAP_START pp)"
      using view_reads(4) [OF v1] by (simp add: snoc wg last_of_append)
    note nz = view_nonzero(1) [OF v2] and gf = view_reads(2) [OF v2]
    show ?thesis
    proof (cases g)
      case True
      obtain s2 where s2: "kheap_absorb s1 (end_of KHEAP_START pp) (end_of KHEAP_START pp + w) = Some s2"
        "view pd s2 (pp @ (w + z', g) # post')"
        "kept KHEAP_START (end_of KHEAP_START (pp @ (w, g) # (z', True) # post'))
          (set (starts KHEAP_START (pp @ (w, g) # (z', True) # post'))) s1 s2"
        using view_absorb [OF v2 refl] by blast
      have "kept KHEAP_START (end_of KHEAP_START ?bs) (set (starts KHEAP_START ?bs)) s1 s2"
      proof -
        have eq: "pp @ (w, g) # (z', True) # post' = pre @ (z', True) # post'" by (simp add: snoc wg)
        have "kept KHEAP_START (end_of KHEAP_START (pre @ (z', True) # post'))
          (set (starts KHEAP_START (pre @ (z', True) # post'))) s1 s2" using s2(3) unfolding eq .
        moreover have "end_of KHEAP_START (pre @ (z', True) # post') = end_of KHEAP_START ?bs"
          using j(2) unfolding end_of_append by simp
        moreover have "set (starts KHEAP_START (pre @ (z', True) # post')) \<subseteq> set (starts KHEAP_START ?bs)"
          using j(3) unfolding starts_append by auto
        ultimately show ?thesis using hs.kept_mono by metis
      qed
      then have "kept KHEAP_START (end_of KHEAP_START ?bs) (set (starts KHEAP_START ?bs)) s s2"
        by (rule hs.kept_trans [OF s1(3)])
      moreover have "release pre z post = pp @ (w + z', g) # post'"
        using True by (simp add: release_def join_prev_def j(1) snoc wg)
      moreover have "kheap_coalesce s ?b = Some s2"
        unfolding run prev using nz gf True s2(1) by (simp add: b)
      ultimately show ?thesis using s2(2) by auto
    next
      case False
      then have "release pre z post = pre @ (z', True) # post'"
        by (simp add: release_def join_prev_def j(1) snoc wg)
      moreover have "kheap_coalesce s ?b = Some s1"
        unfolding run prev using nz gf False by simp
      ultimately show ?thesis using v1 s1(3) by auto
    qed
  qed
qed

text \<open>The used blocks, by address and size.\<close>

fun used_blocks :: "u32 \<Rightarrow> blocks \<Rightarrow> (u32 \<times> u32) list" where
  "used_blocks a [] = []"
| "used_blocks a ((z, fr) # bs) = (if fr then [] else [(a, z)]) @ used_blocks (a + z) bs"

lemma used_blocks_append: "used_blocks a (xs @ ys) = used_blocks a xs @ used_blocks (end_of a xs) ys"
  by (induction a xs rule: used_blocks.induct) auto

lemma used_blocksE:
  assumes "(c, z) \<in> set (used_blocks a bs)"
  obtains pre post where "bs = pre @ (z, False) # post" "c = end_of a pre"
  using assms
proof (induction bs arbitrary: a thesis)
  case (Cons b bs)
  obtain y fr where b: "b = (y, fr)" by (cases b)
  consider "\<not> fr" "c = a" "z = y" | "(c, z) \<in> set (used_blocks (a + y) bs)"
    using Cons.prems(2) by (auto simp: b split: if_splits)
  then show ?case
  proof cases
    case 1
    then show ?thesis using Cons.prems(1) [of "[]"] by (simp add: b)
  next
    case 2
    then obtain pre post where "bs = pre @ (z, False) # post" "c = end_of (a + y) pre"
      using Cons.IH by blast
    then show ?thesis using Cons.prems(1) [of "(y, fr) # pre"] by (simp add: b)
  qed
qed simp

lemma used_blocks_start: "(c, z) \<in> set (used_blocks a bs) \<Longrightarrow> c \<in> set (starts a bs)"
  by (induction a bs rule: used_blocks.induct) (auto split: if_splits)

lemma release_used:
  assumes "bs = pre @ (z, fr) # post"
  shows "set (used_blocks a (release pre z post)) = set (used_blocks a (pre @ (z, True) # post))"
    and "used_total (release pre z post) = used_total (pre @ (z, True) # post)"
    and "end_of a (release pre z post) = end_of a bs"
    and "no_adjacent_free bs \<Longrightarrow> no_adjacent_free (release pre z post)"
    and "release pre z post \<noteq> []"
proof -
  obtain z' post' where j: "join_next z post = (z', True) # post'"
    "\<And>b. set (used_blocks b ((z', True) # post')) = set (used_blocks (b + z) post)"
    "used_total ((z', True) # post') = used_total post" "\<And>b. end_of b ((z', True) # post') = end_of (b + z) post"
    "no_adjacent_free ((z, fr) # post) \<Longrightarrow> no_adjacent_free ((z', True) # post')"
  proof (cases "\<exists>y post2. post = (y, True) # post2")
    case True
    then obtain y post2 where post: "post = (y, True) # post2" by blast
    have "no_adjacent_free ((z, fr) # post) \<Longrightarrow> no_adjacent_free ((z + y, True) # post2)"
      unfolding post by (cases post2) auto
    then show thesis using that [of "z + y" post2] by (simp add: post add.assoc)
  next
    case False
    then have "join_next z post = (z, True) # post" by (cases "(z, post)" rule: join_next.cases) auto
    moreover have "no_adjacent_free ((z, fr) # post) \<Longrightarrow> no_adjacent_free ((z, True) # post)"
      using False by (cases post) auto
    ultimately show thesis using that [of z post] by simp
  qed
  show "release pre z post \<noteq> []" by (simp add: release_def join_prev_def j(1))
  obtain rel where rel: "release pre z post = rel" by blast
  have form: "(rel = pre @ (z', True) # post' \<and> (pre \<noteq> [] \<longrightarrow> \<not> snd (last pre)))
    \<or> (\<exists>pp w. pre = pp @ [(w, True)] \<and> rel = pp @ (w + z', True) # post')"
  proof (cases pre rule: rev_cases)
    case (snoc pp wg)
    then show ?thesis by (cases wg) (auto simp: rel [symmetric] release_def join_prev_def j(1))
  qed (simp add: rel [symmetric] release_def join_prev_def j(1))
  show "set (used_blocks a (release pre z post)) = set (used_blocks a (pre @ (z, True) # post))"
    unfolding rel using form j(2) by (auto simp: used_blocks_append end_of_append add.assoc [symmetric])
  show "used_total (release pre z post) = used_total (pre @ (z, True) # post)"
    unfolding rel using form j(3) by auto
  show "end_of a (release pre z post) = end_of a bs"
    unfolding rel using form j(4) by (auto simp: assms end_of_append add.assoc [symmetric])
  assume "no_adjacent_free bs"
  then have na: "no_adjacent_free pre" "no_adjacent_free ((z', True) # post')"
    using j(5) by (simp_all add: assms no_adjacent_free_append)
  then have nb: "no_adjacent_free ((w, True) # post')" for w by (cases post') auto
  show "no_adjacent_free (release pre z post)"
    unfolding rel using form na nb by (auto simp: no_adjacent_free_append)
qed

section \<open>First fit\<close>

lemma first_fitE:
  assumes "first_fit needed a bs \<noteq> 0"
  obtains pre z post where "bs = pre @ (z, True) # post" "needed \<le> z" "first_fit needed a bs = end_of a pre"
    "\<forall>(y, fr) \<in> set pre. \<not> (fr \<and> needed \<le> y)"
  using assms
proof (induction bs arbitrary: a thesis)
  case (Cons b bs)
  obtain y fr where b: "b = (y, fr)" by (cases b)
  show ?case
  proof (cases "fr \<and> needed \<le> y")
    case True
    then show ?thesis using Cons.prems(1) [of "[]"] by (simp add: b)
  next
    case False
    then have "first_fit needed (a + y) bs \<noteq> 0" using Cons.prems(2) by (auto simp: b)
    then obtain pre z post where "bs = pre @ (z, True) # post" "needed \<le> z"
      "first_fit needed (a + y) bs = end_of (a + y) pre" "\<forall>(y, fr) \<in> set pre. \<not> (fr \<and> needed \<le> y)"
      using Cons.IH by blast
    then show ?thesis using Cons.prems(1) [of "(y, fr) # pre"] False by (auto simp: b)
  qed
qed simp

lemma first_fit_none:
  "first_fit needed a bs = 0 \<Longrightarrow> 0 < unat a \<Longrightarrow> unat a + total bs < 4294967296 \<Longrightarrow>
   (z, True) \<in> set bs \<Longrightarrow> z < needed"
proof (induction bs arbitrary: a)
  case (Cons b bs)
  obtain y fr where b: "b = (y, fr)" by (cases b)
  have u: "unat (a + y) = unat a + unat y" using Cons.prems(3) by (intro unat_plus_small) (simp add: b)
  have "a \<noteq> 0" using Cons.prems(2) by auto
  then have "\<not> (fr \<and> needed \<le> y)" "first_fit needed (a + y) bs = 0"
    using Cons.prems(1) by (auto simp: b split: if_splits)
  then show ?case using Cons.IH [of "a + y"] Cons.prems u by (auto simp: b)
qed simp

lemma unat_kheap_align:
  assumes "unat n + 7 < 4294967296"
  shows "unat (kheap_align n) = (unat n + 7) div 8 * 8"
proof -
  obtain x where x: "x = 7 + n" by blast
  have ux: "unat x = unat n + 7" using assms by (simp add: x unat_plus_small)
  have m: "KHEAP_ALIGN - 1 = mask 3" by (simp add: KHEAP_ALIGN_def mask_eq_exp_minus_1)
  have "(x AND NOT (mask 3)) + (x AND mask 3) = (x AND NOT (mask 3)) OR (x AND mask 3)"
    by (rule disjunctive_add_eq_or) (simp add: bit_eq_iff bit_simps)
  also have "\<dots> = x" by (rule bit_eqI) (auto simp: bit_simps)
  finally have "x AND NOT (mask 3) = x - (x AND mask 3)" by (simp add: algebra_simps)
  moreover have "unat (x AND mask 3) = unat x mod 8"
    by (simp add: take_bit_eq_mask [symmetric] take_bit_eq_mod unat_word_mod)
  moreover have "x AND mask 3 \<le> x" by (rule word_and_le2)
  ultimately have "unat (x AND NOT (mask 3)) = unat x - unat x mod 8"
    by (simp add: unat_minus_le)
  moreover have "kheap_align n = x AND NOT (mask 3)"
    by (simp add: kheap_align_def m [symmetric] x KHEAP_ALIGN_def)
  ultimately show ?thesis by (simp add: ux minus_mod_eq_div_mult)
qed

section \<open>The allocator on the list\<close>

lemma kfree_spec:
  assumes "heap_inv pd S bs" and "bs = pre @ (z, False) # post" and "ptr = end_of KHEAP_START pre + sizeof_kheap_block"
  shows "\<exists>S'. kfree ptr S = Some S' \<and> heap_inv pd S' (release pre z post)
    \<and> kept KHEAP_START (kh_end S) (set (starts KHEAP_START bs)) (kh_vm S) (kh_vm S') \<and> kh_end S' = kh_end S"
proof -
  note D = heap_invD [OF assms(1)] and R = release_used [OF assms(2)]
  let ?b = "end_of KHEAP_START pre" and ?bs = "pre @ (z, True) # post"
  have ub: "unat ?b = 3254779904 + total pre" "total pre \<le> 16777216"
    using middle(1) [OF assms(2) D(7,8)] D(8) by (simp_all add: assms(2))
  then have "unat ptr = 3254779904 + total pre + 16"
    by (simp add: assms(3) sizeof_kheap_block_def unat_plus_small)
  then have nz: "ptr \<noteq> 0" by auto
  have blk: "kheap_block_from_ptr ptr = ?b" by (simp add: kheap_block_from_ptr_def assms(3))
  obtain s1 where s1: "set_free (kh_vm S) ?b True = Some s1" "view pd s1 ?bs"
    "kept KHEAP_START (end_of KHEAP_START bs) (set (starts KHEAP_START bs)) (kh_vm S) s1"
    using view_set_free [OF D(3) assms(2), of True] by blast
  obtain s2 where s2: "kheap_coalesce s1 ?b = Some s2" "view pd s2 (release pre z post)"
    "kept KHEAP_START (end_of KHEAP_START ?bs) (set (starts KHEAP_START ?bs)) s1 s2"
    using view_coalesce [OF s1(2)] by blast
  have same: "end_of KHEAP_START ?bs = end_of KHEAP_START bs" "starts KHEAP_START ?bs = starts KHEAP_START bs"
    by (simp_all add: assms(2) end_of_append starts_append)
  have "kept KHEAP_START (kh_end S) (set (starts KHEAP_START bs)) (kh_vm S) s2"
    unfolding D(5) by (rule hs.kept_trans [OF s1(3) s2(3) [unfolded same]])
  moreover have "heap_inv pd (S\<lparr>kh_vm := s2\<rparr>) (release pre z post)"
    using D(1,2,4,5,6) s2(2) R(3-5) assms(2) by (simp add: heap_inv_def)
  moreover have "kfree ptr S = Some (S\<lparr>kh_vm := s2\<rparr>)"
    using nz s1(1) s2(1) by (simp add: kfree_def blk)
  ultimately show ?thesis by simp
qed

lemma no_adjacent_free_cut:
  "no_adjacent_free (pre @ (z, True) # post) \<Longrightarrow> no_adjacent_free (pre @ cut needed z @ post)"
  by (cases post) (auto simp: no_adjacent_free_append cut_def)

lemma kmalloc_loop_fit:
  assumes "heap_inv pd S bs" and "bs = pre @ (z, True) # post" and "needed \<le> z"
    and "first_fit needed KHEAP_START bs = end_of KHEAP_START pre" and "24 \<le> unat needed" and "unat needed mod 8 = 0"
  shows "\<exists>S'. kmalloc_loop pd needed S = Some (S', end_of KHEAP_START pre + sizeof_kheap_block)
    \<and> heap_inv pd S' (pre @ cut needed z @ post)
    \<and> kept KHEAP_START (kh_end S) (set (starts KHEAP_START (pre @ cut needed z @ post))) (kh_vm S) (kh_vm S')
    \<and> kh_end S' = kh_end S"
proof -
  note D = heap_invD [OF assms(1)]
  obtain h where h: "headers pd KHEAP_START (kh_end S) (kh_vm S) h" "chain h 0 KHEAP_START bs 0"
    using D(3,5) by (auto simp: view_def)
  have "kheap_find (kh_vm S) (kh_first S) needed = Some (end_of KHEAP_START pre)"
    using kheap_find_chain [OF h, of needed] D(6,8) assms(4) by (simp add: unat_KHEAP_START)
  moreover have "end_of KHEAP_START pre \<noteq> 0"
    using view_nonzero(1) [of pd "kh_vm S" pre z True post] D(3) assms(2) by simp
  moreover obtain s where s: "kheap_split (kh_vm S) (end_of KHEAP_START pre) needed = Some s"
    "view pd s (pre @ cut needed z @ post)"
    "kept KHEAP_START (end_of KHEAP_START bs) (set (starts KHEAP_START (pre @ cut needed z @ post))) (kh_vm S) s"
    using view_split [OF D(3) assms(2,3,5,6)] by blast
  ultimately have "kmalloc_loop pd needed S = Some (S\<lparr>kh_vm := s\<rparr>, end_of KHEAP_START pre + sizeof_kheap_block)"
    by (subst kmalloc_loop.simps) simp
  moreover have z8: "unat z mod 8 = 0" using D(7) by (simp add: assms(2))
  note cf = cut_facts [OF assms(3,5,6) z8]
  have "end_of KHEAP_START (pre @ cut needed z @ post) = end_of KHEAP_START bs"
    by (simp add: assms(2) end_of_append cf)
  then have "heap_inv pd (S\<lparr>kh_vm := s\<rparr>) (pre @ cut needed z @ post)"
    using D(1,2,4-6) s(2) no_adjacent_free_cut [of pre z post needed] cf(4) by (simp add: heap_inv_def assms(2))
  ultimately show ?thesis using s(3) D(5) by auto
qed

lemma grow_facts:
  assumes "sizes_ok bs" and "total bs + n \<le> 16777216" and "unat needed \<le> n"
  shows "used_blocks a (grow (of_nat n) bs) = used_blocks a bs"
    and "used_total (grow (of_nat n) bs) = used_total bs"
    and "total (grow (of_nat n) bs) = total bs + n"
    and "\<exists>z. (z, True) \<in> set (grow (of_nat n) bs) \<and> needed \<le> z"
proof -
  have n: "unat (of_nat n :: u32) = n" using assms(2) by (simp add: unat_of_nat_small)
  have add: "unat (z + of_nat n) = unat z + n" if "unat z \<le> total bs" for z :: u32
    using that assms(2) n by (subst unat_joined) simp_all
  have "used_blocks a (grow (of_nat n) bs) = used_blocks a bs \<and> used_total (grow (of_nat n) bs) = used_total bs
    \<and> total (grow (of_nat n) bs) = total bs + n \<and> (\<exists>z. (z, True) \<in> set (grow (of_nat n) bs) \<and> needed \<le> z)"
  proof (cases bs rule: rev_cases)
    case Nil
    then show ?thesis using n assms(3) by (simp add: grow_def word_le_nat_alt)
  next
    case (snoc xs zf)
    obtain z fr where zf: "zf = (z, fr)" by (cases zf)
    show ?thesis
    proof (cases fr)
      case True
      have g: "grow (of_nat n) bs = xs @ [(z + of_nat n, True)]" using True by (simp add: grow_def snoc zf)
      have "needed \<le> z + of_nat n"
        using add [of z] assms(3) unfolding word_le_nat_alt by (simp add: snoc zf)
      then show ?thesis
        unfolding g using add [of z] True by (auto simp: snoc zf used_blocks_append)
    next
      case False
      have g: "grow (of_nat n) bs = xs @ [(z, False), (of_nat n, True)]" using False by (simp add: grow_def snoc zf)
      have "needed \<le> of_nat n" using n assms(3) unfolding word_le_nat_alt by simp
      then show ?thesis
        unfolding g using n False by (auto simp: snoc zf used_blocks_append)
    qed
  qed
  note r = this
  show "used_blocks a (grow (of_nat n) bs) = used_blocks a bs" using r by (elim conjE)
  show "used_total (grow (of_nat n) bs) = used_total bs" using r by (elim conjE)
  show "total (grow (of_nat n) bs) = total bs + n" using r by (elim conjE)
  show "\<exists>z. (z, True) \<in> set (grow (of_nat n) bs) \<and> needed \<le> z" using r by (elim conjE)
qed

lemma kmalloc_loop_cases:
  assumes "heap_inv pd S bs" and "24 \<le> unat needed" and "unat needed mod 8 = 0" and "unat needed \<le> 0xFFFFF000"
  obtains (fit) pre z post S' where "bs = pre @ (z, True) # post" "needed \<le> z"
      "first_fit needed KHEAP_START bs = end_of KHEAP_START pre"
      "kmalloc_loop pd needed S = Some (S', end_of KHEAP_START pre + sizeof_kheap_block)"
      "heap_inv pd S' (pre @ cut needed z @ post)"
      "kept KHEAP_START (kh_end S) (set (starts KHEAP_START (pre @ cut needed z @ post))) (kh_vm S) (kh_vm S')"
    | (full) S' where "first_fit needed KHEAP_START bs = 0"
      "kmalloc_loop pd needed S = Some (S', 0)" "heap_inv pd S' bs"
      "16777216 < total bs + extend_bytes needed \<or> card (pmm_avail (vm_pmm (kh_vm S'))) \<le> 1"
      "bytes_kept (kh_end S) (set (starts KHEAP_START bs)) (kh_vm S) (kh_vm S')"
    | (extended) T pre z post S' where "first_fit needed KHEAP_START bs = 0"
      "grow (of_nat (extend_bytes needed)) bs = pre @ (z, True) # post" "needed \<le> z"
      "total bs + extend_bytes needed \<le> 16777216"
      "kmalloc_loop pd needed S = Some (S', end_of KHEAP_START pre + sizeof_kheap_block)"
      "heap_inv pd S' (pre @ cut needed z @ post)"
      "bytes_kept (kh_end S) (set (starts KHEAP_START bs)) (kh_vm S) (kh_vm (T::heap))" "kh_end S \<le> kh_end T"
      "kept KHEAP_START (kh_end T) (set (starts KHEAP_START (pre @ cut needed z @ post))) (kh_vm T) (kh_vm S')"
      "heap_inv pd T (grow (of_nat (extend_bytes needed)) bs)"
proof -
  note D = heap_invD [OF assms(1)]
  show thesis
  proof (cases "first_fit needed KHEAP_START bs = 0")
    case False
    then obtain pre z post where "bs = pre @ (z, True) # post" "needed \<le> z"
      "first_fit needed KHEAP_START bs = end_of KHEAP_START pre" by (rule first_fitE)
    then show thesis using fit kmalloc_loop_fit [OF assms(1) _ _ _ assms(2,3)] by metis
  next
    case True
    obtain h where h: "headers pd KHEAP_START (kh_end S) (kh_vm S) h" "chain h 0 KHEAP_START bs 0"
      using D(3,5) by (auto simp: view_def)
    have find: "kheap_find (kh_vm S) (kh_first S) needed = Some 0"
      using kheap_find_chain [OF h, of needed] D(6,8) True by (simp add: unat_KHEAP_START)
    show thesis
    proof (cases rule: kheap_extend_cases [OF assms(1,4)])
      case (1 S')
      then have "kmalloc_loop pd needed S = Some (S', 0)"
        using find by (subst kmalloc_loop.simps) simp
      then show thesis using full True 1 by blast
    next
      case (2 T)
      let ?g = "grow (of_nat (extend_bytes needed)) bs"
      have le: "unat needed \<le> extend_bytes needed" by (rule extend_pages(2) [OF assms(4) refl])
      note g = grow_facts [OF D(7) 2(3) le]
      have tg: "unat KHEAP_START + total ?g < 4294967296" using g(3) 2(3) by (simp add: unat_KHEAP_START)
      have "first_fit needed KHEAP_START ?g \<noteq> 0"
        using first_fit_none [OF _ _ tg] g(4) by (auto simp: unat_KHEAP_START dest: leD)
      then obtain pre z post where f: "?g = pre @ (z, True) # post" "needed \<le> z"
        "first_fit needed KHEAP_START ?g = end_of KHEAP_START pre" by (rule first_fitE)
      obtain S' where S': "kmalloc_loop pd needed T = Some (S', end_of KHEAP_START pre + sizeof_kheap_block)"
        "heap_inv pd S' (pre @ cut needed z @ post)"
        "kept KHEAP_START (kh_end T) (set (starts KHEAP_START (pre @ cut needed z @ post))) (kh_vm T) (kh_vm S')"
        using kmalloc_loop_fit [OF 2(2) f assms(2,3)] by blast
      have "kmalloc_loop pd needed S = kmalloc_loop pd needed T"
        using find 2(1) by (subst kmalloc_loop.simps) simp
      note run = trans [OF this S'(1)]
      have le: "kh_end S \<le> kh_end T"
        using D(10) heap_invD(10) [OF 2(2)] g(3) by (simp add: word_le_nat_alt)
      show thesis by (rule extended) (fact True f(1,2) 2(2,3,4) run S' le)+
    qed
  qed
qed

section \<open>Requests and payloads\<close>

lemma kmalloc_needed:
  assumes "unat sz \<le> 0xFFFFEFF0"
  shows "24 \<le> unat (kmalloc_needed sz)" "unat (kmalloc_needed sz) mod 8 = 0"
    "unat (kmalloc_needed sz) \<le> 0xFFFFF000" "unat sz + 16 \<le> unat (kmalloc_needed sz)"
proof -
  have u: "unat (sz + sizeof_kheap_block) = unat sz + 16"
    using assms by (simp add: sizeof_kheap_block_def unat_plus_small)
  obtain n where n: "n = unat sz + 23" by blast
  have a: "unat (kheap_align (sz + sizeof_kheap_block)) = n div 8 * 8"
    using unat_kheap_align [of "sz + sizeof_kheap_block"] u assms by (simp add: n)
  have "n mod 8 < 8" by simp
  then have b: "n < n div 8 * 8 + 8" "n div 8 * 8 \<le> n"
    using div_mult_mod_eq [of n 8] by linarith+
  have m: "unat KHEAP_MIN_BLOCK = 24"
    by (simp add: KHEAP_MIN_BLOCK_def sizeof_kheap_block_def KHEAP_ALIGN_def)
  have k: "unat (kmalloc_needed sz) = max 24 (n div 8 * 8)"
    by (simp add: kmalloc_needed_def Let_def word_less_nat_alt a m max_def)
  show "24 \<le> unat (kmalloc_needed sz)" "unat (kmalloc_needed sz) mod 8 = 0" by (simp_all add: k max_def)
  have "n div 8 * 8 \<le> 0xFFFFF000"
  proof -
    have "n < 0xFFFFF008" using assms by (simp add: n)
    then have "n div 8 \<le> 0x1FFFFE00" by (simp add: less_mult_imp_div_less div_le_mono less_Suc_eq_le
      div_less_iff_less_mult)
    then show ?thesis by simp
  qed
  then show "unat (kmalloc_needed sz) \<le> 0xFFFFF000" by (simp add: k)
  show "unat sz + 16 \<le> unat (kmalloc_needed sz)" using b(1) n by (simp add: k)
qed

definition payload :: "u32 \<Rightarrow> u32 \<Rightarrow> u32 \<Rightarrow> bool" where
  "payload b z x \<longleftrightarrow> unat b + 16 \<le> unat x \<and> unat x < unat b + unat z"

lemma payload_outside:
  assumes "(c, z) \<in> set (used_blocks KHEAP_START bs)" and "payload c z x"
    and "sizes_ok bs" and "total bs \<le> 16777216"
  shows "outside (set (starts KHEAP_START bs)) x" and "within KHEAP_START (end_of KHEAP_START bs) x"
proof -
  obtain pre post where bs: "bs = pre @ (z, False) # post" "c = end_of KHEAP_START pre"
    using assms(1) by (rule used_blocksE)
  note m = middle [OF bs(1) assms(3,4)]
  have x: "3254779904 + total pre + 16 \<le> unat x" "unat x < 3254779904 + total pre + unat z"
    using assms(2) m(1) bs(2) by (simp_all add: payload_def)
  show "outside (set (starts KHEAP_START bs)) x"
    unfolding outside_def
  proof
    fix b
    assume "b \<in> set (starts KHEAP_START bs)"
    then consider "b \<in> set (starts KHEAP_START pre)" | "b = c" | "b \<in> set (starts (c + z) post)"
      by (auto simp: bs starts_append)
    then show "\<not> (unat b \<le> unat x \<and> unat x < unat b + 16)"
    proof cases
      case 1
      then show ?thesis using m(3) [of b] x by simp
    next
      case 2
      then show ?thesis using m(1) bs(2) x by simp
    next
      case 3
      then show ?thesis using m(4) [of b] bs(2) x by simp
    qed
  qed
  show "within KHEAP_START (end_of KHEAP_START bs) x"
    using x heap_end_of [OF assms(4)] assms(4)
    by (simp add: within_def word_le_nat_alt word_less_nat_alt unat_KHEAP_START bs(1))
qed

lemma used_blocks_apart:
  assumes "(c, z) \<in> set (used_blocks KHEAP_START bs)" and "(d, y) \<in> set (used_blocks KHEAP_START bs)"
    and "(c, z) \<noteq> (d, y)" and "sizes_ok bs" and "total bs \<le> 16777216"
  shows "c \<noteq> d \<and> (unat c + unat z \<le> unat d \<or> unat d + unat y \<le> unat c)"
proof -
  obtain pre post where bs: "bs = pre @ (z, False) # post" "c = end_of KHEAP_START pre"
    using assms(1) by (rule used_blocksE)
  note m = middle [OF bs(1) assms(4,5)]
  consider "(d, y) \<in> set (used_blocks KHEAP_START pre)" | "(d, y) \<in> set (used_blocks (c + z) post)"
    using assms(2,3) by (auto simp: bs used_blocks_append)
  then show ?thesis
  proof cases
    case 1
    then obtain p q where q: "pre = p @ (y, False) # q" "d = end_of KHEAP_START p"
      by (rule used_blocksE)
    then have "unat d = 3254779904 + total p" using assms(5) by (simp add: heap_end_of bs)
    then have le: "unat d + unat y \<le> unat c" using m(1) bs(2) q(1) by simp
    moreover have "24 \<le> unat y" using assms(4) by (simp add: bs q)
    ultimately show ?thesis by auto
  next
    case 2
    then have "unat c + unat z \<le> unat d" using m(1,4) bs(2) used_blocks_start [OF 2] by simp
    then show ?thesis using m(6) by auto
  qed
qed

lemma total_mod_8: "sizes_ok bs \<Longrightarrow> total bs mod 8 = 0"
  by (induction bs) (auto simp: mod_add_eq [symmetric])

lemma cut_used:
  "\<exists>z'. set (used_blocks a (pre @ cut needed z @ post)) = insert (end_of a pre, z') (set (used_blocks a (pre @ (z, True) # post)))
     \<and> unat needed \<le> unat z' \<and> (end_of a pre, z') \<in> set (used_blocks a (pre @ cut needed z @ post))
     \<and> (\<exists>rest. pre @ cut needed z @ post = pre @ (z', False) # rest)" if "needed \<le> z"
  using that by (auto simp: cut_def used_blocks_append word_le_nat_alt add.assoc)

lemma kmalloc_outcome:
  assumes "heap_inv pd S bs" and "sz \<noteq> 0" and "unat sz \<le> 0xFFFFEFF0"
  obtains (full) S' where "kmalloc pd sz S = Some (S', 0)" "heap_inv pd S' bs"
      "16777216 < total bs + extend_bytes (kmalloc_needed sz) \<or> card (pmm_avail (vm_pmm (kh_vm S'))) \<le> 1"
      "bytes_kept (kh_end S) (set (starts KHEAP_START bs)) (kh_vm S) (kh_vm S')"
    | (got) S' bs0 pre z post where "kmalloc pd sz S = Some (S', end_of KHEAP_START pre + 16)"
      "heap_inv pd S' (pre @ cut (kmalloc_needed sz) z @ post)" "kmalloc_needed sz \<le> z"
      "bs0 = pre @ (z, True) # post" "used_blocks KHEAP_START bs0 = used_blocks KHEAP_START bs"
      "used_total bs0 = used_total bs" "sizes_ok bs0" "total bs0 \<le> 16777216"
      "\<And>c y x. (c, y) \<in> set (used_blocks KHEAP_START bs) \<Longrightarrow> payload c y x \<Longrightarrow> vread8 (kh_vm S') x = vread8 (kh_vm S) x"
proof -
  note D = heap_invD [OF assms(1)] and N = kmalloc_needed [OF assms(3)]
  let ?n = "kmalloc_needed sz"
  have run: "kmalloc pd sz S = kmalloc_loop pd ?n S" using assms(2) by (simp add: kmalloc_def)
  have new: "outside (set (starts KHEAP_START (pre @ cut ?n z @ post))) x"
    if "?n \<le> z" "heap_inv pd S' (pre @ cut ?n z @ post)"
      "used_blocks KHEAP_START (pre @ (z, True) # post) = used_blocks KHEAP_START bs"
      "(c, y) \<in> set (used_blocks KHEAP_START bs)" "payload c y x" for pre z post S' c y x
  proof (rule payload_outside(1))
    show "(c, y) \<in> set (used_blocks KHEAP_START (pre @ cut ?n z @ post))"
      using cut_used [OF that(1), of KHEAP_START pre post] that(3,4) by auto
  qed (use that heap_invD(7,8) [OF that(2)] in simp_all)
  show thesis
  proof (cases rule: kmalloc_loop_cases [OF assms(1) N(1,2,3)])
    case (1 pre z post S')
    have "vread8 (kh_vm S') x = vread8 (kh_vm S) x"
      if "(c, y) \<in> set (used_blocks KHEAP_START bs)" "payload c y x" for c y x
      using 1(6) new [OF 1(2,5) _ that] payload_outside(2) [OF that D(7,8)] D(5) 1(1) by (simp add: kept_def)
    then show thesis using got [of S' pre z post bs] 1 run D(7,8) by (simp add: sizeof_kheap_block_def)
  next
    case (2 S')
    then show thesis using full [of S'] run by simp
  next
    case (3 T pre z post S')
    have le: "unat ?n \<le> extend_bytes ?n" by (rule extend_pages(2) [OF N(3) refl])
    note g = grow_facts [OF D(7) 3(4) le]
    have "vread8 (kh_vm S') x = vread8 (kh_vm S) x"
      if "(c, y) \<in> set (used_blocks KHEAP_START bs)" "payload c y x" for c y x
    proof -
      note out = payload_outside [OF that D(7,8)]
      have "within KHEAP_START (kh_end T) x" using out(2) 3(8) D(5) by (auto simp: within_def)
      then have "vread8 (kh_vm S') x = vread8 (kh_vm T) x"
        using 3(9) new [OF 3(3,6) _ that] g(1) 3(2) by (simp add: kept_def)
      moreover have "vread8 (kh_vm T) x = vread8 (kh_vm S) x"
        using 3(7) out D(5) by (simp add: bytes_kept_def)
      ultimately show ?thesis by simp
    qed
    then show thesis
      using got [of S' pre z post "grow (of_nat (extend_bytes ?n)) bs"] 3 g run
        heap_invD(7,8) [OF 3(10)] by (simp add: sizeof_kheap_block_def)
  qed
qed

lemma payload_write:
  assumes "heap_inv pd S bs" and "(c, z) \<in> set (used_blocks KHEAP_START bs)" and "payload c z x"
  shows "\<exists>s'. vwrite8 (kh_vm S) x v = Some s' \<and> heap_inv pd (S\<lparr>kh_vm := s'\<rparr>) bs \<and> vread8 s' x = Some v
    \<and> (\<forall>y. within KHEAP_START (kh_end S) y \<and> y \<noteq> x \<longrightarrow> vread8 s' y = vread8 (kh_vm S) y)"
proof -
  note D = heap_invD [OF assms(1)] and out = payload_outside [OF assms(2,3) heap_invD(7,8) [OF assms(1)]]
  obtain h where h: "headers pd KHEAP_START (kh_end S) (kh_vm S) h" "chain h 0 KHEAP_START bs 0"
    "\<And>b. h b \<noteq> None \<Longrightarrow> b \<in> set (starts KHEAP_START bs)"
    using D(3,5) by (auto simp: view_def)
  obtain s' where s': "vwrite8 (kh_vm S) x v = Some s'" "region pd KHEAP_START (kh_end S) s'"
    "\<forall>y. within KHEAP_START (kh_end S) y \<longrightarrow> vread8 s' y = (if y = x then Some v else vread8 (kh_vm S) y)"
    using region_write8 [OF D(9)] out(2) D(5) by metis
  have "header_place KHEAP_START (kh_end S) b \<and> block_at s' b = Some k" if b: "h b = Some k" for b k
  proof -
    have place: "header_place KHEAP_START (kh_end S) b" "block_at (kh_vm S) b = Some k"
      using h(1) b by (auto simp: headers_def)
    have "block_at s' b = block_at (kh_vm S) b"
    proof (rule block_at_bytes [OF place(1)])
      fix y :: u32
      assume y: "unat b \<le> unat y" "unat y < unat b + 16"
      then have "y \<noteq> x" using out(1) h(3) [of b] b by (auto simp: outside_def)
      moreover have "within KHEAP_START (kh_end S) y"
        using y place(1) by (simp add: header_place_def within_def word_le_nat_alt word_less_nat_alt)
      ultimately show "vread8 s' y = vread8 (kh_vm S) y" using s'(3) by simp
    qed
    then show ?thesis using place by simp
  qed
  then have "headers pd KHEAP_START (end_of KHEAP_START bs) s' h"
    using h(1) s'(2) D(5) unfolding headers_def by simp
  then have "view pd s' bs" using h(2) D(7,8) by (rule viewI)
  then have "heap_inv pd (S\<lparr>kh_vm := s'\<rparr>) bs" using D(1,2,4-6) by (simp add: heap_inv_def)
  then show ?thesis using s'(1,3) out(2) D(5) by auto
qed

section \<open>An example heap\<close>

text \<open>The heap's variables before \<open>kheap_init\<close> has mapped anything.\<close>

definition empty_heap :: "vm \<Rightarrow> heap" where
  "empty_heap s = \<lparr>kh_vm = s, kh_start = KHEAP_START, kh_end = KHEAP_START, kh_first = 0\<rparr>"

lemma empty_heap_inv:
  assumes "paging_inv pd s" and "pd < KHEAP_START"
  shows "heap_inv pd (empty_heap s) []"
proof -
  have "page_aligned KHEAP_START" by (simp add: page_aligned_unat unat_KHEAP_START)
  then have "headers pd KHEAP_START (end_of KHEAP_START []) s (\<lambda>_. None)"
    using region_empty [OF assms(1)] by (simp add: headers_def)
  then have "view pd s []" by (rule viewI) simp_all
  then show ?thesis using assms(2) by (simp add: heap_inv_def empty_heap_def)
qed

lemma kheap_init_runs:
  assumes "paging_inv pd (kh_vm S)" and "pd < KHEAP_START" and "10 \<le> card (pmm_avail (vm_pmm (kh_vm S)))"
  shows "\<exists>S'. kheap_init pd S = Some S' \<and> heap_inv pd S' [(16384, True)]"
proof -
  have S: "S\<lparr>kh_start := KHEAP_START, kh_end := KHEAP_START, kh_first := 0\<rparr> = empty_heap (kh_vm S)"
    by (simp add: empty_heap_def)
  note inv = empty_heap_inv [OF assms(1,2)]
  have m: "unat PAGING_PAGE_SIZE \<le> 0xFFFFF000" "extend_bytes PAGING_PAGE_SIZE = 16384"
    by (simp_all add: PAGING_PAGE_SIZE_def extend_bytes_def)
  show ?thesis
  proof (cases rule: kheap_extend_cases [OF inv m(1)])
    case (1 S')
    then show ?thesis using assms(3) by (simp add: m(2) empty_heap_def)
  next
    case (2 S')
    then show ?thesis by (auto simp: kheap_init_def S m(2) grow_def)
  qed
qed

lemma example_frames: "10 \<le> card (pmm_avail example_pmm)"
proof -
  let ?F = "(\<lambda>i::u32. (0x121 + i) * 4096) ` {0, 1, 2, 3, 4, 5, 6, 7, 8, 9}"
  have "?F \<subseteq> pmm_avail example_pmm"
    by (auto simp: pmm_avail_def pmm_pool_def page_aligned_def off_of_def addr_to_frame_def PMM_PAGE_SIZE_def
        example_pmm_facts(2) example_is_used)
  then have "card ?F \<le> card (pmm_avail example_pmm)" by (intro card_mono) simp_all
  then show ?thesis by simp
qed

definition example_heap :: heap where
  "example_heap = the (kheap_init 0xC0110000 \<lparr>kh_vm = example_vm, kh_start = 0, kh_end = 0, kh_first = 0\<rparr>)"

lemma example_heap_inv: "heap_inv 0xC0110000 example_heap [(16384, True)]"
proof -
  have "\<exists>S'. kheap_init 0xC0110000 \<lparr>kh_vm = example_vm, kh_start = 0, kh_end = 0, kh_first = 0\<rparr> = Some S'
      \<and> heap_inv 0xC0110000 S' [(16384, True)]"
    by (rule kheap_init_runs) (simp_all add: example_vm example_frames KHEAP_START_def)
  then show ?thesis by (auto simp: example_heap_def)
qed

lemma example_kmalloc:
  assumes "kmalloc_needed sz = n" and "sz \<noteq> 0" and "24 \<le> unat n" and "unat n \<le> 16000" and "unat n mod 8 = 0"
  shows "\<exists>S'. kmalloc 0xC0110000 sz example_heap = Some (S', 0xC2000010)
    \<and> heap_inv 0xC0110000 S' [(n, False), (16384 - n, True)]"
proof -
  have le: "n \<le> 16384" using assms(4) by (simp add: word_le_nat_alt)
  have "[(16384, True)] = [] @ (16384, True) # []" by simp
  from kmalloc_loop_fit [OF example_heap_inv this le _ assms(3,5)] le
  show ?thesis using assms
    by (auto simp: kmalloc_def cut_def sizeof_kheap_block_def KHEAP_START_def)
qed

lemma example_needed: "kmalloc_needed 8 = 24" "kmalloc_needed 64 = 80"
  by (simp_all add: kmalloc_needed_def kheap_align_def sizeof_kheap_block_def KHEAP_ALIGN_def KHEAP_MIN_BLOCK_def)

lemma example_used:
  obtains S where "kmalloc 0xC0110000 64 example_heap = Some (S, 0xC2000010)"
    "heap_inv 0xC0110000 S [(80, False), (16304, True)]"
    "(0xC2000000, 80) \<in> set (used_blocks KHEAP_START [(80, False), (16304, True)])" "payload 0xC2000000 80 0xC2000020"
  using example_kmalloc [OF example_needed(2)] by (auto simp: KHEAP_START_def payload_def)

lemma kmalloc_block:
  assumes "heap_inv pd S bs" and "sz \<noteq> 0" and "unat sz \<le> 0xFFFFEFF0"
  shows "\<exists>S' p bs'. kmalloc pd sz S = Some (S', p) \<and> heap_inv pd S' bs'
    \<and> (if p = 0 then bs' = bs
       else unat p mod 8 = 0 \<and> (\<exists>z. unat sz + 16 \<le> unat z
         \<and> set (used_blocks KHEAP_START bs') = insert (p - 16, z) (set (used_blocks KHEAP_START bs))
         \<and> (\<forall>(c, y) \<in> set (used_blocks KHEAP_START bs).
              unat c + unat y \<le> unat (p - 16) \<or> unat (p - 16) + unat z \<le> unat c)))"
proof (cases rule: kmalloc_outcome [OF assms])
  case (1 S')
  then show ?thesis by auto
next
  case (2 S' bs0 pre z post)
  let ?b = "end_of KHEAP_START pre" and ?bs = "pre @ cut (kmalloc_needed sz) z @ post"
  note D = heap_invD [OF 2(2)] and N = kmalloc_needed [OF assms(3)]
  obtain z' rest where z': "set (used_blocks KHEAP_START ?bs) = insert (?b, z') (set (used_blocks KHEAP_START bs))"
    "unat (kmalloc_needed sz) \<le> unat z'" "(?b, z') \<in> set (used_blocks KHEAP_START ?bs)" "?bs = pre @ (z', False) # rest"
    using cut_used [OF 2(3), of KHEAP_START pre post] 2(4,5) by auto
  note m = middle [OF z'(4) D(7,8)]
  have "total pre \<le> 16777216" "total pre mod 8 = 0"
    using D(7,8) total_mod_8 [of pre] by (simp_all add: z'(4))
  then have p: "unat (?b + 16) = 3254779920 + total pre" "unat (?b + 16) mod 8 = 0"
    using m(1) by (simp_all add: unat_plus_small mod_add_eq [symmetric])
  then have nz: "?b + 16 \<noteq> 0" by auto
  have fresh: "?b \<notin> fst ` set (used_blocks KHEAP_START bs)"
  proof
    assume "?b \<in> fst ` set (used_blocks KHEAP_START bs)"
    then obtain y where "(?b, y) \<in> set (used_blocks KHEAP_START (pre @ (z, True) # post))"
      using 2(4,5) by force
    then have "?b \<in> set (starts KHEAP_START pre) \<or> ?b \<in> set (starts (?b + z) post)"
      using used_blocks_start by (force simp: used_blocks_append)
    then show False
      using middle(1,3,4,6) [OF 2(4,7,8)] by fastforce
  qed
  have "unat c + unat y \<le> unat ?b \<or> unat ?b + unat z' \<le> unat c"
    if "(c, y) \<in> set (used_blocks KHEAP_START bs)" for c y
  proof -
    have "(c, y) \<in> set (used_blocks KHEAP_START ?bs)" "(c, y) \<noteq> (?b, z')" using that z'(1) fresh by force+
    then show ?thesis using used_blocks_apart [OF _ z'(3) _ D(7,8)] by blast
  qed
  moreover have "unat sz + 16 \<le> unat z'" using z'(2) N(4) by simp
  ultimately show ?thesis using 2(1,2) nz p z'(1) by auto
qed

lemma kfree_takes_block:
  assumes "heap_inv pd S bs" and "(c, z) \<in> set (used_blocks KHEAP_START bs)"
  shows "\<exists>S' bs'. kfree (c + 16) S = Some S' \<and> heap_inv pd S' bs'
    \<and> set (used_blocks KHEAP_START bs') = set (used_blocks KHEAP_START bs) - {(c, z)}
    \<and> used_total bs' + unat z = used_total bs \<and> kh_end S' = kh_end S
    \<and> vm_pmm (kh_vm S') = vm_pmm (kh_vm S)
    \<and> (\<forall>(d, y) \<in> set (used_blocks KHEAP_START bs). \<forall>x. payload d y x \<longrightarrow> vread8 (kh_vm S') x = vread8 (kh_vm S) x)"
proof -
  note D = heap_invD [OF assms(1)]
  obtain pre post where bs: "bs = pre @ (z, False) # post" "c = end_of KHEAP_START pre"
    using assms(2) by (rule used_blocksE)
  note R = release_used [OF bs(1)]
  obtain S' where S': "kfree (c + 16) S = Some S'" "heap_inv pd S' (release pre z post)"
    "kept KHEAP_START (kh_end S) (set (starts KHEAP_START bs)) (kh_vm S) (kh_vm S')" "kh_end S' = kh_end S"
    using kfree_spec [OF assms(1) bs(1)] bs(2) by (auto simp: sizeof_kheap_block_def)
  have other: "(c, y) \<notin> set (used_blocks KHEAP_START (pre @ (z, True) # post))" for y
  proof
    assume "(c, y) \<in> set (used_blocks KHEAP_START (pre @ (z, True) # post))"
    then have "c \<in> set (starts KHEAP_START pre) \<or> c \<in> set (starts (c + z) post)"
      using used_blocks_start bs(2) by (force simp: used_blocks_append)
    then show False using middle(1,3,4,6) [OF bs(1) D(7,8)] bs(2) by fastforce
  qed
  then have "set (used_blocks KHEAP_START (release pre z post)) = set (used_blocks KHEAP_START bs) - {(c, z)}"
    unfolding R(1) by (auto simp: bs used_blocks_append)
  moreover have "used_total (release pre z post) + unat z = used_total bs" by (simp add: R(2) bs(1))
  moreover have "vread8 (kh_vm S') x = vread8 (kh_vm S) x"
    if "(d, y) \<in> set (used_blocks KHEAP_START bs)" "payload d y x" for d y x
    using payload_outside [OF that D(7,8)] S'(3) D(5) by (simp add: kept_def)
  moreover have "vm_pmm (kh_vm S') = vm_pmm (kh_vm S)" using S'(3) by (simp add: kept_def)
  ultimately show ?thesis using S'(1,2,4) by blast
qed

lemma kmalloc_takes_first:
  assumes "heap_inv pd S bs" and "sz \<noteq> 0" and "unat sz \<le> 0xFFFFEFF0"
    and "(w, True) \<in> set bs" and "kmalloc_needed sz \<le> w"
  shows "\<exists>S' pre z post. bs = pre @ (z, True) # post \<and> kmalloc_needed sz \<le> z
    \<and> (\<forall>(y, fr) \<in> set pre. fr \<longrightarrow> y < kmalloc_needed sz)
    \<and> kmalloc pd sz S = Some (S', end_of KHEAP_START pre + 16)
    \<and> heap_inv pd S' (pre @ cut (kmalloc_needed sz) z @ post)
    \<and> kh_end S' = kh_end S \<and> vm_pmm (kh_vm S') = vm_pmm (kh_vm S)"
proof -
  note D = heap_invD [OF assms(1)] and N = kmalloc_needed [OF assms(3)]
  have "first_fit (kmalloc_needed sz) KHEAP_START bs \<noteq> 0"
    using first_fit_none [of "kmalloc_needed sz" KHEAP_START bs w] D(8) assms(4,5)
    by (auto simp: unat_KHEAP_START)
  then obtain pre z post where f: "bs = pre @ (z, True) # post" "kmalloc_needed sz \<le> z"
    "first_fit (kmalloc_needed sz) KHEAP_START bs = end_of KHEAP_START pre"
    "\<forall>(y, fr) \<in> set pre. \<not> (fr \<and> kmalloc_needed sz \<le> y)" by (rule first_fitE)
  then obtain S' where S': "kmalloc_loop pd (kmalloc_needed sz) S = Some (S', end_of KHEAP_START pre + sizeof_kheap_block)"
    "heap_inv pd S' (pre @ cut (kmalloc_needed sz) z @ post)" "kh_end S' = kh_end S"
    "kept KHEAP_START (kh_end S) (set (starts KHEAP_START (pre @ cut (kmalloc_needed sz) z @ post))) (kh_vm S) (kh_vm S')"
    using kmalloc_loop_fit [OF assms(1) f(1-3) N(1,2)] by blast
  have "\<forall>(y, fr) \<in> set pre. fr \<longrightarrow> y < kmalloc_needed sz" using f(4) by auto
  then show ?thesis using S' f(1,2) assms(2)
    by (auto simp: kmalloc_def sizeof_kheap_block_def kept_def)
qed

section \<open>Properties\<close>

text \<open>C26: a call of \<open>kmalloc\<close> for 1 to 0xFFFFEFF0 bytes always returns. Either it returns NULL and the list of blocks is
  unchanged, or it returns an 8-byte aligned pointer just after the header of a used block large enough for the
  request, which is apart from every block that was in use; no block in use is lost. Above that size the computation
  in \<open>kmalloc\<close> wraps, with the results of \<open>kmalloc_size_wraps\<close> and \<open>kmalloc_page_fault\<close>.\<close>

theorem kmalloc_returns_block:
  assumes "heap_inv pd S bs" and "sz \<noteq> 0" and "unat sz \<le> 0xFFFFEFF0"
  shows "\<exists>S' p bs'. kmalloc pd sz S = Some (S', p) \<and> heap_inv pd S' bs'
    \<and> (if p = 0 then bs' = bs
       else unat p mod 8 = 0 \<and> (\<exists>z. unat sz + 16 \<le> unat z
         \<and> set (used_blocks KHEAP_START bs') = insert (p - 16, z) (set (used_blocks KHEAP_START bs))
         \<and> (\<forall>(c, y) \<in> set (used_blocks KHEAP_START bs).
              unat c + unat y \<le> unat (p - 16) \<or> unat (p - 16) + unat z \<le> unat c)))"
  using assms by (rule kmalloc_block)

theorem kmalloc_returns_block_witness:
  "\<exists>S' p. kmalloc 0xC0110000 64 example_heap = Some (S', p) \<and> (p = 0 \<or> unat p mod 8 = 0)"
  using kmalloc_returns_block [OF example_heap_inv, of 64] by (auto split: if_splits)

text \<open>C28: allocation is first fit: when some free block is large enough, the lowest such block is
  taken, cut if the rest can hold a block, and no page is mapped.\<close>

theorem kmalloc_first_fit:
  assumes "heap_inv pd S bs" and "sz \<noteq> 0" and "unat sz \<le> 0xFFFFEFF0"
    and "(w, True) \<in> set bs" and "kmalloc_needed sz \<le> w"
  shows "\<exists>S' pre z post. bs = pre @ (z, True) # post \<and> kmalloc_needed sz \<le> z
    \<and> (\<forall>(y, fr) \<in> set pre. fr \<longrightarrow> y < kmalloc_needed sz)
    \<and> kmalloc pd sz S = Some (S', end_of KHEAP_START pre + 16)
    \<and> heap_inv pd S' (pre @ cut (kmalloc_needed sz) z @ post)
    \<and> kh_end S' = kh_end S \<and> vm_pmm (kh_vm S') = vm_pmm (kh_vm S)"
  using assms by (rule kmalloc_takes_first)

theorem kmalloc_first_fit_witness:
  "\<exists>S'. kmalloc 0xC0110000 64 example_heap = Some (S', 0xC2000010)
    \<and> heap_inv 0xC0110000 S' [(80, False), (16304, True)]"
proof -
  have n: "kmalloc_needed 64 = 80"
    by (simp add: kmalloc_needed_def kheap_align_def sizeof_kheap_block_def KHEAP_ALIGN_def KHEAP_MIN_BLOCK_def)
  obtain S' pre z post where r: "[(16384, True)] = pre @ (z, True) # post"
    "kmalloc 0xC0110000 64 example_heap = Some (S', end_of KHEAP_START pre + 16)"
    "heap_inv 0xC0110000 S' (pre @ cut 80 z @ post)"
    using kmalloc_first_fit [OF example_heap_inv, of 64 16384] by (auto simp: n)
  then have "pre = [] \<and> z = 16384 \<and> post = []" by (cases pre) auto
  then show ?thesis using r(2,3) by (simp add: cut_def KHEAP_START_def)
qed

text \<open>\<open>kmalloc\<close> changes no byte of a block in use.\<close>

theorem kmalloc_keeps_contents:
  assumes "heap_inv pd S bs" and "unat sz \<le> 0xFFFFEFF0"
    and "(c, z) \<in> set (used_blocks KHEAP_START bs)" and "payload c z x"
    and "kmalloc pd sz S = Some (S', p)"
  shows "vread8 (kh_vm S') x = vread8 (kh_vm S) x"
proof (cases "sz = 0")
  case True
  then show ?thesis using assms(5) by (simp add: kmalloc_def)
next
  case False
  note D = heap_invD [OF assms(1)]
  show ?thesis
  proof (cases rule: kmalloc_outcome [OF assms(1) False assms(2)])
    case (1 T)
    then show ?thesis using assms(5) payload_outside [OF assms(3,4) D(7,8)] D(5) by (simp add: bytes_kept_def)
  next
    case (2 T bs0 pre z post)
    then show ?thesis using assms(3-5) by simp
  qed
qed

theorem kmalloc_keeps_contents_witness:
  "\<exists>S S' p. kmalloc 0xC0110000 100 S = Some (S', p)
    \<and> vread8 (kh_vm S') 0xC2000020 = vread8 (kh_vm S) 0xC2000020"
proof -
  obtain S where S: "heap_inv 0xC0110000 S [(80, False), (16304, True)]"
    "(0xC2000000, 80) \<in> set (used_blocks KHEAP_START [(80, False), (16304, True)])" "payload 0xC2000000 80 0xC2000020"
    using example_used by blast
  have b: "unat (100::u32) \<le> 0xFFFFEFF0" by simp
  obtain S' p where r: "kmalloc 0xC0110000 100 S = Some (S', p)"
    by (rule kmalloc_outcome [OF S(1) _ b]) auto
  from kmalloc_keeps_contents [OF S(1) b S(2,3) r] r show ?thesis by blast
qed

text \<open>C27: \<open>kfree\<close> of the pointer to a used block always returns, takes exactly that block out of the
  used ones, keeps the tiling with no two free neighbours, maps and unmaps nothing, and changes no
  byte of the other blocks.\<close>

theorem kfree_releases:
  assumes "heap_inv pd S bs" and "(c, z) \<in> set (used_blocks KHEAP_START bs)"
  shows "\<exists>S' bs'. kfree (c + 16) S = Some S' \<and> heap_inv pd S' bs'
    \<and> set (used_blocks KHEAP_START bs') = set (used_blocks KHEAP_START bs) - {(c, z)}
    \<and> used_total bs' + unat z = used_total bs \<and> kh_end S' = kh_end S
    \<and> vm_pmm (kh_vm S') = vm_pmm (kh_vm S)
    \<and> (\<forall>(d, y) \<in> set (used_blocks KHEAP_START bs). \<forall>x. payload d y x \<longrightarrow> vread8 (kh_vm S') x = vread8 (kh_vm S) x)"
  using assms by (rule kfree_takes_block)

theorem kfree_releases_witness:
  "\<exists>S S' bs'. kmalloc 0xC0110000 64 example_heap = Some (S, 0xC2000010)
    \<and> kfree 0xC2000010 S = Some S' \<and> heap_inv 0xC0110000 S' bs' \<and> used_total bs' = 0"
proof -
  obtain S where S: "kmalloc 0xC0110000 64 example_heap = Some (S, 0xC2000010)"
    "heap_inv 0xC0110000 S [(80, False), (16304, True)]"
    "(0xC2000000, 80) \<in> set (used_blocks KHEAP_START [(80, False), (16304, True)])" "payload 0xC2000000 80 0xC2000020"
    by (rule example_used)
  from kfree_releases [OF S(2,3)] S(1) show ?thesis by auto
qed

text \<open>The byte counters are the sums over the list: all blocks for the mapped size, the used ones
  for the used size.\<close>

theorem kheap_bytes_count:
  assumes "heap_inv pd S bs"
  shows "kheap_used_bytes S = Some (of_nat (used_total bs)) \<and> kheap_total_bytes S = of_nat (total bs)
    \<and> used_total bs \<le> total bs \<and> total bs \<le> 16777216"
proof -
  note D = heap_invD [OF assms]
  obtain h where h: "headers pd KHEAP_START (kh_end S) (kh_vm S) h" "chain h 0 KHEAP_START bs 0"
    using D(3,5) by (auto simp: view_def)
  have "kheap_used_bytes S = Some (of_nat (used_total bs))"
    using kheap_used_chain [OF h, of 0] D(6,8) by (simp add: kheap_used_bytes_def unat_KHEAP_START)
  moreover have "kheap_total_bytes S = of_nat (total bs)"
  proof (rule u32_eqI)
    have "KHEAP_START \<le> kh_end S" using D(10) by (simp add: word_le_nat_alt unat_KHEAP_START)
    then show "unat (kheap_total_bytes S) = unat (of_nat (total bs) :: u32)"
      using D(1,8,10) unat_minus_le by (simp add: kheap_total_bytes_def unat_KHEAP_START unat_of_nat_small)
  qed
  ultimately show ?thesis using used_total_le D(8) by simp
qed

theorem kheap_bytes_count_witness:
  "kheap_used_bytes example_heap = Some 0 \<and> kheap_total_bytes example_heap = 16384"
  using kheap_bytes_count [OF example_heap_inv] by simp

text \<open>A block that was just allocated can be freed again, which restores the set of used blocks
  and the used byte count.\<close>

theorem kmalloc_kfree_roundtrip:
  assumes "heap_inv pd S bs" and "sz \<noteq> 0" and "unat sz \<le> 0xFFFFEFF0"
    and "kmalloc pd sz S = Some (S', p)" and "p \<noteq> 0"
  shows "\<exists>S'' bs''. kfree p S' = Some S'' \<and> heap_inv pd S'' bs''
    \<and> set (used_blocks KHEAP_START bs'') = set (used_blocks KHEAP_START bs)
    \<and> kheap_used_bytes S'' = kheap_used_bytes S"
proof (cases rule: kmalloc_outcome [OF assms(1-3)])
  case (1 T)
  then show ?thesis using assms(4,5) by simp
next
  case (2 T bs0 pre z post)
  let ?bs = "pre @ cut (kmalloc_needed sz) z @ post"
  obtain z' rest where z': "?bs = pre @ (z', False) # rest" "pre @ (z', True) # rest = pre @ (z', True) # rest"
    using cut_used [OF 2(3), of KHEAP_START pre post] by blast
  note D = heap_invD [OF 2(2)] and R = release_used [OF z'(1)]
  have S': "S' = T" "p = end_of KHEAP_START pre + sizeof_kheap_block"
    using 2(1) assms(4) by (simp_all add: sizeof_kheap_block_def)
  obtain U where U: "kfree p T = Some U" "heap_inv pd U (release pre z' rest)"
    using kfree_spec [OF 2(2) z'(1) S'(2)] by blast
  have same: "set (used_blocks KHEAP_START (pre @ (z', True) # rest)) = set (used_blocks KHEAP_START bs0)"
    "used_total (pre @ (z', True) # rest) = used_total bs0"
    using z'(1) 2(4) by (auto simp: cut_def used_blocks_append add.assoc split: if_splits)
  obtain h where h: "headers pd KHEAP_START (kh_end U) (kh_vm U) h" "chain h 0 KHEAP_START (release pre z' rest) 0"
    using heap_invD(3,5) [OF U(2)] by (auto simp: view_def)
  have "kheap_used_bytes U = Some (of_nat (used_total (release pre z' rest)))"
    using kheap_used_chain [OF h, of 0] heap_invD(6,8) [OF U(2)] by (simp add: kheap_used_bytes_def unat_KHEAP_START)
  moreover have "used_total (release pre z' rest) = used_total bs" using R(2) same(2) 2(6) by simp
  moreover obtain k where k: "headers pd KHEAP_START (kh_end S) (kh_vm S) k" "chain k 0 KHEAP_START bs 0"
    using heap_invD(3,5) [OF assms(1)] by (auto simp: view_def)
  have "kheap_used_bytes S = Some (of_nat (used_total bs))"
    using kheap_used_chain [OF k, of 0] heap_invD(6,8) [OF assms(1)] by (simp add: kheap_used_bytes_def unat_KHEAP_START)
  moreover have "set (used_blocks KHEAP_START (release pre z' rest)) = set (used_blocks KHEAP_START bs)"
    using R(1) same(1) 2(5) by simp
  ultimately show ?thesis using U S'(1) by metis
qed

theorem kmalloc_kfree_roundtrip_witness:
  "\<exists>S S'. kmalloc 0xC0110000 64 example_heap = Some (S, 0xC2000010)
    \<and> kfree 0xC2000010 S = Some S' \<and> kheap_used_bytes S' = kheap_used_bytes example_heap"
proof -
  obtain S where S: "kmalloc 0xC0110000 64 example_heap = Some (S, 0xC2000010)"
    using example_kmalloc [OF example_needed(2)] by auto
  from kmalloc_kfree_roundtrip [OF example_heap_inv _ _ this] S show ?thesis by auto
qed

text \<open>A store into the payload of a used block never faults, reads back, and leaves the heap's
  headers and every other byte of the heap intact.\<close>

theorem payload_write_safe:
  assumes "heap_inv pd S bs" and "(c, z) \<in> set (used_blocks KHEAP_START bs)" and "payload c z x"
  shows "\<exists>s'. vwrite8 (kh_vm S) x v = Some s' \<and> heap_inv pd (S\<lparr>kh_vm := s'\<rparr>) bs \<and> vread8 s' x = Some v
    \<and> (\<forall>y. within KHEAP_START (kh_end S) y \<and> y \<noteq> x \<longrightarrow> vread8 s' y = vread8 (kh_vm S) y)"
  using assms by (rule payload_write)

theorem payload_write_safe_witness:
  "\<exists>S s'. heap_inv 0xC0110000 S [(80, False), (16304, True)] \<and> vwrite8 (kh_vm S) 0xC2000020 0x41 = Some s'
    \<and> vread8 s' 0xC2000020 = Some 0x41"
proof -
  obtain S where S: "kmalloc 0xC0110000 64 example_heap = Some (S, 0xC2000010)"
    "heap_inv 0xC0110000 S [(80, False), (16304, True)]"
    "(0xC2000000, 80) \<in> set (used_blocks KHEAP_START [(80, False), (16304, True)])" "payload 0xC2000000 80 0xC2000020"
    by (rule example_used)
  from payload_write_safe [OF S(2-4), of "0x41"] S(2) show ?thesis by blast
qed

text \<open>\<open>kheap_init\<close> on consistent page tables with ten free frames leaves one free block of four
  pages.\<close>

theorem kheap_init_block:
  assumes "paging_inv pd (kh_vm S)" and "pd < KHEAP_START" and "10 \<le> card (pmm_avail (vm_pmm (kh_vm S)))"
  shows "\<exists>S'. kheap_init pd S = Some S' \<and> heap_inv pd S' [(16384, True)]"
  using assms by (rule kheap_init_runs)

theorem kheap_init_block_witness:
  "\<exists>S'. kheap_init 0xC0110000 \<lparr>kh_vm = example_vm, kh_start = 0, kh_end = 0, kh_first = 0\<rparr> = Some S'
    \<and> heap_inv 0xC0110000 S' [(16384, True)]"
  by (rule kheap_init_block) (simp_all add: example_vm example_frames KHEAP_START_def)

text \<open>A request near the top of the address range wraps in \<open>size + sizeof(kheap_block_t)\<close>: it is
  served like a request for 8 bytes.\<close>

theorem kmalloc_size_wraps:
  assumes "0xFFFFFFE9 \<le> sz"
  shows "kmalloc pd sz S = kmalloc pd 8 S"
proof -
  have "4294967273 \<le> unat sz" using assms by (simp add: word_le_nat_alt)
  then obtain k where "unat sz + 23 = 4294967296 + k" "k \<le> 22"
    using u32_less_bound [of sz] that [of "unat sz - 4294967273"] by linarith
  then have "(unat sz + 23) mod 4294967296 \<le> 22" by simp
  then have "unat (sz + 23) \<le> 22" by (simp add: unat_plus_u32)
  then have "(sz + 23) AND NOT (KHEAP_ALIGN - 1) < 24"
    using word_and_le2 [of "sz + 23" "NOT (KHEAP_ALIGN - 1)"] by (simp add: word_le_nat_alt word_less_nat_alt)
  moreover have "kheap_align (sz + sizeof_kheap_block) = (sz + 23) AND NOT (KHEAP_ALIGN - 1)"
    by (simp add: kheap_align_def sizeof_kheap_block_def KHEAP_ALIGN_def add.commute)
  ultimately have "kmalloc_needed sz = 24"
    by (simp add: kmalloc_needed_def KHEAP_MIN_BLOCK_def sizeof_kheap_block_def KHEAP_ALIGN_def)
  moreover have "kmalloc_needed 8 = 24"
    by (simp add: kmalloc_needed_def kheap_align_def sizeof_kheap_block_def KHEAP_ALIGN_def KHEAP_MIN_BLOCK_def)
  moreover have "sz \<noteq> 0" using assms by auto
  ultimately show ?thesis by (simp add: kmalloc_def)
qed

theorem kmalloc_size_wraps_witness:
  "\<exists>S'. kmalloc 0xC0110000 0xFFFFFFF0 example_heap = Some (S', 0xC2000010)
    \<and> heap_inv 0xC0110000 S' [(24, False), (16360, True)]"
proof -
  have "kmalloc 0xC0110000 0xFFFFFFF0 example_heap = kmalloc 0xC0110000 8 example_heap"
    by (rule kmalloc_size_wraps) simp
  then show ?thesis using example_kmalloc [OF example_needed(1)] by simp
qed

text \<open>A request for which no block fits, within the heap's limit, that fails for lack of memory has
  consumed all but at most one of the machine's free frames, and \<open>kheap_end\<close> has not moved: the frames
  mapped before the failure are lost.\<close>

theorem kmalloc_failure_leaks:
  assumes "heap_inv pd S bs" and "sz \<noteq> 0" and "unat sz \<le> 0xFFFFEFF0"
    and "total bs + extend_bytes (kmalloc_needed sz) \<le> 16777216"
    and "kmalloc pd sz S = Some (S', 0)"
  shows "card (pmm_avail (vm_pmm (kh_vm S'))) \<le> 1 \<and> kh_end S' = kh_end S \<and> heap_inv pd S' bs"
proof (cases rule: kmalloc_outcome [OF assms(1-3)])
  case (1 T)
  then show ?thesis using assms(4,5) heap_invD(5) [OF assms(1)] heap_invD(5) [OF 1(2)] by auto
next
  case (2 T bs0 pre z post)
  have "unat (end_of KHEAP_START pre + 16) \<noteq> 0"
  proof -
    have t: "total pre \<le> 16777216" using heap_invD(8) [OF 2(2)] by simp
    then show ?thesis by (simp add: heap_end_of unat_plus_small)
  qed
  then show ?thesis using 2(1) assms(5) by simp
qed

theorem kmalloc_failure_leaks_witness:
  "\<exists>S'. kmalloc 0xC0110000 64 (empty_heap (example_vm\<lparr>vm_pmm := zero_pmm\<rparr>)) = Some (S', 0)
    \<and> card (pmm_avail (vm_pmm (kh_vm S'))) \<le> 1"
proof -
  let ?S = "empty_heap (example_vm\<lparr>vm_pmm := zero_pmm\<rparr>)"
  have none: "pmm_avail zero_pmm = {}" by (simp add: pmm_avail_def pmm_pool_def zero_pmm_def)
  have "paging_inv 0xC0110000 (example_vm\<lparr>vm_pmm := zero_pmm\<rparr>)"
    by (rule paging_inv_pmm [OF example_vm(1) zero_pmm_inv]) (simp add: none)
  then have inv: "heap_inv 0xC0110000 ?S []" by (rule empty_heap_inv) (simp add: KHEAP_START_def)
  have b: "unat (64::u32) \<le> 0xFFFFEFF0" by simp
  have ext: "total [] + extend_bytes (kmalloc_needed 64) \<le> 16777216"
    by (simp add: example_needed extend_bytes_def)
  have "pmm_alloc_frame zero_pmm = (zero_pmm, 0)" by (rule pmm.alloc_empty [OF zero_pmm_inv none])
  then have pages: "kheap_map_pages 0xC0110000 KHEAP_START (Suc n) KHEAP_START (example_vm\<lparr>vm_pmm := zero_pmm\<rparr>)
      = Some (example_vm\<lparr>vm_pmm := zero_pmm\<rparr>, None)" for n
    by (simp add: empty_heap_def PAGING_PAGE_SIZE_def KHEAP_MAX_BYTES_def)
  obtain n where n: "n = (3::nat)" by blast
  have "unat ((KHEAP_GROW_PAGES * PAGING_PAGE_SIZE + PAGING_PAGE_SIZE - 1) div PAGING_PAGE_SIZE) = Suc n"
    by (simp add: n KHEAP_GROW_PAGES_def PAGING_PAGE_SIZE_def unat_word_div)
  moreover have "(80::u32) < KHEAP_GROW_PAGES * PAGING_PAGE_SIZE"
    by (simp add: KHEAP_GROW_PAGES_def PAGING_PAGE_SIZE_def)
  moreover have "\<not> KHEAP_START - KHEAP_START \<ge> KHEAP_MAX_BYTES" by (simp add: KHEAP_MAX_BYTES_def)
  ultimately have "kheap_extend 0xC0110000 80 ?S = Some (?S, False)"
    by (simp add: kheap_extend_def empty_heap_def Let_def pages
        del: kheap_map_pages.simps)
  then have r: "kmalloc 0xC0110000 64 ?S = Some (?S, 0)"
    by (subst kmalloc_def, subst kmalloc_loop.simps)
      (simp add: example_needed kheap_find.simps empty_heap_def)
  from kmalloc_failure_leaks [OF inv _ b ext r] r show ?thesis by auto
qed

text \<open>For the sizes below the wrap the page count of \<open>kheap_extend\<close> wraps to zero: no page is
  mapped and the header of the new block is written to the unmapped page at the end of the heap,
  a page fault.\<close>

theorem kmalloc_page_fault:
  assumes "heap_inv pd S bs" and "0xFFFFEFF1 \<le> sz" and "sz < 0xFFFFFFE9"
    and "total bs < 16777216" and "walk (kh_vm S) True (kh_end S) = None"
  shows "kmalloc pd sz S = None"
proof -
  note D = heap_invD [OF assms(1)]
  have sz: "4294963185 \<le> unat sz" "unat sz < 4294967273"
    using assms(2,3) by (simp_all add: word_le_nat_alt word_less_nat_alt)
  have u: "unat (sz + sizeof_kheap_block) = unat sz + 16"
    using sz by (simp add: sizeof_kheap_block_def unat_plus_small)
  let ?n = "kmalloc_needed sz"
  obtain k where k: "k = unat sz + 23" by blast
  have "k mod 8 < 8" by simp
  then have q: "k < k div 8 * 8 + 8" "k div 8 * 8 \<le> k" using div_mult_mod_eq [of k 8] by linarith+
  have "536870401 \<le> k div 8" using sz k by (simp add: less_eq_div_iff_mult_less_eq)
  then have q3: "4294963208 \<le> k div 8 * 8" by simp
  have a: "unat (kheap_align (sz + sizeof_kheap_block)) = k div 8 * 8"
    using unat_kheap_align [of "sz + sizeof_kheap_block"] u sz by (simp add: k)
  then have n: "unat ?n = k div 8 * 8"
    using q3 by (simp add: kmalloc_needed_def Let_def word_less_nat_alt KHEAP_MIN_BLOCK_def
      sizeof_kheap_block_def KHEAP_ALIGN_def)
  have fit: "first_fit ?n KHEAP_START bs = 0"
  proof (rule ccontr)
    assume "first_fit ?n KHEAP_START bs \<noteq> 0"
    then obtain pre z post where "bs = pre @ (z, True) # post" "?n \<le> z" by (rule first_fitE)
    then show False using D(8) n q3 by (simp add: word_le_nat_alt)
  qed
  obtain h where h: "headers pd KHEAP_START (kh_end S) (kh_vm S) h" "chain h 0 KHEAP_START bs 0"
    using D(3,5) by (auto simp: view_def)
  have find: "kheap_find (kh_vm S) (kh_first S) ?n = Some 0"
    using kheap_find_chain [OF h, of ?n] D(6,8) fit by (simp add: unat_KHEAP_START)
  have mapped: "unat (kh_end S - kh_start S) = total bs"
    using unat_minus_le [of KHEAP_START "kh_end S"] D(1,10) by (simp add: word_le_nat_alt unat_KHEAP_START)
  then have room: "\<not> kh_end S - kh_start S \<ge> KHEAP_MAX_BYTES"
    using assms(4) by (simp add: word_le_nat_alt KHEAP_MAX_BYTES_def)
  have big: "\<not> ?n < KHEAP_GROW_PAGES * PAGING_PAGE_SIZE"
    using n q3 by (simp add: word_less_nat_alt KHEAP_GROW_PAGES_def PAGING_PAGE_SIZE_def)
  obtain j where j: "k div 8 * 8 + 4095 = 4294967296 + j" "j < 4096"
    using q q3 sz k that [of "k div 8 * 8 + 4095 - 4294967296"] by linarith
  have "unat (?n + 4095) = j" unfolding unat_plus_u32 using n j by simp
  moreover have "?n + PAGING_PAGE_SIZE - 1 = ?n + 4095" by (simp add: PAGING_PAGE_SIZE_def)
  ultimately have "unat ((?n + PAGING_PAGE_SIZE - 1) div PAGING_PAGE_SIZE) = j div 4096"
    by (simp only: unat_word_div) (simp add: PAGING_PAGE_SIZE_def)
  then have pages: "unat ((?n + PAGING_PAGE_SIZE - 1) div PAGING_PAGE_SIZE) = 0" using j(2) by simp
  have "page_aligned (kh_end S)" using D(9) by (rule regionD)
  then have "word_aligned (kh_end S)" by (auto simp: word_aligned_def elim!: page_alignedE)
  then have "set_size (kh_vm S) (kh_end S) (kh_end S - kh_end S) = None"
    using assms(5) by (simp add: set_size_def vwrite32_walk)
  then have "kheap_extend pd ?n S = None"
    using room big pages by (simp add: kheap_extend_def Let_def)
  then have "kmalloc_loop pd ?n S = None"
    using find by (subst kmalloc_loop.simps) simp
  moreover have "sz \<noteq> 0" using sz by auto
  ultimately show ?thesis by (simp add: kmalloc_def)
qed

theorem kmalloc_page_fault_witness:
  "kmalloc 0xC0110000 0xFFFFF000 (empty_heap example_vm) = None"
proof -
  have inv: "heap_inv 0xC0110000 (empty_heap example_vm) []"
    by (rule empty_heap_inv [OF example_vm(1)]) (simp add: KHEAP_START_def)
  have "walk (kh_vm (empty_heap example_vm)) True (kh_end (empty_heap example_vm)) = None"
    by (simp add: empty_heap_def KHEAP_START_def example_vm(3) pde_index_def)
  with kmalloc_page_fault [OF inv, of "0xFFFFF000"] show ?thesis by simp
qed

end
