(* ===== verification/Io.thy ===== *)
theory Io
  imports Prelude
begin

text \<open>
  Port input and output (\<open>io/io.h\<close>). The bytes the kernel writes to I/O ports are a log in program
  order. What an \<open>in\<close> instruction returns is up to the device: a function \<open>inp\<close> of the log so far
  and the port, a parameter of every operation that reads one.
\<close>

type_synonym port_log = "(u16 \<times> u8) list"

type_synonym port_input = "port_log \<Rightarrow> u16 \<Rightarrow> u8"

definition inb :: "port_input \<Rightarrow> u16 \<Rightarrow> port_log \<Rightarrow> u8" where
  "inb inp port log = inp log port"

definition outb :: "u16 \<Rightarrow> u8 \<Rightarrow> port_log \<Rightarrow> port_log" where
  "outb port val log = log @ [(port, val)]"

definition io_wait :: "port_log \<Rightarrow> port_log" where
  "io_wait log = outb 0x80 0 log"

text \<open>The bytes written to one port.\<close>

definition port_bytes :: "u16 \<Rightarrow> port_log \<Rightarrow> u8 list" where
  "port_bytes port log = map snd (filter (\<lambda>w. fst w = port) log)"

lemma port_bytes_outb [simp]:
  "port_bytes p (outb q v log) = port_bytes p log @ (if p = q then [v] else [])"
  by (simp add: port_bytes_def outb_def)

lemma port_bytes_wait [simp]: "p \<noteq> 0x80 \<Longrightarrow> port_bytes p (io_wait log) = port_bytes p log"
  by (simp add: io_wait_def)

end
