(* ===== verification/Tty.thy ===== *)
theory Tty
  imports Io
begin

text \<open>
  The VGA text terminal (\<open>arch/i386/tty.c\<close>, \<open>vga.h\<close>). The screen is the page mapped at
  \<open>VGA_MEMORY\<close>: 2048 cells of 16 bits, of which 2000 are visible; a store beyond the page faults.
  The lemmas show that on a list of 25 rows of 80 cells the terminal is the obvious one: it prints at
  the cursor, wraps, and scrolls by dropping the first row.
\<close>

section \<open>Colours\<close>

datatype vga_color =
  VGA_COLOR_BLACK | VGA_COLOR_BLUE | VGA_COLOR_GREEN | VGA_COLOR_CYAN | VGA_COLOR_RED
  | VGA_COLOR_MAGENTA | VGA_COLOR_BROWN | VGA_COLOR_LIGHT_GREY | VGA_COLOR_DARK_GREY
  | VGA_COLOR_LIGHT_BLUE | VGA_COLOR_LIGHT_GREEN | VGA_COLOR_LIGHT_CYAN | VGA_COLOR_LIGHT_RED
  | VGA_COLOR_LIGHT_MAGENTA | VGA_COLOR_LIGHT_BROWN | VGA_COLOR_WHITE

fun color_value :: "vga_color \<Rightarrow> u32" where
  "color_value VGA_COLOR_BLACK = 0"
| "color_value VGA_COLOR_BLUE = 1"
| "color_value VGA_COLOR_GREEN = 2"
| "color_value VGA_COLOR_CYAN = 3"
| "color_value VGA_COLOR_RED = 4"
| "color_value VGA_COLOR_MAGENTA = 5"
| "color_value VGA_COLOR_BROWN = 6"
| "color_value VGA_COLOR_LIGHT_GREY = 7"
| "color_value VGA_COLOR_DARK_GREY = 8"
| "color_value VGA_COLOR_LIGHT_BLUE = 9"
| "color_value VGA_COLOR_LIGHT_GREEN = 10"
| "color_value VGA_COLOR_LIGHT_CYAN = 11"
| "color_value VGA_COLOR_LIGHT_RED = 12"
| "color_value VGA_COLOR_LIGHT_MAGENTA = 13"
| "color_value VGA_COLOR_LIGHT_BROWN = 14"
| "color_value VGA_COLOR_WHITE = 15"

lemma color_value_inj: "color_value c = color_value d \<longleftrightarrow> c = d"
  by (cases c; cases d) simp_all

text \<open>The C enumeration is ordered by its values.\<close>

instantiation vga_color :: linorder
begin

definition less_eq_vga_color :: "vga_color \<Rightarrow> vga_color \<Rightarrow> bool" where
  "less_eq_vga_color c d \<longleftrightarrow> color_value c \<le> color_value d"

definition less_vga_color :: "vga_color \<Rightarrow> vga_color \<Rightarrow> bool" where
  "less_vga_color c d \<longleftrightarrow> color_value c < color_value d"

instance
  by standard (auto simp: less_eq_vga_color_def less_vga_color_def color_value_inj [symmetric])

end

definition vga_entry_color :: "vga_color \<Rightarrow> vga_color \<Rightarrow> u8" where
  "vga_entry_color fg bg = ucast (color_value fg OR push_bit 4 (color_value bg))"

definition vga_entry :: "u8 \<Rightarrow> u8 \<Rightarrow> u16" where
  "vga_entry uc color = ucast uc OR push_bit 8 (ucast color)"

section \<open>State and operations\<close>

definition VGA_WIDTH :: u32 where "VGA_WIDTH = 80"
definition VGA_HEIGHT :: u32 where "VGA_HEIGHT = 25"
definition TAB_WIDTH :: u32 where "TAB_WIDTH = 8"
definition VGA_CRTC_INDEX :: u16 where "VGA_CRTC_INDEX = 0x3D4"
definition VGA_CRTC_DATA :: u16 where "VGA_CRTC_DATA = 0x3D5"

record tty =
  terminal_row :: u32
  terminal_column :: u32
  terminal_color :: u8
  terminal_buffer :: "u32 \<Rightarrow> u16"
  tty_ports :: port_log

text \<open>\<open>terminal_buffer[index] = e\<close>: the page at \<open>VGA_MEMORY\<close> holds 2048 cells, the next is not mapped.\<close>

definition cell_store :: "u32 \<Rightarrow> u16 \<Rightarrow> tty \<Rightarrow> tty option" where
  "cell_store index e t =
     (if index < 2048 then Some (t\<lparr>terminal_buffer := (terminal_buffer t)(index := e)\<rparr>) else None)"

definition terminal_sync_cursor :: "tty \<Rightarrow> tty" where
  "terminal_sync_cursor t =
     (let pos = ucast (terminal_row t * VGA_WIDTH + terminal_column t) :: u16;
          log = tty_ports t;
          log = outb VGA_CRTC_INDEX 0x0F log;
          log = outb VGA_CRTC_DATA (ucast (pos AND 0xFF)) log;
          log = outb VGA_CRTC_INDEX 0x0E log;
          log = outb VGA_CRTC_DATA (ucast (drop_bit 8 pos AND 0xFF)) log
      in t\<lparr>tty_ports := log\<rparr>)"

definition terminal_enable_hw_cursor :: "port_input \<Rightarrow> tty \<Rightarrow> tty" where
  "terminal_enable_hw_cursor inp t =
     (let log = outb VGA_CRTC_INDEX 0x0A (tty_ports t);
          log = outb VGA_CRTC_DATA ((inb inp VGA_CRTC_DATA log AND 0xC0) OR 0) log;
          log = outb VGA_CRTC_INDEX 0x0B log;
          log = outb VGA_CRTC_DATA ((inb inp VGA_CRTC_DATA log AND 0xE0) OR 15) log
      in t\<lparr>tty_ports := log\<rparr>)"

text \<open>The copying loops and the clearing loop of \<open>terminal_scroll\<close>; all indices are below 2000.\<close>

definition scroll_cell :: "u32 \<Rightarrow> u32 \<Rightarrow> (u32 \<Rightarrow> u16) \<Rightarrow> (u32 \<Rightarrow> u16)" where
  "scroll_cell y x b =
     (let dst = (y - 1) * VGA_WIDTH + x; src = y * VGA_WIDTH + x in b(dst := b src))"

definition scroll_row :: "u32 \<Rightarrow> (u32 \<Rightarrow> u16) \<Rightarrow> (u32 \<Rightarrow> u16)" where
  "scroll_row y b = fold (\<lambda>x. scroll_cell y (of_nat x)) [0..<80] b"

definition clear_row :: "u32 \<Rightarrow> u16 \<Rightarrow> (u32 \<Rightarrow> u16) \<Rightarrow> (u32 \<Rightarrow> u16)" where
  "clear_row y e b = fold (\<lambda>x b. b(y * VGA_WIDTH + of_nat x := e)) [0..<80] b"

definition terminal_scroll :: "tty \<Rightarrow> tty" where
  "terminal_scroll t =
     (let b = fold (\<lambda>y. scroll_row (of_nat y)) [1..<25] (terminal_buffer t);
          b = clear_row (VGA_HEIGHT - 1) (vga_entry 0x20 (terminal_color t)) b;
          t = t\<lparr>terminal_buffer := b\<rparr>
      in if terminal_row t > 0 then t\<lparr>terminal_row := terminal_row t - 1\<rparr> else t)"

definition terminal_newline :: "tty \<Rightarrow> tty" where
  "terminal_newline t =
     (let t = t\<lparr>terminal_column := 0, terminal_row := terminal_row t + 1\<rparr>
      in if terminal_row t \<ge> VGA_HEIGHT then terminal_scroll t else t)"

definition terminal_initialize :: "port_input \<Rightarrow> tty \<Rightarrow> tty" where
  "terminal_initialize inp t =
     (let color = vga_entry_color VGA_COLOR_LIGHT_GREY VGA_COLOR_BLACK;
          t = t\<lparr>terminal_row := 0, terminal_column := 0, terminal_color := color,
            terminal_buffer := fold (\<lambda>y. clear_row (of_nat y) (vga_entry 0x20 color)) [0..<25] (terminal_buffer t)\<rparr>
      in terminal_sync_cursor (terminal_enable_hw_cursor inp t))"

definition terminal_setcolor :: "u8 \<Rightarrow> tty \<Rightarrow> tty" where
  "terminal_setcolor color t = t\<lparr>terminal_color := color\<rparr>"

definition terminal_putentryat :: "u8 \<Rightarrow> u8 \<Rightarrow> u32 \<Rightarrow> u32 \<Rightarrow> tty \<Rightarrow> tty option" where
  "terminal_putentryat c color x y t = cell_store (y * VGA_WIDTH + x) (vga_entry c color) t"

text \<open>The loop of the tab character.\<close>

partial_function (option) terminal_tab :: "tty \<Rightarrow> tty option" where
  "terminal_tab t =
     (if terminal_column t < VGA_WIDTH \<and> terminal_column t mod TAB_WIDTH \<noteq> 0 then do {
        t \<leftarrow> terminal_putentryat 0x20 (terminal_color t) (terminal_column t) (terminal_row t) t;
        terminal_tab (t\<lparr>terminal_column := terminal_column t + 1\<rparr>) }
      else Some t)"

definition terminal_putchar :: "u8 \<Rightarrow> tty \<Rightarrow> tty option" where
  "terminal_putchar uc t =
     (if uc = 10 then Some (terminal_sync_cursor (terminal_newline t))
      else if uc = 13 then Some (terminal_sync_cursor (t\<lparr>terminal_column := 0\<rparr>))
      else if uc = 8 then do {
        t \<leftarrow> (if terminal_column t > 0 then
                let t = t\<lparr>terminal_column := terminal_column t - 1\<rparr>
                in terminal_putentryat 0x20 (terminal_color t) (terminal_column t) (terminal_row t) t
              else Some t);
        Some (terminal_sync_cursor t) }
      else if uc = 9 then do { t \<leftarrow> terminal_tab t; Some (terminal_sync_cursor t) }
      else if uc = 27 then Some t
      else do {
        t \<leftarrow> terminal_putentryat uc (terminal_color t) (terminal_column t) (terminal_row t) t;
        let t = t\<lparr>terminal_column := terminal_column t + 1\<rparr>;
        let t = (if terminal_column t = VGA_WIDTH then terminal_newline t else t);
        Some (terminal_sync_cursor t) })"

fun terminal_write :: "u8 list \<Rightarrow> tty \<Rightarrow> tty option" where
  "terminal_write [] t = Some t"
| "terminal_write (c # cs) t = do { t \<leftarrow> terminal_putchar c t; terminal_write cs t }"

text \<open>The C string is the list of its characters without the terminating zero.\<close>

definition terminal_writestring :: "u8 list \<Rightarrow> tty \<Rightarrow> tty option" where
  "terminal_writestring data t = terminal_write (takeWhile (\<lambda>c. c \<noteq> 0) data) t"

section \<open>The screen as rows of cells\<close>

record screen =
  rows :: "u16 list list"
  cur_row :: nat
  cur_col :: nat
  attr :: u8

definition row_of :: "(u32 \<Rightarrow> u16) \<Rightarrow> nat \<Rightarrow> u16 list" where
  "row_of b y = map (\<lambda>x. b (of_nat (80 * y + x))) [0..<80]"

definition rows_of :: "(u32 \<Rightarrow> u16) \<Rightarrow> u16 list list" where
  "rows_of b = map (row_of b) [0..<25]"

definition screen_of :: "tty \<Rightarrow> screen" where
  "screen_of t = \<lparr>rows = rows_of (terminal_buffer t), cur_row = unat (terminal_row t),
     cur_col = unat (terminal_column t), attr = terminal_color t\<rparr>"

definition on_screen :: "tty \<Rightarrow> bool" where
  "on_screen t \<longleftrightarrow> unat (terminal_row t) < 25 \<and> unat (terminal_column t) < 80"

text \<open>What each character does to the rows: the contract of the terminal.\<close>

definition screen_put :: "u8 \<Rightarrow> screen \<Rightarrow> screen" where
  "screen_put c s = s\<lparr>rows := (rows s)[cur_row s := (rows s ! cur_row s)[cur_col s := vga_entry c (attr s)]]\<rparr>"

definition screen_line :: "screen \<Rightarrow> screen" where
  "screen_line s =
     (if cur_row s = 24
      then s\<lparr>cur_col := 0, rows := tl (rows s) @ [replicate 80 (vga_entry 0x20 (attr s))]\<rparr>
      else s\<lparr>cur_col := 0, cur_row := cur_row s + 1\<rparr>)"

definition screen_pad :: "screen \<Rightarrow> screen" where
  "screen_pad s = (screen_put 0x20 s)\<lparr>cur_col := cur_col s + 1\<rparr>"

definition to_tab_stop :: "nat \<Rightarrow> nat" where
  "to_tab_stop x = (8 - x mod 8) mod 8"

definition screen_putchar :: "u8 \<Rightarrow> screen \<Rightarrow> screen" where
  "screen_putchar c s =
     (if c = 10 then screen_line s
      else if c = 13 then s\<lparr>cur_col := 0\<rparr>
      else if c = 8 then (if cur_col s > 0 then screen_put 0x20 (s\<lparr>cur_col := cur_col s - 1\<rparr>) else s)
      else if c = 9 then (screen_pad ^^ to_tab_stop (cur_col s)) s
      else if c = 27 then s
      else if cur_col s = 79 then screen_line (screen_put c s)
      else (screen_put c s)\<lparr>cur_col := cur_col s + 1\<rparr>)"

text \<open>No tab is printed in the last seven columns.\<close>

fun tabs_fit :: "u8 list \<Rightarrow> screen \<Rightarrow> bool" where
  "tabs_fit [] s = True"
| "tabs_fit (c # cs) s \<longleftrightarrow> (c = 9 \<longrightarrow> cur_col s \<le> 72) \<and> tabs_fit cs (screen_putchar c s)"

lemma no_tabs_fit: "9 \<notin> set cs \<Longrightarrow> tabs_fit cs s"
  by (induction cs arbitrary: s) auto

lemma screen_positions [simp]:
  "cur_row (screen_put c s) = cur_row s" "cur_col (screen_put c s) = cur_col s"
  "cur_row ((screen_pad ^^ n) s) = cur_row s" "cur_col ((screen_pad ^^ n) s) = cur_col s + n"
  "cur_row (screen_line s) = (if cur_row s = 24 then 24 else cur_row s + 1)" "cur_col (screen_line s) = 0"
  by (simp_all add: screen_put_def screen_line_def)
    (induction n; simp add: screen_pad_def screen_put_def)+

lemma cursor_putchar:
  "cur_col (screen_putchar c s) =
     (if c = 10 \<or> c = 13 then 0 else if c = 8 then cur_col s - 1
      else if c = 9 then cur_col s + to_tab_stop (cur_col s) else if c = 27 then cur_col s
      else if cur_col s = 79 then 0 else cur_col s + 1)"
  "cur_row (screen_putchar c s) =
     (if (c = 10 \<or> c \<notin> {8, 9, 13, 27} \<and> cur_col s = 79) \<and> cur_row s \<noteq> 24 then cur_row s + 1 else cur_row s)"
  by (simp_all add: screen_putchar_def)

section \<open>Cells\<close>

lemma cell_index: "terminal_row t * VGA_WIDTH + terminal_column t
    = of_nat (80 * unat (terminal_row t) + unat (terminal_column t))"
  by (simp add: VGA_WIDTH_def)

lemma cell_inj:
  assumes "x < 80" and "x' < 80" and "y < 25" and "y' < (25::nat)"
  shows "(of_nat (80 * y + x) :: u32) = of_nat (80 * y' + x') \<longleftrightarrow> y = y' \<and> x = x'"
proof -
  have "(of_nat (80 * y + x) :: u32) = of_nat (80 * y' + x') \<longleftrightarrow> 80 * y + x = 80 * y' + x'"
    using assms by (intro of_nat_u32_inj) linarith+
  also have "\<dots> \<longleftrightarrow> y = y' \<and> x = x'"
  proof
    assume eq: "80 * y + x = 80 * y' + x'"
    have "(80 * y + x) div 80 = y" "(80 * y' + x') div 80 = y'" using assms by simp_all
    with eq show "y = y' \<and> x = x'" by simp
  qed simp
  finally show ?thesis .
qed

lemma length_rows [simp]: "length (rows_of b) = 25" "length (row_of b y) = 80"
  by (simp_all add: rows_of_def row_of_def)

lemma nth_rows [simp]: "y < 25 \<Longrightarrow> rows_of b ! y = row_of b y"
  "x < 80 \<Longrightarrow> row_of b y ! x = b (of_nat (80 * y + x))"
  by (simp_all add: rows_of_def row_of_def)

lemma rows_eqI:
  assumes "length r = 25" and "\<And>y. y < 25 \<Longrightarrow> length (r ! y) = 80"
    and "\<And>y x. y < 25 \<Longrightarrow> x < 80 \<Longrightarrow> b (of_nat (80 * y + x)) = r ! y ! x"
  shows "rows_of b = r"
proof (rule nth_equalityI)
  fix y
  assume "y < length (rows_of b)"
  then have y: "y < 25" by simp
  have "row_of b y = r ! y"
    by (rule nth_equalityI) (use assms(2,3) y in simp_all)
  then show "rows_of b ! y = r ! y" using y by simp
qed (simp add: assms(1))

lemma rows_of_upd:
  assumes "y < 25" and "x < 80"
  shows "rows_of (b(of_nat (80 * y + x) := e)) = (rows_of b)[y := (rows_of b ! y)[x := e]]"
proof (rule rows_eqI)
  fix y' x' :: nat
  assume "y' < 25" "x' < 80"
  then show "(b(of_nat (80 * y + x) := e)) (of_nat (80 * y' + x')) = (rows_of b)[y := (rows_of b ! y)[x := e]] ! y' ! x'"
    using assms cell_inj [of x' x y' y] by (cases "y' = y"; cases "x' = x") (simp_all del: of_nat_add of_nat_mult)
next
  fix y' :: nat
  assume "y' < 25"
  then show "length ((rows_of b)[y := (rows_of b ! y)[x := e]] ! y') = 80"
    using assms by (cases "y' = y") simp_all
qed simp

text \<open>A store at a cell of the screen.\<close>

lemma put_cell:
  assumes "unat (terminal_row t) < 25" and "unat (terminal_column t) < 80"
  shows "\<exists>t'. terminal_putentryat c (terminal_color t) (terminal_column t) (terminal_row t) t = Some t'
    \<and> screen_of t' = screen_put c (screen_of t) \<and> terminal_row t' = terminal_row t
    \<and> terminal_column t' = terminal_column t \<and> tty_ports t' = tty_ports t"
proof -
  let ?n = "80 * unat (terminal_row t) + unat (terminal_column t)"
  have "?n < 2048" using assms by simp
  then have "(of_nat ?n :: u32) < 2048" by (simp add: word_less_nat_alt unat_of_nat_small del: of_nat_add of_nat_mult)
  then show ?thesis
    using assms by (simp add: terminal_putentryat_def cell_index cell_store_def screen_of_def screen_put_def rows_of_upd
        del: of_nat_add of_nat_mult)
qed

section \<open>Scrolling\<close>

lemma scroll_row_upto:
  assumes "n \<le> 80" and "1 \<le> y" and "y < 25" and "i < 2000"
  shows "fold (\<lambda>x. scroll_cell (of_nat y) (of_nat x)) [0..<n] b (of_nat i)
    = (if 80 * (y - 1) \<le> i \<and> i < 80 * (y - 1) + n then b (of_nat (i + 80)) else b (of_nat i))"
  using assms
proof (induction n arbitrary: i)
  case 0
  then show ?case by auto
next
  case (Suc n)
  let ?b = "fold (\<lambda>x. scroll_cell (of_nat y) (of_nat x)) [0..<n] b"
  have dst: "(of_nat y - 1) * VGA_WIDTH + of_nat n = (of_nat (80 * (y - 1) + n) :: u32)"
    using Suc.prems by (simp add: VGA_WIDTH_def of_nat_diff)
  have src: "of_nat y * VGA_WIDTH + of_nat n = (of_nat (80 * y + n) :: u32)"
    by (simp add: VGA_WIDTH_def)
  have step: "fold (\<lambda>x. scroll_cell (of_nat y) (of_nat x)) [0..<Suc n] b
      = ?b(of_nat (80 * (y - 1) + n) := ?b (of_nat (80 * y + n)))"
    by (simp add: scroll_cell_def Let_def dst src del: of_nat_add of_nat_mult)
  have "80 * y + n = 80 * (y - 1) + n + 80" using Suc.prems by simp
  moreover have "?b (of_nat (80 * y + n)) = b (of_nat (80 * y + n))"
    using Suc.IH [of "80 * y + n"] Suc.prems by auto
  moreover have "(of_nat i :: u32) = of_nat (80 * (y - 1) + n) \<longleftrightarrow> i = 80 * (y - 1) + n"
    using Suc.prems by (intro of_nat_u32_inj) linarith+
  ultimately show ?case
    using Suc.IH [of i] Suc.prems unfolding step
    by (auto simp: ac_simps simp del: of_nat_add of_nat_mult upt_Suc)
qed

lemma scroll_row_cell:
  "1 \<le> y \<Longrightarrow> y < 25 \<Longrightarrow> i < 2000 \<Longrightarrow> scroll_row (of_nat y) b (of_nat i)
    = (if 80 * (y - 1) \<le> i \<and> i < 80 * (y - 1) + 80 then b (of_nat (i + 80)) else b (of_nat i))"
  unfolding scroll_row_def by (rule scroll_row_upto) simp_all

lemma scroll_rows_upto:
  assumes "k \<le> 24" and "i < 2000"
  shows "fold (\<lambda>y. scroll_row (of_nat y)) [1..<Suc k] b (of_nat i)
    = (if i < 80 * k then b (of_nat (i + 80)) else b (of_nat i))"
  using assms
proof (induction k arbitrary: i)
  case 0
  then show ?case by auto
next
  case (Suc k)
  let ?b = "fold (\<lambda>y. scroll_row (of_nat y)) [1..<Suc k] b"
  have "fold (\<lambda>y. scroll_row (of_nat y)) [1..<Suc (Suc k)] b (of_nat i) = scroll_row (of_nat (Suc k)) ?b (of_nat i)"
    by (simp del: of_nat_Suc)
  also have "\<dots> = (if 80 * k \<le> i \<and> i < 80 * k + 80 then ?b (of_nat (i + 80)) else ?b (of_nat i))"
    using scroll_row_cell [of "Suc k" i ?b] Suc.prems by (simp del: of_nat_Suc upt_Suc of_nat_add)
  also have "\<dots> = (if i < 80 * Suc k then b (of_nat (i + 80)) else b (of_nat i))"
    using Suc.IH [of i] Suc.IH [of "i + 80"] Suc.prems by (auto simp del: of_nat_add upt_Suc)
  finally show ?case .
qed

lemma clear_row_upto:
  assumes "n \<le> 80" and "y < 25" and "i < 2000"
  shows "fold (\<lambda>x b. b(of_nat y * VGA_WIDTH + of_nat x := e)) [0..<n] b (of_nat i)
    = (if 80 * y \<le> i \<and> i < 80 * y + n then e else b (of_nat i))"
  using assms
proof (induction n)
  case 0
  then show ?case by auto
next
  case (Suc n)
  have "of_nat y * VGA_WIDTH + of_nat n = (of_nat (80 * y + n) :: u32)" by (simp add: VGA_WIDTH_def)
  moreover have "(of_nat i :: u32) = of_nat (80 * y + n) \<longleftrightarrow> i = 80 * y + n"
    using Suc.prems by (intro of_nat_u32_inj) linarith+
  ultimately show ?case using Suc by (auto simp del: of_nat_add of_nat_mult)
qed

lemma clear_row_cell:
  "y < 25 \<Longrightarrow> i < 2000 \<Longrightarrow> clear_row (of_nat y) e b (of_nat i)
    = (if 80 * y \<le> i \<and> i < 80 * y + 80 then e else b (of_nat i))"
  unfolding clear_row_def by (rule clear_row_upto) simp_all

lemma scroll_buffer:
  assumes "i < 2000"
  shows "terminal_buffer (terminal_scroll t) (of_nat i)
    = (if i < 1920 then terminal_buffer t (of_nat (i + 80)) else vga_entry 0x20 (terminal_color t))"
proof -
  have h: "VGA_HEIGHT - 1 = of_nat 24" by (simp add: VGA_HEIGHT_def)
  have "(25::nat) = Suc 24" by simp
  then show ?thesis
    using assms clear_row_cell [of 24 i] scroll_rows_upto [of 24 i "terminal_buffer t"]
    unfolding terminal_scroll_def Let_def h by auto
qed

lemma scroll_rows:
  "rows_of (terminal_buffer (terminal_scroll t))
    = tl (rows_of (terminal_buffer t)) @ [replicate 80 (vga_entry 0x20 (terminal_color t))]"
proof (rule rows_eqI)
  fix y x :: nat
  assume y: "y < 25" and x: "x < 80"
  then have "80 * y + x < 2000" by simp
  note b = scroll_buffer [OF this, of t]
  show "terminal_buffer (terminal_scroll t) (of_nat (80 * y + x))
    = (tl (rows_of (terminal_buffer t)) @ [replicate 80 (vga_entry 0x20 (terminal_color t))]) ! y ! x"
  proof (cases "y = 24")
    case True
    then show ?thesis using b x by (simp add: nth_append del: of_nat_add of_nat_mult)
  next
    case False
    then have lt: "80 * y + x < 1920" and eq: "80 * y + x + 80 = 80 * Suc y + x" using x y by simp_all
    have "terminal_buffer (terminal_scroll t) (of_nat (80 * y + x)) = terminal_buffer t (of_nat (80 * Suc y + x))"
      using b lt by (simp only: eq if_True)
    then show ?thesis using x y False
      by (simp add: nth_append nth_tl del: of_nat_add of_nat_mult of_nat_Suc mult_Suc_right)
  qed
next
  fix y :: nat
  assume "y < 25"
  then show "length ((tl (rows_of (terminal_buffer t)) @ [replicate 80 (vga_entry 0x20 (terminal_color t))]) ! y) = 80"
    by (simp add: nth_append nth_tl)
qed simp

lemma newline_screen:
  assumes "unat (terminal_row t) < 25"
  shows "screen_of (terminal_newline t) = screen_line (screen_of t) \<and> on_screen (terminal_newline t)
    \<and> tty_ports (terminal_newline t) = tty_ports t"
proof -
  have r: "unat (terminal_row t + 1) = Suc (unat (terminal_row t))"
    using assms by (simp add: unat_plus_small)
  let ?t = "t\<lparr>terminal_column := 0, terminal_row := terminal_row t + 1\<rparr>"
  show ?thesis
  proof (cases "unat (terminal_row t) = 24")
    case True
    then have "terminal_row t = 24" by (simp add: u32_eqI)
    then show ?thesis using scroll_rows [of ?t]
      by (simp add: terminal_newline_def VGA_HEIGHT_def screen_of_def screen_line_def on_screen_def)
        (simp add: terminal_scroll_def)
  next
    case False
    then have "\<not> terminal_row t + 1 \<ge> VGA_HEIGHT" using assms r by (simp add: VGA_HEIGHT_def word_le_nat_alt)
    then show ?thesis using False assms r
      by (simp add: terminal_newline_def screen_of_def screen_line_def on_screen_def)
  qed
qed

section \<open>The tab loop\<close>

lemma put_cell_refines:
  assumes "on_screen t"
  shows "\<exists>t'. terminal_putentryat c (terminal_color t) (terminal_column t) (terminal_row t) t = Some t'
    \<and> screen_of t' = screen_put c (screen_of t) \<and> terminal_row t' = terminal_row t
    \<and> terminal_column t' = terminal_column t \<and> tty_ports t' = tty_ports t"
  using assms put_cell unfolding on_screen_def by blast

lemma next_column:
  "unat (terminal_column t) < 80 \<Longrightarrow> unat (terminal_column t + 1) = Suc (unat (terminal_column t))"
  by (simp add: unat_plus_small)

lemma tab_condition:
  "terminal_column t < VGA_WIDTH \<and> terminal_column t mod TAB_WIDTH \<noteq> 0
    \<longleftrightarrow> unat (terminal_column t) < 80 \<and> unat (terminal_column t) mod 8 \<noteq> 0"
proof -
  have "unat (terminal_column t mod TAB_WIDTH) = unat (terminal_column t) mod 8"
    by (simp add: TAB_WIDTH_def unats)
  then have "terminal_column t mod TAB_WIDTH \<noteq> 0 \<longleftrightarrow> unat (terminal_column t) mod 8 \<noteq> 0"
    by (metis unat_eq_zero)
  then show ?thesis by (simp add: VGA_WIDTH_def word_less_nat_alt)
qed

lemma to_tab_stop_Suc: "x mod 8 \<noteq> 0 \<Longrightarrow> to_tab_stop x = Suc (to_tab_stop (Suc x))"
  unfolding to_tab_stop_def by (auto simp: mod_Suc)

lemma tab_refines:
  assumes "unat (terminal_row t) < 25" and "unat (terminal_column t) \<le> 80"
  shows "\<exists>t'. terminal_tab t = Some t'
    \<and> screen_of t' = (screen_pad ^^ to_tab_stop (unat (terminal_column t))) (screen_of t)
    \<and> unat (terminal_row t') < 25 \<and> unat (terminal_column t') = unat (terminal_column t) + to_tab_stop (unat (terminal_column t))
    \<and> tty_ports t' = tty_ports t"
  using assms
proof (induction "to_tab_stop (unat (terminal_column t))" arbitrary: t)
  case 0
  then have "unat (terminal_column t) mod 8 = 0" by (metis Zero_not_Suc to_tab_stop_Suc)
  then have "terminal_tab t = Some t" using tab_condition [of t] by (subst terminal_tab.simps) auto
  then show ?case using 0 by simp
next
  case (Suc n)
  have m: "unat (terminal_column t) mod 8 \<noteq> 0"
    by (rule notI) (use Suc.hyps(2) in \<open>simp add: to_tab_stop_def\<close>)
  then have "unat (terminal_column t) \<noteq> 80" by auto
  then have c: "unat (terminal_column t) < 80" using Suc.prems by simp
  obtain t1 where t1: "terminal_putentryat 0x20 (terminal_color t) (terminal_column t) (terminal_row t) t = Some t1"
    "screen_of t1 = screen_put 0x20 (screen_of t)" "terminal_row t1 = terminal_row t"
    "terminal_column t1 = terminal_column t" "tty_ports t1 = tty_ports t"
    using put_cell [OF Suc.prems(1) c] by blast
  let ?t = "t1\<lparr>terminal_column := terminal_column t1 + 1\<rparr>"
  have col: "unat (terminal_column ?t) = Suc (unat (terminal_column t))" using next_column c t1(4) by simp
  have pad: "screen_of ?t = screen_pad (screen_of t)"
    using t1(2,4) col by (simp add: screen_of_def screen_pad_def screen_put_def)
  have n: "n = to_tab_stop (unat (terminal_column ?t))" "to_tab_stop (unat (terminal_column t)) = Suc n"
    using Suc.hyps(2) to_tab_stop_Suc [OF m] col by simp_all
  have run: "terminal_tab t = terminal_tab ?t"
    using tab_condition [of t] m c t1(1) by (subst terminal_tab.simps) simp
  obtain t' where t': "terminal_tab ?t = Some t'" "screen_of t' = (screen_pad ^^ n) (screen_of ?t)"
    "unat (terminal_row t') < 25" "unat (terminal_column t') = unat (terminal_column ?t) + n"
    "tty_ports t' = tty_ports ?t"
    using Suc.hyps(1) [OF n(1)] n(1) Suc.prems(1) t1(3) col c by auto
  have "screen_of t' = (screen_pad ^^ Suc n) (screen_of t)"
    unfolding t'(2) pad by (simp add: funpow_swap1)
  then show ?case using run t' n(2) col t1(5) by simp
qed

section \<open>Every character\<close>

definition cursor_writes :: "u32 \<Rightarrow> u32 \<Rightarrow> port_log" where
  "cursor_writes y x =
     [(0x3D4, 0x0F), (0x3D5, of_nat (80 * unat y + unat x)), (0x3D4, 0x0E),
      (0x3D5, of_nat ((80 * unat y + unat x) div 256))]"

lemma low_byte: "ucast ((w::u16) AND 0xFF) = (of_nat (unat w) :: u8)"
proof -
  have "w AND 0xFF = take_bit 8 w" by (simp only: take_bit_eq_mask) (simp add: mask_eq_exp_minus_1)
  then have "ucast (w AND 0xFF) = (ucast w :: u8)" by (simp add: bit_eq_iff bit_simps)
  then show ?thesis by (simp add: unsigned_def)
qed

lemma sync_cursor:
  assumes "unat (terminal_row t) < 25" and "unat (terminal_column t) \<le> 80"
  shows "terminal_sync_cursor t
    = t\<lparr>tty_ports := tty_ports t @ cursor_writes (terminal_row t) (terminal_column t)\<rparr>"
proof -
  let ?n = "80 * unat (terminal_row t) + unat (terminal_column t)"
  have n: "?n < 65536" using assms by simp
  have pos: "ucast (terminal_row t * VGA_WIDTH + terminal_column t) = (of_nat ?n :: u16)"
    unfolding cell_index by (rule bit_word_eqI) (simp add: bit_simps del: of_nat_add of_nat_mult)
  have "unat (of_nat ?n :: u16) = ?n" using n by (simp only: unat_of_nat) simp
  then have lo: "ucast ((of_nat ?n :: u16) AND 0xFF) = (of_nat ?n :: u8)"
    and hi: "ucast (drop_bit 8 (of_nat ?n :: u16) AND 0xFF) = (of_nat (?n div 256) :: u8)"
    using low_byte [of "of_nat ?n"] low_byte [of "drop_bit 8 (of_nat ?n)"]
    by (simp_all add: drop_bit_eq_div unat_div del: of_nat_add of_nat_mult)
  show ?thesis
    unfolding terminal_sync_cursor_def Let_def pos lo hi outb_def cursor_writes_def
      VGA_CRTC_INDEX_def VGA_CRTC_DATA_def by simp
qed

lemma synced:
  assumes "on_screen u"
  shows "on_screen (terminal_sync_cursor u) \<and> screen_of (terminal_sync_cursor u) = screen_of u
    \<and> tty_ports (terminal_sync_cursor u) = tty_ports u
        @ cursor_writes (terminal_row (terminal_sync_cursor u)) (terminal_column (terminal_sync_cursor u))"
  using assms sync_cursor [of u] by (simp add: on_screen_def screen_of_def)

text \<open>One character: the store never faults, the rows follow the contract, the hardware cursor follows.\<close>

definition char_done :: "u8 \<Rightarrow> tty \<Rightarrow> tty \<Rightarrow> bool" where
  "char_done c t t' \<longleftrightarrow> on_screen t' \<and> screen_of t' = screen_putchar c (screen_of t)
     \<and> tty_ports t' = tty_ports t @ (if c = 27 then [] else cursor_writes (terminal_row t') (terminal_column t'))"

lemma char_doneI:
  assumes "on_screen u" and "screen_of u = screen_putchar c (screen_of t)" and "tty_ports u = tty_ports t"
    and "c \<noteq> 27"
  shows "char_done c t (terminal_sync_cursor u)"
  using synced [OF assms(1)] assms(2-) by (simp add: char_done_def)

lemma putchar_control:
  assumes "on_screen t" and "c \<in> {10, 13, 27}"
  shows "\<exists>t'. terminal_putchar c t = Some t' \<and> char_done c t t'"
proof -
  consider "c = 10" | "c = 13" | "c = 27" using assms(2) by blast
  then show ?thesis
  proof cases
    case 1
    have "char_done c t (terminal_sync_cursor (terminal_newline t))"
      using newline_screen [of t] assms(1) 1 by (intro char_doneI) (simp_all add: on_screen_def screen_putchar_def)
    then show ?thesis using 1 by (simp add: terminal_putchar_def)
  next
    case 2
    have "char_done c t (terminal_sync_cursor (t\<lparr>terminal_column := 0\<rparr>))"
      using assms(1) 2 by (intro char_doneI) (simp_all add: on_screen_def screen_putchar_def screen_of_def)
    then show ?thesis using 2 by (simp add: terminal_putchar_def)
  next
    case 3
    then show ?thesis using assms(1) by (simp add: terminal_putchar_def char_done_def screen_putchar_def)
  qed
qed

lemma putchar_backspace:
  assumes "on_screen t"
  shows "\<exists>t'. terminal_putchar 8 t = Some t' \<and> char_done 8 t t'"
proof (cases "terminal_column t > 0")
  case True
  let ?u = "t\<lparr>terminal_column := terminal_column t - 1\<rparr>"
  have col: "unat (terminal_column t - 1) = unat (terminal_column t) - 1"
    using True by (simp add: unat_sub word_le_nat_alt word_less_nat_alt)
  have u: "on_screen ?u" using assms col unfolding on_screen_def by auto
  obtain v where v: "terminal_putentryat 0x20 (terminal_color ?u) (terminal_column ?u) (terminal_row ?u) ?u = Some v"
    "screen_of v = screen_put 0x20 (screen_of ?u)" "terminal_row v = terminal_row ?u"
    "terminal_column v = terminal_column ?u" "tty_ports v = tty_ports ?u"
    using put_cell_refines [OF u] by blast
  have "screen_of v = screen_putchar 8 (screen_of t)"
    unfolding v(2) using True col by (simp add: screen_putchar_def screen_of_def word_less_nat_alt)
  moreover have "on_screen v" using u v(3,4) by (simp add: on_screen_def)
  ultimately have "char_done 8 t (terminal_sync_cursor v)" using v(5) by (intro char_doneI) simp_all
  then show ?thesis using v(1) True by (simp add: terminal_putchar_def Let_def)
next
  case False
  have "char_done 8 t (terminal_sync_cursor t)"
    using assms False by (intro char_doneI) (simp_all add: screen_putchar_def screen_of_def word_less_nat_alt)
  then show ?thesis using False by (simp add: terminal_putchar_def)
qed

lemma putchar_tab:
  assumes "on_screen t" and "unat (terminal_column t) \<le> 72"
  shows "\<exists>t'. terminal_putchar 9 t = Some t' \<and> char_done 9 t t'"
proof -
  obtain u where u: "terminal_tab t = Some u"
    "screen_of u = (screen_pad ^^ to_tab_stop (unat (terminal_column t))) (screen_of t)"
    "unat (terminal_row u) < 25" "unat (terminal_column u) = unat (terminal_column t) + to_tab_stop (unat (terminal_column t))"
    "tty_ports u = tty_ports t"
    using tab_refines [of t] assms by (auto simp: on_screen_def)
  have "unat (terminal_column u) < 80"
  proof (cases "unat (terminal_column t) = 72")
    case True
    then show ?thesis using u(4) by (simp add: to_tab_stop_def)
  next
    case False
    have "to_tab_stop (unat (terminal_column t)) < 8" by (simp add: to_tab_stop_def)
    then show ?thesis using u(4) assms(2) False by linarith
  qed
  then have "char_done 9 t (terminal_sync_cursor u)"
    using u by (intro char_doneI) (simp_all add: on_screen_def screen_putchar_def screen_of_def)
  then show ?thesis using u(1) by (simp add: terminal_putchar_def)
qed

lemma putchar_print:
  assumes "on_screen t" and "c \<notin> {8, 9, 10, 13, 27}"
  shows "\<exists>t'. terminal_putchar c t = Some t' \<and> char_done c t t'"
proof -
  obtain v where v: "terminal_putentryat c (terminal_color t) (terminal_column t) (terminal_row t) t = Some v"
    "screen_of v = screen_put c (screen_of t)" "terminal_row v = terminal_row t"
    "terminal_column v = terminal_column t" "tty_ports v = tty_ports t"
    using put_cell_refines [OF assms(1)] by blast
  let ?u = "v\<lparr>terminal_column := terminal_column v + 1\<rparr>"
  have col: "unat (terminal_column v + 1) = Suc (unat (terminal_column t))"
    using next_column [of t] assms(1) v(4) by (simp add: on_screen_def)
  have full: "terminal_column v + 1 = VGA_WIDTH \<longleftrightarrow> unat (terminal_column t) = 79"
  proof -
    have "terminal_column v + 1 = VGA_WIDTH \<longleftrightarrow> unat (terminal_column v + 1) = unat VGA_WIDTH"
      by (auto intro: u32_eqI)
    then show ?thesis unfolding col by (simp add: VGA_WIDTH_def)
  qed
  let ?w = "if terminal_column ?u = VGA_WIDTH then terminal_newline ?u else ?u"
  have "char_done c t (terminal_sync_cursor ?w)"
  proof (cases "unat (terminal_column t) = 79")
    case True
    have "screen_of (terminal_newline ?u) = screen_line (screen_of ?u)" "on_screen (terminal_newline ?u)"
      "tty_ports (terminal_newline ?u) = tty_ports t"
      using newline_screen [of ?u] assms(1) v(3,5) by (simp_all add: on_screen_def)
    moreover have "screen_line (screen_of ?u) = screen_line (screen_of v)"
      by (simp add: screen_line_def screen_of_def)
    ultimately show ?thesis using True full v(2) assms(2)
      by (intro char_doneI) (simp_all add: screen_putchar_def screen_of_def)
  next
    case False
    have "screen_of ?u = (screen_put c (screen_of t))\<lparr>cur_col := cur_col (screen_of t) + 1\<rparr>"
      using v(2) col by (simp add: screen_of_def screen_put_def)
    then show ?thesis using False full v(3,5) assms col
      by (intro char_doneI) (simp_all add: screen_putchar_def on_screen_def, simp_all add: screen_of_def)
  qed
  then show ?thesis using assms(2) v(1) by (simp add: terminal_putchar_def Let_def)
qed

lemma putchar_done:
  assumes "on_screen t" and "c = 9 \<Longrightarrow> unat (terminal_column t) \<le> 72"
  shows "\<exists>t'. terminal_putchar c t = Some t' \<and> char_done c t t'"
proof -
  consider "c \<in> {10, 13, 27}" | "c = 8" | "c = 9" | "c \<notin> {8, 9, 10, 13, 27}" by blast
  then show ?thesis
  proof cases
    case 1
    then show ?thesis by (rule putchar_control [OF assms(1)])
  next
    case 2
    then show ?thesis using putchar_backspace [OF assms(1)] by simp
  next
    case 3
    then show ?thesis using putchar_tab [OF assms(1)] assms(2) by simp
  next
    case 4
    then show ?thesis by (rule putchar_print [OF assms(1)])
  qed
qed

lemma write_done:
  "on_screen t \<Longrightarrow> tabs_fit cs (screen_of t) \<Longrightarrow>
    \<exists>t'. terminal_write cs t = Some t' \<and> on_screen t' \<and> screen_of t' = fold screen_putchar cs (screen_of t)"
proof (induction cs arbitrary: t)
  case (Cons c cs)
  have "c = 9 \<Longrightarrow> unat (terminal_column t) \<le> 72" using Cons.prems(2) by (simp add: screen_of_def)
  then obtain u where u: "terminal_putchar c t = Some u" "char_done c t u"
    using putchar_done [OF Cons.prems(1)] by blast
  have "on_screen u" "screen_of u = screen_putchar c (screen_of t)" using u(2) by (simp_all add: char_done_def)
  with Cons.IH [of u] Cons.prems(2) u(1) show ?case by simp
qed simp

text \<open>The screen after the initialisation.\<close>

definition blank_screen :: screen where
  "blank_screen = \<lparr>rows = replicate 25 (replicate 80 0x0720), cur_row = 0, cur_col = 0, attr = 0x07\<rparr>"

lemma clear_rows_upto:
  assumes "k \<le> 25" and "i < 2000"
  shows "fold (\<lambda>y. clear_row (of_nat y) e) [0..<k] b (of_nat i) = (if i < 80 * k then e else b (of_nat i))"
  using assms
proof (induction k)
  case (Suc k)
  then show ?case using clear_row_cell [of k i e "fold (\<lambda>y. clear_row (of_nat y) e) [0..<k] b"]
    by (auto simp del: of_nat_add of_nat_mult)
qed simp

lemma initialize_screen: "screen_of (terminal_initialize inp t) = blank_screen \<and> on_screen (terminal_initialize inp t)"
proof -
  let ?c = "vga_entry_color VGA_COLOR_LIGHT_GREY VGA_COLOR_BLACK"
  let ?b = "fold (\<lambda>y. clear_row (of_nat y) (vga_entry 0x20 ?c)) [0..<25] (terminal_buffer t)"
  have c: "?c = 0x07" "vga_entry 0x20 0x07 = 0x0720"
    by (simp_all add: vga_entry_color_def vga_entry_def)
  have "rows_of ?b = replicate 25 (replicate 80 (vga_entry 0x20 ?c))"
    by (rule rows_eqI) (simp_all add: clear_rows_upto del: of_nat_add of_nat_mult)
  then show ?thesis
    by (simp add: terminal_initialize_def terminal_sync_cursor_def terminal_enable_hw_cursor_def
        screen_of_def on_screen_def blank_screen_def c Let_def)
qed

section \<open>Columns past the right edge\<close>

lemma putchar_past:
  assumes "terminal_row t = 24" and "80 \<le> unat (terminal_column t)" and "unat (terminal_column t) < 128"
    and "c \<notin> {8, 9, 10, 13, 27}"
  shows "\<exists>t'. terminal_putchar c t = Some t' \<and> terminal_row t' = 24
    \<and> unat (terminal_column t') = Suc (unat (terminal_column t))"
proof -
  have col: "unat (terminal_column t + 1) = Suc (unat (terminal_column t))"
    using assms(3) by (simp add: unat_plus_small)
  have "terminal_column t + 1 \<noteq> VGA_WIDTH"
  proof
    assume "terminal_column t + 1 = VGA_WIDTH"
    then show False using col assms(2) by (simp add: VGA_WIDTH_def)
  qed
  moreover have "unat (24 * VGA_WIDTH + terminal_column t) < 2048"
    using assms(3) by (simp add: VGA_WIDTH_def unat_plus_small)
  ultimately show ?thesis
    using assms col
    by (simp add: terminal_putchar_def terminal_putentryat_def cell_store_def word_less_nat_alt Let_def
        terminal_sync_cursor_def)
qed

lemma write_past:
  assumes "terminal_row t = 24" and "80 \<le> unat (terminal_column t)"
    and "unat (terminal_column t) + length cs \<le> 128" and "set cs \<inter> {8, 9, 10, 13, 27} = {}"
  shows "\<exists>t'. terminal_write cs t = Some t' \<and> terminal_row t' = 24
    \<and> unat (terminal_column t') = unat (terminal_column t) + length cs"
  using assms
proof (induction cs arbitrary: t)
  case (Cons c cs)
  obtain u where u: "terminal_putchar c t = Some u" "terminal_row u = 24"
    "unat (terminal_column u) = Suc (unat (terminal_column t))"
    using putchar_past [OF Cons.prems(1,2)] Cons.prems(3,4) by auto
  have "80 \<le> unat (terminal_column u)" "unat (terminal_column u) + length cs \<le> 128" "set cs \<inter> {8, 9, 10, 13, 27} = {}"
    using u(3) Cons.prems(2,3,4) by auto
  then obtain t' where "terminal_write cs u = Some t'" "terminal_row t' = 24"
    "unat (terminal_column t') = unat (terminal_column u) + length cs"
    using Cons.IH [OF u(2)] by blast
  then show ?case using u by simp
qed simp

lemma putchar_beyond:
  assumes "terminal_row t = 24" and "unat (terminal_column t) = 128" and "c \<notin> {8, 9, 10, 13, 27}"
  shows "terminal_putchar c t = None"
proof -
  have "terminal_column t = 128" using assms(2) by (simp add: u32_eqI)
  then show ?thesis using assms
    by (simp add: terminal_putchar_def terminal_putentryat_def cell_store_def VGA_WIDTH_def)
qed

lemma write_append:
  "terminal_write (cs @ ds) t = do { u \<leftarrow> terminal_write cs t; terminal_write ds u }"
proof (induction cs arbitrary: t)
  case (Cons c cs)
  then show ?case by (cases "terminal_putchar c t") simp_all
qed simp

lemma to_tab_stop_edge:
  assumes "72 < x" and "x < 80"
  shows "to_tab_stop x = 80 - x"
proof -
  obtain k where k: "x = 72 + k" using assms(1) le_Suc_ex less_imp_le by metis
  then have "0 < k" "k < 8" using assms by simp_all
  then show ?thesis unfolding k to_tab_stop_def by (simp add: mod_add_eq [symmetric])
qed

lemma tab_to_edge:
  assumes "on_screen t" and "72 < unat (terminal_column t)"
  shows "\<exists>u. terminal_putchar 9 t = Some u \<and> terminal_row u = terminal_row t \<and> unat (terminal_column u) = 80"
proof -
  have x: "unat (terminal_column t) < 80" "unat (terminal_row t) < 25" using assms(1) by (simp_all add: on_screen_def)
  have stop: "to_tab_stop (unat (terminal_column t)) = 80 - unat (terminal_column t)"
    using x(1) assms(2) by (intro to_tab_stop_edge)
  obtain u where u: "terminal_tab t = Some u"
    "screen_of u = (screen_pad ^^ to_tab_stop (unat (terminal_column t))) (screen_of t)"
    "unat (terminal_column u) = unat (terminal_column t) + to_tab_stop (unat (terminal_column t))"
    using tab_refines [of t] x by auto
  have "cur_row (screen_of u) = cur_row (screen_of t)" unfolding u(2) by simp
  then have "terminal_row u = terminal_row t" by (simp add: screen_of_def u32_eqI)
  moreover have "unat (terminal_column u) = 80" using u(3) stop x(1) by simp
  ultimately show ?thesis using u(1) by (simp add: terminal_putchar_def terminal_sync_cursor_def Let_def)
qed

section \<open>Properties\<close>

definition example_tty :: tty where
  "example_tty = \<lparr>terminal_row = 24, terminal_column = 75, terminal_color = 7, terminal_buffer = (\<lambda>i. ucast i), tty_ports = []\<rparr>"

lemma example_tty_on_screen: "on_screen example_tty"
  by (simp add: example_tty_def on_screen_def)

text \<open>C31: the terminal implements a screen of 25 rows of 80 cells: a string prints at the cursor, wraps
  after the last column, scrolls by dropping the first row, backspaces, and pads to tab stops; no
  store leaves the video page and the cursor stays on the screen, if no tab is printed in the last
  seven columns.\<close>

theorem terminal_write_refines:
  assumes "on_screen t" and "tabs_fit cs (screen_of t)"
  shows "\<exists>t'. terminal_write cs t = Some t' \<and> on_screen t' \<and> screen_of t' = fold screen_putchar cs (screen_of t)"
  using assms by (rule write_done)

theorem terminal_write_refines_witness:
  "\<exists>t'. terminal_write [0x41, 0x0A, 0x42, 0x09, 0x43] example_tty = Some t' \<and> on_screen t'
    \<and> cur_row (screen_of t') = 24 \<and> cur_col (screen_of t') = 9"
proof -
  have "tabs_fit [0x41, 0x0A, 0x42, 0x09, 0x43] (screen_of example_tty)"
    "cur_row (fold screen_putchar [0x41, 0x0A, 0x42, 0x09, 0x43] (screen_of example_tty)) = 24"
    "cur_col (fold screen_putchar [0x41, 0x0A, 0x42, 0x09, 0x43] (screen_of example_tty)) = 9"
    by (simp_all add: example_tty_def screen_of_def cursor_putchar to_tab_stop_def)
  then show ?thesis using terminal_write_refines [OF example_tty_on_screen] by fastforce
qed

text \<open>After every character but Escape the four bytes written to the CRT controller set the hardware
  cursor to the cell where the next character will appear.\<close>

theorem hardware_cursor_follows:
  assumes "on_screen t" and "c = 9 \<longrightarrow> unat (terminal_column t) \<le> 72" and "c \<noteq> 27"
  shows "\<exists>t' lo hi. terminal_putchar c t = Some t'
    \<and> tty_ports t' = tty_ports t @ [(0x3D4, 0x0F), (0x3D5, lo), (0x3D4, 0x0E), (0x3D5, hi)]
    \<and> unat lo + 256 * unat hi = 80 * unat (terminal_row t') + unat (terminal_column t')"
proof -
  obtain t' where t': "terminal_putchar c t = Some t'" "char_done c t t'"
    using putchar_done [OF assms(1)] assms(2) by blast
  let ?n = "80 * unat (terminal_row t') + unat (terminal_column t')"
  have "?n < 65536" using t'(2) by (auto simp: char_done_def on_screen_def)
  then have "unat (of_nat ?n :: u8) + 256 * unat (of_nat (?n div 256) :: u8) = ?n"
    by (simp only: unat_of_nat) simp
  then show ?thesis using t' assms(3) unfolding char_done_def cursor_writes_def by auto
qed

theorem hardware_cursor_follows_witness:
  "\<exists>t' lo hi. terminal_putchar 0x41 example_tty = Some t'
    \<and> tty_ports t' = [(0x3D4, 0x0F), (0x3D5, lo), (0x3D4, 0x0E), (0x3D5, hi)]
    \<and> unat lo + 256 * unat hi = 80 * unat (terminal_row t') + unat (terminal_column t')"
  using hardware_cursor_follows [OF example_tty_on_screen, of "0x41"] by (simp add: example_tty_def)

text \<open>A tab in the last seven columns leaves the column at 80, past the wrap test: on the last row the
  next 48 printed characters go to cells beyond the screen and the 49th faults.\<close>

theorem terminal_tab_overrun:
  assumes "on_screen t" and "terminal_row t = 24" and "72 < unat (terminal_column t)"
    and "length cs = 48" and "set (c # cs) \<inter> {8, 9, 10, 13, 27} = {}"
  shows "(\<exists>t'. terminal_write (9 # cs) t = Some t' \<and> unat (terminal_column t') = 128)
    \<and> terminal_write (9 # cs @ [c]) t = None"
proof -
  obtain u where u: "terminal_putchar 9 t = Some u" "terminal_row u = 24" "unat (terminal_column u) = 80"
    using tab_to_edge [OF assms(1,3)] assms(2) by auto
  obtain v where v: "terminal_write cs u = Some v" "terminal_row v = 24" "unat (terminal_column v) = 128"
    using write_past [OF u(2), of cs] u(3) assms(4,5) by auto
  have "terminal_putchar c v = None" using putchar_beyond [OF v(2,3)] assms(5) by simp
  then show ?thesis using u(1) v by (simp add: write_append)
qed

theorem terminal_tab_overrun_witness:
  "terminal_write (9 # replicate 48 0x61 @ [0x61]) example_tty = None"
proof -
  have t: "terminal_row example_tty = 24" "72 < unat (terminal_column example_tty)"
    by (simp_all add: example_tty_def)
  have "set (0x61 # replicate 48 (0x61::u8)) \<inter> {8, 9, 10, 13, 27} = {}" by simp
  then show ?thesis using terminal_tab_overrun [OF example_tty_on_screen t, of "replicate 48 0x61" "0x61"] by simp
qed

end
