(* ===== verification/Printf.thy ===== *)
theory Printf
  imports Tty
begin

text \<open>
  Formatted output (\<open>libc/stdio\<close>) on the terminal. A format and a string argument are the lists of
  their characters without the terminating zero; the variable arguments are a list. An argument that
  is missing or of the wrong kind, undefined in C, gives \<open>None\<close>, as does a page fault. The lemmas
  show that \<open>printf\<close> writes the text of a specification \<open>formatted\<close>, digit strings included, and
  what it returns.
\<close>

section \<open>Characters\<close>

definition chars :: "string \<Rightarrow> u8 list" where
  "chars s = map of_char s"

text \<open>A line: the characters and a newline.\<close>

definition chars_nl :: "string \<Rightarrow> u8 list" where
  "chars_nl s = chars s @ [10]"

definition EOF :: int where "EOF = -1"
definition INT_MAX :: u32 where "INT_MAX = 0x7FFFFFFF"

section \<open>Definitions\<close>

text \<open>\<open>putchar\<close> of the kernel build.\<close>

definition putchar :: "int \<Rightarrow> tty \<Rightarrow> (tty \<times> int) option" where
  "putchar ic t = do { t \<leftarrow> terminal_write [of_int ic] t; Some (t, ic) }"

fun print :: "u8 list \<Rightarrow> tty \<Rightarrow> (tty \<times> bool) option" where
  "print [] t = Some (t, True)"
| "print (b # bs) t = do {
     (t, r) \<leftarrow> putchar (uint b) t;
     if r = EOF then Some (t, False) else print bs t }"

text \<open>
  The loop that fills \<open>buffer\<close> from its end; \<open>acc\<close> is the string from \<open>pos\<close> up to the terminating
  zero in the last of the 32 bytes, so \<open>pos > buffer\<close> is \<open>length acc < 31\<close>.
\<close>

function uint_digits :: "u32 \<Rightarrow> u32 \<Rightarrow> u8 list \<Rightarrow> u8 list" where
  "uint_digits base value acc =
     (if value \<noteq> 0 \<and> length acc < 31
      then let digit = value mod base
           in uint_digits base (value div base)
                (ucast (if digit < 10 then 0x30 + digit else 0x61 + digit - 10) # acc)
      else acc)"
  by pat_completeness auto

termination
  by (relation "measure (\<lambda>(base, value, acc). 31 - length acc)") auto

declare uint_digits.simps [simp del]

definition print_uint :: "u32 \<Rightarrow> u32 \<Rightarrow> tty \<Rightarrow> (tty \<times> bool) option" where
  "print_uint value base t =
     (if base < 2 \<or> base > 16 then Some (t, False)
      else if value = 0 then print [0x30] t
      else print (uint_digits base value []) t)"

definition print_int :: "u32 \<Rightarrow> tty \<Rightarrow> (tty \<times> bool) option" where
  "print_int value t =
     (if sint value < 0 then do {
        (t, ok) \<leftarrow> print [0x2D] t;
        if \<not> ok then Some (t, False) else print_uint (- (value + 1) + 1) 10 t }
      else print_uint value 10 t)"

text \<open>The loop of the conversion \<open>%u\<close>.\<close>

function udec_digits :: "u32 \<Rightarrow> u8 list \<Rightarrow> u8 list" where
  "udec_digits value acc =
     (if value \<noteq> 0 \<and> length acc < 31
      then udec_digits (value div 10) (ucast (0x30 + value mod 10) # acc) else acc)"
  by pat_completeness auto

termination
  by (relation "measure (\<lambda>(value, acc). 31 - length acc)") auto

declare udec_digits.simps [simp del]

datatype printf_arg = Word u32 | Str "u8 list"

text \<open>
  One conversion, at the character after the percent sign: the rest of the format, the arguments left
  and either the bytes added to \<open>written\<close> or, with \<open>None\<close>, the return of -1.
\<close>

definition printf_conversion ::
  "u8 list \<Rightarrow> printf_arg list \<Rightarrow> u32 \<Rightarrow> tty \<Rightarrow> (tty \<times> u8 list \<times> printf_arg list \<times> u32 option) option" where
  "printf_conversion fmt args maxrem t =
     (case fmt of
        [] \<Rightarrow>
          if maxrem = 0 then Some (t, fmt, args, None)
          else do { (t, ok) \<leftarrow> print [0x25] t; Some (t, fmt, args, if ok then Some 1 else None) }
      | d # rest \<Rightarrow>
          if d = 0x63 then
            (case args of Word w # args \<Rightarrow>
               if maxrem = 0 then Some (t, rest, args, None)
               else do { (t, ok) \<leftarrow> print [ucast w] t; Some (t, rest, args, if ok then Some 1 else None) }
             | _ \<Rightarrow> None)
          else if d = 0x73 then
            (case args of Str s # args \<Rightarrow>
               let len = of_nat (length s) in
               if maxrem < len then Some (t, rest, args, None)
               else do { (t, ok) \<leftarrow> print s t; Some (t, rest, args, if ok then Some len else None) }
             | _ \<Rightarrow> None)
          else if d = 0x75 then
            (case args of Word w # args \<Rightarrow>
               let s = (if w = 0 then [0x30] else udec_digits w []) in
               do { (t, ok) \<leftarrow> print s t; Some (t, rest, args, if ok then Some (of_nat (length s)) else None) }
             | _ \<Rightarrow> None)
          else if d = 0x64 then
            (case args of Word w # args \<Rightarrow>
               do { (t, ok) \<leftarrow> print_int w t; Some (t, rest, args, if ok then Some 1 else None) }
             | _ \<Rightarrow> None)
          else if d = 0x78 then
            (case args of Word w # args \<Rightarrow>
               do { (t, ok) \<leftarrow> print_uint w 16 t; Some (t, rest, args, if ok then Some 1 else None) }
             | _ \<Rightarrow> None)
          else if d = 0x70 then
            (case args of Word w # args \<Rightarrow>
               do { (t, ok) \<leftarrow> print [0x30, 0x78] t;
                    if \<not> ok then Some (t, rest, args, None)
                    else do { (t, ok) \<leftarrow> print_uint w 16 t;
                              Some (t, rest, args, if ok then Some 1 else None) } }
             | _ \<Rightarrow> None)
          else if maxrem = 0 then Some (t, fmt, args, None)
          else do { (t, ok) \<leftarrow> print [0x25] t; Some (t, fmt, args, if ok then Some 1 else None) })"

text \<open>The number of characters up to the next percent sign, the first one not looked at.\<close>

definition plain_amount :: "u8 list \<Rightarrow> nat" where
  "plain_amount fmt = 1 + length (takeWhile (\<lambda>c. c \<noteq> 0x25) (tl fmt))"

partial_function (option) printf_loop ::
  "u8 list \<Rightarrow> printf_arg list \<Rightarrow> u32 \<Rightarrow> tty \<Rightarrow> (tty \<times> u32) option" where
  "printf_loop fmt args written t =
     (if fmt = [] then Some (t, written)
      else let maxrem = INT_MAX - written in
        if hd fmt \<noteq> 0x25 \<or> tl fmt \<noteq> [] \<and> hd (tl fmt) = 0x25 then
          let fmt = (if hd fmt = 0x25 then tl fmt else fmt); amount = plain_amount fmt in
          if maxrem < of_nat amount then Some (t, -1)
          else do {
            (t, ok) \<leftarrow> print (take amount fmt) t;
            if \<not> ok then Some (t, -1)
            else printf_loop (drop amount fmt) args (written + of_nat amount) t }
        else do {
          (t, fmt, args, n) \<leftarrow> printf_conversion (tl fmt) args maxrem t;
          case n of None \<Rightarrow> Some (t, -1) | Some n \<Rightarrow> printf_loop fmt args (written + n) t })"

definition printf :: "u8 list \<Rightarrow> printf_arg list \<Rightarrow> tty \<Rightarrow> (tty \<times> u32) option" where
  "printf format parameters t = printf_loop format parameters 0 t"

text \<open>A call whose result is not used.\<close>

definition printf_out :: "u8 list \<Rightarrow> printf_arg list \<Rightarrow> tty \<Rightarrow> tty option" where
  "printf_out format parameters t = map_option fst (printf format parameters t)"

definition puts :: "u8 list \<Rightarrow> tty \<Rightarrow> (tty \<times> u32) option" where
  "puts str t = printf (chars_nl ''%s'') [Str str] t"

text \<open>\<open>abort\<close> does not return: the value is the terminal it leaves when it enters its endless loop.\<close>

definition abort_message :: "tty \<Rightarrow> tty option" where
  "abort_message t = printf_out (chars_nl ''kernel: panic: abort()'') [] t"

section \<open>Specification\<close>

function digits :: "nat \<Rightarrow> nat \<Rightarrow> nat list" where
  "digits b n = (if b < 2 \<or> n < b then [n] else digits b (n div b) @ [n mod b])"
  by pat_completeness auto

termination
  by (relation "measure snd") (auto intro: div_less_dividend)

declare digits.simps [simp del]

definition digit_char :: "nat \<Rightarrow> u8" where
  "digit_char d = (if d < 10 then 0x30 + of_nat d else 0x61 + of_nat (d - 10))"

definition numeral_chars :: "nat \<Rightarrow> nat \<Rightarrow> u8 list" where
  "numeral_chars b n = map digit_char (digits b n)"

definition digit_value :: "u8 \<Rightarrow> nat" where
  "digit_value c = (if c < 0x61 then unat c - 0x30 else unat c - 0x61 + 10)"

definition read_numeral :: "nat \<Rightarrow> u8 list \<Rightarrow> nat" where
  "read_numeral b cs = foldl (\<lambda>v c. v * b + digit_value c) 0 cs"

definition int_chars :: "int \<Rightarrow> u8 list" where
  "int_chars i = (if i < 0 then 0x2D # numeral_chars 10 (nat (- i)) else numeral_chars 10 (nat i))"

text \<open>The text of a conversion and what it adds to the returned count.\<close>

fun converted :: "u8 \<Rightarrow> printf_arg \<Rightarrow> (u8 list \<times> nat) option" where
  "converted d (Word w) =
     (if d = 0x63 then Some ([ucast w], 1)
      else if d = 0x75 then Some (numeral_chars 10 (unat w), length (numeral_chars 10 (unat w)))
      else if d = 0x64 then Some (int_chars (sint w), 1)
      else if d = 0x78 then Some (numeral_chars 16 (unat w), 1)
      else if d = 0x70 then Some ([0x30, 0x78] @ numeral_chars 16 (unat w), 1) else None)"
| "converted d (Str s) = (if d = 0x73 then Some (s, length s) else None)"

definition emit :: "u8 list \<Rightarrow> nat \<Rightarrow> (u8 list \<times> nat) option \<Rightarrow> (u8 list \<times> nat) option" where
  "emit s k r = map_option (\<lambda>(out, n). (s @ out, k + n)) r"

fun formatted :: "u8 list \<Rightarrow> printf_arg list \<Rightarrow> (u8 list \<times> nat) option" where
  "formatted [] args = Some ([], 0)"
| "formatted [c] args = Some ([c], 1)"
| "formatted (c # d # fmt) args =
     (if c \<noteq> 0x25 then emit [c] 1 (formatted (d # fmt) args)
      else if d = 0x25 then emit [0x25] 1 (formatted fmt args)
      else if d \<in> {0x63, 0x73, 0x75, 0x64, 0x78, 0x70} then
        (case args of [] \<Rightarrow> None
         | a # args \<Rightarrow> (case converted d a of None \<Rightarrow> None | Some (s, k) \<Rightarrow> emit s k (formatted fmt args)))
      else emit [0x25] 1 (formatted (d # fmt) args))"

section \<open>Numerals\<close>

lemma digits_bound: "2 \<le> b \<Longrightarrow> d \<in> set (digits b n) \<Longrightarrow> d < b"
proof (induction b n rule: digits.induct)
  case (1 b n)
  then show ?case using digits.simps [of b n] by (auto split: if_splits)
qed

lemma digit_value_char: "d < 16 \<Longrightarrow> digit_value (digit_char d) = d"
proof -
  have "\<forall>d \<in> set [0..<16]. digit_value (digit_char d) = d" by code_simp
  then show "d < 16 \<Longrightarrow> digit_value (digit_char d) = d" by simp
qed

lemma read_digits:
  "2 \<le> b \<Longrightarrow> b \<le> 16 \<Longrightarrow> read_numeral b (numeral_chars b n) = n"
proof (induction b n rule: digits.induct)
  case (1 b n)
  show ?case
  proof (cases "n < b")
    case True
    then show ?thesis using 1 digits.simps [of b n] by (simp add: numeral_chars_def read_numeral_def digit_value_char)
  next
    case False
    then have "digits b n = digits b (n div b) @ [n mod b]" using 1 digits.simps [of b n] by simp
    moreover have "n mod b < b" using 1 by simp
    then have "n mod b < 16" using 1 by linarith
    ultimately show ?thesis using 1 False
      by (simp add: numeral_chars_def read_numeral_def digit_value_char mult.commute)
  qed
qed

lemma hd_digits: "2 \<le> b \<Longrightarrow> 0 < n \<Longrightarrow> 0 < hd (digits b n)"
proof (induction b n rule: digits.induct)
  case (1 b n)
  have "digits b m \<noteq> []" for m using digits.simps [of b m] by simp
  with 1 show ?case using digits.simps [of b n] by (auto simp: div_greater_zero_iff)
qed

lemma digit_word:
  assumes "unat d < 16"
  shows "ucast (if (d::u32) < 10 then 0x30 + d else 0x61 + d - 10) = digit_char (unat d)"
proof -
  have "\<forall>d \<in> set [0..<16]. ucast (if (of_nat d :: u32) < 10 then 0x30 + of_nat d else 0x61 + of_nat d - 10 :: u32) = digit_char d"
    by code_simp
  moreover have "unat d \<in> set [0..<16]" "of_nat (unat d) = d" using assms by simp_all
  ultimately show ?thesis by metis
qed

lemma uint_digits_eq:
  assumes "value \<noteq> 0" and "2 \<le> base" and "base \<le> 16" and "unat value < unat base ^ (31 - length acc)"
  shows "uint_digits base value acc = numeral_chars (unat base) (unat value) @ acc"
  using assms
proof (induction base "value" acc rule: uint_digits.induct)
  case (1 base "value" acc)
  let ?d = "value mod base"
  have b: "2 \<le> unat base" "unat base \<le> 16" using "1.prems" by (simp_all add: word_le_nat_alt)
  have l: "length acc < 31" using "1.prems"(1,4) by (cases "length acc < 31") (auto simp: unat_eq_zero)
  have "unat value mod unat base < unat base" using b(1) by simp
  then have d: "unat ?d = unat value mod unat base" "unat ?d < 16"
    using b(2) by (simp_all add: unat_mod)
  have step: "uint_digits base value acc = uint_digits base (value div base) (digit_char (unat ?d) # acc)"
    using "1.prems"(1) l digit_word [OF d(2)] by (subst uint_digits.simps) (simp add: Let_def)
  show ?case
  proof (cases "value div base = 0")
    case True
    then have "unat value < unat base" using b by (metis div_eq_0_iff unat_0 unat_div not_numeral_le_zero)
    then show ?thesis using step True d(1) digits.simps [of "unat base" "unat value"]
      by (simp add: uint_digits.simps [of base 0] numeral_chars_def)
  next
    case False
    have "unat value < unat base * unat base ^ (30 - length acc)"
      using "1.prems"(4) l by (metis Suc_diff_Suc diff_Suc_Suc less_Suc_eq_le numeral_eq_Suc power_Suc pred_numeral_simps Suc_diff_le)
    then have "unat (value div base) < unat base ^ (31 - length (digit_char (unat ?d) # acc))"
      using b by (simp add: unat_div less_mult_imp_div_less mult.commute)
    then have "uint_digits base (value div base) (digit_char (unat ?d) # acc)
      = numeral_chars (unat base) (unat (value div base)) @ digit_char (unat ?d) # acc"
      using "1.IH" [OF _ refl] "1.prems" False l digit_word [OF d(2)] by simp
    moreover have "\<not> unat value < unat base" using False b by (metis div_less unat_div unat_eq_zero)
    ultimately show ?thesis using step b d(1) digits.simps [of "unat base" "unat value"]
      by (simp add: numeral_chars_def unat_div)
  qed
qed

lemma udec_digits_eq: "udec_digits value acc = uint_digits 10 value acc"
proof (induction "value" acc rule: udec_digits.induct)
  case (1 "value" acc)
  have "unat (value mod 10) < 10" by (simp add: unats)
  then have "value mod 10 < 10" by (simp add: word_less_nat_alt)
  then show ?case using 1 udec_digits.simps [of "value" acc] uint_digits.simps [of 10 "value" acc] by (simp add: Let_def)
qed

lemma uint_numeral:
  assumes "value \<noteq> 0" and "base = 10 \<or> base = 16"
  shows "uint_digits base value [] = numeral_chars (unat base) (unat value)"
proof -
  have "unat value < 10 ^ 31" "unat value < 16 ^ 31"
    by (rule less_le_trans [OF u32_less_bound], simp)+
  then have "unat value < unat base ^ (31 - length [])" using assms(2) by auto
  then show ?thesis using uint_digits_eq [OF assms(1), of base "[]"] assms(2) by auto
qed

lemma uint_digits_length: "length acc \<le> 31 \<Longrightarrow> length (uint_digits base value acc) \<le> 31"
proof (induction base "value" acc rule: uint_digits.induct)
  case (1 base "value" acc)
  then show ?case by (subst uint_digits.simps) (simp add: Let_def)
qed

section \<open>Output\<close>

lemma write_single: "terminal_write [b] t = terminal_putchar b t"
  by (cases "terminal_putchar b t") simp_all

lemma print_eq: "print bs t = map_option (\<lambda>t. (t, True)) (terminal_write bs t)"
proof (induction bs arbitrary: t)
  case (Cons b bs)
  have "uint b \<noteq> -1" using uint_nonnegative [of b] by linarith
  then show ?case using Cons by (cases "terminal_putchar b t") (simp_all add: putchar_def EOF_def)
qed simp

lemma zero_numeral: "numeral_chars b 0 = [0x30]"
  by (cases "b < 2") (simp_all add: numeral_chars_def digits.simps [of b 0] digit_char_def)

lemma print_uint_eq:
  assumes "base = 10 \<or> base = 16"
  shows "print_uint value base t = map_option (\<lambda>t. (t, True)) (terminal_write (numeral_chars (unat base) (unat value)) t)"
proof (cases "value = 0")
  case True
  then show ?thesis using assms by (auto simp: print_uint_def print_eq zero_numeral)
next
  case False
  then show ?thesis using assms uint_numeral [OF False assms] by (auto simp: print_uint_def print_eq)
qed

lemma unat_sint:
  fixes v :: u32
  shows "sint v < 0 \<Longrightarrow> unat (- v) = nat (- sint v)" and "0 \<le> sint v \<Longrightarrow> unat v = nat (sint v)"
proof -
  have lo: "- 2147483648 \<le> sint v" and hi: "sint v < 2147483648"
    using sint_greater_eq [of v] sint_less [of v] by simp_all
  have u: "uint v = sint v mod 4294967296" using uint_sint [of v] by (simp add: take_bit_eq_mod)
  show "unat v = nat (sint v)" if "0 \<le> sint v" using u hi that by (simp add: unat_eq_nat_uint)
  show "unat (- v) = nat (- sint v)" if "sint v < 0"
  proof -
    have "uint (- v) = (- uint v) mod 4294967296" by (simp add: uint_word_ariths)
    also have "\<dots> = (- sint v) mod 4294967296" unfolding u by (rule mod_minus_eq)
    also have "\<dots> = - sint v" using lo that by (intro mod_pos_pos_trivial) simp_all
    finally show ?thesis by (simp add: unat_eq_nat_uint)
  qed
qed

lemma print_int_eq: "print_int value t = map_option (\<lambda>t. (t, True)) (terminal_write (int_chars (sint value)) t)"
proof (cases "sint value < 0")
  case True
  have "- (value + 1) + 1 = - value" by simp
  then show ?thesis using True unat_sint(1) [OF True]
    by (cases "terminal_putchar 0x2D t") (simp_all add: print_int_def print_eq print_uint_eq int_chars_def)
next
  case False
  then show ?thesis using unat_sint(2) [of "value"] by (simp add: print_int_def print_uint_eq int_chars_def)
qed

section \<open>The format loop\<close>

lemma emit_Some [simp]: "emit s k (Some (out, n)) = Some (s @ out, k + n)"
  by (simp add: emit_def)

lemma emit_None [simp]: "emit s k None = None"
  by (simp add: emit_def)

lemma emit_emit: "emit s k (emit s' k' r) = emit (s @ s') (k + k') r"
  by (cases r) (auto simp: emit_def)

lemma emit_cases:
  assumes "emit s k r = Some (out, n)"
  obtains out' n' where "r = Some (out', n')" and "out = s @ out'" and "n = k + n'"
  using assms by (auto simp: emit_def)

lemma formatted_plain: "0x25 \<notin> set cs \<Longrightarrow> formatted (cs @ fmt) args = emit cs (length cs) (formatted fmt args)"
proof (induction cs)
  case Nil
  then show ?case by (cases "formatted fmt args") auto
next
  case (Cons c cs)
  have "formatted (c # cs @ fmt) args = emit [c] 1 (formatted (cs @ fmt) args)"
    using Cons.prems by (cases "cs @ fmt") simp_all
  then show ?case using Cons by (simp add: emit_emit)
qed

text \<open>The conversion characters.\<close>

definition is_conversion :: "u8 \<Rightarrow> bool" where
  "is_conversion d \<longleftrightarrow> d \<in> {0x63, 0x73, 0x75, 0x64, 0x78, 0x70}"

lemma conversion_count: "converted d a = Some (s, k) \<Longrightarrow> k \<le> length s"
proof -
  have "digits b n \<noteq> []" for b n by (subst digits.simps) simp
  then have "Suc 0 \<le> length (numeral_chars b n)" for b n by (simp add: numeral_chars_def Suc_le_eq)
  then show "converted d a = Some (s, k) \<Longrightarrow> k \<le> length s"
    by (cases a) (auto simp: int_chars_def split: if_splits)
qed

lemma conversion_runs:
  assumes "converted d a = Some (s, k)" and "length s \<le> unat maxrem" and "d = 0x63 \<Longrightarrow> maxrem \<noteq> 0"
  shows "printf_conversion (d # rest) (a # args) maxrem t
    = map_option (\<lambda>t'. (t', rest, args, Some (of_nat k))) (terminal_write s t)"
proof (cases a)
  case (Word w)
  have "w = 0 \<Longrightarrow> numeral_chars 10 (unat w) = [0x30]" by (simp add: zero_numeral)
  moreover have "w \<noteq> 0 \<Longrightarrow> udec_digits w [] = numeral_chars 10 (unat w)"
    using uint_numeral [of w 10] by (simp add: udec_digits_eq)
  ultimately have u: "(if w = 0 then [0x30] else udec_digits w []) = numeral_chars 10 (unat w)" by simp
  have x: "terminal_write (0x30 # 0x78 # cs) t
      = do { t \<leftarrow> terminal_write [0x30, 0x78] t; terminal_write cs t }" for cs
    using write_append [of "[0x30, 0x78]" cs t] by simp
  show ?thesis
    using assms Word unfolding printf_conversion_def
    by (auto simp: print_eq print_uint_eq print_int_eq u x Let_def split: if_splits option.splits bind_splits)
next
  case (Str cs)
  then show ?thesis using assms by (auto simp: printf_conversion_def print_eq word_less_nat_alt unat_of_nat Let_def split: if_splits option.splits bind_splits)
qed

lemma conversion_unknown:
  assumes "\<not> is_conversion d" and "maxrem \<noteq> 0"
  shows "printf_conversion (d # rest) args maxrem t
    = map_option (\<lambda>t'. (t', d # rest, args, Some 1)) (terminal_write [0x25] t)"
  using assms by (auto simp: printf_conversion_def print_eq is_conversion_def split: option.splits bind_splits)

lemma conversion_end:
  "maxrem \<noteq> 0 \<Longrightarrow> printf_conversion [] args maxrem t
    = map_option (\<lambda>t'. (t', [], args, Some 1)) (terminal_write [0x25] t)"
  by (auto simp: printf_conversion_def print_eq split: option.splits bind_splits)

lemma write_bind:
  "map_option f (terminal_write (cs @ ds) t) = do { u \<leftarrow> terminal_write cs t; map_option f (terminal_write ds u) }"
  by (cases "terminal_write cs t") (simp_all add: write_append)

lemma formatted_count: "formatted fmt args = Some (out, n) \<Longrightarrow> n \<le> length out"
proof (induction fmt args arbitrary: out n rule: formatted.induct)
  case (3 c d fmt args)
  show ?case
  proof (cases "c \<noteq> 0x25 \<or> d = 0x25 \<or> \<not> is_conversion d")
    case True
    then show ?thesis using 3 by (auto simp: is_conversion_def split: if_splits elim!: emit_cases)
  next
    case False
    then show ?thesis using 3 conversion_count
      by (fastforce simp: is_conversion_def split: list.splits option.splits elim!: emit_cases)
  qed
qed simp_all

text \<open>The loop writes the specified text and adds the specified count.\<close>

definition runs :: "u8 list \<Rightarrow> printf_arg list \<Rightarrow> u32 \<Rightarrow> tty \<Rightarrow> u8 list \<Rightarrow> nat \<Rightarrow> bool" where
  "runs fmt args w t out n \<longleftrightarrow>
     printf_loop fmt args w t = map_option (\<lambda>t'. (t', w + of_nat n)) (terminal_write out t)"

lemma left_over:
  assumes "unat w + n < 2147483648"
  shows "unat (INT_MAX - w) = 2147483647 - unat w" and "unat (w + of_nat n) = unat w + n"
proof -
  have "w \<le> INT_MAX" using assms by (simp add: INT_MAX_def word_le_nat_alt)
  then show "unat (INT_MAX - w) = 2147483647 - unat w" by (simp add: unat_minus_le INT_MAX_def)
  have "unat (of_nat n :: u32) = n" using assms by (intro unat_of_nat_small) simp
  then show "unat (w + of_nat n) = unat w + n" using assms by (simp add: unat_plus_small)
qed

text \<open>A stretch of plain characters, after a doubled percent sign or none.\<close>

lemma plain_run:
  assumes "fmt = c # cs @ ds" and "0x25 \<notin> set cs" and "ds = [] \<or> hd ds = 0x25"
  shows "plain_amount fmt = Suc (length cs)" and "take (plain_amount fmt) fmt = c # cs"
    and "drop (plain_amount fmt) fmt = ds"
proof -
  have "takeWhile (\<lambda>c. c \<noteq> 0x25) (cs @ ds) = cs"
    using assms(2,3) by (cases ds) (auto simp: takeWhile_append)
  then show a: "plain_amount fmt = Suc (length cs)" by (simp add: plain_amount_def assms(1))
  show "take (plain_amount fmt) fmt = c # cs" "drop (plain_amount fmt) fmt = ds"
    unfolding a by (simp_all add: assms(1))
qed

lemma plain_split:
  obtains cs ds where "rest = cs @ ds" and "(0x25::u8) \<notin> set cs" and "ds = [] \<or> hd ds = 0x25"
proof
  show "rest = takeWhile (\<lambda>c. c \<noteq> 0x25) rest @ dropWhile (\<lambda>c. c \<noteq> 0x25) rest" by simp
  show "0x25 \<notin> set (takeWhile (\<lambda>c. c \<noteq> 0x25) rest)" by (auto dest: set_takeWhileD)
  show "dropWhile (\<lambda>c. c \<noteq> 0x25) rest = [] \<or> hd (dropWhile (\<lambda>c. c \<noteq> 0x25) rest) = 0x25"
    using hd_dropWhile [of "\<lambda>c. c \<noteq> 0x25" rest] by auto
qed

lemma runs_plain:
  assumes "fmt \<noteq> []" and "hd fmt \<noteq> 0x25 \<or> tl fmt \<noteq> [] \<and> hd (tl fmt) = 0x25"
    and "(if hd fmt = 0x25 then tl fmt else fmt) = c # cs @ ds" and "0x25 \<notin> set cs" and "ds = [] \<or> hd ds = 0x25"
    and "\<And>u. runs ds args (w + of_nat (Suc (length cs))) u out n"
    and "unat w + Suc (length cs) < 2147483648"
  shows "runs fmt args w t (c # cs @ out) (Suc (length cs) + n)"
proof -
  note p = plain_run [OF assms(3) assms(4,5)]
  have "\<not> INT_MAX - w < of_nat (Suc (length cs))"
    using left_over(1) [OF assms(7)] assms(7)
    by (simp add: word_less_nat_alt unat_of_nat_small del: of_nat_Suc)
  then have "printf_loop fmt args w t =
     do { u \<leftarrow> terminal_write (c # cs) t; printf_loop ds args (w + of_nat (Suc (length cs))) u }"
    using assms(1,2) p by (subst printf_loop.simps)
      (auto simp: Let_def print_eq simp del: of_nat_Suc terminal_write.simps split: option.splits bind_splits)
  moreover have "printf_loop ds args (w + of_nat (Suc (length cs)))
      = (\<lambda>u. map_option (\<lambda>t'. (t', w + of_nat (Suc (length cs) + n))) (terminal_write out u))"
    using assms(6) unfolding runs_def by (intro ext) (simp add: add.assoc)
  ultimately show ?thesis unfolding runs_def append_Cons [symmetric] write_bind by simp
qed

lemma runs_conversion:
  assumes "printf_conversion rest args (INT_MAX - w) = (\<lambda>t. map_option (\<lambda>t'. (t', rest', args', Some (of_nat k))) (terminal_write s t))"
    and "rest = [] \<or> hd rest \<noteq> 0x25"
    and "\<And>u. runs rest' args' (w + of_nat k) u out n"
  shows "runs (0x25 # rest) args w t (s @ out) (k + n)"
proof -
  have "printf_loop (0x25 # rest) args w t = do { u \<leftarrow> terminal_write s t; printf_loop rest' args' (w + of_nat k) u }"
    using assms(1,2) by (subst printf_loop.simps) (auto simp: Let_def split: option.splits bind_splits)
  moreover have "printf_loop rest' args' (w + of_nat k)
      = (\<lambda>u. map_option (\<lambda>t'. (t', w + of_nat (k + n))) (terminal_write out u))"
    using assms(3) unfolding runs_def by (intro ext) (simp add: add.assoc)
  ultimately show ?thesis unfolding runs_def write_bind by simp
qed

lemma printf_runs:
  "formatted fmt args = Some (out, n) \<Longrightarrow> unat w + length out < 2147483648 \<Longrightarrow> runs fmt args w t out n"
proof (induction "length fmt" arbitrary: fmt args out n w t rule: less_induct)
  case less
  note IH = less.hyps and f = less.prems(1) and bound = less.prems(2)
  consider (nil) "fmt = []"
    | (plain) c rest where "fmt = c # rest" "c \<noteq> 0x25"
    | (double) rest where "fmt = 0x25 # 0x25 # rest"
    | (final) "fmt = [0x25]"
    | (conv) d rest where "fmt = 0x25 # d # rest" "d \<noteq> 0x25" "is_conversion d"
    | (unknown) d rest where "fmt = 0x25 # d # rest" "d \<noteq> 0x25" "\<not> is_conversion d"
  proof (cases fmt)
    case Nil
    then show ?thesis by (rule that(1))
  next
    case (Cons f r)
    then show ?thesis using that by (cases "f = 0x25"; cases r) blast+
  qed
  then show ?case
  proof cases
    case nil
    then show ?thesis using f by (simp add: runs_def printf_loop.simps)
  next
    case plain
    obtain cs ds where r: "rest = cs @ ds" "0x25 \<notin> set cs" "ds = [] \<or> hd ds = 0x25" by (rule plain_split)
    have "formatted fmt args = emit (c # cs) (Suc (length cs)) (formatted ds args)"
      using formatted_plain [of "c # cs" ds args] plain r by simp
    then have "emit (c # cs) (Suc (length cs)) (formatted ds args) = Some (out, n)" using f by simp
    then obtain out' n' where o: "formatted ds args = Some (out', n')" "out = c # cs @ out'" "n = Suc (length cs) + n'"
      by (rule emit_cases) simp
    have b: "unat w + Suc (length cs) < 2147483648" using bound o(2) by simp
    have "runs ds args (w + of_nat (Suc (length cs))) u out' n'" for u
      using IH [OF _ o(1)] plain(1) r(1) bound o(2) left_over(2) [OF b] by simp
    from runs_plain [OF _ _ _ r(2,3) this b] plain r(1) show ?thesis unfolding o(2,3) by simp
  next
    case double
    obtain cs ds where r: "rest = cs @ ds" "0x25 \<notin> set cs" "ds = [] \<or> hd ds = 0x25" by (rule plain_split)
    have "formatted fmt args = emit (0x25 # cs) (Suc (length cs)) (formatted ds args)"
      using formatted_plain [OF r(2), of ds args] double r(1) by (simp add: emit_emit)
    then have "emit (0x25 # cs) (Suc (length cs)) (formatted ds args) = Some (out, n)" using f by simp
    then obtain out' n' where o: "formatted ds args = Some (out', n')" "out = 0x25 # cs @ out'" "n = Suc (length cs) + n'"
      by (rule emit_cases) simp
    have b: "unat w + Suc (length cs) < 2147483648" using bound o(2) by simp
    have "runs ds args (w + of_nat (Suc (length cs))) u out' n'" for u
      using IH [OF _ o(1)] double r(1) bound o(2) left_over(2) [OF b] by simp
    from runs_plain [OF _ _ _ r(2,3) this b, of fmt "0x25"] double r(1) show ?thesis unfolding o(2,3) by simp
  next
    case final
    have o: "out = [0x25]" "n = 1" using f final by simp_all
    have "INT_MAX - w \<noteq> 0" using left_over(1) [of w 1] bound o(1) by auto
    then show ?thesis
      using runs_conversion [of "[]" args w "[]" args 1 "[0x25]" "[]" 0 t] final o
      by (simp add: conversion_end runs_def printf_loop.simps fun_eq_iff)
  next
    case conv
    then obtain a as s k where a: "args = a # as" "converted d a = Some (s, k)"
      using f by (auto simp: is_conversion_def split: list.splits option.splits)
    then obtain out' n' where o: "formatted rest as = Some (out', n')" "out = s @ out'" "n = k + n'"
      using f conv by (auto simp: is_conversion_def elim!: emit_cases)
    have k: "k \<le> length s" using conversion_count [OF a(2)] .
    have b: "unat w + length s < 2147483648" "unat w + k < 2147483648" using bound o(2) k by simp_all
    have "d = 0x63 \<Longrightarrow> s \<noteq> []" using a(2) by (cases a) auto
    then have "d = 0x63 \<Longrightarrow> INT_MAX - w \<noteq> 0" using left_over(1) [OF b(1)] b(1) by (cases s) auto
    then have "printf_conversion (d # rest) args (INT_MAX - w)
        = (\<lambda>t. map_option (\<lambda>t'. (t', rest, as, Some (of_nat k))) (terminal_write s t))"
      using conversion_runs [OF a(2), of "INT_MAX - w" rest] left_over(1) [OF b(1)] b(1) a(1) by (auto simp: fun_eq_iff)
    moreover have "runs rest as (w + of_nat k) u out' n'" for u
      using IH [OF _ o(1)] conv(1) bound o(2) k left_over(2) [OF b(2)] by simp
    ultimately show ?thesis using runs_conversion conv unfolding o(2,3) by simp
  next
    case unknown
    then obtain out' n' where o: "formatted (d # rest) args = Some (out', n')" "out = [0x25] @ out'" "n = 1 + n'"
      using f by (auto simp: is_conversion_def elim!: emit_cases)
    have b: "unat w + 1 < 2147483648" using bound o(2) by simp
    then have "INT_MAX - w \<noteq> 0" using left_over(1) [OF b] by auto
    then have pc: "printf_conversion (d # rest) args (INT_MAX - w)
        = (\<lambda>t. map_option (\<lambda>t'. (t', d # rest, args, Some (of_nat 1))) (terminal_write [0x25] t))"
      using conversion_unknown [OF unknown(3)] by (simp add: fun_eq_iff)
    have rn: "runs (d # rest) args (w + of_nat 1) u out' n'" for u
      using IH [OF _ o(1)] unknown(1) bound o(2) left_over(2) [OF b] by simp
    show ?thesis unfolding o(2,3) unknown(1)
      by (rule runs_conversion [OF pc _ rn]) (simp add: unknown(2))
  qed
qed

section \<open>Properties\<close>

text \<open>C32: \<open>printf\<close> always returns or faults in the terminal, and for arguments that match the format it
  writes exactly the specified text, conversions, doubled percent signs and unknown conversions
  included; the value returned counts the characters of the text, but one for each of %d, %x and %p.\<close>

theorem printf_writes_formatted:
  assumes "formatted format args = Some (out, n)" and "length out < 2147483648"
  shows "printf format args t = map_option (\<lambda>t'. (t', of_nat n)) (terminal_write out t)"
  using printf_runs [OF assms(1), of 0 t] assms(2) by (simp add: runs_def printf_def)

theorem printf_writes_formatted_witness:
  "\<exists>t'. printf (chars ''%u%% of %d%q'') [Word 42, Word (-7)] example_tty = Some (t', 10)
    \<and> terminal_write (chars ''42% of -7%q'') example_tty = Some t'"
proof -
  have f: "formatted (chars ''%u%% of %d%q'') [Word 42, Word (-7)] = Some (chars ''42% of -7%q'', 10)"
    by code_simp
  have l: "length (chars ''42% of -7%q'') < 2147483648" by (simp add: chars_def)
  have n: "9 \<notin> set (chars ''42% of -7%q'')" by code_simp
  then obtain t' where w: "terminal_write (chars ''42% of -7%q'') example_tty = Some t'"
    using write_done [OF example_tty_on_screen no_tabs_fit [OF n]] by blast
  show ?thesis unfolding printf_writes_formatted [OF f l] w by simp
qed

text \<open>The digit strings are numerals: read back in the base they give the value, and a nonzero value
  has no leading zero; they fit the 31 characters the buffer has room for.\<close>

theorem print_uint_numeral:
  assumes "base = 10 \<or> base = 16"
  shows "\<exists>cs. print_uint value base t = map_option (\<lambda>t. (t, True)) (terminal_write cs t)
    \<and> read_numeral (unat base) cs = unat value \<and> length cs \<le> 31 \<and> (hd cs = 0x30 \<longrightarrow> value = 0)"
proof (intro exI conjI)
  let ?cs = "numeral_chars (unat base) (unat value)"
  have b: "2 \<le> unat base" "unat base \<le> 16" using assms by auto
  show "print_uint value base t = map_option (\<lambda>t. (t, True)) (terminal_write ?cs t)"
    by (rule print_uint_eq [OF assms])
  show "read_numeral (unat base) ?cs = unat value" by (rule read_digits [OF b])
  show "length ?cs \<le> 31"
  proof (cases "value = 0")
    case False
    show ?thesis using uint_digits_length [of "[]" base "value"] uint_numeral [OF False assms] by simp
  qed (simp add: zero_numeral)
  show "hd ?cs = 0x30 \<longrightarrow> value = 0"
  proof (intro impI)
    assume h: "hd ?cs = 0x30"
    have "digits (unat base) (unat value) \<noteq> []" by (subst digits.simps) simp
    then have d: "hd ?cs = digit_char (hd (digits (unat base) (unat value)))" "hd (digits (unat base) (unat value)) < unat base"
      using digits_bound [OF b(1) hd_in_set] by (simp_all add: numeral_chars_def hd_map)
    then have d16: "hd (digits (unat base) (unat value)) < 16" using b(2) by linarith
    have "hd (digits (unat base) (unat value)) = digit_value 0x30"
      using digit_value_char [OF d16] d(1) h by simp
    then have "hd (digits (unat base) (unat value)) = 0" by (simp add: digit_value_def)
    then show "value = 0" using hd_digits [OF b(1), of "unat value"] by (metis neq0_conv unat_eq_zero)
  qed
qed

theorem print_uint_numeral_witness:
  "\<exists>cs. print_uint 0xDEADBEEF 16 example_tty = map_option (\<lambda>t. (t, True)) (terminal_write cs example_tty)
    \<and> read_numeral 16 cs = 0xDEADBEEF"
  using print_uint_numeral [of 16 "0xDEADBEEF" example_tty] by auto

text \<open>\<open>print_int\<close> writes the decimal numeral of the signed value, with the sign of a negative one; the
  most negative integer does not overflow.\<close>

theorem print_int_signed:
  "\<exists>cs. print_int value t = map_option (\<lambda>t. (t, True)) (terminal_write cs t)
    \<and> sint value = (if hd cs = 0x2D then - int (read_numeral 10 (tl cs)) else int (read_numeral 10 cs))"
proof (intro exI conjI)
  show "print_int value t = map_option (\<lambda>t. (t, True)) (terminal_write (int_chars (sint value)) t)"
    by (rule print_int_eq)
  have "hd (numeral_chars 10 n) \<noteq> 0x2D" for n
  proof -
    have "digits 10 n \<noteq> []" by (subst digits.simps) simp
    then have d: "hd (numeral_chars 10 n) = digit_char (hd (digits 10 n))" "hd (digits 10 n) < 10"
      using digits_bound [of 10 _ n] by (auto simp: numeral_chars_def hd_map)
    have "\<forall>d \<in> set [0..<10]. digit_char d \<noteq> 0x2D" by code_simp
    then show ?thesis using d by simp
  qed
  then show "sint value = (if hd (int_chars (sint value)) = 0x2D then - int (read_numeral 10 (tl (int_chars (sint value))))
      else int (read_numeral 10 (int_chars (sint value))))"
    by (simp add: int_chars_def read_digits)
qed

end
