(* ===== verification/Keyboard.thy ===== *)
theory Keyboard
  imports Prelude
begin

text \<open>
  The PS/2 keyboard driver (\<open>arch/i386/drivers/keyboard.c\<close>): the decoder of scan code set 1 with
  its modifier keys, and the ring buffer between the interrupt handler and the reader. The buffer
  refines a queue of at most 255 characters, stated as the locale \<open>char_queue\<close>. A C \<open>char\<close> is a
  \<open>u8\<close>. The byte the handler reads from the controller is its argument; the registration of the
  handler is in \<open>Interrupts\<close>.
\<close>

section \<open>Scan code tables\<close>

definition KBD_BUF_SIZE :: u32 where
  "KBD_BUF_SIZE = 256"

definition SCANCODE_LSHIFT :: u8 where "SCANCODE_LSHIFT = 0x2A"
definition SCANCODE_RSHIFT :: u8 where "SCANCODE_RSHIFT = 0x36"
definition SCANCODE_CAPS :: u8 where "SCANCODE_CAPS = 0x3A"
definition SCANCODE_LCTRL :: u8 where "SCANCODE_LCTRL = 0x1D"
definition SCANCODE_LALT :: u8 where "SCANCODE_LALT = 0x38"
definition SCANCODE_EXT :: u8 where "SCANCODE_EXT = 0xE0"

text \<open>The rows of the C tables; the array's remaining elements are zero.\<close>

definition scancode_ascii :: "u8 list" where
  "scancode_ascii =
     [0, 27, 0x31, 0x32, 0x33, 0x34, 0x35, 0x36, 0x37, 0x38, 0x39, 0x30, 0x2D, 0x3D, 8,
      9, 0x71, 0x77, 0x65, 0x72, 0x74, 0x79, 0x75, 0x69, 0x6F, 0x70, 0x5B, 0x5D, 10,
      0, 0x61, 0x73, 0x64, 0x66, 0x67, 0x68, 0x6A, 0x6B, 0x6C, 0x3B, 0x27, 0x60,
      0, 0x5C, 0x7A, 0x78, 0x63, 0x76, 0x62, 0x6E, 0x6D, 0x2C, 0x2E, 0x2F, 0,
      0x2A, 0, 0x20] @ replicate 70 0"

definition scancode_ascii_shift :: "u8 list" where
  "scancode_ascii_shift =
     [0, 27, 0x21, 0x40, 0x23, 0x24, 0x25, 0x5E, 0x26, 0x2A, 0x28, 0x29, 0x5F, 0x2B, 8,
      9, 0x51, 0x57, 0x45, 0x52, 0x54, 0x59, 0x55, 0x49, 0x4F, 0x50, 0x7B, 0x7D, 10,
      0, 0x41, 0x53, 0x44, 0x46, 0x47, 0x48, 0x4A, 0x4B, 0x4C, 0x3A, 0x22, 0x7E,
      0, 0x7C, 0x5A, 0x58, 0x43, 0x56, 0x42, 0x4E, 0x4D, 0x3C, 0x3E, 0x3F, 0,
      0x2A, 0, 0x20] @ replicate 70 0"

section \<open>State and operations\<close>

record kbd =
  kbd_buffer :: "u32 \<Rightarrow> u8"
  kbd_read_pos :: u32
  kbd_write_pos :: u32
  left_shift :: bool
  right_shift :: bool
  caps_lock :: bool
  extended :: bool

definition is_letter_scancode :: "u8 \<Rightarrow> bool" where
  "is_letter_scancode scancode \<longleftrightarrow>
     (scancode \<ge> 0x10 \<and> scancode \<le> 0x19)
     \<or> (scancode \<ge> 0x1E \<and> scancode \<le> 0x26)
     \<or> (scancode \<ge> 0x2C \<and> scancode \<le> 0x32)"

definition scancode_to_ascii :: "kbd \<Rightarrow> u8 \<Rightarrow> u8" where
  "scancode_to_ascii k scancode =
     (let shift = left_shift k \<or> right_shift k in
      if unat scancode \<ge> length scancode_ascii then 0
      else
        let table = (if is_letter_scancode scancode
                     then if shift \<noteq> caps_lock k then scancode_ascii_shift else scancode_ascii
                     else if shift then scancode_ascii_shift else scancode_ascii)
        in table ! unat scancode)"

definition kbd_buffer_push :: "u8 \<Rightarrow> kbd \<Rightarrow> kbd" where
  "kbd_buffer_push c k =
     (let next = (kbd_write_pos k + 1) mod KBD_BUF_SIZE in
      if next = kbd_read_pos k then k
      else k\<lparr>kbd_buffer := (kbd_buffer k)(kbd_write_pos k := c), kbd_write_pos := next\<rparr>)"

text \<open>The handler, with the byte \<open>inb(KBD_DATA_PORT)\<close> returned.\<close>

definition keyboard_irq_handler :: "u8 \<Rightarrow> kbd \<Rightarrow> kbd" where
  "keyboard_irq_handler scancode k =
     (if scancode = SCANCODE_EXT then k\<lparr>extended := True\<rparr>
      else if scancode AND 0x80 \<noteq> 0 then
        let scancode = scancode AND 0x7F;
            k = (if scancode = SCANCODE_LSHIFT then k\<lparr>left_shift := False\<rparr>
                 else if scancode = SCANCODE_RSHIFT then k\<lparr>right_shift := False\<rparr> else k)
        in k\<lparr>extended := False\<rparr>
      else if extended k then k\<lparr>extended := False\<rparr>
      else if scancode = SCANCODE_LSHIFT then k\<lparr>left_shift := True\<rparr>
      else if scancode = SCANCODE_RSHIFT then k\<lparr>right_shift := True\<rparr>
      else if scancode = SCANCODE_CAPS then k\<lparr>caps_lock := \<not> caps_lock k\<rparr>
      else if scancode = SCANCODE_LCTRL \<or> scancode = SCANCODE_LALT then k
      else
        let c = scancode_to_ascii k scancode in
        if c \<noteq> 0 then kbd_buffer_push c k else k)"

text \<open>\<open>keyboard_init\<close> but for \<open>irq_register\<close> and \<open>pic_unmask\<close>.\<close>

definition keyboard_reset :: "kbd \<Rightarrow> kbd" where
  "keyboard_reset k = k\<lparr>kbd_read_pos := 0, kbd_write_pos := 0, left_shift := False,
     right_shift := False, caps_lock := False, extended := False\<rparr>"

definition keyboard_has_key :: "kbd \<Rightarrow> bool" where
  "keyboard_has_key k \<longleftrightarrow> kbd_read_pos k \<noteq> kbd_write_pos k"

text \<open>
  The part of \<open>keyboard_getchar\<close> between \<open>cli\<close> and \<open>sti\<close>, once the buffer is not empty, and its
  loop: while the buffer is empty the processor halts until the next keyboard interrupt. The
  interrupts still to come are the list \<open>scs\<close> of their scan codes; with no interrupt left the call
  waits for ever, which is \<open>None\<close>.
\<close>

definition kbd_take :: "kbd \<Rightarrow> kbd \<times> u8" where
  "kbd_take k =
     (k\<lparr>kbd_read_pos := (kbd_read_pos k + 1) mod KBD_BUF_SIZE\<rparr>, kbd_buffer k (kbd_read_pos k))"

fun keyboard_getchar :: "u8 list \<Rightarrow> kbd \<Rightarrow> (u8 list \<times> kbd \<times> u8) option" where
  "keyboard_getchar scs k =
     (if kbd_read_pos k \<noteq> kbd_write_pos k then Some (scs, kbd_take k)
      else case scs of [] \<Rightarrow> None | sc # scs \<Rightarrow> keyboard_getchar scs (keyboard_irq_handler sc k))"

declare keyboard_getchar.simps [simp del]

section \<open>The queue interface\<close>

locale char_queue =
  fixes inv :: "'s \<Rightarrow> bool"
    and items :: "'s \<Rightarrow> u8 list"
    and capacity :: nat
    and put :: "u8 \<Rightarrow> 's \<Rightarrow> 's"
    and has :: "'s \<Rightarrow> bool"
    and take_one :: "'s \<Rightarrow> 's \<times> u8"
  assumes put_law: "inv s \<Longrightarrow> inv (put c s) \<and>
      items (put c s) = (if length (items s) < capacity then items s @ [c] else items s)"
    and has_law: "inv s \<Longrightarrow> has s \<longleftrightarrow> items s \<noteq> []"
    and take_law: "inv s \<Longrightarrow> items s \<noteq> [] \<Longrightarrow>
      inv (fst (take_one s)) \<and> items (fst (take_one s)) = tl (items s) \<and> snd (take_one s) = hd (items s)"
    and bounded: "inv s \<Longrightarrow> length (items s) \<le> capacity"
begin

text \<open>A burst of characters is kept in order up to the capacity; the rest is dropped.\<close>

lemma put_all:
  "inv s \<Longrightarrow> inv (fold put cs s) \<and> items (fold put cs s) = items s @ take (capacity - length (items s)) cs"
proof (induction cs arbitrary: s)
  case (Cons c cs)
  have p: "inv (put c s)" "items (put c s) = (if length (items s) < capacity then items s @ [c] else items s)"
    using put_law [OF Cons.prems] by blast+
  show ?case
  proof (cases "length (items s) < capacity")
    case True
    then have "capacity - length (items s) = Suc (capacity - Suc (length (items s)))" by simp
    then show ?thesis using Cons.IH [OF p(1)] p(2) True by simp
  next
    case False
    then show ?thesis using Cons.IH [OF p(1)] p(2) by simp
  qed
qed simp

end

section \<open>The ring buffer is a queue of 255 characters\<close>

definition kbd_inv :: "kbd \<Rightarrow> bool" where
  "kbd_inv k \<longleftrightarrow> kbd_read_pos k < KBD_BUF_SIZE \<and> kbd_write_pos k < KBD_BUF_SIZE"

definition kbd_count :: "kbd \<Rightarrow> nat" where
  "kbd_count k = (unat (kbd_write_pos k) + 256 - unat (kbd_read_pos k)) mod 256"

definition kbd_items :: "kbd \<Rightarrow> u8 list" where
  "kbd_items k = map (\<lambda>i. kbd_buffer k (of_nat ((unat (kbd_read_pos k) + i) mod 256))) [0..<kbd_count k]"

lemma kbd_pos_step: "p < KBD_BUF_SIZE \<Longrightarrow> unat ((p + 1) mod KBD_BUF_SIZE) = (unat p + 1) mod 256 \<and> (p + 1) mod KBD_BUF_SIZE < KBD_BUF_SIZE"
  by (simp add: KBD_BUF_SIZE_def unats word_less_nat_alt unat_plus_small)

lemma kbd_count_push:
  assumes "r < 256" and "w < (256::nat)" and "(w + 1) mod 256 \<noteq> r"
  shows "((w + 1) mod 256 + 256 - r) mod 256 = Suc ((w + 256 - r) mod 256)"
  using assms by (cases "w = 255"; cases "r \<le> w") (auto simp: mod_if)

lemma kbd_count_full:
  assumes "r < 256" and "w < (256::nat)"
  shows "(w + 1) mod 256 = r \<longleftrightarrow> (w + 256 - r) mod 256 = 255"
  using assms by (cases "w = 255"; cases "r \<le> w") (auto simp: mod_if)

lemma kbd_last_slot:
  assumes "r < 256" and "w < (256::nat)"
  shows "(r + (w + 256 - r) mod 256) mod 256 = w"
  using assms by (cases "r \<le> w") (auto simp: mod_if)

lemma kbd_slot_inj:
  assumes "r < (256::nat)" and "i < 256" and "j < 256" and "(r + i) mod 256 = (r + j) mod 256"
  shows "i = j"
  using assms by (auto simp: mod_if split: if_splits)

lemma kbd_buffer_push_law:
  assumes "kbd_inv k"
  shows "kbd_inv (kbd_buffer_push c k) \<and> kbd_items (kbd_buffer_push c k) =
    (if length (kbd_items k) < 255 then kbd_items k @ [c] else kbd_items k)"
proof -
  let ?r = "unat (kbd_read_pos k)" and ?w = "unat (kbd_write_pos k)"
  have r: "?r < 256" and w: "?w < 256"
    using assms by (simp_all add: kbd_inv_def KBD_BUF_SIZE_def word_less_nat_alt)
  have pos: "unat ((kbd_write_pos k + 1) mod KBD_BUF_SIZE) = (?w + 1) mod 256"
    "(kbd_write_pos k + 1) mod KBD_BUF_SIZE < KBD_BUF_SIZE"
    using kbd_pos_step assms by (simp_all add: kbd_inv_def)
  have full: "(kbd_write_pos k + 1) mod KBD_BUF_SIZE = kbd_read_pos k \<longleftrightarrow> kbd_count k = 255"
    using kbd_count_full [OF r w] pos(1) by (metis kbd_count_def u32_eqI)
  have len: "length (kbd_items k) = kbd_count k" "kbd_count k < 256" by (simp_all add: kbd_items_def kbd_count_def)
  show ?thesis
  proof (cases "kbd_count k = 255")
    case True
    then show ?thesis using full assms len by (simp add: kbd_buffer_push_def Let_def)
  next
    case False
    let ?k = "k\<lparr>kbd_buffer := (kbd_buffer k)(kbd_write_pos k := c), kbd_write_pos := (kbd_write_pos k + 1) mod KBD_BUF_SIZE\<rparr>"
    have eq: "kbd_buffer_push c k = ?k" using False full by (simp add: kbd_buffer_push_def Let_def)
    have "(?w + 1) mod 256 \<noteq> ?r" using False kbd_count_full [OF r w] by (simp add: kbd_count_def)
    then have count: "kbd_count ?k = Suc (kbd_count k)"
      using kbd_count_push [OF r w] pos(1) by (simp add: kbd_count_def)
    have slot: "(?r + kbd_count k) mod 256 = ?w" using kbd_last_slot [OF r w] by (simp add: kbd_count_def)
    have other: "of_nat ((?r + i) mod 256) \<noteq> kbd_write_pos k" if "i < kbd_count k" for i
    proof
      assume "of_nat ((?r + i) mod 256) = kbd_write_pos k"
      then have "unat (of_nat ((?r + i) mod 256) :: u32) = ?w" by simp
      then have "(?r + i) mod 256 = (?r + kbd_count k) mod 256" by (simp add: unat_of_nat_small slot)
      then show False using kbd_slot_inj [OF r, of i "kbd_count k"] that len(2) by simp
    qed
    have "kbd_items ?k = kbd_items k @ [c]"
      using count slot other by (simp add: kbd_items_def)
    moreover have "kbd_inv ?k" using pos(2) assms by (simp add: kbd_inv_def)
    ultimately show ?thesis using False len unfolding eq by simp
  qed
qed

lemma kbd_has_law:
  assumes "kbd_inv k"
  shows "keyboard_has_key k \<longleftrightarrow> kbd_items k \<noteq> []"
proof -
  have r: "unat (kbd_read_pos k) < 256" "unat (kbd_write_pos k) < 256"
    using assms by (simp_all add: kbd_inv_def KBD_BUF_SIZE_def word_less_nat_alt)
  have "kbd_count k = 0 \<longleftrightarrow> unat (kbd_read_pos k) = unat (kbd_write_pos k)"
    using r by (cases "unat (kbd_read_pos k) \<le> unat (kbd_write_pos k)") (auto simp: kbd_count_def mod_if)
  then show ?thesis by (auto simp: keyboard_has_key_def kbd_items_def intro: u32_eqI)
qed

lemma kbd_take_law:
  assumes "kbd_inv k" and "kbd_items k \<noteq> []"
  shows "kbd_inv (fst (kbd_take k)) \<and> kbd_items (fst (kbd_take k)) = tl (kbd_items k)
    \<and> snd (kbd_take k) = hd (kbd_items k)"
proof -
  let ?r = "unat (kbd_read_pos k)" and ?w = "unat (kbd_write_pos k)"
  have r: "?r < 256" "?w < 256"
    using assms(1) by (simp_all add: kbd_inv_def KBD_BUF_SIZE_def word_less_nat_alt)
  have pos: "unat ((kbd_read_pos k + 1) mod KBD_BUF_SIZE) = (?r + 1) mod 256"
    "(kbd_read_pos k + 1) mod KBD_BUF_SIZE < KBD_BUF_SIZE"
    using kbd_pos_step assms(1) by (simp_all add: kbd_inv_def)
  obtain n where n: "kbd_count k = Suc n" using assms(2) by (cases "kbd_count k") (simp_all add: kbd_items_def)
  then have ne: "?r \<noteq> ?w" by (auto simp: kbd_count_def)
  have count: "kbd_count (fst (kbd_take k)) = n"
    using n r ne pos(1) by (cases "?r = 255"; cases "?r \<le> ?w") (auto simp: kbd_count_def kbd_take_def mod_if split: if_splits)
  have shift: "((?r + 1) mod 256 + i) mod 256 = (?r + Suc i) mod 256" for i
    by (simp add: mod_add_left_eq)
  have "kbd_items k = kbd_buffer k (of_nat (?r mod 256)) #
      map (\<lambda>i. kbd_buffer k (of_nat ((?r + Suc i) mod 256))) [0..<n]"
    unfolding kbd_items_def n upt_conv_Cons [OF zero_less_Suc] map_Suc_upt [symmetric] by simp
  moreover have "kbd_items (fst (kbd_take k)) = map (\<lambda>i. kbd_buffer k (of_nat ((?r + Suc i) mod 256))) [0..<n]"
    using count pos(1) shift by (simp add: kbd_items_def kbd_take_def)
  moreover have "of_nat (?r mod 256) = kbd_read_pos k" using r by simp
  ultimately show ?thesis using assms(1) pos(2) by (simp add: kbd_take_def kbd_inv_def)
qed

interpretation kq: char_queue kbd_inv kbd_items 255 kbd_buffer_push keyboard_has_key kbd_take
proof unfold_locales
  show "length (kbd_items k) \<le> 255" for k
  proof -
    have "kbd_count k < 256" by (simp add: kbd_count_def)
    then show ?thesis by (simp add: kbd_items_def)
  qed
qed (use kbd_buffer_push_law kbd_has_law kbd_take_law in blast)+

section \<open>Decoding\<close>

text \<open>
  The character a scan code yields in the modifier state of \<open>k\<close>, if it yields one: a make code of a
  printing key that is not the second byte of an extended code.
\<close>

definition kbd_char :: "kbd \<Rightarrow> u8 \<Rightarrow> u8 option" where
  "kbd_char k sc =
     (if bit sc 7 \<or> extended k \<or> sc \<in> {SCANCODE_LSHIFT, SCANCODE_RSHIFT, SCANCODE_CAPS, SCANCODE_LCTRL, SCANCODE_LALT}
         \<or> scancode_to_ascii k sc = 0 then None
      else Some (scancode_to_ascii k sc))"

text \<open>The characters a sequence of scan codes types, however full the buffer is.\<close>

fun typed :: "kbd \<Rightarrow> u8 list \<Rightarrow> u8 list" where
  "typed k [] = []"
| "typed k (sc # scs) = (case kbd_char k sc of None \<Rightarrow> [] | Some c \<Rightarrow> [c]) @ typed (keyboard_irq_handler sc k) scs"

definition same_mods :: "kbd \<Rightarrow> kbd \<Rightarrow> bool" where
  "same_mods k l \<longleftrightarrow> left_shift k = left_shift l \<and> right_shift k = right_shift l
     \<and> caps_lock k = caps_lock l \<and> extended k = extended l"

lemma break_bit: "(sc::u8) AND 0x80 = 0 \<longleftrightarrow> \<not> bit sc 7"
  using and_exp_eq_0_iff_not_bit [of sc 7] by simp

lemma push_mods:
  "left_shift (kbd_buffer_push c k) = left_shift k" "right_shift (kbd_buffer_push c k) = right_shift k"
  "caps_lock (kbd_buffer_push c k) = caps_lock k" "extended (kbd_buffer_push c k) = extended k"
  by (simp_all add: kbd_buffer_push_def Let_def)

lemma handler_mods: "same_mods k l \<Longrightarrow> same_mods (keyboard_irq_handler sc k) (keyboard_irq_handler sc l)"
  by (auto simp: keyboard_irq_handler_def same_mods_def Let_def push_mods)

lemma char_mods: "same_mods k l \<Longrightarrow> kbd_char k sc = kbd_char l sc"
  by (simp add: kbd_char_def same_mods_def scancode_to_ascii_def Let_def)

lemma typed_mods: "same_mods k l \<Longrightarrow> typed k scs = typed l scs"
  by (induction scs arbitrary: k l) (simp_all add: char_mods handler_mods)

lemma ext_is_break: "bit SCANCODE_EXT 7"
  by (simp add: SCANCODE_EXT_def)

lemma handler_make:
  assumes "\<not> bit sc 7" and "\<not> extended k"
    and "sc \<notin> {SCANCODE_LSHIFT, SCANCODE_RSHIFT, SCANCODE_CAPS, SCANCODE_LCTRL, SCANCODE_LALT}"
  shows "keyboard_irq_handler sc k =
    (if scancode_to_ascii k sc \<noteq> 0 then kbd_buffer_push (scancode_to_ascii k sc) k else k)"
proof -
  have "sc \<noteq> SCANCODE_EXT" using assms(1) ext_is_break by auto
  then show ?thesis using assms by (simp add: keyboard_irq_handler_def break_bit Let_def)
qed

lemma handler_push:
  assumes "kbd_char k sc = Some c"
  shows "keyboard_irq_handler sc k = kbd_buffer_push c k"
proof -
  have "\<not> bit sc 7" "\<not> extended k"
    "sc \<notin> {SCANCODE_LSHIFT, SCANCODE_RSHIFT, SCANCODE_CAPS, SCANCODE_LCTRL, SCANCODE_LALT}"
    "scancode_to_ascii k sc = c" "c \<noteq> 0"
    using assms unfolding kbd_char_def by (auto split: if_splits)
  then show ?thesis using handler_make by simp
qed

lemma handler_no_push:
  assumes "kbd_char k sc = None"
  shows "kbd_buffer (keyboard_irq_handler sc k) = kbd_buffer k
    \<and> kbd_read_pos (keyboard_irq_handler sc k) = kbd_read_pos k
    \<and> kbd_write_pos (keyboard_irq_handler sc k) = kbd_write_pos k"
proof (cases "bit sc 7 \<or> extended k")
  case True
  then show ?thesis by (cases "bit sc 7") (simp_all add: keyboard_irq_handler_def break_bit Let_def)
next
  case False
  show ?thesis
  proof (cases "sc \<in> {SCANCODE_LSHIFT, SCANCODE_RSHIFT, SCANCODE_CAPS, SCANCODE_LCTRL, SCANCODE_LALT}")
    case True
    then show ?thesis using False unfolding keyboard_irq_handler_def break_bit by auto
  next
    case no_mod: False
    then have "scancode_to_ascii k sc = 0" using assms False by (simp add: kbd_char_def split: if_splits)
    then show ?thesis using handler_make [OF _ _ no_mod] False by simp
  qed
qed

text \<open>What the handler does to the queue.\<close>

lemma keyboard_irq_handler_items:
  assumes "kbd_inv k"
  shows "kbd_inv (keyboard_irq_handler sc k)"
    and "kbd_items (keyboard_irq_handler sc k) =
      (case kbd_char k sc of None \<Rightarrow> kbd_items k
       | Some c \<Rightarrow> if length (kbd_items k) < 255 then kbd_items k @ [c] else kbd_items k)"
proof -
  consider (push) c where "kbd_char k sc = Some c" "keyboard_irq_handler sc k = kbd_buffer_push c k"
    | (mods) "kbd_char k sc = None" "kbd_buffer (keyboard_irq_handler sc k) = kbd_buffer k"
      "kbd_read_pos (keyboard_irq_handler sc k) = kbd_read_pos k"
      "kbd_write_pos (keyboard_irq_handler sc k) = kbd_write_pos k"
    using handler_push handler_no_push by (cases "kbd_char k sc") blast+
  then have "kbd_inv (keyboard_irq_handler sc k) \<and> kbd_items (keyboard_irq_handler sc k) =
      (case kbd_char k sc of None \<Rightarrow> kbd_items k
       | Some c \<Rightarrow> if length (kbd_items k) < 255 then kbd_items k @ [c] else kbd_items k)"
  proof cases
    case push
    then show ?thesis using kq.put_law [OF assms, of c] by simp
  next
    case mods
    then show ?thesis using assms by (simp add: kbd_inv_def kbd_items_def kbd_count_def)
  qed
  then show "kbd_inv (keyboard_irq_handler sc k)" "kbd_items (keyboard_irq_handler sc k) =
      (case kbd_char k sc of None \<Rightarrow> kbd_items k
       | Some c \<Rightarrow> if length (kbd_items k) < 255 then kbd_items k @ [c] else kbd_items k)" by blast+
qed

lemma handler_fold:
  "kbd_inv k \<Longrightarrow> kbd_inv (fold keyboard_irq_handler scs k)
     \<and> kbd_items (fold keyboard_irq_handler scs k)
       = kbd_items k @ take (255 - length (kbd_items k)) (typed k scs)"
proof (induction scs arbitrary: k)
  case (Cons sc scs)
  note h = keyboard_irq_handler_items [OF Cons.prems, of sc] and IH = Cons.IH [OF keyboard_irq_handler_items(1) [OF Cons.prems, of sc]]
  show ?case
  proof (cases "kbd_char k sc")
    case None
    then show ?thesis using IH h by simp
  next
    case (Some c)
    show ?thesis
    proof (cases "length (kbd_items k) < 255")
      case True
      then have "255 - length (kbd_items k) = Suc (255 - Suc (length (kbd_items k)))" by simp
      then show ?thesis using IH h Some True by simp
    next
      case False
      then show ?thesis using IH h Some by simp
    qed
  qed
qed simp

text \<open>The tables at every scan code.\<close>

lemma table_letters:
  "\<forall>s \<in> set [0..<128]. is_letter_scancode (of_nat s)
     \<longleftrightarrow> 0x61 \<le> scancode_ascii ! s \<and> scancode_ascii ! s \<le> 0x7A"
  by code_simp

lemma table_shift_letters:
  "\<forall>s \<in> set [0..<128]. is_letter_scancode (of_nat s) \<longrightarrow> scancode_ascii_shift ! s = scancode_ascii ! s - 0x20"
  by code_simp

lemma getchar_ready:
  assumes "kbd_inv k" and "kbd_items k \<noteq> []"
  shows "keyboard_getchar scs k = Some (scs, kbd_take k)"
  using kq.has_law [OF assms(1)] assms(2)
  by (subst keyboard_getchar.simps) (simp add: keyboard_has_key_def)

lemma getchar_empty:
  assumes "kbd_inv k" and "kbd_items k = []"
  shows "keyboard_getchar [] k = None"
    and "keyboard_getchar (sc # scs) k = keyboard_getchar scs (keyboard_irq_handler sc k)"
  using kq.has_law [OF assms(1)] assms(2)
  by (subst keyboard_getchar.simps, simp add: keyboard_has_key_def)+

lemma getchar_typed:
  assumes "kbd_inv k"
  shows "case kbd_items k @ typed k scs of
      [] \<Rightarrow> keyboard_getchar scs k = None
    | c # cs \<Rightarrow> \<exists>seen rest l. scs = seen @ rest \<and> keyboard_getchar scs k = Some (rest, l, c)
        \<and> kbd_inv l \<and> kbd_items l @ typed l rest = cs"
  using assms
proof (induction scs arbitrary: k)
  case Nil
  show ?case
  proof (cases "kbd_items k")
    case Nil
    then show ?thesis using getchar_empty(1) [OF Nil.prems] by simp
  next
    case (Cons c cs)
    then show ?thesis using getchar_ready [OF Nil.prems] kq.take_law [OF Nil.prems] by (cases "kbd_take k") auto
  qed
next
  case (Cons sc scs)
  show ?case
  proof (cases "kbd_items k")
    case (Cons c cs)
    let ?l = "fst (kbd_take k)"
    have t: "kbd_inv ?l" "kbd_items ?l = cs" "snd (kbd_take k) = c"
      using kq.take_law [OF Cons.prems] Cons by auto
    have "same_mods ?l k" by (simp add: same_mods_def kbd_take_def)
    then have "typed ?l (sc # scs) = typed k (sc # scs)" by (rule typed_mods)
    then have "kbd_items ?l @ typed ?l (sc # scs) = cs @ typed k (sc # scs)" using t(2) by simp
    moreover have "keyboard_getchar (sc # scs) k = Some (sc # scs, ?l, c)"
      using getchar_ready [OF Cons.prems, of "sc # scs"] Cons t(3) by (metis list.distinct(1) prod.collapse)
    ultimately show ?thesis using t(1) unfolding Cons append_Cons list.case
      by (intro exI [of _ "[]"] exI [of _ "sc # scs"] exI [of _ ?l]) simp
  next
    case Nil
    let ?k = "keyboard_irq_handler sc k"
    note h = keyboard_irq_handler_items [OF Cons.prems, of sc]
    have eq: "kbd_items ?k @ typed ?k scs = kbd_items k @ typed k (sc # scs)"
      using h(2) Nil by (cases "kbd_char k sc") simp_all
    show ?thesis
      using Cons.IH [OF h(1)] getchar_empty(2) [OF Cons.prems Nil, of sc scs] unfolding eq
      by (auto split: list.splits)
  qed
qed

section \<open>Properties\<close>

definition example_kbd :: kbd where
  "example_kbd = keyboard_reset \<lparr>kbd_buffer = (\<lambda>_. 0), kbd_read_pos = 7, kbd_write_pos = 9,
     left_shift = True, right_shift = False, caps_lock = True, extended = True\<rparr>"

lemma example_kbd_inv: "kbd_inv example_kbd" "kbd_items example_kbd = []"
  by (simp_all add: example_kbd_def keyboard_reset_def kbd_inv_def KBD_BUF_SIZE_def kbd_items_def kbd_count_def)

text \<open>C30: the ring buffer is a first-in first-out queue of 255 characters: any number of interrupts in a
  row append what they type in order until the queue is full and drop the rest.\<close>

theorem keyboard_irq_fifo:
  assumes "kbd_inv k"
  shows "kbd_inv (fold keyboard_irq_handler scs k)
    \<and> kbd_items (fold keyboard_irq_handler scs k) = kbd_items k @ take (255 - length (kbd_items k)) (typed k scs)"
  using assms by (rule handler_fold)

theorem keyboard_irq_fifo_witness:
  "kbd_items (fold keyboard_irq_handler [0x23, 0xA3, 0x17, 0x97] example_kbd) = [0x68, 0x69]"
proof -
  have "typed example_kbd [0x23, 0xA3, 0x17, 0x97] = [0x68, 0x69]" by code_simp
  then show ?thesis
    using keyboard_irq_fifo [OF example_kbd_inv(1), of "[0x23, 0xA3, 0x17, 0x97]"]
    by (simp add: example_kbd_inv(2))
qed

text \<open>\<open>keyboard_getchar\<close> returns the oldest character that is queued or still to be typed, leaves
  the others in order, and waits for ever exactly when there is none.\<close>

theorem keyboard_getchar_next:
  assumes "kbd_inv k"
  shows "case kbd_items k @ typed k scs of
      [] \<Rightarrow> keyboard_getchar scs k = None
    | c # cs \<Rightarrow> \<exists>seen rest l. scs = seen @ rest \<and> keyboard_getchar scs k = Some (rest, l, c)
        \<and> kbd_inv l \<and> kbd_items l @ typed l rest = cs"
  using assms by (rule getchar_typed)

theorem keyboard_getchar_next_witness:
  "\<exists>rest l. keyboard_getchar [0x2A, 0x23, 0xA3, 0xAA, 0x17] example_kbd = Some (rest, l, 0x48)"
proof -
  have "typed example_kbd [0x2A, 0x23, 0xA3, 0xAA, 0x17] = [0x48, 0x69]" by code_simp
  then show ?thesis using keyboard_getchar_next [OF example_kbd_inv(1), of "[0x2A, 0x23, 0xA3, 0xAA, 0x17]"]
    by (auto simp: example_kbd_inv(2))
qed

text \<open>The letter keys are exactly the scan codes whose character is a lower-case letter; they give
  the upper-case letter when exactly one of Shift and Caps Lock is on. Caps Lock changes no other
  key.\<close>

theorem caps_lock_letters:
  assumes "scancode < 0x80"
  shows "(is_letter_scancode scancode \<longleftrightarrow>
      0x61 \<le> scancode_ascii ! unat scancode \<and> scancode_ascii ! unat scancode \<le> 0x7A)
    \<and> scancode_to_ascii k scancode =
      (if is_letter_scancode scancode
       then if (left_shift k \<or> right_shift k) \<noteq> caps_lock k
         then scancode_ascii ! unat scancode - 0x20 else scancode_ascii ! unat scancode
       else if left_shift k \<or> right_shift k then scancode_ascii_shift ! unat scancode
         else scancode_ascii ! unat scancode)"
proof -
  have s: "unat scancode \<in> set [0..<128]" "of_nat (unat scancode) = scancode"
    using assms by (simp_all add: word_less_nat_alt)
  have "length scancode_ascii = 128" by (simp add: scancode_ascii_def)
  then show ?thesis
    using bspec [OF table_letters s(1)] bspec [OF table_shift_letters s(1)] s
    by (simp add: scancode_to_ascii_def Let_def)
qed

theorem caps_lock_letters_witness:
  "scancode_to_ascii (example_kbd\<lparr>caps_lock := True\<rparr>) 0x10 = 0x51
   \<and> scancode_to_ascii (example_kbd\<lparr>caps_lock := True\<rparr>) 0x02 = 0x31"
proof -
  have l: "(0x10::u8) < 0x80" "(0x02::u8) < 0x80" by simp_all
  have m: "\<not> left_shift example_kbd" "\<not> right_shift example_kbd"
    by (simp_all add: example_kbd_def keyboard_reset_def)
  show ?thesis
    using caps_lock_letters [OF l(1), of "example_kbd\<lparr>caps_lock := True\<rparr>"]
      caps_lock_letters [OF l(2), of "example_kbd\<lparr>caps_lock := True\<rparr>"] m
    by (simp add: is_letter_scancode_def scancode_ascii_def)
qed

text \<open>The prefix 0xE0 is ignored for releases: the fake release of Shift that the controller sends
  around an extended key (0xE0 0xAA) clears the modifier although the key is still held.\<close>

theorem extended_break_clears_shift:
  assumes "left_shift k"
  shows "\<not> left_shift (fold keyboard_irq_handler [0xE0, 0xAA] k)
    \<and> right_shift (fold keyboard_irq_handler [0xE0, 0xAA] k) = right_shift k
    \<and> left_shift (fold keyboard_irq_handler [0xE0, 0x2A] k)"
  using assms by (simp add: keyboard_irq_handler_def Let_def SCANCODE_EXT_def SCANCODE_LSHIFT_def
      SCANCODE_RSHIFT_def)

theorem extended_break_clears_shift_witness:
  "\<not> left_shift (fold keyboard_irq_handler [0xE0, 0xAA] (keyboard_irq_handler 0x2A example_kbd))
   \<and> typed example_kbd [0x2A, 0xE0, 0xAA, 0x1E] = [0x61]"
proof -
  have "left_shift (keyboard_irq_handler 0x2A example_kbd)" by code_simp
  moreover have "typed example_kbd [0x2A, 0xE0, 0xAA, 0x1E] = [0x61]" by code_simp
  ultimately show ?thesis using extended_break_clears_shift by blast
qed

end
