(* ===== verification/Gdt.thy ===== *)
theory Gdt
  imports Printf
begin

text \<open>
  The segment descriptors (\<open>gdt/gdt.c\<close>, \<open>gdt.h\<close>, \<open>flush_gdt.S\<close>): the two encoders, the table of five
  descriptors and its load. The decoding side is the processor's reading of a descriptor: the lemmas
  show that a descriptor decodes to the base, limit and flags it was made from, that the two encoders
  agree, and that the table holds flat segments.
\<close>

section \<open>Definitions\<close>

definition SEG_DESCTYPE :: "u16 \<Rightarrow> u16" where "SEG_DESCTYPE x = push_bit 0x04 x"
definition SEG_PRES :: "u16 \<Rightarrow> u16" where "SEG_PRES x = push_bit 0x07 x"
definition SEG_SAVL :: "u16 \<Rightarrow> u16" where "SEG_SAVL x = push_bit 0x0C x"
definition SEG_LONG :: "u16 \<Rightarrow> u16" where "SEG_LONG x = push_bit 0x0D x"
definition SEG_SIZE :: "u16 \<Rightarrow> u16" where "SEG_SIZE x = push_bit 0x0E x"
definition SEG_GRAN :: "u16 \<Rightarrow> u16" where "SEG_GRAN x = push_bit 0x0F x"
definition SEG_PRIV :: "u16 \<Rightarrow> u16" where "SEG_PRIV x = push_bit 0x05 (x AND 0x03)"
definition SEG_DATA_RD :: u16 where "SEG_DATA_RD = 0x00"
definition SEG_DATA_RDA :: u16 where "SEG_DATA_RDA = 0x01"
definition SEG_DATA_RDWRA :: u16 where "SEG_DATA_RDWRA = 0x03"
definition SEG_DATA_RDEXPD :: u16 where "SEG_DATA_RDEXPD = 0x04"
definition SEG_DATA_RDEXPDA :: u16 where "SEG_DATA_RDEXPDA = 0x05"
definition SEG_DATA_RDWREXPD :: u16 where "SEG_DATA_RDWREXPD = 0x06"
definition SEG_DATA_RDWREXPDA :: u16 where "SEG_DATA_RDWREXPDA = 0x07"
definition SEG_CODE_EX :: u16 where "SEG_CODE_EX = 0x08"
definition SEG_CODE_EXA :: u16 where "SEG_CODE_EXA = 0x09"
definition SEG_CODE_EXRDA :: u16 where "SEG_CODE_EXRDA = 0x0B"
definition SEG_CODE_EXC :: u16 where "SEG_CODE_EXC = 0x0C"
definition SEG_CODE_EXCA :: u16 where "SEG_CODE_EXCA = 0x0D"
definition SEG_CODE_EXRDC :: u16 where "SEG_CODE_EXRDC = 0x0E"
definition SEG_CODE_EXRDCA :: u16 where "SEG_CODE_EXRDCA = 0x0F"
definition SEG_DATA_RDWR :: u16 where "SEG_DATA_RDWR = 0x02"
definition SEG_CODE_EXRD :: u16 where "SEG_CODE_EXRD = 0x0A"

definition GDT_CODE_PL0 :: u16 where
  "GDT_CODE_PL0 = SEG_DESCTYPE 1 OR SEG_PRES 1 OR SEG_SAVL 0 OR SEG_LONG 0 OR SEG_SIZE 1 OR SEG_GRAN 1
     OR SEG_PRIV 0 OR SEG_CODE_EXRD"

definition GDT_DATA_PL0 :: u16 where
  "GDT_DATA_PL0 = SEG_DESCTYPE 1 OR SEG_PRES 1 OR SEG_SAVL 0 OR SEG_LONG 0 OR SEG_SIZE 1 OR SEG_GRAN 1
     OR SEG_PRIV 0 OR SEG_DATA_RDWR"

definition GDT_CODE_PL3 :: u16 where
  "GDT_CODE_PL3 = SEG_DESCTYPE 1 OR SEG_PRES 1 OR SEG_SAVL 0 OR SEG_LONG 0 OR SEG_SIZE 1 OR SEG_GRAN 1
     OR SEG_PRIV 3 OR SEG_CODE_EXRD"

definition GDT_DATA_PL3 :: u16 where
  "GDT_DATA_PL3 = SEG_DESCTYPE 1 OR SEG_PRES 1 OR SEG_SAVL 0 OR SEG_LONG 0 OR SEG_SIZE 1 OR SEG_GRAN 1
     OR SEG_PRIV 3 OR SEG_DATA_RDWR"

record GDTDescriptor =
  gd_base :: u32
  gd_limit :: u32
  gd_flags :: u16

record GDTEntry =
  limit_low :: u16
  base_low :: u16
  base_middle :: u8
  access :: u8
  granularity :: u8
  base_high :: u8

definition create_descriptor :: "u32 \<Rightarrow> u32 \<Rightarrow> u16 \<Rightarrow> GDTEntry" where
  "create_descriptor base limit flag =
     (let descriptor = (ucast limit :: u64) AND 0x000F0000;
          descriptor = descriptor OR (push_bit 8 (ucast flag) AND 0x00F0FF00);
          descriptor = descriptor OR (ucast (drop_bit 16 base) AND 0x000000FF);
          descriptor = descriptor OR (ucast base AND 0xFF000000);
          descriptor = push_bit 32 descriptor;
          descriptor = descriptor OR push_bit 16 (ucast base);
          descriptor = descriptor OR (ucast limit AND 0x0000FFFF)
      in \<lparr>limit_low = ucast (descriptor AND 0xFFFF),
          base_low = ucast (drop_bit 16 descriptor AND 0xFFFF),
          base_middle = ucast (drop_bit 32 descriptor AND 0xFF),
          access = ucast (drop_bit 40 descriptor AND 0xFF),
          granularity = ucast (drop_bit 48 descriptor AND 0xFF),
          base_high = ucast (drop_bit 56 descriptor AND 0xFF)\<rparr>)"

text \<open>\<open>encodeGdtEntry\<close> stores into the eight bytes at \<open>target\<close>; the error message goes to the terminal.\<close>

definition encodeGdtEntry :: "u32 \<Rightarrow> GDTDescriptor \<Rightarrow> memory \<Rightarrow> tty \<Rightarrow> (memory \<times> tty) option" where
  "encodeGdtEntry target source m t =
     (if gd_limit source > 0xFFFFF then
        map_option (\<lambda>t. (m, t)) (printf_out (chars_nl ''ERROR: GDT cannot encode limits larger than 0xFFFFF'') [] t)
      else
        let m = m(target + 0 := ucast (gd_limit source AND 0xFF));
            m = m(target + 1 := ucast (drop_bit 8 (gd_limit source) AND 0xFF));
            m = m(target + 6 := ucast (drop_bit 16 (gd_limit source) AND 0x0F));
            m = m(target + 2 := ucast (gd_base source AND 0xFF));
            m = m(target + 3 := ucast (drop_bit 8 (gd_base source) AND 0xFF));
            m = m(target + 4 := ucast (drop_bit 16 (gd_base source) AND 0xFF));
            m = m(target + 7 := ucast (drop_bit 24 (gd_base source) AND 0xFF));
            m = m(target + 5 := ucast (gd_flags source AND 0xFF));
            m = m(target + 6 := m (target + 6) OR ucast (drop_bit 8 (gd_flags source) AND 0xF0))
        in Some (m, t))"

text \<open>
  The table, the operand of \<open>lgdt\<close>, and what \<open>gdt_flush\<close> loads from it: the table register, the code
  selector and the selector of the five data segment registers. \<open>table\<close> is the address of
  \<open>gdt_entries\<close>.
\<close>

record gdt =
  gdt_entries :: "GDTEntry list"
  gdt_ptr_limit :: u16
  gdt_ptr_base :: u32
  gdtr_limit :: u16
  gdtr_base :: u32
  seg_cs :: u16
  seg_data :: u16

definition gdt_flush :: "gdt \<Rightarrow> gdt" where
  "gdt_flush g = g\<lparr>gdtr_limit := gdt_ptr_limit g, gdtr_base := gdt_ptr_base g, seg_data := 0x10, seg_cs := 0x08\<rparr>"

definition gdt_init :: "u32 \<Rightarrow> gdt \<Rightarrow> gdt" where
  "gdt_init table g =
     (let g = g\<lparr>gdt_ptr_limit := 8 * 5 - 1, gdt_ptr_base := table\<rparr>;
          g = g\<lparr>gdt_entries := (gdt_entries g)[0 := create_descriptor 0 0 0]\<rparr>;
          g = g\<lparr>gdt_entries := (gdt_entries g)[1 := create_descriptor 0 0xFFFFFFFF GDT_CODE_PL0]\<rparr>;
          g = g\<lparr>gdt_entries := (gdt_entries g)[2 := create_descriptor 0 0xFFFFFFFF GDT_DATA_PL0]\<rparr>;
          g = g\<lparr>gdt_entries := (gdt_entries g)[3 := create_descriptor 0 0xFFFFFFFF GDT_CODE_PL3]\<rparr>;
          g = g\<lparr>gdt_entries := (gdt_entries g)[4 := create_descriptor 0 0xFFFFFFFF GDT_DATA_PL3]\<rparr>
      in gdt_flush g)"

section \<open>How the processor reads a descriptor\<close>

definition entry_base :: "GDTEntry \<Rightarrow> u32" where
  "entry_base e = ucast (base_low e) OR push_bit 16 (ucast (base_middle e)) OR push_bit 24 (ucast (base_high e))"

definition entry_limit :: "GDTEntry \<Rightarrow> u32" where
  "entry_limit e = ucast (limit_low e) OR push_bit 16 (ucast (granularity e) AND 0x0F)"

definition entry_flags :: "GDTEntry \<Rightarrow> u16" where
  "entry_flags e = ucast (access e) OR push_bit 8 (ucast (granularity e) AND 0xF0)"

text \<open>The last offset of the segment, in pages when the granularity bit is set.\<close>

definition entry_last :: "GDTEntry \<Rightarrow> u32" where
  "entry_last e = (if bit (granularity e) 7 then entry_limit e * 4096 + 0xFFF else entry_limit e)"

definition entry_present :: "GDTEntry \<Rightarrow> bool" where
  "entry_present e \<longleftrightarrow> bit (access e) 7"

definition entry_dpl :: "GDTEntry \<Rightarrow> u8" where
  "entry_dpl e = drop_bit 5 (access e) AND 3"

definition entry_executable :: "GDTEntry \<Rightarrow> bool" where
  "entry_executable e \<longleftrightarrow> bit (access e) 4 \<and> bit (access e) 3"

definition entry_bytes :: "GDTEntry \<Rightarrow> u8 list" where
  "entry_bytes e = [ucast (limit_low e), ucast (drop_bit 8 (limit_low e)), ucast (base_low e),
     ucast (drop_bit 8 (base_low e)), base_middle e, access e, granularity e, base_high e]"

text \<open>The sixteen segment types say what their names do: executable; expand-down or conforming; writable or readable;
  accessed, as the processor reads the low half of the access byte.\<close>

lemma segment_types:
  "\<forall>(ty, ex, dc, rw, ac) \<in> set [(SEG_DATA_RD, False, False, False, False), (SEG_DATA_RDA, False, False, False, True), (SEG_DATA_RDWR, False, False, True, False),
      (SEG_DATA_RDWRA, False, False, True, True), (SEG_DATA_RDEXPD, False, True, False, False), (SEG_DATA_RDEXPDA, False, True, False, True),
      (SEG_DATA_RDWREXPD, False, True, True, False), (SEG_DATA_RDWREXPDA, False, True, True, True), (SEG_CODE_EX, True, False, False, False),
      (SEG_CODE_EXA, True, False, False, True), (SEG_CODE_EXRD, True, False, True, False), (SEG_CODE_EXRDA, True, False, True, True),
      (SEG_CODE_EXC, True, True, False, False), (SEG_CODE_EXCA, True, True, False, True), (SEG_CODE_EXRDC, True, True, True, False),
      (SEG_CODE_EXRDCA, True, True, True, True)].
    (bit ty 3, bit ty 2, bit ty 1, bit ty 0) = (ex, dc, rw, ac) \<and> ty < 16"
  by code_simp

section \<open>The fields of a descriptor\<close>

lemma masks:
  "(0xFF::u64) = mask 8" "(0xFFFF::u64) = mask 16" "(0xF0000::u64) = push_bit 16 (mask 4)"
  "(0xFF000000::u64) = push_bit 24 (mask 8)" "(0xF0FF00::u64) = push_bit 8 (mask 8) OR push_bit 20 (mask 4)"
  "(0xFF::u32) = mask 8" "(0xFFFFF::u32) = mask 20" "(0x0F::u32) = mask 4" "(0xF::u32) = mask 4" "(0xFF::u16) = mask 8"
  "(0xF0FF::u16) = mask 8 OR push_bit 12 (mask 4)" "(0xF0::u16) = push_bit 4 (mask 4)" "(0xF0::u8) = push_bit 4 (mask 4)"
  "(0x0F::u8) = mask 4"
  by (simp_all add: mask_eq_exp_minus_1)

lemma descriptor_fields:
  shows "limit_low (create_descriptor b l f) = ucast l"
    and "base_low (create_descriptor b l f) = ucast b"
    and "base_middle (create_descriptor b l f) = ucast (drop_bit 16 b)"
    and "base_high (create_descriptor b l f) = ucast (drop_bit 24 b)"
    and "access (create_descriptor b l f) = ucast f OR ucast (drop_bit 24 b)"
    and "granularity (create_descriptor b l f) = (ucast (drop_bit 16 l) AND 0x0F) OR (ucast (drop_bit 8 f) AND 0xF0)"
  unfolding create_descriptor_def Let_def GDTEntry.simps masks
  by (rule bit_word_eqI; auto simp: bit_simps dest: bit_imp_le_length)+

lemma decode_base: "entry_base (create_descriptor b l f) = b"
  unfolding entry_base_def descriptor_fields
proof (rule bit_word_eqI)
  fix n
  assume "n < LENGTH(32)"
  then consider "n < 16" | "16 \<le> n" "n < 24" | "24 \<le> n" "n < 32" by fastforce
  then show "bit (ucast (ucast b :: u16) OR push_bit 16 (ucast (ucast (drop_bit 16 b) :: u8))
      OR push_bit 24 (ucast (ucast (drop_bit 24 b) :: u8)) :: u32) n = bit b n"
    by cases (auto simp: bit_simps)
qed

lemma decode_limit: "entry_limit (create_descriptor b l f) = l AND 0xFFFFF"
  unfolding entry_limit_def descriptor_fields masks
  by (rule bit_word_eqI) (auto simp: bit_simps)

lemma decode_flags: "entry_flags (create_descriptor b l f) = (f AND 0xF0FF) OR ucast (drop_bit 24 b)"
  unfolding entry_flags_def descriptor_fields masks
  by (rule bit_word_eqI) (auto simp: bit_simps dest: bit_imp_le_length)

text \<open>The bytes of a descriptor in memory.\<close>

lemma bytes_at:
  "map (\<lambda>i. m (a + of_nat i)) [0..<8] = [m a, m (a + 1), m (a + 2), m (a + 3), m (a + 4), m (a + 5), m (a + 6), m (a + 7)]"
  for m :: memory
  by (simp add: upt_conv_Cons)

lemma descriptor_bytes:
  "entry_bytes (create_descriptor b l f) =
     [ucast l, ucast (drop_bit 8 l), ucast b, ucast (drop_bit 8 b), ucast (drop_bit 16 b),
      ucast f OR ucast (drop_bit 24 b), (ucast (drop_bit 16 l) AND 0x0F) OR (ucast (drop_bit 8 f) AND 0xF0),
      ucast (drop_bit 24 b)]"
  unfolding entry_bytes_def descriptor_fields
  by (simp, intro conjI; rule bit_word_eqI; auto simp: bit_simps)

lemma encode_bytes:
  assumes "gd_limit d \<le> 0xFFFFF"
  shows "\<exists>m'. encodeGdtEntry a d m t = Some (m', t)
    \<and> map (\<lambda>i. m' (a + of_nat i)) [0..<8] =
     [ucast (gd_limit d), ucast (drop_bit 8 (gd_limit d)), ucast (gd_base d), ucast (drop_bit 8 (gd_base d)),
      ucast (drop_bit 16 (gd_base d)), ucast (gd_flags d),
      (ucast (drop_bit 16 (gd_limit d)) AND 0x0F) OR (ucast (drop_bit 8 (gd_flags d)) AND 0xF0),
      ucast (drop_bit 24 (gd_base d))]
    \<and> (\<forall>x. x \<notin> (\<lambda>i. a + of_nat i) ` {0..<8} \<longrightarrow> m' x = m x)"
proof -
  have c: "(ucast ((x::u32) AND 0xFF) :: u8) = ucast x" "(ucast ((y::u16) AND 0xFF) :: u8) = ucast y" for x y
    unfolding masks by (rule bit_word_eqI; auto simp: bit_simps)+
  have g: "(ucast ((x::u32) AND 0x0F) :: u8) OR ucast ((y::u16) AND 0xF0) = (ucast x AND 0x0F) OR (ucast y AND 0xF0)" for x y
    unfolding masks by (rule bit_word_eqI) (auto simp: bit_simps)
  have img: "(\<lambda>i. a + of_nat i) ` {0..<8} = {a, a + 1, a + 2, a + 3, a + 4, a + 5, a + 6, a + 7}"
    by (simp add: atLeast0LessThan lessThan_nat_numeral lessThan_Suc insert_commute)
  show ?thesis
    using assms unfolding bytes_at img by (auto simp: encodeGdtEntry_def Let_def c g not_less)
qed

lemma or_absorb: "(a::u8) OR b = a \<longleftrightarrow> b AND NOT a = 0"
  by (auto simp: bit_eq_iff bit_simps)

section \<open>Properties\<close>

text \<open>C33: a descriptor decodes to its base, to the low 20 bits of the limit and to the flags, except that
  bits 31 to 24 of the base are or-ed into the access byte: the whole 32-bit base is shifted into the
  64-bit word where the comment says bits 15 to 0.\<close>

theorem create_descriptor_decodes:
  "entry_base (create_descriptor base limit flag) = base
   \<and> entry_limit (create_descriptor base limit flag) = limit AND 0xFFFFF
   \<and> entry_flags (create_descriptor base limit flag) = (flag AND 0xF0FF) OR ucast (drop_bit 24 base)"
  by (simp only: decode_base decode_limit decode_flags simp_thms)

text \<open>For every limit that fits 20 bits \<open>encodeGdtEntry\<close> stores eight bytes and nothing else; they are
  the bytes of \<open>create_descriptor\<close> exactly when the top byte of the base has no bit outside the access
  byte. A larger limit stores nothing.\<close>

theorem gdt_encoders_agree:
  assumes "gd_limit d \<le> 0xFFFFF"
  shows "\<exists>m'. encodeGdtEntry a d m t = Some (m', t)
    \<and> (map (\<lambda>i. m' (a + of_nat i)) [0..<8] = entry_bytes (create_descriptor (gd_base d) (gd_limit d) (gd_flags d))
        \<longleftrightarrow> ucast (drop_bit 24 (gd_base d)) AND NOT (ucast (gd_flags d)) = (0::u8))
    \<and> (\<forall>x. x \<notin> (\<lambda>i. a + of_nat i) ` {0..<8} \<longrightarrow> m' x = m x)"
proof -
  obtain m' where m': "encodeGdtEntry a d m t = Some (m', t)"
    "map (\<lambda>i. m' (a + of_nat i)) [0..<8] =
     [ucast (gd_limit d), ucast (drop_bit 8 (gd_limit d)), ucast (gd_base d), ucast (drop_bit 8 (gd_base d)),
      ucast (drop_bit 16 (gd_base d)), ucast (gd_flags d),
      (ucast (drop_bit 16 (gd_limit d)) AND 0x0F) OR (ucast (drop_bit 8 (gd_flags d)) AND 0xF0),
      ucast (drop_bit 24 (gd_base d))]"
    "\<forall>x. x \<notin> (\<lambda>i. a + of_nat i) ` {0..<8} \<longrightarrow> m' x = m x"
    using encode_bytes [OF assms, of a m t] by (elim exE conjE)
  have "map (\<lambda>i. m' (a + of_nat i)) [0..<8] = entry_bytes (create_descriptor (gd_base d) (gd_limit d) (gd_flags d))
      \<longleftrightarrow> ucast (gd_flags d) OR ucast (drop_bit 24 (gd_base d)) = (ucast (gd_flags d) :: u8)"
    unfolding m'(2) descriptor_bytes list.inject by (simp only: simp_thms eq_commute [of "ucast (gd_flags d)"])
  then show ?thesis using m'(1,3) unfolding or_absorb by blast
qed

theorem gdt_encoders_agree_witness:
  "\<exists>m'. encodeGdtEntry 0x1000 \<lparr>gd_base = 0xC0000000, gd_limit = 0xFFFFF, gd_flags = 0xC012\<rparr> (\<lambda>_. 0) example_tty = Some (m', example_tty)
    \<and> map (\<lambda>i. m' (0x1000 + of_nat i)) [0..<8] \<noteq> entry_bytes (create_descriptor 0xC0000000 0xFFFFF 0xC012)"
proof -
  have "gd_limit \<lparr>gd_base = 0xC0000000, gd_limit = 0xFFFFF, gd_flags = 0xC012\<rparr> \<le> 0xFFFFF" by simp
  from gdt_encoders_agree [OF this, of "0x1000" "\<lambda>_. 0" example_tty] show ?thesis by fastforce
qed

text \<open>After \<open>gdt_init\<close> the table register covers the five descriptors, the null descriptor is empty, and
  the four others are present flat segments over the whole 4 GiB, code and data for the kernel at
  level 0 and for user programs at level 3; the loaded selectors 0x08 and 0x10 are the kernel's code
  and data.\<close>

theorem gdt_init_flat:
  assumes "length (gdt_entries g0) = 5" and "g = gdt_init table g0"
  shows "gdtr_base g = table \<and> unat (gdtr_limit g) + 1 = 8 * length (gdt_entries g)
    \<and> entry_bytes (gdt_entries g ! 0) = replicate 8 0
    \<and> (\<forall>i \<in> {1..4}. entry_base (gdt_entries g ! i) = 0 \<and> entry_last (gdt_entries g ! i) = 0xFFFFFFFF
        \<and> entry_present (gdt_entries g ! i) \<and> entry_dpl (gdt_entries g ! i) = (if i \<le> 2 then 0 else 3)
        \<and> (entry_executable (gdt_entries g ! i) \<longleftrightarrow> odd i))
    \<and> unat (seg_cs g) div 8 = 1 \<and> unat (seg_data g) div 8 = 2"
proof -
  obtain e0 e1 e2 e3 e4 where "gdt_entries g0 = [e0, e1, e2, e3, e4]"
    using assms(1) by (auto simp: length_Suc_conv eval_nat_numeral)
  then have e: "gdt_entries g = [create_descriptor 0 0 0, create_descriptor 0 0xFFFFFFFF GDT_CODE_PL0,
      create_descriptor 0 0xFFFFFFFF GDT_DATA_PL0, create_descriptor 0 0xFFFFFFFF GDT_CODE_PL3,
      create_descriptor 0 0xFFFFFFFF GDT_DATA_PL3]"
    by (simp add: assms(2) gdt_init_def gdt_flush_def Let_def eval_nat_numeral)
  have regs: "gdtr_base g = table" "gdtr_limit g = 39" "seg_cs g = 8" "seg_data g = 16"
    by (simp_all add: assms(2) gdt_init_def gdt_flush_def Let_def)
  have null: "entry_bytes (create_descriptor 0 0 0) = replicate 8 0"
    by (simp add: descriptor_bytes eval_nat_numeral)
  have seg: "\<forall>(f, d, x) \<in> set [(GDT_CODE_PL0, 0, True), (GDT_DATA_PL0, 0, False), (GDT_CODE_PL3, 3, True), (GDT_DATA_PL3, 3, False)].
      entry_base (create_descriptor 0 0xFFFFFFFF f) = 0 \<and> entry_last (create_descriptor 0 0xFFFFFFFF f) = 0xFFFFFFFF
      \<and> entry_present (create_descriptor 0 0xFFFFFFFF f) \<and> entry_dpl (create_descriptor 0 0xFFFFFFFF f) = d
      \<and> entry_executable (create_descriptor 0 0xFFFFFFFF f) = x"
    by code_simp
  have "{1..4::nat} = {1, 2, 3, 4}" by auto
  then show ?thesis using seg by (simp add: e regs null)
qed

theorem gdt_init_flat_witness:
  "entry_dpl (gdt_entries (gdt_init 0xC0105000 \<lparr>gdt_entries = replicate 5 (create_descriptor 1 1 1), gdt_ptr_limit = 0,
     gdt_ptr_base = 0, gdtr_limit = 0, gdtr_base = 0, seg_cs = 0, seg_data = 0\<rparr>) ! 3) = 3"
  using gdt_init_flat [OF _ refl, of "\<lparr>gdt_entries = replicate 5 (create_descriptor 1 1 1), gdt_ptr_limit = 0,
     gdt_ptr_base = 0, gdtr_limit = 0, gdtr_base = 0, seg_cs = 0, seg_data = 0\<rparr>" "0xC0105000"] by simp

end
