(* ===== verification/Interrupts.thy ===== *)
theory Interrupts
  imports Io Keyboard
begin

text \<open>
  Interrupt delivery: the descriptor table (\<open>interrupts/idt.c\<close>), the two 8259 controllers
  (\<open>pic.c\<close>), the dispatch of the 16 interrupt lines (\<open>irq.c\<close>) and the keyboard's place in it
  (\<open>keyboard_init\<close>). The addresses of the assembly stubs and of the table are parameters. A handler
  changes the state of its device and the port log.
\<close>

section \<open>The descriptor table\<close>

definition IDT_MAX_DESCRIPTORS :: nat where "IDT_MAX_DESCRIPTORS = 256"

record idt_entry =
  isr_low :: u16
  kernel_cs :: u16
  reserved :: u8
  attributes :: u8
  isr_high :: u16

record idt =
  idt_entries :: "u8 \<Rightarrow> idt_entry"
  idtr_limit :: u16
  idtr_base :: u32
  vectors :: "u8 \<Rightarrow> bool"

definition idt_set_descriptor :: "u8 \<Rightarrow> u32 \<Rightarrow> u8 \<Rightarrow> idt \<Rightarrow> idt" where
  "idt_set_descriptor vector isr flags s =
     (let descriptor = idt_entries s vector;
          descriptor = descriptor\<lparr>isr_low := ucast (isr AND 0xFFFF)\<rparr>;
          descriptor = descriptor\<lparr>kernel_cs := 0x08\<rparr>;
          descriptor = descriptor\<lparr>attributes := flags\<rparr>;
          descriptor = descriptor\<lparr>isr_high := ucast (drop_bit 16 isr AND 0xFFFF)\<rparr>;
          descriptor = descriptor\<lparr>reserved := 0\<rparr>
      in s\<lparr>idt_entries := (idt_entries s)(vector := descriptor)\<rparr>)"

definition null_entry :: idt_entry where
  "null_entry = \<lparr>isr_low = 0, kernel_cs = 0, reserved = 0, attributes = 0, isr_high = 0\<rparr>"

text \<open>\<open>idt_init\<close> of the table at address \<open>table\<close>; the last step is \<open>lidt\<close>.\<close>

definition idt_init :: "u32 \<Rightarrow> (u8 \<Rightarrow> u32) \<Rightarrow> idt \<Rightarrow> idt" where
  "idt_init table isr_stub_table s =
     (let s = s\<lparr>idt_entries := (\<lambda>_. null_entry)\<rparr>;
          s = s\<lparr>idtr_base := table, idtr_limit := of_nat (8 * IDT_MAX_DESCRIPTORS - 1)\<rparr>
      in fold (\<lambda>i s.
           let vector = of_nat i;
               s = idt_set_descriptor vector (isr_stub_table vector) 0x8E s
           in s\<lparr>vectors := (vectors s)(vector := True)\<rparr>) [0..<32] s)"

definition irq_init :: "(u8 \<Rightarrow> u32) \<Rightarrow> idt \<Rightarrow> idt" where
  "irq_init irq_stub_table s =
     fold (\<lambda>i. idt_set_descriptor (32 + of_nat i) (irq_stub_table (of_nat i)) 0x8E) [0..<16] s"

section \<open>The interrupt controllers\<close>

definition PIC1_COMMAND :: u16 where "PIC1_COMMAND = 0x20"
definition PIC1_DATA :: u16 where "PIC1_DATA = 0x21"
definition PIC2_COMMAND :: u16 where "PIC2_COMMAND = 0xA0"
definition PIC2_DATA :: u16 where "PIC2_DATA = 0xA1"
definition ICW1_INIT :: u8 where "ICW1_INIT = 0x10"
definition ICW1_ICW4 :: u8 where "ICW1_ICW4 = 0x01"
definition ICW4_8086 :: u8 where "ICW4_8086 = 0x01"
definition PIC_EOI :: u8 where "PIC_EOI = 0x20"
definition PIC1_OFFSET :: u8 where "PIC1_OFFSET = 0x20"
definition PIC2_OFFSET :: u8 where "PIC2_OFFSET = 0x28"

definition pic_mask_port :: "u8 \<Rightarrow> u16" where
  "pic_mask_port irq = (if irq < 8 then PIC1_DATA else PIC2_DATA)"

definition pic_irq_line :: "u8 \<Rightarrow> u8" where
  "pic_irq_line irq = (if irq < 8 then irq else irq - 8)"

definition pic_init :: "port_log \<Rightarrow> port_log" where
  "pic_init log =
     (let log = outb PIC1_COMMAND (ICW1_INIT OR ICW1_ICW4) log; log = io_wait log;
          log = outb PIC2_COMMAND (ICW1_INIT OR ICW1_ICW4) log; log = io_wait log;
          log = outb PIC1_DATA PIC1_OFFSET log; log = io_wait log;
          log = outb PIC2_DATA PIC2_OFFSET log; log = io_wait log;
          log = outb PIC1_DATA 4 log; log = io_wait log;
          log = outb PIC2_DATA 2 log; log = io_wait log;
          log = outb PIC1_DATA ICW4_8086 log; log = io_wait log;
          log = outb PIC2_DATA ICW4_8086 log; log = io_wait log;
          log = outb PIC1_DATA 0xFF log
      in outb PIC2_DATA 0xFF log)"

definition pic_send_eoi :: "u8 \<Rightarrow> port_log \<Rightarrow> port_log" where
  "pic_send_eoi irq log =
     (let log = (if irq \<ge> 8 then outb PIC2_COMMAND PIC_EOI log else log)
      in outb PIC1_COMMAND PIC_EOI log)"

definition pic_mask :: "port_input \<Rightarrow> u8 \<Rightarrow> port_log \<Rightarrow> port_log" where
  "pic_mask inp irq log =
     (let port = pic_mask_port irq; line = pic_irq_line irq
      in outb port (inb inp port log OR push_bit (unat line) 1) log)"

definition pic_unmask :: "port_input \<Rightarrow> u8 \<Rightarrow> port_log \<Rightarrow> port_log" where
  "pic_unmask inp irq log =
     (let port = pic_mask_port irq; line = pic_irq_line irq
      in outb port (inb inp port log AND NOT (push_bit (unat line) 1)) log)"

section \<open>Dispatch\<close>

record registers =
  r_gs :: u32
  r_fs :: u32
  r_es :: u32
  r_ds :: u32
  r_edi :: u32
  r_esi :: u32
  r_ebp :: u32
  r_esp :: u32
  r_ebx :: u32
  r_edx :: u32
  r_ecx :: u32
  r_eax :: u32
  r_int_no :: u32
  r_err_code :: u32
  r_eip :: u32
  r_cs :: u32
  r_eflags :: u32
  r_useresp :: u32
  r_ss :: u32

text \<open>The table of handlers: a handler takes the registers and changes its device and the port log.\<close>

type_synonym 'd irq_handlers = "u8 \<Rightarrow> (registers \<Rightarrow> 'd \<times> port_log \<Rightarrow> 'd \<times> port_log) option"

definition irq_register ::
  "u8 \<Rightarrow> (registers \<Rightarrow> 'd \<times> port_log \<Rightarrow> 'd \<times> port_log) \<Rightarrow> 'd irq_handlers \<Rightarrow> 'd irq_handlers" where
  "irq_register irq handler irq_handlers =
     (if irq \<ge> 16 then irq_handlers else irq_handlers(irq \<mapsto> handler))"

definition irq_handler :: "'d irq_handlers \<Rightarrow> registers \<Rightarrow> 'd \<times> port_log \<Rightarrow> 'd \<times> port_log" where
  "irq_handler irq_handlers regs s =
     (let irq = ucast (r_int_no regs);
          s = (case irq_handlers irq of
                 Some handler \<Rightarrow> if irq < 16 then handler regs s else s
               | None \<Rightarrow> s)
      in (fst s, pic_send_eoi irq (snd s)))"

section \<open>The keyboard on line 1\<close>

definition KBD_DATA_PORT :: u16 where "KBD_DATA_PORT = 0x60"
definition KBD_IRQ :: u8 where "KBD_IRQ = 1"

text \<open>The registered handler: it reads the scan code from the data port.\<close>

definition keyboard_irq :: "port_input \<Rightarrow> registers \<Rightarrow> kbd \<times> port_log \<Rightarrow> kbd \<times> port_log" where
  "keyboard_irq inp regs s = (keyboard_irq_handler (inb inp KBD_DATA_PORT (snd s)) (fst s), snd s)"

definition keyboard_init ::
  "port_input \<Rightarrow> kbd \<Rightarrow> kbd irq_handlers \<Rightarrow> port_log \<Rightarrow> kbd \<times> kbd irq_handlers \<times> port_log" where
  "keyboard_init inp k handlers log =
     (keyboard_reset k, irq_register KBD_IRQ (keyboard_irq inp) handlers, pic_unmask inp KBD_IRQ log)"

section \<open>The installed gates\<close>

text \<open>The offset of a gate as the processor reads it, and the gates the kernel installs.\<close>

definition entry_offset :: "idt_entry \<Rightarrow> u32" where
  "entry_offset e = ucast (isr_low e) OR push_bit 16 (ucast (isr_high e))"

definition interrupt_gate :: "u32 \<Rightarrow> idt_entry \<Rightarrow> bool" where
  "interrupt_gate a e \<longleftrightarrow> entry_offset e = a \<and> kernel_cs e = 0x08 \<and> attributes e = 0x8E \<and> reserved e = 0"

lemma low16: "(0xFFFF::u32) = mask 16"
  by (simp add: mask_eq_exp_minus_1)

lemma set_descriptor_gate: "interrupt_gate isr (idt_entries (idt_set_descriptor v isr 0x8E s) v)"
proof -
  have "ucast (ucast (isr AND 0xFFFF) :: u16) OR push_bit 16 (ucast (ucast (drop_bit 16 isr AND 0xFFFF) :: u16)) = isr"
    unfolding low16
  proof (rule bit_word_eqI)
    fix n
    assume "n < LENGTH(32)"
    then consider "n < 16" | "16 \<le> n" "n < 32" by fastforce
    then show "bit (ucast (ucast (isr AND mask 16) :: u16)
        OR push_bit 16 (ucast (ucast (drop_bit 16 isr AND mask 16) :: u16)) :: u32) n = bit isr n"
      by cases (auto simp: bit_simps)
  qed
  then show ?thesis by (simp add: interrupt_gate_def entry_offset_def idt_set_descriptor_def Let_def)
qed

lemma set_descriptor_other [simp]:
  "w \<noteq> v \<Longrightarrow> idt_entries (idt_set_descriptor v isr f s) w = idt_entries s w"
  "vectors (idt_set_descriptor v isr f s) = vectors s"
  "idtr_base (idt_set_descriptor v isr f s) = idtr_base s" "idtr_limit (idt_set_descriptor v isr f s) = idtr_limit s"
  by (simp_all add: idt_set_descriptor_def Let_def)

text \<open>A run of gates for the vectors from \<open>b\<close> up.\<close>

lemma gates_upto:
  assumes "b + n \<le> 256"
  shows "let s' = fold (\<lambda>i. idt_set_descriptor (of_nat (b + i)) (stub (of_nat i)) 0x8E) [0..<n] s in
    (\<forall>v. if b \<le> unat v \<and> unat v < b + n then interrupt_gate (stub (of_nat (unat v - b))) (idt_entries s' v)
         else idt_entries s' v = idt_entries s v)
    \<and> vectors s' = vectors s \<and> idtr_base s' = idtr_base s \<and> idtr_limit s' = idtr_limit s"
  using assms
proof (induction n)
  case 0
  then show ?case by auto
next
  case (Suc n)
  let ?s = "fold (\<lambda>i. idt_set_descriptor (of_nat (b + i)) (stub (of_nat i)) 0x8E) [0..<n] s"
  let ?v = "of_nat (b + n) :: u8"
  have v: "unat ?v = b + n" using Suc.prems by (simp only: unat_of_nat) simp
  have "if b \<le> unat w \<and> unat w < b + Suc n
      then interrupt_gate (stub (of_nat (unat w - b))) (idt_entries (idt_set_descriptor ?v (stub (of_nat n)) 0x8E ?s) w)
      else idt_entries (idt_set_descriptor ?v (stub (of_nat n)) 0x8E ?s) w = idt_entries s w" for w
  proof (cases "w = ?v")
    case True
    then show ?thesis using v set_descriptor_gate by (simp del: of_nat_add)
  next
    case False
    then have "unat w \<noteq> b + n" using v by (metis unsigned_word_eqI)
    then show ?thesis using Suc False by (auto simp: Let_def simp del: of_nat_add)
  qed
  then show ?case using Suc by (simp add: Let_def del: of_nat_add)
qed

lemma idt_init_gates:
  "(\<forall>v. if unat v < 32 then interrupt_gate (stub v) (idt_entries (idt_init table stub s) v)
        else idt_entries (idt_init table stub s) v = null_entry)
   \<and> idtr_base (idt_init table stub s) = table \<and> idtr_limit (idt_init table stub s) = 2047"
proof -
  let ?s = "s\<lparr>idt_entries := (\<lambda>_. null_entry), idtr_base := table, idtr_limit := of_nat (8 * IDT_MAX_DESCRIPTORS - 1)\<rparr>"
  let ?f = "\<lambda>i s. let vector = of_nat i; s = idt_set_descriptor vector (stub vector) 0x8E s
     in s\<lparr>vectors := (vectors s)(vector := True)\<rparr>"
  let ?g = "\<lambda>i. idt_set_descriptor (of_nat (0 + i)) (stub (of_nat i)) 0x8E"
  have same: "idt_entries (fold ?f is s) = idt_entries (fold ?g is s') \<and> idtr_base (fold ?f is s) = idtr_base (fold ?g is s')
      \<and> idtr_limit (fold ?f is s) = idtr_limit (fold ?g is s')"
    if "idt_entries s = idt_entries s'" "idtr_base s = idtr_base s'" "idtr_limit s = idtr_limit s'" for "is" s s'
    using that by (induction "is" arbitrary: s s') (simp_all add: Let_def idt_set_descriptor_def)
  obtain t where t: "t = fold ?g [0..<32] ?s" by blast
  have "idt_init table stub s = fold ?f [0..<32] ?s" by (simp add: idt_init_def)
  then have e: "idt_entries (idt_init table stub s) = idt_entries t" "idtr_base (idt_init table stub s) = idtr_base t"
    "idtr_limit (idt_init table stub s) = idtr_limit t"
    using same [of ?s ?s "[0..<32]"] t by simp_all
  have "if unat v < 32 then interrupt_gate (stub v) (idt_entries t v) else idt_entries t v = null_entry" for v
    using gates_upto [of 0 32 stub ?s] unfolding Let_def t [symmetric] by (auto dest: spec [of _ v] split: if_splits)
  moreover have "idtr_base t = table" "idtr_limit t = 2047"
    using gates_upto [of 0 32 stub ?s] unfolding Let_def t [symmetric] by (simp_all add: IDT_MAX_DESCRIPTORS_def)
  ultimately show ?thesis unfolding e by blast
qed

lemma irq_init_gates:
  "(\<forall>v. if 32 \<le> unat v \<and> unat v < 48 then interrupt_gate (stub (v - 32)) (idt_entries (irq_init stub s) v)
        else idt_entries (irq_init stub s) v = idt_entries s v)
   \<and> idtr_base (irq_init stub s) = idtr_base s \<and> idtr_limit (irq_init stub s) = idtr_limit s"
proof -
  have v: "of_nat (unat v - 32) = v - 32" if "32 \<le> unat v" for v :: u8
    using that by (simp add: of_nat_diff)
  have eq: "irq_init stub s = fold (\<lambda>i. idt_set_descriptor (of_nat (32 + i)) (stub (of_nat i)) 0x8E) [0..<16] s"
    by (simp add: irq_init_def)
  show ?thesis using gates_upto [of 32 16 stub s] unfolding Let_def eq [symmetric] by (auto simp: v split: if_splits)
qed

section \<open>The masks\<close>

text \<open>What the code relies on: reading a controller's data port gives the mask last written to it.\<close>

definition mask_reads_back :: "port_input \<Rightarrow> bool" where
  "mask_reads_back inp \<longleftrightarrow> (\<forall>log port. port \<in> {PIC1_DATA, PIC2_DATA} \<longrightarrow> port_bytes port log \<noteq> [] \<longrightarrow>
     inp log port = last (port_bytes port log))"

text \<open>
  The lines the controllers hold back, by the last byte written to each data port. \<open>pic_init\<close> ends with both masks, and no
  code starts an initialization again, so this byte is the mask wherever the set is used.
\<close>

definition masked_lines :: "port_log \<Rightarrow> u8 set" where
  "masked_lines log = {irq. irq < 16 \<and> bit (last (port_bytes (pic_mask_port irq) log)) (unat (pic_irq_line irq))}"

definition masks_set :: "port_log \<Rightarrow> bool" where
  "masks_set log \<longleftrightarrow> port_bytes PIC1_DATA log \<noteq> [] \<and> port_bytes PIC2_DATA log \<noteq> []"

lemmas pic_ports = PIC1_COMMAND_def PIC1_DATA_def PIC2_COMMAND_def PIC2_DATA_def

lemma line_less:
  assumes "irq < 16"
  shows "unat (pic_irq_line irq) < 8"
proof (cases "irq < 8")
  case True
  then show ?thesis by (simp add: pic_irq_line_def word_less_nat_alt)
next
  case False
  then have "unat (irq - 8) = unat irq - 8" by (simp add: unat_sub not_less word_le_nat_alt)
  moreover have "unat irq < 16" "8 \<le> unat irq" using assms False by (simp_all add: word_less_nat_alt)
  ultimately show ?thesis using False by (simp add: pic_irq_line_def)
qed

lemma pic_init_masks: "masks_set (pic_init log) \<and> masked_lines (pic_init log) = {irq. irq < 16}"
proof -
  have l: "port_bytes PIC1_DATA (pic_init log) = port_bytes PIC1_DATA log @ [0x20, 4, 1, 0xFF]"
    "port_bytes PIC2_DATA (pic_init log) = port_bytes PIC2_DATA log @ [0x28, 2, 1, 0xFF]"
    by (simp_all add: pic_init_def Let_def pic_ports PIC1_OFFSET_def PIC2_OFFSET_def ICW4_8086_def)
  have m: "(0xFF::u8) = mask 8" by (simp add: mask_eq_exp_minus_1)
  have f: "bit (0xFF::u8) n" if "n < 8" for n using that unfolding m by (simp add: bit_mask_iff)
  have "bit (last (port_bytes (pic_mask_port irq) (pic_init log))) (unat (pic_irq_line irq))" if "irq < 16" for irq
    using line_less [OF that] f by (simp add: pic_mask_port_def l)
  then show ?thesis by (auto simp: masked_lines_def masks_set_def l)
qed

lemma line_inj:
  assumes "irq < 16" and "j < 16" and "pic_mask_port irq = pic_mask_port j" and "unat (pic_irq_line irq) = unat (pic_irq_line j)"
  shows "irq = (j::u8)"
proof -
  have "pic_irq_line irq = pic_irq_line j" using assms(4) by (rule unsigned_word_eqI)
  then show ?thesis using assms(1-3) by (auto simp: pic_mask_port_def pic_irq_line_def pic_ports split: if_splits)
qed

lemma mask_byte:
  assumes "masks_set log" and "irq < 16" and "mask_reads_back inp"
    and "\<And>n. n < 8 \<Longrightarrow> bit (b (inb inp (pic_mask_port irq) log)) n
      \<longleftrightarrow> (if n = unat (pic_irq_line irq) then new else bit (inb inp (pic_mask_port irq) log) n)"
  shows "masks_set (outb (pic_mask_port irq) (b (inb inp (pic_mask_port irq) log)) log)
    \<and> masked_lines (outb (pic_mask_port irq) (b (inb inp (pic_mask_port irq) log)) log)
      = (if new then insert irq (masked_lines log) else masked_lines log - {irq})"
proof -
  have r: "inb inp (pic_mask_port irq) log = last (port_bytes (pic_mask_port irq) log)"
    using assms(1,3) by (auto simp: inb_def mask_reads_back_def masks_set_def pic_mask_port_def)
  have "j \<in> masked_lines (outb (pic_mask_port irq) (b (inb inp (pic_mask_port irq) log)) log)
      \<longleftrightarrow> j \<in> (if new then insert irq (masked_lines log) else masked_lines log - {irq})" for j
  proof (cases "j < 16 \<and> pic_mask_port j = pic_mask_port irq")
    case True
    then have i: "unat (pic_irq_line j) = unat (pic_irq_line irq) \<longleftrightarrow> j = irq"
      using line_inj [of j irq] assms(2) by blast
    have w: "j \<in> masked_lines (outb (pic_mask_port irq) x log) \<longleftrightarrow> bit x (unat (pic_irq_line j))" for x
      using True by (simp add: masked_lines_def)
    have old: "j \<in> masked_lines log \<longleftrightarrow> bit (inb inp (pic_mask_port irq) log) (unat (pic_irq_line j))"
      using True by (simp add: masked_lines_def r)
    have "j < 16" using True by blast
    note n = assms(4) [OF line_less [OF this]]
    show ?thesis unfolding w n i if_bool_eq_conj old [symmetric] by (cases new) auto
  next
    case False
    then have ne: "j \<noteq> irq" using assms(2) by blast
    have "j \<in> masked_lines (outb (pic_mask_port irq) x log) \<longleftrightarrow> j \<in> masked_lines log" for x
      using False by (cases "j < 16") (simp_all add: masked_lines_def)
    then show ?thesis using ne by (cases new) simp_all
  qed
  moreover have "masks_set (outb p x log)" for p x using assms(1) by (simp add: masks_set_def)
  ultimately show ?thesis by (intro conjI set_eqI)
qed

text \<open>The operations on the controllers, and the set of masked lines they stand for.\<close>

datatype pic_op = Mask u8 | Unmask u8 | Eoi u8

fun pic_run :: "port_input \<Rightarrow> pic_op \<Rightarrow> port_log \<Rightarrow> port_log" where
  "pic_run inp (Mask irq) = pic_mask inp irq"
| "pic_run inp (Unmask irq) = pic_unmask inp irq"
| "pic_run inp (Eoi irq) = pic_send_eoi irq"

fun pic_spec :: "pic_op \<Rightarrow> u8 set \<Rightarrow> u8 set" where
  "pic_spec (Mask irq) S = insert irq S"
| "pic_spec (Unmask irq) S = S - {irq}"
| "pic_spec (Eoi irq) S = S"

fun pic_line_of :: "pic_op \<Rightarrow> u8" where
  "pic_line_of (Mask irq) = irq"
| "pic_line_of (Unmask irq) = irq"
| "pic_line_of (Eoi irq) = irq"

lemma pic_run_step:
  assumes "mask_reads_back inp" and "masks_set log" and "pic_line_of op < 16"
  shows "masks_set (pic_run inp op log) \<and> masked_lines (pic_run inp op log) = pic_spec op (masked_lines log)"
proof (cases op)
  case (Mask irq)
  then show ?thesis
    using mask_byte [OF assms(2) _ assms(1), of irq "\<lambda>x. x OR push_bit (unat (pic_irq_line irq)) 1" True] assms(3)
    by (simp add: pic_mask_def Let_def bit_simps)
next
  case (Unmask irq)
  then show ?thesis
    using mask_byte [OF assms(2) _ assms(1), of irq "\<lambda>x. x AND NOT (push_bit (unat (pic_irq_line irq)) 1)" False] assms(3)
    by (simp add: pic_unmask_def Let_def bit_simps)
next
  case (Eoi irq)
  have "port_bytes p (pic_send_eoi irq log) = port_bytes p log" if "p = PIC1_DATA \<or> p = PIC2_DATA" for p
    using that by (auto simp: pic_send_eoi_def Let_def pic_ports)
  then show ?thesis using assms(2) Eoi by (simp add: masks_set_def masked_lines_def pic_mask_port_def)
qed

lemma pic_runs:
  assumes "mask_reads_back inp" and "\<forall>op \<in> set ops. pic_line_of op < 16" and "masks_set log"
  shows "masks_set (fold (pic_run inp) ops log) \<and> masked_lines (fold (pic_run inp) ops log) = fold pic_spec ops (masked_lines log)"
  using assms(2,3)
proof (induction ops arbitrary: log)
  case (Cons op ops)
  then show ?case using pic_run_step [OF assms(1), of log op] by simp
qed simp

section \<open>The keyboard interrupts\<close>

lemma irq1_eoi: "pic_send_eoi 1 log = log @ [(0x20, 0x20)]"
  by (simp add: pic_send_eoi_def pic_ports PIC_EOI_def outb_def word_le_nat_alt)

lemma keyboard_dispatch:
  assumes "handlers 1 = Some (keyboard_irq inp)" and "ucast (r_int_no regs) = (1::u8)"
  shows "irq_handler handlers regs (k, log)
    = (keyboard_irq_handler (inp log 0x60) k, log @ [(0x20, 0x20)])"
  using assms by (simp add: irq_handler_def Let_def keyboard_irq_def inb_def KBD_DATA_PORT_def irq1_eoi)

text \<open>The scan codes a burst of keyboard interrupts reads, each read after the acknowledgements before it.\<close>

fun scan_codes :: "port_input \<Rightarrow> port_log \<Rightarrow> nat \<Rightarrow> u8 list" where
  "scan_codes inp log 0 = []"
| "scan_codes inp log (Suc n) = inp log 0x60 # scan_codes inp (log @ [(0x20, 0x20)]) n"

lemma keyboard_burst:
  assumes "handlers 1 = Some (keyboard_irq inp)" and "\<forall>regs \<in> set rs. ucast (r_int_no regs) = (1::u8)"
  shows "fold (irq_handler handlers) rs (k, log)
    = (fold keyboard_irq_handler (scan_codes inp log (length rs)) k, log @ replicate (length rs) (0x20, 0x20))"
  using assms(2)
proof (induction rs arbitrary: k log)
  case (Cons regs rs)
  then show ?case using keyboard_dispatch [of handlers, OF assms(1)] by simp
qed simp

section \<open>Properties\<close>

definition example_idt :: idt where
  "example_idt = \<lparr>idt_entries = (\<lambda>_. null_entry\<lparr>attributes := 0xFF\<rparr>), idtr_limit = 0, idtr_base = 0, vectors = (\<lambda>_. False)\<rparr>"

text \<open>After \<open>idt_init\<close> and \<open>irq_init\<close> the table register covers the 256 entries; the 32 exceptions and
  the 16 interrupt lines, at the vectors the controllers are programmed to raise, are present 32-bit
  interrupt gates in the kernel's code segment to their own stubs; every other vector is empty.\<close>

theorem idt_complete:
  assumes "s' = irq_init irqs (idt_init table stubs s)"
  shows "idtr_base s' = table \<and> unat (idtr_limit s') + 1 = 8 * 256
    \<and> (\<forall>v. v < 32 \<longrightarrow> interrupt_gate (stubs v) (idt_entries s' v))
    \<and> (\<forall>i. i < 8 \<longrightarrow> interrupt_gate (irqs i) (idt_entries s' (PIC1_OFFSET + i))
                 \<and> interrupt_gate (irqs (8 + i)) (idt_entries s' (PIC2_OFFSET + i)))
    \<and> (\<forall>v. 48 \<le> v \<longrightarrow> idt_entries s' v = null_entry)"
proof -
  have i: "if unat v < 32 then interrupt_gate (stubs v) (idt_entries s' v)
      else if unat v < 48 then interrupt_gate (irqs (v - 32)) (idt_entries s' v)
      else idt_entries s' v = null_entry" for v
    using idt_init_gates [of stubs table s] irq_init_gates [of irqs "idt_init table stubs s"]
    unfolding assms by (auto dest!: spec [of _ v] split: if_splits)
  have r: "idtr_base s' = table" "idtr_limit s' = 2047"
    using idt_init_gates [of stubs table s] irq_init_gates [of irqs "idt_init table stubs s"] assms by auto
  have "interrupt_gate (irqs j) (idt_entries s' (PIC1_OFFSET + j)) \<and> interrupt_gate (irqs (8 + j)) (idt_entries s' (PIC2_OFFSET + j))"
    if "j < 8" for j
  proof -
    have "unat j < 8" using that by (simp add: word_less_nat_alt)
    then have "unat (0x20 + j) = 32 + unat j" "unat (0x28 + j) = 40 + unat j"
      by (simp_all add: unat_word_ariths)
    moreover have "0x28 + j - 32 = 8 + j" "0x20 + j - 32 = j" by simp_all
    ultimately show ?thesis
      using i [of "0x20 + j"] i [of "0x28 + j"] \<open>unat j < 8\<close> by (simp add: PIC1_OFFSET_def PIC2_OFFSET_def)
  qed
  moreover have "interrupt_gate (stubs v) (idt_entries s' v)" if "v < 32" for v
    using i [of v] that by (simp add: word_less_nat_alt)
  moreover have "idt_entries s' v = null_entry" if "48 \<le> v" for v
    using i [of v] that by (simp add: word_le_nat_alt)
  ultimately show ?thesis using r by simp
qed

theorem idt_complete_witness:
  "interrupt_gate (0xC0102000 + 16) (idt_entries (irq_init (\<lambda>i. 0xC0102000 + 16 * ucast i)
     (idt_init 0xC0106000 (\<lambda>v. 0xC0101000 + 16 * ucast v) example_idt)) 33)"
proof -
  have "(1::u8) < 8" by (simp add: word_less_nat_alt)
  then show ?thesis
    using idt_complete [OF refl, of "\<lambda>i. 0xC0102000 + 16 * ucast i" "0xC0106000" "\<lambda>v. 0xC0101000 + 16 * ucast v" example_idt]
    by (auto simp: PIC1_OFFSET_def dest!: spec [of _ 1])
qed

text \<open>C34: \<open>pic_init\<close> masks all 16 lines, and any sequence of \<open>pic_mask\<close>, \<open>pic_unmask\<close> and acknowledgements
  then keeps the masks the set of the lines last masked: each changes its own line and no other.\<close>

theorem pic_masks_tracked:
  assumes "mask_reads_back inp" and "\<forall>op \<in> set ops. pic_line_of op < 16"
  shows "masked_lines (fold (pic_run inp) ops (pic_init log)) = fold pic_spec ops {irq. irq < 16}"
  using pic_runs [OF assms, of "pic_init log"] pic_init_masks [of log] by simp

definition example_input :: port_input where
  "example_input log port =
     (if port = 0x60 then 0x23 else if port_bytes port log \<noteq> [] then last (port_bytes port log) else 0)"

lemma example_input_reads: "mask_reads_back example_input"
  by (simp add: mask_reads_back_def example_input_def pic_ports)

theorem pic_masks_tracked_witness:
  "masked_lines (fold (pic_run example_input) [Unmask 1, Eoi 1, Unmask 9, Mask 1] (pic_init []))
    = {irq. irq < 16} - {9}"
proof -
  have "\<forall>op \<in> set [Unmask 1, Eoi 1, Unmask 9, Mask 1]. pic_line_of op < 16" by (simp add: word_less_nat_alt)
  from pic_masks_tracked [OF example_input_reads this, of "[]"] show ?thesis
    by (auto simp: word_less_nat_alt)
qed

text \<open>After \<open>keyboard_init\<close> line 1 is the only line that is not masked, and a burst of keyboard interrupts
  puts what its scan codes type into an empty queue, up to 255 characters, and acknowledges every
  interrupt once, to the first controller only.\<close>

theorem keyboard_line_delivers:
  assumes "mask_reads_back inp" and "keyboard_init inp k0 handlers0 (pic_init log0) = (k, handlers, log)"
    and "\<forall>regs \<in> set rs. ucast (r_int_no regs) = (1::u8)"
  shows "masked_lines log = {irq. irq < 16} - {1}
    \<and> (\<exists>k' scs. fold (irq_handler handlers) rs (k, log) = (k', log @ replicate (length rs) (0x20, 0x20))
        \<and> scs = scan_codes inp log (length rs) \<and> kbd_items k' = take 255 (typed k scs))"
proof -
  have k: "k = keyboard_reset k0" "handlers 1 = Some (keyboard_irq inp)" "log = pic_unmask inp 1 (pic_init log0)"
    using assms(2) by (auto simp: keyboard_init_def irq_register_def KBD_IRQ_def word_le_nat_alt)
  have "masked_lines log = {irq. irq < 16} - {1}"
    using pic_runs [OF assms(1), of "[Unmask 1]" "pic_init log0"] pic_init_masks [of log0] k(3)
    by (simp add: word_less_nat_alt)
  moreover have "kbd_inv k" "kbd_items k = []"
    by (simp_all add: k(1) keyboard_reset_def kbd_inv_def KBD_BUF_SIZE_def kbd_items_def kbd_count_def word_less_nat_alt)
  then have "kbd_items (fold keyboard_irq_handler scs k) = take 255 (typed k scs)" for scs
    using handler_fold [of k scs] by simp
  ultimately show ?thesis using keyboard_burst [of handlers, OF k(2) assms(3), of k log] by blast
qed

definition example_regs :: "u32 \<Rightarrow> registers" where
  "example_regs n = \<lparr>r_gs = 16, r_fs = 16, r_es = 16, r_ds = 16, r_edi = 0, r_esi = 0, r_ebp = 0, r_esp = 0, r_ebx = 0,
     r_edx = 0, r_ecx = 0, r_eax = 0, r_int_no = n, r_err_code = 0, r_eip = 0xC0101234, r_cs = 8, r_eflags = 0x202,
     r_useresp = 0, r_ss = 0\<rparr>"

theorem keyboard_line_delivers_witness:
  "\<exists>k handlers log k'. keyboard_init example_input example_kbd (\<lambda>_. None) (pic_init []) = (k, handlers, log)
    \<and> irq_handler handlers (example_regs 1) (k, log) = (k', log @ [(0x20, 0x20)]) \<and> kbd_items k' = [0x68]"
proof -
  obtain k handlers log where k: "keyboard_init example_input example_kbd (\<lambda>_. None) (pic_init []) = (k, handlers, log)"
    by (metis prod_cases3)
  have scs: "scan_codes example_input log 1 = [0x23]" by (simp add: example_input_def)
  have "k = keyboard_reset example_kbd" using k by (simp add: keyboard_init_def)
  moreover have "typed (keyboard_reset example_kbd) [0x23] = [0x68]" by code_simp
  ultimately have t: "typed k [0x23] = [0x68]" by simp
  have "\<exists>k'. irq_handler handlers (example_regs 1) (k, log) = (k', log @ [(0x20, 0x20)]) \<and> kbd_items k' = [0x68]"
    using keyboard_line_delivers [OF example_input_reads k, of "[example_regs 1]"] scs t by (simp add: example_regs_def)
  then show ?thesis using k by blast
qed

end
