(* ===== verification/Console.thy ===== *)
theory Console
  imports Printf
begin

text \<open>
  What a piece of kernel output leaves on the screen: the vocabulary in which the components that print
  state their messages, with the rules that chain one output after another.
\<close>

named_theorems messages "evaluation of format strings and message texts"

text \<open>\<open>shown r t out\<close>: the run \<open>r\<close> from terminal \<open>t\<close> does not fault and has printed \<open>out\<close>.\<close>

definition shown :: "tty option \<Rightarrow> tty \<Rightarrow> u8 list \<Rightarrow> bool" where
  "shown r t out \<longleftrightarrow> (\<exists>t'. r = Some t' \<and> on_screen t' \<and> screen_of t' = fold screen_putchar out (screen_of t))"

lemma shownE:
  assumes "shown r t out"
  obtains t' where "r = Some t'" and "on_screen t'" and "screen_of t' = fold screen_putchar out (screen_of t)"
  using assms unfolding shown_def by blast

lemma shown_done: "on_screen t \<Longrightarrow> shown (Some t) t []"
  by (simp add: shown_def)

lemma shown_seq:
  assumes "shown r t out" and "\<And>u. on_screen u \<Longrightarrow> shown (f u) u out'"
  shows "shown (do { u \<leftarrow> r; f u }) t (out @ out')"
proof -
  obtain u where u: "r = Some u" "on_screen u" "screen_of u = fold screen_putchar out (screen_of t)"
    using assms(1) by (rule shownE)
  obtain v where "f u = Some v" "on_screen v" "screen_of v = fold screen_putchar out' (screen_of u)"
    using assms(2) [OF u(2)] by (rule shownE)
  then show ?thesis using u by (simp add: shown_def)
qed

lemma shown_write:
  assumes "on_screen t" and "9 \<notin> set out"
  shows "shown (terminal_write out t) t out"
  using write_done [OF assms(1) no_tabs_fit [OF assms(2)]] by (simp add: shown_def)

lemma shown_printf:
  assumes "formatted format args = Some (out, n)" and "length out < 2147483648" and "9 \<notin> set out" and "on_screen t"
  shows "shown (printf_out format args t) t out"
proof -
  have "printf_out format args t = terminal_write out t"
    using printf_runs [OF assms(1), of 0 t] assms(2)
    by (simp add: runs_def printf_def printf_out_def option.map_comp o_def option.map_ident)
  then show ?thesis using shown_write [OF assms(4,3)] by simp
qed

lemma numeral_tab: "2 \<le> b \<Longrightarrow> b \<le> 16 \<Longrightarrow> 9 \<notin> set (numeral_chars b n)"
proof
  assume b: "2 \<le> b" "b \<le> 16" and "9 \<in> set (numeral_chars b n)"
  then obtain d where "d \<in> set (digits b n)" "digit_char d = 9" by (auto simp: numeral_chars_def)
  then have "d < 16" "digit_char d = 9" using digits_bound [OF b(1)] b(2) by fastforce+
  moreover have "\<forall>d \<in> set [0..<16]. digit_char d \<noteq> 9" by code_simp
  ultimately show False by simp
qed

lemma numeral_length:
  assumes "unat (w::u32) < 4294967296" and "b = 10 \<or> b = 16"
  shows "length (numeral_chars b (unat w)) \<le> 31"
proof (cases "w = 0")
  case True
  then show ?thesis by (simp add: zero_numeral)
next
  case False
  have "unat (of_nat b :: u32) = b" using assms(2) by auto
  moreover have "(of_nat b :: u32) = 10 \<or> (of_nat b :: u32) = 16" using assms(2) by auto
  ultimately show ?thesis
    using uint_numeral [OF False, of "of_nat b"] uint_digits_length [of "[]" "of_nat b" w] by auto
qed

lemma numerals_no_tab [messages]:
  "9 \<notin> set (numeral_chars 10 (unat (w::u32)))" "9 \<notin> set (numeral_chars 16 (unat w))"
  by (simp_all add: numeral_tab)

lemma numerals_short:
  "length (numeral_chars 10 (unat (w::u32))) \<le> 31" "length (numeral_chars 16 (unat w)) \<le> 31"
  by (simp_all add: numeral_length)

text \<open>A message whose text is found by evaluating the format.\<close>

lemma shown_message:
  assumes "map_option fst (formatted format args) = Some out" and "length out < 2147483648" and "9 \<notin> set out"
    and "on_screen t"
  shows "shown (printf_out format args t) t out"
proof -
  obtain n where "formatted format args = Some (out, n)" using assms(1) by auto
  then show ?thesis using assms(2-) by (rule shown_printf)
qed

lemmas message_defs = chars_nl_def chars_def

end
