(* ===== verification/Page_Fault.thy ===== *)
theory Page_Fault
  imports Console Paging Interrupts
begin

text \<open>
  Processor exceptions (\<open>interrupts/isr.c\<close>, \<open>mm/page_fault.c\<close>). Both handlers end in an endless
  \<open>cli; hlt\<close>: the value of a handler is the terminal it leaves when it halts, or \<open>None\<close> when its own
  output or table walk faults. \<open>cr2\<close>, the faulting address, is a parameter. The lemmas give the
  whole report.
\<close>

section \<open>Definitions\<close>

definition PAGE_FAULT_VECTOR :: u32 where "PAGE_FAULT_VECTOR = 14"

definition page_fault_print_error_code :: "u32 \<Rightarrow> tty \<Rightarrow> tty option" where
  "page_fault_print_error_code err t = do {
     t \<leftarrow> printf_out (chars ''  cause:'') [] t;
     t \<leftarrow> (if err AND 0x1 = 0 then printf_out (chars '' not-present'') [] t
           else printf_out (chars '' protection-violation'') [] t);
     t \<leftarrow> (if err AND 0x2 \<noteq> 0 then printf_out (chars '' write'') [] t
           else printf_out (chars '' read'') [] t);
     t \<leftarrow> (if err AND 0x4 \<noteq> 0 then printf_out (chars '' user-mode'') [] t
           else printf_out (chars '' supervisor'') [] t);
     t \<leftarrow> (if err AND 0x8 \<noteq> 0 then printf_out (chars '' reserved-bit-set'') [] t else Some t);
     t \<leftarrow> (if err AND 0x10 \<noteq> 0 then printf_out (chars '' instruction-fetch'') [] t else Some t);
     printf_out (chars_nl '' (err=0x%x)'') [Word err] t }"

text \<open>\<open>pd\<close> is the address of the page directory \<open>paging_get_physical\<close> reads through.\<close>

definition page_fault_handler :: "u32 \<Rightarrow> u32 \<Rightarrow> registers \<Rightarrow> vm \<Rightarrow> tty \<Rightarrow> tty option" where
  "page_fault_handler pd cr2 regs s t = do {
     let t = terminal_setcolor (vga_entry_color VGA_COLOR_LIGHT_RED VGA_COLOR_BLACK) t;
     t \<leftarrow> printf_out (chars_nl ''Page Fault (#%u)'') [Word PAGE_FAULT_VECTOR] t;
     t \<leftarrow> printf_out (chars_nl ''  CR2 (fault addr): %p'') [Word cr2] t;
     t \<leftarrow> page_fault_print_error_code (r_err_code regs) t;
     t \<leftarrow> printf_out (chars_nl ''  EIP: %p  CS: 0x%x'') [Word (r_eip regs), Word (r_cs regs)] t;
     t \<leftarrow> printf_out (chars_nl ''  EAX: %p  EBX: %p  ECX: %p  EDX: %p'')
       [Word (r_eax regs), Word (r_ebx regs), Word (r_ecx regs), Word (r_edx regs)] t;
     mapped_phys \<leftarrow> paging_get_physical pd cr2 s;
     if mapped_phys \<noteq> 0 then printf_out (chars_nl ''  paging: mapped -> phys %p'') [Word mapped_phys] t
     else printf_out (chars_nl ''  paging: not mapped in page tables'') [] t }"

definition exception_messages :: "string list" where
  "exception_messages =
     [''Division By Zero'', ''Debug'', ''Non Maskable Interrupt'', ''Breakpoint'',
      ''Into Detected Overflow'', ''Out of Bounds'', ''Invalid Opcode'', ''No Coprocessor'',
      ''Double Fault'', ''Coprocessor Segment Overrun'', ''Bad TSS'', ''Segment Not Present'',
      ''Stack Fault'', ''General Protection Fault'', ''Page Fault'', ''Unknown Interrupt'',
      ''Coprocessor Fault'', ''Alignment Check'', ''Machine Check'', ''SIMD Floating-Point Exception'',
      ''Virtualization Exception'', ''Reserved'', ''Reserved'', ''Reserved'', ''Reserved'', ''Reserved'',
      ''Reserved'', ''Reserved'', ''Reserved'', ''Reserved'', ''Security Exception'', ''Reserved'']"

definition exception_handler :: "u32 \<Rightarrow> u32 \<Rightarrow> registers \<Rightarrow> vm \<Rightarrow> tty \<Rightarrow> tty option" where
  "exception_handler pd cr2 regs s t =
     (if r_int_no regs = 14 then page_fault_handler pd cr2 regs s t
      else do {
        let t = terminal_setcolor (vga_entry_color VGA_COLOR_LIGHT_RED VGA_COLOR_BLACK) t;
        t \<leftarrow> terminal_writestring (chars ''EXCEPTION! '') t;
        if r_int_no regs < 32
        then terminal_writestring (chars (exception_messages ! unat (r_int_no regs))) t
        else Some t })"

section \<open>The texts\<close>

definition hex :: "u32 \<Rightarrow> u8 list" where
  "hex w = numeral_chars 16 (unat w)"

definition pointer :: "u32 \<Rightarrow> u8 list" where
  "pointer w = chars ''0x'' @ hex w"

definition cause_text :: "u32 \<Rightarrow> u8 list" where
  "cause_text err =
     chars ''  cause:''
     @ (if bit err 0 then chars '' protection-violation'' else chars '' not-present'')
     @ (if bit err 1 then chars '' write'' else chars '' read'')
     @ (if bit err 2 then chars '' user-mode'' else chars '' supervisor'')
     @ (if bit err 3 then chars '' reserved-bit-set'' else [])
     @ (if bit err 4 then chars '' instruction-fetch'' else [])
     @ chars '' (err=0x'' @ hex err @ chars_nl '')''"

definition fault_report :: "u32 \<Rightarrow> registers \<Rightarrow> u32 option \<Rightarrow> u8 list" where
  "fault_report cr2 regs frame =
     chars_nl ''Page Fault (#14)''
     @ (chars ''  CR2 (fault addr): '' @ pointer cr2 @ [10])
     @ cause_text (r_err_code regs)
     @ (chars ''  EIP: '' @ pointer (r_eip regs) @ chars ''  CS: 0x'' @ hex (r_cs regs) @ [10])
     @ (chars ''  EAX: '' @ pointer (r_eax regs) @ chars ''  EBX: '' @ pointer (r_ebx regs)
        @ chars ''  ECX: '' @ pointer (r_ecx regs) @ chars ''  EDX: '' @ pointer (r_edx regs) @ [10])
     @ (case frame of
          Some f \<Rightarrow> if f \<noteq> 0 then chars ''  paging: mapped -> phys '' @ pointer f @ [10]
                    else chars_nl ''  paging: not mapped in page tables''
        | None \<Rightarrow> chars_nl ''  paging: not mapped in page tables'')"

lemma err_bits: "err AND 0x1 = 0 \<longleftrightarrow> \<not> bit err 0" "err AND 0x2 = 0 \<longleftrightarrow> \<not> bit err 1"
  "err AND 0x4 = 0 \<longleftrightarrow> \<not> bit err 2" "err AND 0x8 = 0 \<longleftrightarrow> \<not> bit err 3" "err AND 0x10 = 0 \<longleftrightarrow> \<not> bit err 4"
  for err :: u32
  using and_exp_eq_0_iff_not_bit [of err 0] and_exp_eq_0_iff_not_bit [of err 1] and_exp_eq_0_iff_not_bit [of err 2]
    and_exp_eq_0_iff_not_bit [of err 3] and_exp_eq_0_iff_not_bit [of err 4] by simp_all

text \<open>Each message, as a run from any terminal.\<close>

lemma plain_message:
  assumes "0x25 \<notin> set cs" and "9 \<notin> set cs" and "length cs < 2147483648" and "on_screen t"
  shows "shown (printf_out cs [] t) t cs"
  using shown_printf [OF _ assms(3,2,4), of cs "[]" "length cs"] formatted_plain [OF assms(1), of "[]" "[]"] by simp

lemma cause_shown:
  assumes "on_screen t"
  shows "shown (page_fault_print_error_code err t) t (cause_text err)"
proof -
  have last: "shown (printf_out (chars_nl '' (err=0x%x)'') [Word err] u) u (chars '' (err=0x'' @ hex err @ chars_nl '')'')"
    if "on_screen u" for u
    using that numerals_short(2) [of err]
    by (intro shown_message) (simp_all add: message_defs hex_def messages)
  show ?thesis
    using assms unfolding page_fault_print_error_code_def cause_text_def
    by (intro shown_seq last)
      (auto simp: err_bits message_defs intro!: plain_message shown_done)
qed

lemma pointer_message:
  assumes "on_screen t"
  shows "shown (printf_out (chars_nl ''  CR2 (fault addr): %p'') [Word a] t) t (chars ''  CR2 (fault addr): '' @ pointer a @ [10])"
    and "shown (printf_out (chars_nl ''  paging: mapped -> phys %p'') [Word a] t) t (chars ''  paging: mapped -> phys '' @ pointer a @ [10])"
  using assms numerals_short(2) [of a]
  by (intro shown_message, simp_all add: message_defs pointer_def hex_def messages)+

lemma register_message:
  assumes "on_screen t"
  shows "shown (printf_out (chars_nl ''  EIP: %p  CS: 0x%x'') [Word a, Word b] t) t
      (chars ''  EIP: '' @ pointer a @ chars ''  CS: 0x'' @ hex b @ [10])"
    and "shown (printf_out (chars_nl ''  EAX: %p  EBX: %p  ECX: %p  EDX: %p'') [Word a, Word b, Word c, Word d] t) t
      (chars ''  EAX: '' @ pointer a @ chars ''  EBX: '' @ pointer b @ chars ''  ECX: '' @ pointer c
       @ chars ''  EDX: '' @ pointer d @ [10])"
  using assms numerals_short(2) [of a] numerals_short(2) [of b] numerals_short(2) [of c] numerals_short(2) [of d]
  by (intro shown_message, simp_all add: message_defs pointer_def hex_def messages)+

lemma vector_message:
  assumes "on_screen t"
  shows "shown (printf_out (chars_nl ''Page Fault (#%u)'') [Word PAGE_FAULT_VECTOR] t) t (chars_nl ''Page Fault (#14)'')"
proof -
  have "numeral_chars 10 14 = chars ''14''" by code_simp
  then show ?thesis using assms
    by (intro shown_message) (simp_all add: message_defs PAGE_FAULT_VECTOR_def)
qed

lemma not_mapped_message:
  "on_screen t \<Longrightarrow> shown (printf_out (chars_nl ''  paging: not mapped in page tables'') [] t) t
    (chars_nl ''  paging: not mapped in page tables'')"
  by (rule plain_message) (simp_all add: message_defs)

text \<open>The terminal in the colours of an error.\<close>

definition alarmed :: "tty \<Rightarrow> tty" where
  "alarmed t = t\<lparr>terminal_color := 0x0C\<rparr>"

lemma alarm: "terminal_setcolor (vga_entry_color VGA_COLOR_LIGHT_RED VGA_COLOR_BLACK) t = alarmed t"
  by (simp add: terminal_setcolor_def vga_entry_color_def alarmed_def)

lemma on_screen_alarmed [simp]: "on_screen (alarmed t) = on_screen t"
  by (simp add: alarmed_def on_screen_def)

lemma handler_shown:
  assumes "on_screen t" and "paging_inv pd s"
  shows "shown (page_fault_handler pd cr2 regs s t) (alarmed t) (fault_report cr2 regs (walk s False cr2))"
proof -
  obtain phys where phys: "paging_get_physical pd cr2 s = Some phys"
    "phys = (case walk s False cr2 of None \<Rightarrow> 0 | Some f \<Rightarrow> f)"
    using get_physical_eq [OF assms(2)] by blast
  have last: "shown (do { mapped_phys \<leftarrow> paging_get_physical pd cr2 s;
       if mapped_phys \<noteq> 0 then printf_out (chars_nl ''  paging: mapped -> phys %p'') [Word mapped_phys] u
       else printf_out (chars_nl ''  paging: not mapped in page tables'') [] u }) u
     (case walk s False cr2 of
          Some f \<Rightarrow> if f \<noteq> 0 then chars ''  paging: mapped -> phys '' @ pointer f @ [10]
                    else chars_nl ''  paging: not mapped in page tables''
        | None \<Rightarrow> chars_nl ''  paging: not mapped in page tables'')" if "on_screen u" for u
    using that phys pointer_message(2) not_mapped_message by (auto split: option.splits)
  have t: "on_screen (alarmed t)" using assms(1) by simp
  show ?thesis
    unfolding page_fault_handler_def fault_report_def alarm Let_def
    by (intro shown_seq vector_message pointer_message register_message cause_shown last t)
qed

lemma writestring_shown:
  assumes "on_screen t" and "0 \<notin> set cs" and "9 \<notin> set cs"
  shows "shown (terminal_writestring cs t) t cs"
proof -
  have "takeWhile (\<lambda>c. c \<noteq> 0) cs = cs" unfolding takeWhile_eq_all_conv using assms(2) by auto
  then show ?thesis using shown_write [OF assms(1,3)] by (simp only: terminal_writestring_def)
qed

lemma exception_texts:
  "\<forall>i \<in> set [0..<32]. 0 \<notin> set (chars (exception_messages ! i)) \<and> 9 \<notin> set (chars (exception_messages ! i))"
  "0 \<notin> set (chars ''EXCEPTION! '')" "9 \<notin> set (chars ''EXCEPTION! '')"
  by code_simp+

section \<open>Properties\<close>

text \<open>On consistent page tables an exception is always reported in full, in light red, before the machine
  halts: a page fault with its address, the decoded error code, the registers and the frame the
  processor's own walk finds (a page mapped to frame 0 reads as unmapped), any other exception by name.\<close>

theorem exception_reported:
  assumes "on_screen t" and "paging_inv pd s"
  shows "shown (exception_handler pd cr2 regs s t) (alarmed t)
    (if r_int_no regs = 14 then fault_report cr2 regs (walk s False cr2)
     else chars ''EXCEPTION! ''
       @ (if r_int_no regs < 32 then chars (exception_messages ! unat (r_int_no regs)) else []))"
proof (cases "r_int_no regs = 14")
  case True
  then show ?thesis using handler_shown [OF assms] by (simp add: exception_handler_def)
next
  case False
  have t: "on_screen (alarmed t)" using assms(1) by simp
  have "shown (if r_int_no regs < 32 then terminal_writestring (chars (exception_messages ! unat (r_int_no regs))) u else Some u)
      u (if r_int_no regs < 32 then chars (exception_messages ! unat (r_int_no regs)) else [])" if "on_screen u" for u
  proof (cases "r_int_no regs < 32")
    case True
    then have "unat (r_int_no regs) \<in> set [0..<32]" by (simp add: word_less_nat_alt)
    with exception_texts(1) True that show ?thesis by (simp add: writestring_shown)
  next
    case False
    then show ?thesis using that by (simp add: shown_done)
  qed
  then show ?thesis
    using False unfolding exception_handler_def alarm Let_def
    by (simp only: if_False) (intro shown_seq writestring_shown exception_texts t)
qed

theorem exception_reported_witness:
  "shown (exception_handler 0xC0110000 0xDEAD0000 (example_regs 14) example_vm example_tty) (alarmed example_tty)
     (fault_report 0xDEAD0000 (example_regs 14) None)"
proof -
  have "walk example_vm False 0xDEAD0000 = None"
    by (subst example_vm(3)) (simp_all add: pde_index_def)
  then show ?thesis
    using exception_reported [OF example_tty_on_screen example_vm(1), of "0xDEAD0000" "example_regs 14"]
    by (simp add: example_regs_def)
qed

end
