(* ===== verification/Shell.thy ===== *)
theory Shell
  imports Page_Fault Kheap
begin

text \<open>
  The shell (\<open>shell/shell.c\<close>): the line editor, the commands, and its loop over \<open>keyboard_getchar\<close>. A
  command either returns or, with \<open>pfault\<close>, leaves the machine halted in the page fault report. The
  lemmas show that the line buffer always holds the edited line, and follow a session of key strokes
  from the keyboard's scan codes to the text on the screen.
\<close>

section \<open>Definitions\<close>

definition SHELL_LINE_MAX :: u32 where "SHELL_LINE_MAX = 128"

record shell =
  shell_line :: "u32 \<Rightarrow> u8"
  shell_line_len :: u32

definition shell_is_printable :: "u8 \<Rightarrow> bool" where
  "shell_is_printable uc \<longleftrightarrow> uc = 9 \<or> uc \<ge> 32 \<and> uc \<le> 126"

text \<open>The end of a list is the terminating zero of the string.\<close>

fun shell_streq :: "u8 list \<Rightarrow> u8 list \<Rightarrow> bool" where
  "shell_streq (a # as) (b # bs) = (if a \<noteq> b then False else shell_streq as bs)"
| "shell_streq [] [] = True"
| "shell_streq [] (b # bs) = False"
| "shell_streq (a # as) [] = False"

definition shell_prompt :: "tty \<Rightarrow> tty option" where
  "shell_prompt t = terminal_writestring (chars ''myos> '') t"

text \<open>\<open>shell_line[i] = c\<close>: outside the array the behaviour is undefined.\<close>

definition line_store :: "u32 \<Rightarrow> u8 \<Rightarrow> shell \<Rightarrow> shell option" where
  "line_store i c sh = (if i < SHELL_LINE_MAX then Some (sh\<lparr>shell_line := (shell_line sh)(i := c)\<rparr>) else None)"

text \<open>The string in the buffer.\<close>

definition line_string :: "shell \<Rightarrow> u8 list" where
  "line_string sh = takeWhile (\<lambda>c. c \<noteq> 0) (map (\<lambda>i. shell_line sh (of_nat i)) [0..<128])"

definition shell_reset_line :: "shell \<Rightarrow> shell option" where
  "shell_reset_line sh = line_store 0 0 (sh\<lparr>shell_line_len := 0\<rparr>)"

text \<open>What a call that may halt the machine comes to.\<close>

datatype 'a outcome = Returned 'a | Halted tty

definition shell_cmd_help :: "tty \<Rightarrow> tty option" where
  "shell_cmd_help t = do {
     t \<leftarrow> printf_out (chars_nl ''Commands:'') [] t;
     t \<leftarrow> printf_out (chars_nl ''  help   - this list'') [] t;
     t \<leftarrow> printf_out (chars_nl ''  mem    - PMM and kheap statistics'') [] t;
     printf_out (chars_nl ''  pfault - trigger page fault (halts kernel)'') [] t }"

definition shell_cmd_mem :: "heap \<Rightarrow> tty \<Rightarrow> tty option" where
  "shell_cmd_mem H t = do {
     let p = vm_pmm (kh_vm H);
     t \<leftarrow> printf_out (chars_nl ''PMM:  %u free / %u frames (%u used)'')
       [Word (pmm_free_frames p), Word (pmm_total_frames p), Word (pmm_used_frames p)] t;
     used \<leftarrow> kheap_used_bytes H;
     printf_out (chars_nl ''Kheap: %u used / %u bytes mapped'') [Word used, Word (kheap_total_bytes H)] t }"

text \<open>
  The read at 0xDEAD0000: where it faults the processor enters \<open>exception_handler\<close> with the saved
  registers \<open>regs\<close>, where it does not the shell halts the machine itself.
\<close>

definition shell_cmd_pfault :: "u32 \<Rightarrow> registers \<Rightarrow> vm \<Rightarrow> tty \<Rightarrow> tty option" where
  "shell_cmd_pfault pd regs s t = do {
     t \<leftarrow> printf_out (chars_nl ''Triggering page fault at 0xDEAD0000...'') [] t;
     case vread32 s 0xDEAD0000 of
       None \<Rightarrow> exception_handler pd 0xDEAD0000 regs s t
     | Some _ \<Rightarrow> Some t }"

definition shell_execute :: "u32 \<Rightarrow> registers \<Rightarrow> heap \<Rightarrow> u8 list \<Rightarrow> tty \<Rightarrow> tty outcome option" where
  "shell_execute pd regs H line t =
     (if line = [] then Some (Returned t)
      else if shell_streq line (chars ''help'') then map_option Returned (shell_cmd_help t)
      else if shell_streq line (chars ''mem'') then map_option Returned (shell_cmd_mem H t)
      else if shell_streq line (chars ''pfault'') then map_option Halted (shell_cmd_pfault pd regs (kh_vm H) t)
      else do {
        t \<leftarrow> printf_out (chars_nl ''Unknown command: %s'') [Str line] t;
        t \<leftarrow> printf_out (chars_nl ''Type 'help' for a list of commands.'') [] t;
        Some (Returned t) })"

text \<open>The body of the inner loop for the character \<open>c\<close>, up to the next \<open>keyboard_getchar\<close>.\<close>

definition shell_key ::
  "u32 \<Rightarrow> registers \<Rightarrow> heap \<Rightarrow> u8 \<Rightarrow> shell \<times> tty \<Rightarrow> (shell \<times> tty) outcome option" where
  "shell_key pd regs H c = (\<lambda>(sh, t).
     if c = 10 then do {
       t \<leftarrow> terminal_putchar 10 t;
       sh \<leftarrow> line_store (shell_line_len sh) 0 sh;
       r \<leftarrow> shell_execute pd regs H (line_string sh) t;
       case r of
         Halted t \<Rightarrow> Some (Halted t)
       | Returned t \<Rightarrow> do {
           sh \<leftarrow> shell_reset_line sh;
           t \<leftarrow> shell_prompt t;
           Some (Returned (sh, t)) } }
     else if c = 8 then
       (if shell_line_len sh > 0 then do {
          let sh = sh\<lparr>shell_line_len := shell_line_len sh - 1\<rparr>;
          sh \<leftarrow> line_store (shell_line_len sh) 0 sh;
          t \<leftarrow> terminal_putchar 8 t;
          Some (Returned (sh, t)) }
        else Some (Returned (sh, t)))
     else if \<not> shell_is_printable c then Some (Returned (sh, t))
     else if shell_line_len sh \<ge> SHELL_LINE_MAX - 1 then Some (Returned (sh, t))
     else do {
       sh \<leftarrow> line_store (shell_line_len sh) c sh;
       let sh = sh\<lparr>shell_line_len := shell_line_len sh + 1\<rparr>;
       sh \<leftarrow> line_store (shell_line_len sh) 0 sh;
       t \<leftarrow> terminal_putchar c t;
       Some (Returned (sh, t)) })"

text \<open>A run of characters, and the loop over the keyboard: with no scan code left it waits for ever.\<close>

fun shell_keys ::
  "u32 \<Rightarrow> registers \<Rightarrow> heap \<Rightarrow> u8 list \<Rightarrow> shell \<times> tty \<Rightarrow> (shell \<times> tty) outcome option" where
  "shell_keys pd regs H [] s = Some (Returned s)"
| "shell_keys pd regs H (c # cs) s = do {
     r \<leftarrow> shell_key pd regs H c s;
     case r of Halted t \<Rightarrow> Some (Halted t) | Returned s \<Rightarrow> shell_keys pd regs H cs s }"

partial_function (option) shell_loop ::
  "u32 \<Rightarrow> registers \<Rightarrow> heap \<Rightarrow> u8 list \<Rightarrow> kbd \<Rightarrow> shell \<times> tty \<Rightarrow> (shell \<times> tty) outcome option" where
  "shell_loop pd regs H scs k s =
     (case keyboard_getchar scs k of
        None \<Rightarrow> Some (Returned s)
      | Some (scs, k, c) \<Rightarrow> do {
          r \<leftarrow> shell_key pd regs H c s;
          case r of Halted t \<Rightarrow> Some (Halted t) | Returned s \<Rightarrow> shell_loop pd regs H scs k s })"

text \<open>\<open>shell_run\<close> on the scan codes still to come.\<close>

definition shell_run ::
  "u32 \<Rightarrow> registers \<Rightarrow> heap \<Rightarrow> u8 list \<Rightarrow> kbd \<Rightarrow> shell \<times> tty \<Rightarrow> (shell \<times> tty) outcome option" where
  "shell_run pd regs H scs k = (\<lambda>(sh, t). do {
     t \<leftarrow> terminal_writestring (chars_nl ''My-OS shell. Type 'help' for commands.'') t;
     sh \<leftarrow> shell_reset_line sh;
     t \<leftarrow> shell_prompt t;
     shell_loop pd regs H scs k (sh, t) })"

section \<open>The line buffer\<close>

definition line_inv :: "shell \<Rightarrow> u8 list \<Rightarrow> bool" where
  "line_inv sh line \<longleftrightarrow> shell_line_len sh = of_nat (length line) \<and> length line \<le> 127
     \<and> (\<forall>i < length line. shell_line sh (of_nat i) = line ! i) \<and> shell_line sh (of_nat (length line)) = 0
     \<and> (\<forall>c \<in> set line. shell_is_printable c)"

text \<open>What a key does to the line, and the characters it echoes.\<close>

definition edit_line :: "u8 \<Rightarrow> u8 list \<Rightarrow> u8 list" where
  "edit_line c line =
     (if c = 8 then butlast line else if shell_is_printable c \<and> length line < 127 then line @ [c] else line)"

definition echo :: "u8 \<Rightarrow> u8 list \<Rightarrow> u8 list" where
  "echo c line =
     (if c = 8 then if line = [] then [] else [8]
      else if shell_is_printable c \<and> length line < 127 then [c] else [])"

fun echoes :: "u8 list \<Rightarrow> u8 list \<Rightarrow> u8 list" where
  "echoes [] line = []"
| "echoes (c # cs) line = echo c line @ echoes cs (edit_line c line)"

lemma streq_iff: "shell_streq a b \<longleftrightarrow> a = b"
  by (induction a b rule: shell_streq.induct) auto

lemma printable_nonzero: "shell_is_printable c \<Longrightarrow> c \<noteq> 0"
  by (auto simp: shell_is_printable_def)

lemma printable_control: "\<not> shell_is_printable 8" "\<not> shell_is_printable 10"
  by (simp_all add: shell_is_printable_def)

lemma line_string_eq:
  assumes "line_inv sh line"
  shows "line_string sh = line"
proof -
  have n: "length line < 128" using assms by (simp add: line_inv_def)
  have "[0..<128] = [0..<length line] @ length line # [Suc (length line)..<128]"
    using n upt_add_eq_append [of 0 "length line" "128 - length line"] by (simp add: upt_conv_Cons)
  moreover have "map (\<lambda>i. shell_line sh (of_nat i)) [0..<length line] = line"
    using assms by (intro nth_equalityI) (simp_all add: line_inv_def)
  moreover have "\<forall>c \<in> set line. c \<noteq> 0" "shell_line sh (of_nat (length line)) = 0"
    using assms printable_nonzero by (auto simp: line_inv_def)
  ultimately show ?thesis unfolding line_string_def by (simp add: takeWhile_append2)
qed

lemma line_index: "line_inv sh line \<Longrightarrow> unat (shell_line_len sh) = length line"
  by (simp add: line_inv_def unat_of_nat_small)

lemma reset_line: "\<exists>sh'. shell_reset_line sh = Some sh' \<and> line_inv sh' []"
  by (simp add: shell_reset_line_def line_store_def SHELL_LINE_MAX_def line_inv_def word_less_nat_alt)

lemma terminate_line:
  assumes "line_inv sh line"
  shows "line_store (shell_line_len sh) 0 sh = Some (sh\<lparr>shell_line := (shell_line sh)(shell_line_len sh := 0)\<rparr>)"
    and "line_inv (sh\<lparr>shell_line := (shell_line sh)(shell_line_len sh := 0)\<rparr>) line"
proof -
  have "length line \<le> 127" using assms by (simp add: line_inv_def)
  then show "line_store (shell_line_len sh) 0 sh = Some (sh\<lparr>shell_line := (shell_line sh)(shell_line_len sh := 0)\<rparr>)"
    using line_index [OF assms] by (simp add: line_store_def SHELL_LINE_MAX_def word_less_nat_alt)
  show "line_inv (sh\<lparr>shell_line := (shell_line sh)(shell_line_len sh := 0)\<rparr>) line"
    using assms by (simp add: line_inv_def of_nat_u32_inj)
qed

lemma append_char:
  assumes "line_inv sh line" and "shell_is_printable c" and "length line < 127"
  shows "\<exists>sh1 sh2. line_store (shell_line_len sh) c sh = Some sh1
    \<and> line_store (shell_line_len (sh1\<lparr>shell_line_len := shell_line_len sh1 + 1\<rparr>)) 0 (sh1\<lparr>shell_line_len := shell_line_len sh1 + 1\<rparr>) = Some sh2
    \<and> line_inv sh2 (line @ [c])"
proof -
  let ?n = "length line"
  let ?sh1 = "sh\<lparr>shell_line := (shell_line sh)(of_nat ?n := c)\<rparr>"
  let ?sh2 = "?sh1\<lparr>shell_line_len := of_nat (Suc ?n), shell_line := ((shell_line sh)(of_nat ?n := c))(of_nat (Suc ?n) := 0)\<rparr>"
  have len: "shell_line_len sh = of_nat ?n" "shell_line_len sh + 1 = of_nat (Suc ?n)"
    using assms(1) by (simp_all add: line_inv_def)
  have lt: "(of_nat ?n :: u32) < 128" "(of_nat (Suc ?n) :: u32) < 128"
    using assms(3) by (simp_all add: word_less_nat_alt unat_of_nat_small del: of_nat_Suc)
  have inj: "(of_nat i :: u32) = of_nat j \<longleftrightarrow> i = j" if "i \<le> 127" "j \<le> 127" for i j
    using that by (intro of_nat_u32_inj) simp_all
  have "shell_line ?sh2 (of_nat i) = (line @ [c]) ! i" if "i < Suc ?n" for i
  proof (cases "i = ?n")
    case True
    then show ?thesis using inj [of ?n "Suc ?n"] assms(3) by (simp del: of_nat_Suc)
  next
    case False
    then have "i < ?n" using that by simp
    moreover have "of_nat i \<noteq> (of_nat ?n :: u32)" "of_nat i \<noteq> (of_nat (Suc ?n) :: u32)"
      using inj [of i ?n] inj [of i "Suc ?n"] assms(3) \<open>i < ?n\<close> by simp_all
    ultimately show ?thesis using assms(1) by (simp add: line_inv_def nth_append del: of_nat_Suc)
  qed
  then have "line_inv ?sh2 (line @ [c])"
    using assms by (auto simp: line_inv_def simp del: of_nat_Suc)
  moreover have "line_store (shell_line_len sh) c sh = Some ?sh1"
    using lt(1) by (simp add: line_store_def len(1) SHELL_LINE_MAX_def)
  moreover have "line_store (shell_line_len (?sh1\<lparr>shell_line_len := shell_line_len ?sh1 + 1\<rparr>)) 0
      (?sh1\<lparr>shell_line_len := shell_line_len ?sh1 + 1\<rparr>) = Some ?sh2"
    using lt(2) len(2) by (simp add: line_store_def SHELL_LINE_MAX_def del: of_nat_Suc)
  ultimately show ?thesis by blast
qed

lemma drop_char:
  assumes "line_inv sh line" and "line \<noteq> []"
  shows "\<exists>sh'. line_store (shell_line_len (sh\<lparr>shell_line_len := shell_line_len sh - 1\<rparr>)) 0 (sh\<lparr>shell_line_len := shell_line_len sh - 1\<rparr>) = Some sh'
    \<and> line_inv sh' (butlast line)"
proof -
  obtain k where k: "length line = Suc k" using assms(2) by (cases line) simp_all
  have le: "k < 127" "length line \<le> 127" using assms(1) k by (simp_all add: line_inv_def)
  have len: "shell_line_len sh - 1 = of_nat k" using assms(1) k by (simp add: line_inv_def)
  have lt: "(of_nat k :: u32) < 128" using le(1) by (simp add: word_less_nat_alt unat_of_nat_small)
  let ?sh = "sh\<lparr>shell_line_len := of_nat k, shell_line := (shell_line sh)(of_nat k := 0)\<rparr>"
  have "shell_line ?sh (of_nat i) = butlast line ! i" if "i < k" for i
  proof -
    have "of_nat i \<noteq> (of_nat k :: u32)" using that le of_nat_u32_inj [of i k] by simp
    then show ?thesis using assms(1) that k by (simp add: line_inv_def nth_butlast)
  qed
  then have "line_inv ?sh (butlast line)"
    using assms(1) k le(1) by (auto simp: line_inv_def dest: in_set_butlastD)
  then show ?thesis using lt by (simp add: line_store_def SHELL_LINE_MAX_def len)
qed

section \<open>Editing\<close>

lemma tabs_fit_append: "tabs_fit (cs @ ds) s \<longleftrightarrow> tabs_fit cs s \<and> tabs_fit ds (fold screen_putchar cs s)"
  by (induction cs arbitrary: s) simp_all

lemma putchar_shown:
  assumes "on_screen t" and "tabs_fit [c] (screen_of t)"
  shows "shown (terminal_putchar c t) t [c]"
  using write_done [OF assms] unfolding shown_def write_single .

definition at_line :: "shell \<times> tty \<Rightarrow> u8 list \<Rightarrow> screen \<Rightarrow> bool" where
  "at_line s line scr \<longleftrightarrow> line_inv (fst s) line \<and> on_screen (snd s) \<and> screen_of (snd s) = scr"

lemma type_key:
  assumes "at_line s line scr" and "c \<noteq> 10" and "tabs_fit (echo c line) scr"
  shows "\<exists>s'. shell_key pd regs H c s = Some (Returned s')
    \<and> at_line s' (edit_line c line) (fold screen_putchar (echo c line) scr)"
proof -
  obtain sh t where s: "s = (sh, t)" by (cases s)
  have l: "line_inv sh line" and t: "on_screen t" "screen_of t = scr" using assms(1) s by (simp_all add: at_line_def)
  have len: "shell_line_len sh > 0 \<longleftrightarrow> line \<noteq> []" "shell_line_len sh \<ge> SHELL_LINE_MAX - 1 \<longleftrightarrow> \<not> length line < 127"
    using line_index [OF l] by (auto simp: word_less_nat_alt word_le_nat_alt SHELL_LINE_MAX_def)
  consider (none) "echo c line = []" "edit_line c line = line" "shell_key pd regs H c s = Some (Returned s)"
    | (erase) "c = 8" "line \<noteq> []"
    | (add) "c \<noteq> 8" "shell_is_printable c" "length line < 127"
  proof -
    have "echo c line = [] \<and> edit_line c line = line \<and> shell_key pd regs H c s = Some (Returned s)"
      if "\<not> (c = 8 \<and> line \<noteq> [])" "\<not> (c \<noteq> 8 \<and> shell_is_printable c \<and> length line < 127)"
      using that assms(2) len
      by (cases "c = 8"; cases "shell_is_printable c") (simp_all add: echo_def edit_line_def shell_key_def s)
    then show thesis using that by blast
  qed
  then show ?thesis
  proof cases
    case none
    then show ?thesis using assms(1) by simp
  next
    case erase
    obtain sh' where sh': "line_store (shell_line_len (sh\<lparr>shell_line_len := shell_line_len sh - 1\<rparr>)) 0
        (sh\<lparr>shell_line_len := shell_line_len sh - 1\<rparr>) = Some sh'" "line_inv sh' (butlast line)"
      using drop_char [OF l erase(2)] by blast
    have "shown (terminal_putchar 8 t) t [8]" using putchar_shown [OF t(1), of 8] by simp
    then obtain t' where "terminal_putchar 8 t = Some t'" "on_screen t'" "screen_of t' = screen_putchar 8 scr"
      using t(2) by (auto elim: shownE)
    then show ?thesis
      using sh' erase len by (simp add: shell_key_def s echo_def edit_line_def at_line_def Let_def)
  next
    case add
    obtain sh1 sh2 where sh: "line_store (shell_line_len sh) c sh = Some sh1"
      "line_store (shell_line_len (sh1\<lparr>shell_line_len := shell_line_len sh1 + 1\<rparr>)) 0 (sh1\<lparr>shell_line_len := shell_line_len sh1 + 1\<rparr>) = Some sh2"
      "line_inv sh2 (line @ [c])"
      using append_char [OF l add(2,3)] by blast
    have "shown (terminal_putchar c t) t [c]"
      using putchar_shown [OF t(1), of c] assms(3) add t(2) by (simp add: echo_def)
    then obtain t' where "terminal_putchar c t = Some t'" "on_screen t'" "screen_of t' = screen_putchar c scr"
      using t(2) by (auto elim: shownE)
    then show ?thesis
      using sh add len assms(2) by (simp add: shell_key_def s echo_def edit_line_def at_line_def Let_def)
  qed
qed

lemma type_keys:
  "at_line s line scr \<Longrightarrow> 10 \<notin> set cs \<Longrightarrow> tabs_fit (echoes cs line) scr \<Longrightarrow>
    \<exists>s'. shell_keys pd regs H cs s = Some (Returned s')
      \<and> at_line s' (fold edit_line cs line) (fold screen_putchar (echoes cs line) scr)"
proof (induction cs arbitrary: s line scr)
  case (Cons c cs)
  have c: "c \<noteq> 10" "tabs_fit (echo c line) scr" using Cons.prems by (auto simp: tabs_fit_append)
  obtain u where u: "shell_key pd regs H c s = Some (Returned u)"
    "at_line u (edit_line c line) (fold screen_putchar (echo c line) scr)"
    using type_key [OF Cons.prems(1) c] by blast
  from Cons.IH [OF u(2)] Cons.prems(2,3) u(1) show ?case by (simp add: tabs_fit_append)
qed simp

lemma keys_append:
  "shell_keys pd regs H (cs @ ds) s = do {
     r \<leftarrow> shell_keys pd regs H cs s;
     case r of Halted t \<Rightarrow> Some (Halted t) | Returned s \<Rightarrow> shell_keys pd regs H ds s }"
proof (induction cs arbitrary: s)
  case (Cons c cs)
  then show ?case
    by (cases "shell_key pd regs H c s"; cases "the (shell_key pd regs H c s)") simp_all
qed simp

lemma edit_length: "length line \<le> 127 \<Longrightarrow> length (edit_line c line) \<le> 127"
  by (auto simp: edit_line_def)

section \<open>Commands\<close>

definition help_text :: "u8 list" where
  "help_text = chars_nl ''Commands:'' @ chars_nl ''  help   - this list''
     @ chars_nl ''  mem    - PMM and kheap statistics'' @ chars_nl ''  pfault - trigger page fault (halts kernel)''"

definition decimal :: "u32 \<Rightarrow> u8 list" where
  "decimal w = numeral_chars 10 (unat w)"

definition mem_text :: "pmm \<Rightarrow> nat \<Rightarrow> nat \<Rightarrow> u8 list" where
  "mem_text p used mapped =
     (chars ''PMM:  '' @ decimal (pmm_free_frames p) @ chars '' free / '' @ decimal (pmm_total_frames p)
      @ chars '' frames ('' @ decimal (pmm_used_frames p) @ chars_nl '' used)'')
     @ (chars ''Kheap: '' @ decimal (of_nat used) @ chars '' used / '' @ decimal (of_nat mapped) @ chars_nl '' bytes mapped'')"

definition unknown_text :: "u8 list \<Rightarrow> u8 list" where
  "unknown_text line = (chars ''Unknown command: '' @ line @ [10]) @ chars_nl ''Type 'help' for a list of commands.''"

definition command_text :: "heap \<Rightarrow> blocks \<Rightarrow> u8 list \<Rightarrow> u8 list" where
  "command_text H bs line =
     (if line = [] then [] else if line = chars ''help'' then help_text
      else if line = chars ''mem'' then mem_text (vm_pmm (kh_vm H)) (used_total bs) (total bs)
      else unknown_text line)"

lemma help_shown: "on_screen t \<Longrightarrow> shown (shell_cmd_help t) t help_text"
  unfolding shell_cmd_help_def help_text_def
  by (intro shown_seq plain_message) (simp_all add: message_defs)

lemma stats_message:
  assumes "on_screen t"
  shows "shown (printf_out (chars_nl ''PMM:  %u free / %u frames (%u used)'') [Word a, Word b, Word c] t) t
      (chars ''PMM:  '' @ decimal a @ chars '' free / '' @ decimal b @ chars '' frames ('' @ decimal c @ chars_nl '' used)'')"
    and "shown (printf_out (chars_nl ''Kheap: %u used / %u bytes mapped'') [Word a, Word b] t) t
      (chars ''Kheap: '' @ decimal a @ chars '' used / '' @ decimal b @ chars_nl '' bytes mapped'')"
  using assms numerals_short(1) [of a] numerals_short(1) [of b] numerals_short(1) [of c]
  by (intro shown_message, simp_all add: message_defs decimal_def messages)+

lemma mem_shown:
  assumes "heap_inv pd H bs" and "on_screen t"
  shows "shown (shell_cmd_mem H t) t (mem_text (vm_pmm (kh_vm H)) (used_total bs) (total bs))"
proof -
  let ?p = "vm_pmm (kh_vm H)"
  have "kheap_used_bytes H = Some (of_nat (used_total bs))" "kheap_total_bytes H = of_nat (total bs)"
    using kheap_bytes_count [OF assms(1)] by blast+
  then have "shell_cmd_mem H t = do {
      t \<leftarrow> printf_out (chars_nl ''PMM:  %u free / %u frames (%u used)'')
        [Word (pmm_free_frames ?p), Word (pmm_total_frames ?p), Word (pmm_used_frames ?p)] t;
      printf_out (chars_nl ''Kheap: %u used / %u bytes mapped'') [Word (of_nat (used_total bs)), Word (of_nat (total bs))] t }"
    by (simp add: shell_cmd_mem_def Let_def)
  then show ?thesis
    unfolding mem_text_def by (simp only:) (intro shown_seq stats_message assms(2))
qed

lemma unknown_shown:
  assumes "on_screen t" and "9 \<notin> set line" and "length line \<le> 127"
  shows "shown (printf_out (chars_nl ''Unknown command: %s'') [Str line] t) t (chars ''Unknown command: '' @ line @ [10])"
    and "shown (printf_out (chars_nl ''Type 'help' for a list of commands.'') [] t) t (chars_nl ''Type 'help' for a list of commands.'')"
  using assms
  by (intro shown_message, simp_all add: message_defs) (intro plain_message, simp_all add: message_defs)

lemma execute_shown:
  assumes "heap_inv pd H bs" and "on_screen t" and "9 \<notin> set line" and "length line \<le> 127" and "line \<noteq> chars ''pfault''"
  shows "\<exists>r. shell_execute pd regs H line t = map_option Returned r \<and> shown r t (command_text H bs line)"
proof -
  consider "line = []" | "line \<noteq> []" "line = chars ''help''" | "line \<noteq> []" "line \<noteq> chars ''help''" "line = chars ''mem''"
    | "line \<noteq> []" "line \<noteq> chars ''help''" "line \<noteq> chars ''mem''" by blast
  then show ?thesis
  proof cases
    case 1
    then show ?thesis using shown_done [OF assms(2)]
      by (intro exI [of _ "Some t"]) (simp add: shell_execute_def command_text_def)
  next
    case 2
    then show ?thesis using help_shown [OF assms(2)]
      by (intro exI [of _ "shell_cmd_help t"]) (simp add: shell_execute_def command_text_def streq_iff)
  next
    case 3
    then show ?thesis using mem_shown [OF assms(1,2)]
      by (intro exI [of _ "shell_cmd_mem H t"]) (simp add: shell_execute_def command_text_def streq_iff)
  next
    case 4
    let ?r = "do {
        t \<leftarrow> printf_out (chars_nl ''Unknown command: %s'') [Str line] t;
        printf_out (chars_nl ''Type 'help' for a list of commands.'') [] t }"
    have "shown ?r t (unknown_text line)"
      unfolding unknown_text_def using assms(2-4) by (intro shown_seq unknown_shown)
    moreover have "shell_execute pd regs H line t = map_option Returned ?r"
      using 4 assms(5) by (auto simp: shell_execute_def streq_iff split: bind_splits)
    ultimately show ?thesis using 4 by (auto simp: command_text_def)
  qed
qed

lemma prompt_shown: "on_screen t \<Longrightarrow> shown (shell_prompt t) t (chars ''myos> '')"
  unfolding shell_prompt_def by (rule writestring_shown) (simp_all add: chars_def)

lemma newline_shown: "on_screen t \<Longrightarrow> shown (terminal_putchar 10 t) t [10]"
  by (rule putchar_shown) simp_all

lemma enter_key:
  assumes "heap_inv pd H bs" and "at_line s line scr" and "9 \<notin> set line" and "line \<noteq> chars ''pfault''"
  shows "\<exists>s'. shell_key pd regs H 10 s = Some (Returned s')
    \<and> at_line s' [] (fold screen_putchar ([10] @ command_text H bs line @ chars ''myos> '') scr)"
proof -
  obtain sh t where s: "s = (sh, t)" by (cases s)
  have l: "line_inv sh line" and t: "on_screen t" "screen_of t = scr" using assms(2) s by (simp_all add: at_line_def)
  have len: "length line \<le> 127" using l by (simp add: line_inv_def)
  let ?sh = "sh\<lparr>shell_line := (shell_line sh)(shell_line_len sh := 0)\<rparr>"
  obtain t1 where t1: "terminal_putchar 10 t = Some t1" "on_screen t1" "screen_of t1 = fold screen_putchar [10] (screen_of t)"
    using newline_shown [OF t(1)] by (rule shownE)
  obtain r where r: "shell_execute pd regs H line t1 = map_option Returned r" "shown r t1 (command_text H bs line)"
    using execute_shown [OF assms(1) t1(2) assms(3) len assms(4)] by blast
  obtain t2 where t2: "r = Some t2" "on_screen t2" "screen_of t2 = fold screen_putchar (command_text H bs line) (screen_of t1)"
    using r(2) by (rule shownE)
  obtain t3 where t3: "shell_prompt t2 = Some t3" "on_screen t3" "screen_of t3 = fold screen_putchar (chars ''myos> '') (screen_of t2)"
    using prompt_shown [OF t2(2)] by (rule shownE)
  obtain sh' where sh': "shell_reset_line ?sh = Some sh'" "line_inv sh' []" using reset_line by blast
  have "shell_key pd regs H 10 s = Some (Returned (sh', t3))"
    using t1(1) r(1) t2(1) t3(1) sh'(1) terminate_line [OF l] line_string_eq [OF terminate_line(2) [OF l]]
    by (simp add: shell_key_def s)
  then show ?thesis using sh'(2) t1(3) t2(3) t3(2,3) t(2) by (simp add: at_line_def)
qed

lemma pfault_key:
  assumes "paging_inv pd (kh_vm H)" and "at_line s (chars ''pfault'') scr"
    and "walk (kh_vm H) False 0xDEAD0000 = None" and "r_int_no regs = 14"
  shows "\<exists>t'. shell_key pd regs H 10 s = Some (Halted t') \<and> on_screen t'
    \<and> screen_of t' = fold screen_putchar (fault_report 0xDEAD0000 regs None)
        ((fold screen_putchar ([10] @ chars_nl ''Triggering page fault at 0xDEAD0000...'') scr)\<lparr>attr := 0x0C\<rparr>)"
proof -
  obtain sh t where s: "s = (sh, t)" by (cases s)
  have l: "line_inv sh (chars ''pfault'')" and t: "on_screen t" "screen_of t = scr" using assms(2) s by (simp_all add: at_line_def)
  let ?m = "chars_nl ''Triggering page fault at 0xDEAD0000...''"
  obtain t1 where t1: "terminal_putchar 10 t = Some t1" "on_screen t1" "screen_of t1 = fold screen_putchar [10] (screen_of t)"
    using newline_shown [OF t(1)] by (rule shownE)
  have "shown (printf_out ?m [] t1) t1 ?m"
    using t1(2) by (intro plain_message) (simp_all add: message_defs)
  then obtain t2 where t2: "printf_out ?m [] t1 = Some t2" "on_screen t2" "screen_of t2 = fold screen_putchar ?m (screen_of t1)"
    by (rule shownE)
  obtain t3 where t3: "page_fault_handler pd 0xDEAD0000 regs (kh_vm H) t2 = Some t3" "on_screen t3"
    "screen_of t3 = fold screen_putchar (fault_report 0xDEAD0000 regs None) (screen_of (alarmed t2))"
    using handler_shown [OF t2(2) assms(1), of "0xDEAD0000" regs] unfolding assms(3) by (rule shownE)
  have "vread32 (kh_vm H) 0xDEAD0000 = None"
    using assms(3) by (simp add: vread32_def read32_None vread8_def translate_def)
  moreover have "\<not> shell_streq (chars ''pfault'') (chars ''help'')" "\<not> shell_streq (chars ''pfault'') (chars ''mem'')"
    "shell_streq (chars ''pfault'') (chars ''pfault'')" "chars ''pfault'' \<noteq> []"
    by (simp_all add: chars_def)
  ultimately have "shell_execute pd regs H (chars ''pfault'') t1 = Some (Halted t3)"
    using t2(1) t3(1) assms(4) by (simp add: shell_execute_def shell_cmd_pfault_def exception_handler_def)
  then have "shell_key pd regs H 10 s = Some (Halted t3)"
    using t1(1) terminate_line [OF l] line_string_eq [OF terminate_line(2) [OF l]] by (simp add: shell_key_def s)
  moreover have "screen_of (alarmed t2) = (screen_of t2)\<lparr>attr := 0x0C\<rparr>" by (simp add: alarmed_def screen_of_def)
  ultimately show ?thesis using t3(2,3) t2(3) t1(3) t(2) by simp
qed

section \<open>From the keyboard\<close>

lemma getchar_cases:
  assumes "kbd_inv k"
  obtains (wait) "kbd_items k @ typed k scs = []" "keyboard_getchar scs k = None"
    | (key) c cs rest l where "kbd_items k @ typed k scs = c # cs" "keyboard_getchar scs k = Some (rest, l, c)"
      "kbd_inv l" "kbd_items l @ typed l rest = cs"
  using getchar_typed [OF assms, of scs] by (cases "kbd_items k @ typed k scs") auto

lemma loop_keys:
  "kbd_inv k \<Longrightarrow> shell_loop pd regs H scs k s = shell_keys pd regs H (kbd_items k @ typed k scs) s"
proof (induction "length (kbd_items k @ typed k scs)" arbitrary: k scs s rule: less_induct)
  case less
  from less.prems show ?case
  proof (cases rule: getchar_cases [of k scs])
    case wait
    then show ?thesis by (subst shell_loop.simps) simp
  next
    case (key c cs rest l)
    have "shell_loop pd regs H rest l u = shell_keys pd regs H cs u" for u
      using less.hyps [of l rest u] key by simp
    then show ?thesis unfolding key(1) using key(2)
      by (subst shell_loop.simps) (auto split: bind_splits outcome.splits)
  qed
qed

section \<open>A line of plain characters\<close>

lemma add_key:
  assumes "line_inv sh line" and "shell_is_printable c" and "length line < 127"
  shows "\<exists>sh'. line_inv sh' (line @ [c])
    \<and> (\<forall>t. shell_key pd regs H c (sh, t) = map_option (\<lambda>t'. Returned (sh', t')) (terminal_putchar c t))"
proof -
  obtain sh1 sh2 where sh: "line_store (shell_line_len sh) c sh = Some sh1"
    "line_store (shell_line_len (sh1\<lparr>shell_line_len := shell_line_len sh1 + 1\<rparr>)) 0 (sh1\<lparr>shell_line_len := shell_line_len sh1 + 1\<rparr>) = Some sh2"
    "line_inv sh2 (line @ [c])"
    using append_char [OF assms] by blast
  have "\<not> shell_line_len sh \<ge> SHELL_LINE_MAX - 1"
    using line_index [OF assms(1)] assms(3) by (simp add: word_le_nat_alt SHELL_LINE_MAX_def)
  moreover have "c \<noteq> 8" "c \<noteq> 10" using assms(2) printable_control by auto
  ultimately have "shell_key pd regs H c (sh, t) = map_option (\<lambda>t'. Returned (sh2, t')) (terminal_putchar c t)" for t
    using sh(1,2) assms(2) by (cases "terminal_putchar c t") (simp_all add: shell_key_def Let_def)
  then show ?thesis using sh(3) by blast
qed

lemma add_keys:
  "line_inv sh line \<Longrightarrow> \<forall>c \<in> set cs. shell_is_printable c \<Longrightarrow> length line + length cs \<le> 127 \<Longrightarrow>
    \<exists>sh'. line_inv sh' (line @ cs)
      \<and> shell_keys pd regs H cs (sh, t) = map_option (\<lambda>t'. Returned (sh', t')) (terminal_write cs t)"
proof (induction cs arbitrary: sh line t)
  case (Cons c cs)
  obtain sh1 where sh1: "line_inv sh1 (line @ [c])"
    "\<forall>t. shell_key pd regs H c (sh, t) = map_option (\<lambda>t'. Returned (sh1, t')) (terminal_putchar c t)"
    using add_key [OF Cons.prems(1), of c pd regs H] Cons.prems(2,3) by auto
  show ?case
  proof (cases "terminal_putchar c t")
    case None
    obtain sh' where "line_inv sh' ((line @ [c]) @ cs)"
      using Cons.IH [OF sh1(1)] Cons.prems(2,3) by auto
    then show ?thesis using sh1(2) None by auto
  next
    case (Some u)
    obtain sh' where "line_inv sh' ((line @ [c]) @ cs)"
      "shell_keys pd regs H cs (sh1, u) = map_option (\<lambda>t'. Returned (sh', t')) (terminal_write cs u)"
      using Cons.IH [OF sh1(1), of u] Cons.prems(2,3) by auto
    then show ?thesis using sh1(2) Some by auto
  qed
qed auto

lemma plain_columns:
  assumes "set cs \<inter> {8, 9, 10, 13, 27} = {}" and "cur_col s + length cs < 80"
  shows "cur_col (fold screen_putchar cs s) = cur_col s + length cs \<and> cur_row (fold screen_putchar cs s) = cur_row s"
  using assms
proof (induction cs arbitrary: s)
  case (Cons c cs)
  have "cur_col (screen_putchar c s) = cur_col s + 1" "cur_row (screen_putchar c s) = cur_row s"
    using Cons.prems by (auto simp: cursor_putchar)
  then show ?case using Cons.IH [of "screen_putchar c s"] Cons.prems by simp
qed simp

lemma tab_write_faults:
  assumes "on_screen t" and "terminal_row t = 24" and "terminal_column t = 6"
    and "set (as @ bs) \<inter> {8, 9, 10, 13, 27} = {}" and "length as = 67" and "length bs = 49"
  shows "terminal_write (as @ 9 # bs) t = None"
proof -
  have n: "9 \<notin> set as" using assms(4) by auto
  obtain u where u: "terminal_write as t = Some u" "on_screen u" "screen_of u = fold screen_putchar as (screen_of t)"
    using write_done [OF assms(1) no_tabs_fit [OF n]] by blast
  have "cur_col (screen_of u) = 73" "cur_row (screen_of u) = 24"
    using plain_columns [of as "screen_of t"] assms(2-5) u(3) by (auto simp: screen_of_def)
  then have c: "72 < unat (terminal_column u)" "terminal_row u = 24"
    by (simp_all add: screen_of_def u32_eqI)
  obtain v where v: "terminal_putchar 9 u = Some v" "terminal_row v = 24" "unat (terminal_column v) = 80"
    using tab_to_edge [OF u(2) c(1)] c(2) by auto
  have ne: "bs \<noteq> []" using assms(6) by auto
  have bs: "bs = butlast bs @ [last bs]" "length (butlast bs) = 48" "last bs \<in> set bs" "set (butlast bs) \<subseteq> set bs"
    using assms(6) ne by (simp_all add: subset_iff in_set_butlastD)
  obtain w where w: "terminal_write (butlast bs) v = Some w" "terminal_row w = 24" "unat (terminal_column w) = 128"
    using write_past [OF v(2), of "butlast bs"] v(3) bs(2,4) assms(4) by fastforce
  have "last bs \<notin> {8, 9, 10, 13, 27}"
  proof
    assume "last bs \<in> {8, 9, 10, 13, 27}"
    then have "last bs \<in> set (as @ bs) \<inter> {8, 9, 10, 13, 27}" using bs(3) by simp
    then show False using assms(4) by (metis empty_iff)
  qed
  then have "terminal_putchar (last bs) w = None" by (rule putchar_beyond [OF w(2,3)])
  then have "terminal_write bs v = None"
    using write_append [of "butlast bs" "[last bs]" v] w(1) bs(1) by simp
  then show ?thesis using u(1) v(1) by (simp add: write_append)
qed

text \<open>A line typed at the keyboard, from the first key to the next prompt.\<close>

lemma line_runs:
  assumes "heap_inv pd H bs" and "at_line s [] scr" and "kbd_inv k"
    and "kbd_items k @ typed k scs = cs @ [10]" and "10 \<notin> set cs" and "tabs_fit (echoes cs []) scr"
    and "line = fold edit_line cs []" and "9 \<notin> set line" and "line \<noteq> chars ''pfault''"
  shows "\<exists>s'. shell_loop pd regs H scs k s = Some (Returned s')
    \<and> at_line s' [] (fold screen_putchar (echoes cs [] @ [10] @ command_text H bs line @ chars ''myos> '') scr)"
proof -
  obtain u where u: "shell_keys pd regs H cs s = Some (Returned u)"
    "at_line u line (fold screen_putchar (echoes cs []) scr)"
    using type_keys [OF assms(2,5,6)] assms(7) by blast
  obtain s' where "shell_key pd regs H 10 u = Some (Returned s')"
    "at_line s' [] (fold screen_putchar ([10] @ command_text H bs line @ chars ''myos> '') (fold screen_putchar (echoes cs []) scr))"
    using enter_key [OF assms(1) u(2) assms(8,9)] by blast
  then show ?thesis
    unfolding loop_keys [OF assms(3)] assms(4) keys_append using u(1) by simp
qed

section \<open>Properties\<close>

definition example_shell :: shell where
  "example_shell = \<lparr>shell_line = (\<lambda>_. 0), shell_line_len = 0\<rparr>"

definition blank_tty :: tty where
  "blank_tty = example_tty\<lparr>terminal_column := 6\<rparr>"

lemma example_shell_at: "at_line (example_shell, blank_tty) [] (screen_of blank_tty)"
  by (simp add: at_line_def example_shell_def line_inv_def blank_tty_def example_tty_def on_screen_def)

text \<open>C35: the line buffer always holds exactly the edited line and its terminating zero: a printable
  character or tab is appended up to 127, backspace drops the last, other characters are ignored; the
  screen shows what was accepted, if no tab is echoed in the last seven columns.\<close>

theorem shell_line_edited:
  assumes "at_line s line scr" and "10 \<notin> set cs" and "tabs_fit (echoes cs line) scr"
  shows "\<exists>s'. shell_keys pd regs H cs s = Some (Returned s')
    \<and> at_line s' (fold edit_line cs line) (fold screen_putchar (echoes cs line) scr)
    \<and> line_string (fst s') = fold edit_line cs line \<and> length (fold edit_line cs line) \<le> 127"
proof -
  obtain s' where s': "shell_keys pd regs H cs s = Some (Returned s')"
    "at_line s' (fold edit_line cs line) (fold screen_putchar (echoes cs line) scr)"
    using type_keys [OF assms] by blast
  then have l: "line_inv (fst s') (fold edit_line cs line)" by (simp add: at_line_def)
  then have "length (fold edit_line cs line) \<le> 127" by (simp add: line_inv_def)
  with s' line_string_eq [OF l] show ?thesis by blast
qed

theorem shell_line_edited_witness:
  "\<exists>s'. shell_keys 0 (example_regs 14) example_heap [0x6D, 0x65, 0x78, 8, 0x6D, 27] (example_shell, blank_tty) = Some (Returned s')
    \<and> line_string (fst s') = chars ''mem''"
proof -
  have "10 \<notin> set [0x6D, 0x65, 0x78, 8, 0x6D, 27::u8]" by simp
  moreover have "tabs_fit (echoes [0x6D, 0x65, 0x78, 8, 0x6D, 27] []) (screen_of blank_tty)"
    by (rule no_tabs_fit) (simp add: echo_def edit_line_def shell_is_printable_def)
  moreover have "fold edit_line [0x6D, 0x65, 0x78, 8, 0x6D, 27] [] = chars ''mem''" by code_simp
  ultimately show ?thesis
    using shell_line_edited [OF example_shell_at, of "[0x6D, 0x65, 0x78, 8, 0x6D, 27]" 0 "example_regs 14" example_heap] by auto
qed

text \<open>A line is run: when the queued and the coming scan codes type some characters and Enter, the shell
  reads them all, executes the edited line, prints the command's text (the statistics of the frame
  allocator and of the heap for \<open>mem\<close>) and a new prompt, and waits with an empty line.\<close>

theorem shell_runs_command:
  assumes "heap_inv pd H bs" and "at_line s [] scr" and "kbd_inv k"
    and "kbd_items k @ typed k scs = cs @ [10]" and "10 \<notin> set cs" and "tabs_fit (echoes cs []) scr"
    and "line = fold edit_line cs []" and "9 \<notin> set line" and "line \<noteq> chars ''pfault''"
  shows "\<exists>s'. shell_loop pd regs H scs k s = Some (Returned s')
    \<and> at_line s' [] (fold screen_putchar (echoes cs [] @ [10] @ command_text H bs line @ chars ''myos> '') scr)"
  using assms by (rule line_runs)

theorem shell_runs_command_witness:
  "\<exists>s'. shell_loop 0xC0110000 (example_regs 14) example_heap [0x32, 0x12, 0x32, 0x1C] example_kbd (example_shell, blank_tty) = Some (Returned s')
    \<and> line_inv (fst s') []"
proof -
  have t: "typed example_kbd [0x32, 0x12, 0x32, 0x1C] = chars ''mem'' @ [10]"
    "fold edit_line (chars ''mem'') [] = chars ''mem''" by code_simp+
  have n: "10 \<notin> set (chars ''mem'')" "9 \<notin> set (chars ''mem'')" "chars ''mem'' \<noteq> chars ''pfault''" by (simp_all add: chars_def)
  have f: "tabs_fit (echoes (chars ''mem'') []) (screen_of blank_tty)"
    by (rule no_tabs_fit) (simp add: chars_def echo_def edit_line_def shell_is_printable_def)
  have k: "kbd_items example_kbd @ typed example_kbd [0x32, 0x12, 0x32, 0x1C] = chars ''mem'' @ [10]"
    unfolding t(1) example_kbd_inv(2) by simp
  show ?thesis
    using shell_runs_command [OF example_heap_inv example_shell_at example_kbd_inv(1) k n(1) f t(2) [symmetric] n(2,3)]
    unfolding at_line_def by blast
qed

text \<open>\<open>pfault\<close> halts the machine in the page fault report for 0xDEAD0000, not present, whatever is typed
  after it.\<close>

theorem shell_pfault_halts:
  assumes "paging_inv pd (kh_vm H)" and "at_line s (chars ''pfault'') scr"
    and "walk (kh_vm H) False 0xDEAD0000 = None" and "r_int_no regs = 14"
  shows "\<exists>t'. shell_keys pd regs H (10 # cs) s = Some (Halted t') \<and> on_screen t'
    \<and> screen_of t' = fold screen_putchar (fault_report 0xDEAD0000 regs None)
        ((fold screen_putchar ([10] @ chars_nl ''Triggering page fault at 0xDEAD0000...'') scr)\<lparr>attr := 0x0C\<rparr>)"
  using pfault_key [OF assms] by auto

theorem shell_pfault_halts_witness:
  "\<exists>t'. shell_keys 0xC0110000 (example_regs 14) (empty_heap example_vm) ([0x70, 0x66, 0x61, 0x75, 0x6C, 0x74] @ [10, 0x61]) (example_shell, blank_tty) = Some (Halted t')"
proof -
  have f: "tabs_fit (echoes [0x70, 0x66, 0x61, 0x75, 0x6C, 0x74] []) (screen_of blank_tty)"
    by (rule no_tabs_fit) (simp add: echo_def edit_line_def shell_is_printable_def)
  have e: "fold edit_line [0x70, 0x66, 0x61, 0x75, 0x6C, 0x74] [] = chars ''pfault''" by code_simp
  have "10 \<notin> set [0x70, 0x66, 0x61, 0x75, 0x6C, 0x74::u8]" by simp
  from type_keys [OF example_shell_at this f, of "0xC0110000" "example_regs 14" "empty_heap example_vm"]
  obtain u where u: "shell_keys 0xC0110000 (example_regs 14) (empty_heap example_vm) [0x70, 0x66, 0x61, 0x75, 0x6C, 0x74] (example_shell, blank_tty) = Some (Returned u)"
    "\<exists>scr. at_line u (chars ''pfault'') scr" unfolding e by blast
  have "walk (kh_vm (empty_heap example_vm)) False 0xDEAD0000 = None" "paging_inv 0xC0110000 (kh_vm (empty_heap example_vm))"
    using example_vm by (simp_all add: empty_heap_def pde_index_def)
  moreover have "r_int_no (example_regs 14) = 14" by (simp add: example_regs_def)
  ultimately show ?thesis using shell_pfault_halts [of "0xC0110000" "empty_heap example_vm" u] u unfolding keys_append by fastforce
qed

text \<open>C36: from a fresh prompt on the last row, 67 characters, a tab and 49 more characters, all accepted by
  the editor, crash the kernel: the echo leaves the video page.\<close>

theorem shell_tab_fault:
  assumes "line_inv sh []" and "on_screen t" and "terminal_row t = 24" and "terminal_column t = 6"
    and "\<forall>c \<in> set (as @ bs). 32 \<le> c \<and> c \<le> 126" and "length as = 67" and "length bs = 49"
  shows "shell_keys pd regs H (as @ 9 # bs) (sh, t) = None"
proof -
  have p: "\<forall>c \<in> set (as @ 9 # bs). shell_is_printable c" using assms(5) by (auto simp: shell_is_printable_def)
  have l: "length [] + length (as @ 9 # bs) \<le> 127" using assms(6,7) by simp
  obtain sh' where "shell_keys pd regs H (as @ 9 # bs) (sh, t) = map_option (\<lambda>t'. Returned (sh', t')) (terminal_write (as @ 9 # bs) t)"
    using add_keys [OF assms(1) p l, of pd regs H t] by blast
  moreover have "set (as @ bs) \<inter> {8, 9, 10, 13, 27} = {}"
  proof -
    have "c \<notin> {8, 9, 10, 13, 27}" if "c \<in> set (as @ bs)" for c
      using bspec [OF assms(5) that] by (auto simp: word_le_nat_alt)
    then show ?thesis by blast
  qed
  ultimately show ?thesis using tab_write_faults [OF assms(2-4) _ assms(6,7)] by simp
qed

theorem shell_tab_fault_witness:
  "shell_keys 0xC0110000 (example_regs 14) example_heap (replicate 67 0x61 @ 9 # replicate 49 0x62) (example_shell, blank_tty) = None"
proof -
  have "\<forall>c \<in> set (replicate 67 0x61 @ replicate 49 (0x62::u8)). 32 \<le> c \<and> c \<le> 126" by simp
  moreover have "terminal_row blank_tty = 24" "terminal_column blank_tty = 6" "on_screen blank_tty" "line_inv example_shell []"
    using example_shell_at by (simp_all add: at_line_def blank_tty_def example_tty_def)
  ultimately show ?thesis
    using shell_tab_fault [of example_shell blank_tty "replicate 67 0x61" "replicate 49 0x62"] by simp
qed

end
