(* ===== verification/Console_Ports.thy ===== *)
theory Console_Ports
  imports Console
begin

text \<open>
  Printing touches no device but the screen's: whatever the arguments, an output function that returns has
  written to the two ports of the VGA cursor only. The programming of the other devices therefore
  survives all output.
\<close>

definition quiet :: "tty \<Rightarrow> tty \<Rightarrow> bool" where
  "quiet t t' \<longleftrightarrow> (\<forall>p. p \<noteq> VGA_CRTC_INDEX \<and> p \<noteq> VGA_CRTC_DATA \<longrightarrow> port_bytes p (tty_ports t') = port_bytes p (tty_ports t))"

lemma quiet_refl [simp]: "quiet t t"
  by (simp add: quiet_def)

lemma quiet_trans: "quiet t u \<Longrightarrow> quiet u v \<Longrightarrow> quiet t v"
  by (simp add: quiet_def)

lemma quiet_from: "tty_ports u = tty_ports t \<Longrightarrow> quiet u v \<longleftrightarrow> quiet t v"
  by (simp add: quiet_def)

text \<open>A run whose result holds the terminal in \<open>f\<close> is quiet if it returns; a sequence of such runs is.\<close>

definition quietly :: "('a \<Rightarrow> tty) \<Rightarrow> tty \<Rightarrow> 'a option \<Rightarrow> bool" where
  "quietly f t r \<longleftrightarrow> (\<forall>x. r = Some x \<longrightarrow> quiet t (f x))"

named_theorems quiets "quiet runs and how they combine"

lemma quietlyD: "quietly f t r \<Longrightarrow> r = Some x \<Longrightarrow> quiet t (f x)"
  by (simp add: quietly_def)

lemma quietly_done [quiets]: "quiet t (f x) \<Longrightarrow> quietly f t (Some x)" "quietly f t None"
  by (simp_all add: quietly_def)

lemma quietly_bind [quiets]:
  "quietly (\<lambda>u. u) t r \<Longrightarrow> (\<And>u. quietly g u (k u)) \<Longrightarrow> quietly g t (r \<bind> k)"
  "quietly fst t q \<Longrightarrow> (\<And>u ok. quietly g u (l u ok)) \<Longrightarrow> quietly g t (q \<bind> (\<lambda>(u, ok). l u ok))"
  by (auto simp: quietly_def split: bind_splits) (blast intro: quiet_trans | metis fst_conv quiet_trans)+

lemma quietly_if [quiets]: "(b \<Longrightarrow> quietly f t r) \<Longrightarrow> (\<not> b \<Longrightarrow> quietly f t q) \<Longrightarrow> quietly f t (if b then r else q)"
  by simp

section \<open>The terminal\<close>

lemma newline_ports [simp]: "tty_ports (terminal_newline t) = tty_ports t"
  by (simp add: terminal_newline_def terminal_scroll_def Let_def)

lemma sync_quiet [quiets]: "quiet t (terminal_sync_cursor t)"
  by (simp add: quiet_def terminal_sync_cursor_def Let_def)

lemma same_ports: "tty_ports u = tty_ports t \<Longrightarrow> quiet t u" "tty_ports u = tty_ports t \<Longrightarrow> quiet t (terminal_sync_cursor u)"
  using sync_quiet [of u] by (simp_all add: quiet_def)

lemma store_quiet: "terminal_putentryat c color x y t = Some t' \<Longrightarrow> tty_ports t' = tty_ports t"
  by (auto simp: terminal_putentryat_def cell_store_def split: if_splits)

lemma tab_quiet: "terminal_tab t = Some t' \<Longrightarrow> tty_ports t' = tty_ports t"
proof (erule terminal_tab.raw_induct [rotated])
  fix f :: "tty \<Rightarrow> tty option" and u u' :: tty
  assume IH: "\<And>v v'. f v = Some v' \<Longrightarrow> tty_ports v' = tty_ports v"
    and run: "(if terminal_column u < VGA_WIDTH \<and> terminal_column u mod TAB_WIDTH \<noteq> 0
      then terminal_putentryat 0x20 (terminal_color u) (terminal_column u) (terminal_row u) u \<bind>
           (\<lambda>t. f (t\<lparr>terminal_column := terminal_column t + 1\<rparr>)) else Some u) = Some u'"
  show "tty_ports u' = tty_ports u"
    using run by (auto split: if_splits bind_splits dest!: store_quiet IH)
qed

lemma putchar_quiet: "quietly (\<lambda>u. u) t (terminal_putchar c t)"
  unfolding quietly_def terminal_putchar_def Let_def
  by (auto split: if_splits bind_splits intro!: same_ports dest!: store_quiet tab_quiet)

lemma write_quiet [quiets]: "quietly (\<lambda>u. u) t (terminal_write cs t)"
  by (induction cs arbitrary: t) (auto intro!: quiets putchar_quiet)

lemma initialize_quiet: "quiet t (terminal_initialize inp t)"
  by (simp add: quiet_def terminal_initialize_def terminal_enable_hw_cursor_def terminal_sync_cursor_def Let_def)

section \<open>Formatted output\<close>

lemma print_quiet [quiets]: "quietly fst t (print cs t)"
  by (induction cs arbitrary: t) (auto simp: putchar_def intro!: quiets putchar_quiet)

lemma print_uint_quiet [quiets]: "quietly fst t (print_uint w b t)"
  unfolding print_uint_def by (intro quiets quiet_refl) simp

lemma print_int_quiet [quiets]: "quietly fst t (print_int w t)"
  unfolding print_int_def by (intro quiets) simp

lemma conversion_quiet: "quietly fst t (printf_conversion fmt args r t)"
  unfolding printf_conversion_def Let_def
  by (auto split: list.splits printf_arg.splits intro!: quiets simp del: print.simps)

lemma loop_quiet:
  assumes "printf_loop fmt args w t = Some r"
  shows "quiet t (fst r)"
  using assms
proof (rule printf_loop.raw_induct [rotated])
  fix f :: "u8 list \<Rightarrow> printf_arg list \<Rightarrow> u32 \<Rightarrow> tty \<Rightarrow> (tty \<times> u32) option" and fmt args w t and r :: "tty \<times> u32"
  assume IH: "\<And>fmt args w t r. f fmt args w t = Some r \<Longrightarrow> quiet t (fst r)"
  then have f: "quietly fst t (f fmt args w t)" for fmt args w t by (simp add: quietly_def)
  show "(if fmt = [] then Some (t, w)
      else let maxrem = INT_MAX - w in
        if hd fmt \<noteq> 0x25 \<or> tl fmt \<noteq> [] \<and> hd (tl fmt) = 0x25 then
          let fmt = (if hd fmt = 0x25 then tl fmt else fmt); amount = plain_amount fmt in
          if maxrem < of_nat amount then Some (t, -1)
          else do {
            (t, ok) \<leftarrow> print (take amount fmt) t;
            if \<not> ok then Some (t, -1) else f (drop amount fmt) args (w + of_nat amount) t }
        else do {
          (t, fmt, args, n) \<leftarrow> printf_conversion (tl fmt) args maxrem t;
          case n of None \<Rightarrow> Some (t, -1) | Some n \<Rightarrow> f fmt args (w + n) t }) = Some r \<Longrightarrow> quiet t (fst r)"
    apply (rule quietlyD [of fst t])
     prefer 2 apply assumption
    unfolding Let_def
    by (intro quiets f conversion_quiet) (auto split: option.splits intro!: quiets f)
qed

lemma printf_quiet [quiets]: "quietly (\<lambda>u. u) t (printf_out fmt args t)"
  by (auto simp: quietly_def printf_out_def printf_def dest: loop_quiet)

end
