(* ===== verification/Kernel_Main.thy ===== *)
theory Kernel_Main
  imports Shell Gdt Interrupts Console_Ports
begin

text \<open>
  The start of the kernel: what \<open>boot.S\<close> does between switching paging on and \<open>kernel_main\<close>, and
  \<open>kernel_main\<close> itself (\<open>kernel/kernel.c\<close>) with its self tests of the frame allocator, of paging and of
  the heap. The lemmas follow the self tests branch by branch and compose the components' contracts
  to the state in which the shell waits for its first key.
\<close>

section \<open>The self tests\<close>

definition pmm_self_test :: "pmm \<Rightarrow> tty \<Rightarrow> (pmm \<times> tty) option" where
  "pmm_self_test p t =
     (let (p, a) = pmm_alloc_frame p;
          (p, b) = pmm_alloc_frame p
      in if a = 0 \<or> b = 0 then do {
           t \<leftarrow> printf_out (chars_nl ''PMM self-test: alloc failed'') [] t;
           Some (p, t) }
      else if a = b then do {
           t \<leftarrow> printf_out (chars_nl ''PMM self-test: duplicate frame %p'') [Word a] t;
           Some (p, t) }
      else
        let p = pmm_free_frame a p;
            p = pmm_free_frame b p
        in do {
           t \<leftarrow> printf_out (chars_nl ''PMM self-test: ok'') [] t;
           Some (p, t) })"

text \<open>The early returns of \<open>paging_self_test\<close> that give the frame back, with or without unmapping it.\<close>

definition test_virt :: u32 where "test_virt = 0xC1000000"
definition test_magic :: u32 where "test_magic = 0xDEADBEEF"

definition paging_test_exit :: "string \<Rightarrow> u32 \<Rightarrow> vm \<Rightarrow> tty \<Rightarrow> (vm \<times> tty) option" where
  "paging_test_exit message frame s t = do {
     t \<leftarrow> printf_out (chars_nl message) [] t;
     Some (s\<lparr>vm_pmm := pmm_free_frame frame (vm_pmm s)\<rparr>, t) }"

definition paging_test_undo :: "u32 \<Rightarrow> string \<Rightarrow> u32 \<Rightarrow> vm \<Rightarrow> tty \<Rightarrow> (vm \<times> tty) option" where
  "paging_test_undo pd message frame s t = do {
     t \<leftarrow> printf_out (chars_nl message) [] t;
     s \<leftarrow> paging_unmap_page pd test_virt s;
     Some (s\<lparr>vm_pmm := pmm_free_frame frame (vm_pmm s)\<rparr>, t) }"

definition paging_self_test :: "u32 \<Rightarrow> vm \<Rightarrow> tty \<Rightarrow> (vm \<times> tty) option" where
  "paging_self_test pd s t =
     (let (p, frame) = pmm_alloc_frame (vm_pmm s);
          s = s\<lparr>vm_pmm := p\<rparr>
      in if frame = 0 then do {
           t \<leftarrow> printf_out (chars_nl ''Paging self-test: alloc failed'') [] t;
           Some (s, t) }
      else do {
        (s, ok) \<leftarrow> paging_map_page pd test_virt frame PAGING_FLAG_WRITE s;
        if \<not> ok then paging_test_exit ''Paging self-test: map failed'' frame s t
        else do {
          s \<leftarrow> vwrite32 s test_virt test_magic;
          v \<leftarrow> vread32 s test_virt;
          if v \<noteq> test_magic then paging_test_undo pd ''Paging self-test: read/write failed'' frame s t
          else do {
            phys \<leftarrow> paging_get_physical pd test_virt s;
            if phys \<noteq> frame then paging_test_undo pd ''Paging self-test: phys mismatch'' frame s t
            else do {
              s \<leftarrow> paging_unmap_page pd test_virt s;
              phys \<leftarrow> paging_get_physical pd test_virt s;
              if phys \<noteq> 0 then paging_test_exit ''Paging self-test: unmap failed'' frame s t
              else do {
                let s = s\<lparr>vm_pmm := pmm_free_frame frame (vm_pmm s)\<rparr>;
                t \<leftarrow> printf_out (chars_nl ''Paging self-test: ok'') [] t;
                Some (s, t) } } } } })"

text \<open>The four stores of \<open>kheap_self_test\<close>, and its comparison, which stops at the first difference.\<close>

fun store_bytes :: "(u32 \<times> u8) list \<Rightarrow> vm \<Rightarrow> vm option" where
  "store_bytes [] s = Some s"
| "store_bytes ((x, c) # xs) s = do { s \<leftarrow> vwrite8 s x c; store_bytes xs s }"

fun bytes_differ :: "(u32 \<times> u8) list \<Rightarrow> vm \<Rightarrow> bool option" where
  "bytes_differ [] s = Some False"
| "bytes_differ ((x, c) # xs) s = do { b \<leftarrow> vread8 s x; if b \<noteq> c then Some True else bytes_differ xs s }"

definition test_bytes :: "u32 \<Rightarrow> u32 \<Rightarrow> (u32 \<times> u8) list" where
  "test_bytes a b = [(a + 0, 0x41), (a + 63, 0x5A), (b + 0, 0x42), (b + 127, 0x59)]"

definition kheap_test_exit :: "string \<Rightarrow> u32 \<Rightarrow> u32 \<Rightarrow> heap \<Rightarrow> tty \<Rightarrow> (heap \<times> tty) option" where
  "kheap_test_exit message a b H t = do {
     t \<leftarrow> printf_out (chars_nl message) [] t;
     H \<leftarrow> kfree a H;
     H \<leftarrow> kfree b H;
     Some (H, t) }"

definition kheap_self_test :: "u32 \<Rightarrow> heap \<Rightarrow> tty \<Rightarrow> (heap \<times> tty) option" where
  "kheap_self_test pd H t = do {
     (H, a) \<leftarrow> kmalloc pd 64 H;
     (H, b) \<leftarrow> kmalloc pd 128 H;
     if a = 0 \<or> b = 0 then do {
       t \<leftarrow> printf_out (chars_nl ''Kheap self-test: alloc failed'') [] t;
       Some (H, t) }
     else if a = b then kheap_test_exit ''Kheap self-test: overlap'' a b H t
     else do {
       s \<leftarrow> store_bytes (test_bytes a b) (kh_vm H);
       let H = H\<lparr>kh_vm := s\<rparr>;
       differ \<leftarrow> bytes_differ (test_bytes a b) (kh_vm H);
       if differ then kheap_test_exit ''Kheap self-test: read/write failed'' a b H t
       else do {
         H \<leftarrow> kfree a H;
         H \<leftarrow> kfree b H;
         used \<leftarrow> kheap_used_bytes H;
         t \<leftarrow> printf_out (chars_nl ''Kheap self-test: ok (%u / %u bytes)'') [Word used, Word (kheap_total_bytes H)] t;
         Some (H, t) } } }"

section \<open>The start\<close>

text \<open>The kernel's variables, and what the linker and the hardware give it.\<close>

record kernel =
  k_tty :: tty
  k_gdt :: gdt
  k_idt :: idt
  k_irqs :: "kbd irq_handlers"
  k_mb :: multiboot
  k_heap :: heap
  k_kbd :: kbd
  k_shell :: shell

record machine =
  m_image :: kernel_image
  m_gdt_table :: u32
  m_idt_table :: u32
  m_isr_stubs :: "u8 \<Rightarrow> u32"
  m_irq_stubs :: "u8 \<Rightarrow> u32"
  m_input :: port_input
  m_regs :: registers

text \<open>
  From the boot loader's registers \<open>eax\<close> and \<open>ebx\<close> and the physical memory \<open>m\<close> to the call of
  \<open>kernel_main\<close>: the page tables are built and switched on, the memory map is copied under the
  identity map, and the identity map is removed.
\<close>

definition boot_start :: "machine \<Rightarrow> memory \<Rightarrow> u32 \<Rightarrow> u32 \<Rightarrow> kernel \<Rightarrow> kernel option" where
  "boot_start M m eax ebx K =
     (let pd = boot_page_directory (m_image M);
          m = boot_paging pd (boot_page_table1 (m_image M)) m;
          s = (kh_vm (k_heap K))\<lparr>vm_mem := m, vm_cr3 := virt_to_phys pd\<rparr>
      in do {
        mb \<leftarrow> multiboot_early_init (vread8 s) eax ebx (k_mb K);
        s \<leftarrow> boot_drop_identity pd s;
        Some (K\<lparr>k_mb := mb, k_heap := (k_heap K)\<lparr>kh_vm := s\<rparr>\<rparr>) })"

text \<open>\<open>kernel_main\<close> up to the call of \<open>shell_run\<close>; all port writes go to one log, the terminal's.\<close>

definition kernel_start :: "machine \<Rightarrow> kernel \<Rightarrow> kernel option" where
  "kernel_start M K =
     (let pd = boot_page_directory (m_image M);
          t = terminal_initialize (m_input M) (k_tty K);
          g = gdt_init (m_gdt_table M) (k_gdt K);
          i = idt_init (m_idt_table M) (m_isr_stubs M) (k_idt K);
          i = irq_init (m_irq_stubs M) i;
          t = t\<lparr>tty_ports := pic_init (tty_ports t)\<rparr>
      in do {
        t \<leftarrow> (if \<not> multiboot_is_valid (k_mb K)
             then printf_out (chars_nl ''Multiboot: memory map unavailable'') [] t
             else printf_out (chars_nl ''Multiboot: %u mmap regions'') [Word (multiboot_mmap_entry_count (k_mb K))] t);
        let s = kh_vm (k_heap K);
        let p = pmm_init (m_image M) (k_mb K) (vm_pmm s);
        t \<leftarrow> printf_out (chars_nl ''PMM: %u free / %u frames (%u used)'')
              [Word (pmm_free_frames p), Word (pmm_total_frames p), Word (pmm_used_frames p)] t;
        (p, t) \<leftarrow> pmm_self_test p t;
        s \<leftarrow> paging_init pd (s\<lparr>vm_pmm := p\<rparr>);
        (s, t) \<leftarrow> paging_self_test pd s t;
        H \<leftarrow> kheap_init pd ((k_heap K)\<lparr>kh_vm := s\<rparr>);
        (H, t) \<leftarrow> kheap_self_test pd H t;
        t \<leftarrow> printf_out (chars_nl ''Page fault handler: ready'') [] t;
        let (k, hs, log) = keyboard_init (m_input M) (k_kbd K) (k_irqs K) (tty_ports t);
        Some (K\<lparr>k_tty := t\<lparr>tty_ports := log\<rparr>, k_gdt := g, k_idt := i, k_irqs := hs, k_heap := H, k_kbd := k\<rparr>) })"

text \<open>The whole of it, on the scan codes that arrive once interrupts are on.\<close>

definition kernel_main :: "machine \<Rightarrow> u8 list \<Rightarrow> kernel \<Rightarrow> (shell \<times> tty) outcome option" where
  "kernel_main M scs K = do {
     K \<leftarrow> kernel_start M K;
     shell_run (boot_page_directory (m_image M)) (m_regs M) (k_heap K) scs (k_kbd K) (k_shell K, k_tty K) }"

section \<open>What a test leaves behind\<close>

text \<open>\<open>tested r t out P\<close>: the run \<open>r\<close> from terminal \<open>t\<close> returns, has printed \<open>out\<close>, and its other result
  satisfies \<open>P\<close>.\<close>

definition tested :: "('s \<times> tty) option \<Rightarrow> tty \<Rightarrow> u8 list \<Rightarrow> ('s \<Rightarrow> bool) \<Rightarrow> bool" where
  "tested r t out P \<longleftrightarrow> (\<exists>s t'. r = Some (s, t') \<and> P s \<and> on_screen t' \<and> screen_of t' = fold screen_putchar out (screen_of t))"

lemma testedE:
  assumes "tested r t out P"
  obtains s t' where "r = Some (s, t')" "P s" "on_screen t'" "screen_of t' = fold screen_putchar out (screen_of t)"
  using assms unfolding tested_def by blast

lemma tested_message:
  assumes "on_screen t" and "P s" and "0x25 \<notin> set (chars_nl message)" and "9 \<notin> set (chars_nl message)"
    and "length (chars_nl message) < 2147483648"
  shows "tested (do { t \<leftarrow> printf_out (chars_nl message) [] t; Some (s, t) }) t (chars_nl message) P"
  using plain_message [OF assms(3,4,5,1)] assms(2) by (auto simp: tested_def elim!: shownE)

section \<open>The frame allocator's test\<close>

lemma avail_take:
  assumes "pmm_inv p" and "pmm_alloc_frame p = (q, a)"
  shows "pmm_inv q" and "pmm_pool q = pmm_pool p" and "pmm_avail q = pmm_avail p - {a}"
    and "a = 0 \<longleftrightarrow> pmm_avail p = {}" and "a \<noteq> 0 \<longrightarrow> a \<in> pmm_avail p \<and> a \<in> pmm_pool p"
proof -
  show "pmm_inv q" "pmm_pool q = pmm_pool p" "pmm_avail q = pmm_avail p - {a}" "a = 0 \<longleftrightarrow> pmm_avail p = {}"
    using pmm.alloc_keeps [OF assms(1)] pmm.alloc_zero_iff [OF assms(1)] assms(2) by simp_all
  show "a \<noteq> 0 \<longrightarrow> a \<in> pmm_avail p \<and> a \<in> pmm_pool p"
  proof
    assume "a \<noteq> 0"
    then have "pmm_avail p \<noteq> {}" using pmm.alloc_zero_iff [OF assms(1)] assms(2) by simp
    then have "a \<in> pmm_avail p" using pmm.alloc_takes [OF assms(1) _ assms(2)] by simp
    then show "a \<in> pmm_avail p \<and> a \<in> pmm_pool p" using pmm.avail_pool by blast
  qed
qed

lemma avail_give:
  assumes "pmm_inv p" and "a \<in> pmm_pool p"
  shows "pmm_inv (pmm_free_frame a p)" and "pmm_pool (pmm_free_frame a p) = pmm_pool p"
    and "pmm_avail (pmm_free_frame a p) = insert a (pmm_avail p)"
  using pmm.release_returns [OF assms] by blast+

lemma two_available: "2 \<le> card (A :: u32 set) \<longleftrightarrow> (\<forall>a. A - {a} \<noteq> {})"
proof
  assume "2 \<le> card A"
  show "\<forall>a. A - {a} \<noteq> {}"
  proof
    fix a
    show "A - {a} \<noteq> {}"
    proof
      assume "A - {a} = {}"
      then have "card A \<le> card {a}" by (intro card_mono) auto
      then show False using \<open>2 \<le> card A\<close> by simp
    qed
  qed
next
  assume r: "\<forall>a. A - {a} \<noteq> {}"
  show "2 \<le> card A"
  proof (rule ccontr)
    assume "\<not> 2 \<le> card A"
    then have "card A \<le> Suc 0" by simp
    then obtain a where "A \<subseteq> {a}" using card_le_Suc0_iff_eq [of A] by (cases "A = {}") auto
    then show False using r by blast
  qed
qed

text \<open>The frame allocator's self test always returns. With two free frames or more it reports success
  and every frame is free again; with fewer it reports the failure and keeps what it had allocated, so
  that no frame is free afterwards.\<close>

theorem pmm_self_test_result:
  assumes "pmm_inv p" and "on_screen t"
  shows "\<exists>p' t'. pmm_self_test p t = Some (p', t') \<and> pmm_inv p' \<and> on_screen t'
    \<and> (if 2 \<le> card (pmm_avail p)
       then pmm_avail p' = pmm_avail p \<and> screen_of t' = fold screen_putchar (chars_nl ''PMM self-test: ok'') (screen_of t)
       else pmm_avail p' = {} \<and> screen_of t' = fold screen_putchar (chars_nl ''PMM self-test: alloc failed'') (screen_of t))"
proof -
  obtain p1 a where a: "pmm_alloc_frame p = (p1, a)" by (cases "pmm_alloc_frame p")
  obtain p2 b where b: "pmm_alloc_frame p1 = (p2, b)" by (cases "pmm_alloc_frame p1")
  note A = avail_take [OF assms(1) a] and B = avail_take [OF avail_take(1) [OF assms(1) a] b]
  show ?thesis
  proof (cases "2 \<le> card (pmm_avail p)")
    case True
    then have two: "pmm_avail p \<noteq> {}" "pmm_avail p - {a} \<noteq> {}" unfolding two_available by auto
    then have nz: "a \<noteq> 0" "b \<noteq> 0" using A(3,4) B(4) by auto
    then have in_avail: "a \<in> pmm_avail p" "b \<in> pmm_avail p" "b \<noteq> a" using A(3,5) B(5) by auto
    let ?q = "pmm_free_frame a p2"
    have "a \<in> pmm_pool p2" using A(2,5) B(2) nz by simp
    note F = avail_give [OF B(1) this]
    have "b \<in> pmm_pool ?q" using B(2,5) F(2) nz by simp
    note G = avail_give [OF F(1) this]
    have all: "pmm_avail (pmm_free_frame b ?q) = pmm_avail p" 
      unfolding G(3) F(3) B(3) A(3) using in_avail by blast
    have "pmm_self_test p t = (do {
        t \<leftarrow> printf_out (chars_nl ''PMM self-test: ok'') [] t; Some (pmm_free_frame b ?q, t) })"
      using nz in_avail(3) by (simp add: pmm_self_test_def a b)
    moreover have "tested (do { t \<leftarrow> printf_out (chars_nl ''PMM self-test: ok'') [] t; Some (pmm_free_frame b ?q, t) })
        t (chars_nl ''PMM self-test: ok'') (\<lambda>q. pmm_inv q \<and> pmm_avail q = pmm_avail p)"
      using G(1) all assms(2) by (intro tested_message) (simp_all add: message_defs)
    ultimately show ?thesis using True by (auto elim!: testedE)
  next
    case False
    then obtain c where c: "pmm_avail p - {c} = {}" unfolding two_available by blast
    have "pmm_avail p1 = {} \<or> a = 0"
    proof (cases "a = 0")
      case False
      then have "a = c" using A(5) c by blast
      then show ?thesis using A(3) c by simp
    qed simp
    then have none: "pmm_avail p2 = {}" "a = 0 \<or> b = 0"
      using A(4) B(4) unfolding B(3) A(3) by blast+
    have "pmm_self_test p t = (do {
        t \<leftarrow> printf_out (chars_nl ''PMM self-test: alloc failed'') [] t; Some (p2, t) })"
      using none(2) by (simp add: pmm_self_test_def a b)
    moreover have "tested (do { t \<leftarrow> printf_out (chars_nl ''PMM self-test: alloc failed'') [] t; Some (p2, t) })
        t (chars_nl ''PMM self-test: alloc failed'') (\<lambda>q. pmm_inv q \<and> pmm_avail q = {})"
      using B(1) none(1) assms(2) by (intro tested_message) (simp_all add: message_defs)
    ultimately show ?thesis using False by (auto elim!: testedE)
  qed
qed

theorem pmm_self_test_result_witness:
  "\<exists>p' t'. pmm_self_test example_pmm blank_tty = Some (p', t') \<and> pmm_avail p' = pmm_avail example_pmm"
proof -
  have "on_screen blank_tty" using example_shell_at by (simp add: at_line_def)
  moreover have "2 \<le> card (pmm_avail example_pmm)" using example_frames by simp
  ultimately show ?thesis using pmm_self_test_result [OF example_pmm_facts(1)] by fastforce
qed

section \<open>The test of paging\<close>

lemma test_page: "page_aligned test_virt" "word_aligned test_virt" "unat (pde_index test_virt) < 1023"
    "page_of test_virt = test_virt" "off_of test_virt = 0" "pde_index test_virt = 772"
  by (simp_all add: test_virt_def page_aligned_def word_aligned_def off_of_def page_of_def pde_index_def)

text \<open>A word stored to a frame that holds no table reads back, and no translation changes.\<close>

lemma store_apart:
  assumes "paging_inv pd s" and "word_aligned va" and "\<And>w. walk s w va = Some f" and "f \<notin> table_frames s"
  obtains m where "vwrite32 s va v = Some (s\<lparr>vm_mem := m\<rparr>)" "tables_kept s m"
    "vread32 (s\<lparr>vm_mem := m\<rparr>) va = Some v" "\<And>a. page_of a \<noteq> f \<Longrightarrow> m a = vm_mem s a"
proof -
  have f: "page_aligned f" using walk_aligned [OF assms(3)] .
  let ?p = "f + off_of va" and ?m = "store32 (vm_mem s) (f + off_of va) v"
  have p: "page_of ?p = f" "off_of ?p = off_of va" using f by (simp_all add: pages unat_off_of)
  have off: "unat (off_of va) mod 4 = 0"
    using assms(2) by (simp add: word_aligned_def unat_off_of mod_mod_cancel)
  then have "unat ?p mod 4 = 0"
    using f by (auto simp: unat_base_plus unat_off_of elim!: page_alignedE)
  then have wp: "word_aligned ?p" by (simp add: word_aligned_def)
  have other: "same_frame g (vm_mem s) ?m" if "g \<noteq> f" for g
    using that p by (intro same_frame_store32 [OF wp]) auto
  then have kept: "tables_kept s ?m" using assms(4) unfolding tables_kept_def by metis
  have "vwrite32 s va v = Some (s\<lparr>vm_mem := ?m\<rparr>)"
    using assms(3) by (simp add: vwrite32_walk [OF assms(2)])
  moreover have "vread32 (s\<lparr>vm_mem := ?m\<rparr>) va = Some v"
    using assms(3) tables_kept_walk [OF assms(1) kept] by (simp add: vread32_walk [OF assms(2)])
  moreover have "?m a = vm_mem s a" if "page_of a \<noteq> f" for a
    using other [OF that] by (simp add: same_frame_def)
  ultimately show thesis using that [of ?m] kept by blast
qed

text \<open>The steps of the test from the state \<open>t\<close> in which its page has a table, with the entry for the frame \<open>f\<close>.\<close>

lemma paging_test_steps:
  assumes "paging_inv pd t" and "table_entry t (pde_index test_virt)" and "mappable pd test_virt"
    and "page_aligned f" and "f \<notin> table_frames t"
  obtains u1 u2 where
    "vwrite32 (set_entry t test_virt (f OR (PAGING_FLAG_WRITE OR PAGING_FLAG_PRESENT))) test_virt test_magic = Some u1"
    "vread32 u1 test_virt = Some test_magic" "paging_get_physical pd test_virt u1 = Some f"
    "paging_unmap_page pd test_virt u1 = Some u2" "paging_get_physical pd test_virt u2 = Some 0"
    "paging_inv pd u2" "vm_pmm u2 = vm_pmm t" "table_frames u2 = table_frames t"
    "\<And>x w. walk u2 w x = (if page_of x = test_virt then None else walk t w x)"
    "\<And>a. page_of a \<noteq> f \<Longrightarrow> page_of a \<notin> table_frames t \<Longrightarrow> vm_mem u2 a = vm_mem t a"
proof -
  obtain v where v: "f OR (PAGING_FLAG_WRITE OR PAGING_FLAG_PRESENT) = v" by blast
  have new: "present v" "writable v" "page_of v = f"
    using new_pte [OF assms(4), of PAGING_FLAG_WRITE] by (simp_all add: flag_values v)
  let ?u = "set_entry t test_virt v"
  note t = assms(1,2)
  have inv: "paging_inv pd ?u" by (rule paging_inv_set_entry [OF t assms(3)])
  have tf: "table_frames ?u = table_frames t" by (rule table_frames_set_entry [OF t])
  have w: "walk ?u w test_virt = Some f" for w
    using walk_set_entry [OF t refl] new by simp
  obtain m where m: "vwrite32 ?u test_virt test_magic = Some (?u\<lparr>vm_mem := m\<rparr>)" "tables_kept ?u m"
    "vread32 (?u\<lparr>vm_mem := m\<rparr>) test_virt = Some test_magic" "\<And>a. page_of a \<noteq> f \<Longrightarrow> m a = vm_mem ?u a"
    using store_apart [OF inv test_page(2) w] assms(5) tf by metis
  let ?u1 = "?u\<lparr>vm_mem := m\<rparr>"
  note inv1 = tables_kept_inv [OF inv m(2)] and walk1 = tables_kept_walk [OF inv m(2)]
    and kept = tables_kept_entries [OF inv m(2)]
  have te: "table_entry ?u1 (pde_index test_virt)"
    using t(2) by (simp add: kept(1) table_entry_set_entry [OF t])
  let ?u2 = "set_entry ?u1 test_virt 0"
  have unmap: "paging_unmap_page pd test_virt ?u1 = Some ?u2"
    using te by (simp add: unmap_eq [OF inv1 test_page(3)] table_entry_def)
  have inv2: "paging_inv pd ?u2" by (rule paging_inv_set_entry [OF inv1 te assms(3)])
  have walk2: "walk ?u2 w x = (if page_of x = test_virt then None else walk t w x)" for w x
  proof (cases "page_of x = page_of test_virt")
    case True
    then show ?thesis using walk_set_entry [OF inv1 te True] by (simp add: present_def test_page(4))
  next
    case False
    then show ?thesis
      using walk_set_entry_other [OF inv1 te False] walk1 walk_set_entry_other [OF t False]
      by (simp add: test_page(4))
  qed
  have tf2: "table_frames ?u2 = table_frames t"
    using table_frames_set_entry [OF inv1 te] kept(2) tf by simp
  have mem: "vm_mem ?u2 a = vm_mem t a" if "page_of a \<noteq> f" "page_of a \<notin> table_frames t" for a
    using set_entry_mem [OF inv1 te, of a 0] m(4) [OF that(1)] set_entry_mem [OF t, of a v] that(2) kept(2) tf
    by simp
  show thesis
  proof (rule that [of ?u1 ?u2])
    show "paging_get_physical pd test_virt ?u1 = Some f"
      by (simp add: get_physical_eq [OF inv1] walk1 w)
    show "paging_get_physical pd test_virt ?u2 = Some 0"
      by (simp add: get_physical_eq [OF inv2] walk2 test_page(4))
    show "vm_mem ?u2 a = vm_mem t a" if "page_of a \<noteq> f" "page_of a \<notin> table_frames t" for a
      using that by (rule mem)
  qed (simp_all only: v m(1,3) unmap inv2 tf2 walk2 set_entry_fields, simp_all)
qed

text \<open>The self test of paging, on consistent tables with none yet for its page, always returns and keeps the
  tables consistent, every translation and every byte outside the tables and the free frames. With two free
  frames it reports success and all frames are free again but the one that became the table; with one it
  reports that the mapping failed, with none that the allocation failed, and takes no frame.\<close>

theorem paging_self_test_result:
  assumes "paging_inv pd s" and "mappable pd test_virt" and "\<not> present (dir s (pde_index test_virt))"
    and "on_screen t" and "A = pmm_avail (vm_pmm s)"
  shows "\<exists>s' t'. paging_self_test pd s t = Some (s', t') \<and> paging_inv pd s' \<and> on_screen t'
    \<and> (\<forall>x w. unat (pde_index x) < 1023 \<longrightarrow> translate s' w x = translate s w x)
    \<and> (\<forall>a. page_of a \<notin> A \<and> page_of a \<notin> table_frames s \<longrightarrow> vm_mem s' a = vm_mem s a)
    \<and> (if 2 \<le> card A then \<exists>f \<in> A. pmm_avail (vm_pmm s') = A - {f} else pmm_avail (vm_pmm s') = A)
    \<and> screen_of t' = fold screen_putchar
        (chars_nl (if A = {} then ''Paging self-test: alloc failed''
                   else if card A = 1 then ''Paging self-test: map failed''
                   else ''Paging self-test: ok'')) (screen_of t)"
proof -
  obtain p f where pf: "pmm_alloc_frame (vm_pmm s) = (p, f)" by (cases "pmm_alloc_frame (vm_pmm s)")
  note T = avail_take [OF pagingD(5) [OF assms(1)] pf, folded assms(5)]
  let ?s = "s\<lparr>vm_pmm := p\<rparr>"
  have apart: "A \<inter> table_frames s = {}" using table_frames_avail [OF assms(1)] by (simp add: assms(5))
  then have inv: "paging_inv pd ?s" using paging_inv_pmm [OF assms(1) T(1)] T(3) by blast
  show ?thesis
  proof (cases "A = {}")
    case True
    then have "paging_self_test pd s t =
        do { t \<leftarrow> printf_out (chars_nl ''Paging self-test: alloc failed'') [] t; Some (?s, t) }"
      using T(4) by (simp add: paging_self_test_def pf)
    moreover have "tested (do { t \<leftarrow> printf_out (chars_nl ''Paging self-test: alloc failed'') [] t; Some (?s, t) })
        t (chars_nl ''Paging self-test: alloc failed'') (\<lambda>s'. s' = ?s)"
      using assms(4) by (intro tested_message) (simp_all add: message_defs)
    ultimately show ?thesis using True inv T(3) by (auto simp: translate_def elim!: testedE)
  next
    case False
    then have f: "f \<noteq> 0" "f \<in> A" "f \<in> pmm_pool p" "page_aligned f"
      using T pmm.pool_frame by auto
    show ?thesis
    proof (cases rule: map_cases [OF inv test_page(3), of f PAGING_FLAG_WRITE])
      case 1
      then have none: "A - {f} = {}" using f(4) T(3) by simp
      then have A: "A = {f}" using f(2) by blast
      let ?q = "pmm_free_frame f p"
      let ?r = "do { t \<leftarrow> printf_out (chars_nl ''Paging self-test: map failed'') [] t; Some (?s\<lparr>vm_pmm := ?q\<rparr>, t) }"
      note G = avail_give [OF T(1) f(3)]
      have "pmm_avail ?q = A" using G(3) T(3) A by simp
      moreover have "paging_inv pd (?s\<lparr>vm_pmm := ?q\<rparr>)"
        using paging_inv_pmm [OF assms(1) G(1)] apart calculation by simp
      moreover have "paging_self_test pd s t = ?r"
        using f(1) 1(1) by (simp add: paging_self_test_def pf paging_test_exit_def)
      moreover have "tested ?r t (chars_nl ''Paging self-test: map failed'') (\<lambda>s'. s' = ?s\<lparr>vm_pmm := ?q\<rparr>)"
        using assms(4) by (intro tested_message) (simp_all add: message_defs)
      moreover have "card A = 1" by (simp add: A)
      ultimately show ?thesis using False by (auto simp: translate_def elim!: testedE)
    next
      case (2 u)
      then have u: "paging_inv pd u" "table_entry u (pde_index test_virt)" by (simp_all add: ready_def)
      have absent: "\<not> present (dir ?s (pde_index test_virt))" using assms(3) by simp
      then have "u \<noteq> ?s" using u(2) by (auto simp: table_entry_def)
      then obtain q g where qg: "installs pd ?s (pde_index test_virt) q g" "u = new_table ?s (pde_index test_virt) q g"
        using 2(4) unfolding ready_def by blast
      note I = installs_frame(1,4) [OF qg(1)]
      have "g \<in> A - {f}" using I(1) T(3) by simp
      moreover have "pmm_avail (vm_pmm u) = A - {f} - {g}" using I(2) T(3) by (simp add: qg(2))
      moreover have "table_frames u = insert g (table_frames s)"
        using table_frames_new_table [OF qg(1)] by (simp add: qg(2))
      ultimately have g: "g \<in> A - {f}" "pmm_avail (vm_pmm u) = A - {f} - {g}" "table_frames u = insert g (table_frames s)" .
      have two: "2 \<le> card A" unfolding two_available
      proof
        fix a
        show "A - {a} \<noteq> {}" using f(2) g(1) by (cases "a = f") auto
      qed
      have "f \<notin> table_frames s" "g \<notin> table_frames s" "f \<noteq> g" using g(1) f(2) apart by blast+
      then have out: "f \<notin> table_frames u" by (simp add: g(3))
      obtain u1 u2 where U:
        "vwrite32 (set_entry u test_virt (f OR (PAGING_FLAG_WRITE OR PAGING_FLAG_PRESENT))) test_virt test_magic = Some u1"
        "vread32 u1 test_virt = Some test_magic" "paging_get_physical pd test_virt u1 = Some f"
        "paging_unmap_page pd test_virt u1 = Some u2" "paging_get_physical pd test_virt u2 = Some 0"
        "paging_inv pd u2" "vm_pmm u2 = vm_pmm u" "table_frames u2 = table_frames u"
        "\<And>x w. walk u2 w x = (if page_of x = test_virt then None else walk u w x)"
        "\<And>a. page_of a \<noteq> f \<Longrightarrow> page_of a \<notin> table_frames u \<Longrightarrow> vm_mem u2 a = vm_mem u a"
        using paging_test_steps [OF u assms(2) f(4) out] by blast
      have pool: "f \<in> pmm_pool (vm_pmm u)"
        using installs_frame(5) [OF qg(1)] f(3) by (simp add: qg(2))
      note G = avail_give [OF pagingD(5) [OF u(1)] pool]
      let ?q = "pmm_free_frame f (vm_pmm u)"
      let ?r = "do { t \<leftarrow> printf_out (chars_nl ''Paging self-test: ok'') [] t; Some (u2\<lparr>vm_pmm := ?q\<rparr>, t) }"
      have avail: "pmm_avail ?q = A - {g}" unfolding G(3) g(2) using f(2) g(1) by blast
      have "(A - {g}) \<inter> insert g (table_frames s) = {}" using apart by blast
      then have inv2: "paging_inv pd (u2\<lparr>vm_pmm := ?q\<rparr>)"
        by (intro paging_inv_pmm [OF U(6) G(1)]) (simp add: avail U(8) g(3))
      have walk: "walk u2 w x = walk s w x" if x: "unat (pde_index x) < 1023" for x w
      proof (cases "page_of x = test_virt")
        case True
        then have "page_of x = page_of test_virt" by (simp only: test_page(4))
        note i = indices_eq [OF this]
        have "walk s w x = None" using assms(3) by (simp add: walk_table i)
        then show ?thesis using True by (simp add: U(9))
      next
        case False
        then show ?thesis using ready_walk [OF 2(4) x] by (simp add: U(9))
      qed
      have mem: "vm_mem u2 a = vm_mem s a" if "page_of a \<notin> A" "page_of a \<notin> table_frames s" for a
      proof -
        have n: "page_of a \<noteq> f" "page_of a \<notin> table_frames u" using that f(2) g(1,3) by auto
        have "vm_mem u a = vm_mem ?s a" using ready_frames(1) [OF 2(4), of a] n(2) by blast
        then show ?thesis using U(10) [OF n] by simp
      qed
      have "paging_self_test pd s t = ?r"
        using f(1) 2(1) U(1-5,7) by (simp add: paging_self_test_def pf Let_def)
      moreover have "tested ?r t (chars_nl ''Paging self-test: ok'') (\<lambda>s'. s' = u2\<lparr>vm_pmm := ?q\<rparr>)"
        using assms(4) by (intro tested_message) (simp_all add: message_defs)
      moreover have "card A \<noteq> 1" "A \<noteq> {}" using two by auto
      ultimately show ?thesis
        using two avail inv2 walk mem g(1) by (auto simp: translate_def elim!: testedE)
    qed
  qed
qed

theorem paging_self_test_result_witness:
  "\<exists>s' t'. paging_self_test 0xC0110000 example_vm blank_tty = Some (s', t') \<and> paging_inv 0xC0110000 s'
    \<and> screen_of t' = fold screen_putchar (chars_nl ''Paging self-test: ok'') (screen_of blank_tty)"
proof -
  have m: "mappable 0xC0110000 test_virt" by (simp add: mappable_def test_page) (simp add: test_virt_def)
  have d: "\<not> present (dir example_vm (pde_index test_virt))" by (simp add: example_vm_dir test_page)
  have t: "on_screen blank_tty" using example_shell_at by (simp add: at_line_def)
  have c: "2 \<le> card (pmm_avail (vm_pmm example_vm))" "pmm_avail (vm_pmm example_vm) \<noteq> {}"
    "card (pmm_avail (vm_pmm example_vm)) \<noteq> 1"
    using example_frames example_avail by (auto simp: example_vm(2))
  show ?thesis using paging_self_test_result [OF example_vm(1) m d t refl] unfolding if_not_P [OF c(2)] if_not_P [OF c(3)]
    by blast
qed

section \<open>The test of the heap\<close>

lemma needed_sizes: "kmalloc_needed 64 = 80" "kmalloc_needed 128 = 144"
  by (simp_all add: kmalloc_needed_def kheap_align_def sizeof_kheap_block_def KHEAP_ALIGN_def KHEAP_MIN_BLOCK_def)

text \<open>A series of stores into payloads of used blocks, to different addresses: all read back.\<close>

lemma store_bytes_read_back:
  assumes "heap_inv pd H bs" and "distinct (map fst xs)"
    and "\<forall>x \<in> fst ` set xs. \<exists>(c, z) \<in> set (used_blocks KHEAP_START bs). payload c z x"
  shows "\<exists>s. store_bytes xs (kh_vm H) = Some s \<and> heap_inv pd (H\<lparr>kh_vm := s\<rparr>) bs \<and> vm_pmm s = vm_pmm (kh_vm H)
    \<and> (\<forall>(x, v) \<in> set xs. vread8 s x = Some v)
    \<and> (\<forall>y. within KHEAP_START (kh_end H) y \<and> y \<notin> fst ` set xs \<longrightarrow> vread8 s y = vread8 (kh_vm H) y)"
  using assms
proof (induction xs arbitrary: H)
  case Nil
  then show ?case by simp
next
  case (Cons xv xs)
  obtain x v where xv: "xv = (x, v)" by (cases xv)
  obtain c z where b: "(c, z) \<in> set (used_blocks KHEAP_START bs)" "payload c z x" using Cons.prems(3) xv by auto
  obtain s where s: "vwrite8 (kh_vm H) x v = Some s" "heap_inv pd (H\<lparr>kh_vm := s\<rparr>) bs" "vread8 s x = Some v"
    "\<forall>y. within KHEAP_START (kh_end H) y \<and> y \<noteq> x \<longrightarrow> vread8 s y = vread8 (kh_vm H) y"
    using payload_write [OF Cons.prems(1) b, of v] by blast
  have pmm: "vm_pmm s = vm_pmm (kh_vm H)" using s(1) by (auto simp: vwrite8_def)
  obtain u where u: "store_bytes xs s = Some u" "heap_inv pd (H\<lparr>kh_vm := u\<rparr>) bs" "vm_pmm u = vm_pmm s"
    "\<forall>(x, v) \<in> set xs. vread8 u x = Some v"
    "\<forall>y. within KHEAP_START (kh_end H) y \<and> y \<notin> fst ` set xs \<longrightarrow> vread8 u y = vread8 s y"
    using Cons.IH [OF s(2)] Cons.prems(2,3) by auto
  have "within KHEAP_START (kh_end H) x"
    using payload_outside(2) [OF b] heap_invD(5,7,8) [OF Cons.prems(1)] by simp
  moreover have "x \<notin> fst ` set xs" using Cons.prems(2) xv by simp
  ultimately have "vread8 u x = Some v" using u(5) s(3) by simp
  then show ?case using s u pmm xv by auto
qed

lemma bytes_same: "\<forall>(x, v) \<in> set xs. vread8 s x = Some v \<Longrightarrow> bytes_differ xs s = Some False"
  by (induction xs) auto

lemma kmalloc_fit:
  assumes "heap_inv pd H (pre @ (z, True) # post)" and "kmalloc_needed sz = n" and "n \<le> z" and "sz \<noteq> 0"
    and "first_fit n KHEAP_START (pre @ (z, True) # post) = end_of KHEAP_START pre" and "24 \<le> unat n" and "unat n mod 8 = 0"
  shows "\<exists>H'. kmalloc pd sz H = Some (H', end_of KHEAP_START pre + 16) \<and> heap_inv pd H' (pre @ cut n z @ post)
    \<and> kh_end H' = kh_end H \<and> vm_pmm (kh_vm H') = vm_pmm (kh_vm H)"
proof -
  obtain H' where "kmalloc_loop pd n H = Some (H', end_of KHEAP_START pre + sizeof_kheap_block)"
    "heap_inv pd H' (pre @ cut n z @ post)" "vm_pmm (kh_vm H') = vm_pmm (kh_vm H)" "kh_end H' = kh_end H"
    using kmalloc_loop_fit [OF assms(1) refl assms(3,5,6,7)] unfolding kept_def by blast
  then show ?thesis using assms(2,4) by (simp add: kmalloc_def sizeof_kheap_block_def)
qed

lemma kfree_used:
  assumes "heap_inv pd H (pre @ (z, False) # post)" and "p = end_of KHEAP_START pre + 16"
  shows "\<exists>H'. kfree p H = Some H' \<and> heap_inv pd H' (release pre z post)
    \<and> kh_end H' = kh_end H \<and> vm_pmm (kh_vm H') = vm_pmm (kh_vm H)"
  using kfree_spec [OF assms(1) refl, of p] assms(2) by (auto simp: kept_def sizeof_kheap_block_def)

lemma test_message:
  assumes "on_screen t"
  shows "shown (printf_out (chars_nl ''Kheap self-test: ok (%u / %u bytes)'') [Word 0, Word 16384] t) t
    (chars_nl ''Kheap self-test: ok (0 / 16384 bytes)'')"
proof -
  have "numeral_chars 10 0 = chars ''0''" "numeral_chars 10 16384 = chars ''16384''"
    by (simp_all add: numeral_chars_def digits.simps digit_char_def chars_def)
  then show ?thesis using assms by (intro shown_message) (simp_all add: message_defs)
qed

text \<open>The self test of the heap, on the heap that \<open>kheap_init\<close> leaves, always returns: both blocks are allocated,
  their first and last bytes hold what was stored, and after both are freed the heap is again the one free
  block of 16384 bytes that the message reports.\<close>

theorem kheap_self_test_result:
  assumes "heap_inv pd H [(16384, True)]" and "on_screen t"
  shows "\<exists>H' t'. kheap_self_test pd H t = Some (H', t') \<and> heap_inv pd H' [(16384, True)]
    \<and> kh_end H' = kh_end H \<and> vm_pmm (kh_vm H') = vm_pmm (kh_vm H) \<and> on_screen t'
    \<and> screen_of t' = fold screen_putchar (chars_nl ''Kheap self-test: ok (0 / 16384 bytes)'') (screen_of t)"
proof -
  have start: "KHEAP_START = 0xC2000000" by (simp add: KHEAP_START_def)
  let ?bs = "[(80, False), (144, False), (16160, True)] :: blocks"
  have cuts: "cut 80 16384 = [(80, False), (16304, True)]" "cut 144 16304 = [(144, False), (16160, True)]"
    by (simp_all add: cut_def)
  have "heap_inv pd H ([] @ (16384, True) # [])" using assms(1) by simp
  from kmalloc_fit [OF this needed_sizes(1)]
  obtain H1 where H1: "kmalloc pd 64 H = Some (H1, 0xC2000010)" "heap_inv pd H1 [(80, False), (16304, True)]"
    "kh_end H1 = kh_end H" "vm_pmm (kh_vm H1) = vm_pmm (kh_vm H)"
    by (auto simp: cuts start word_le_nat_alt)
  have "heap_inv pd H1 ([(80, False)] @ (16304, True) # [])" using H1(2) by simp
  from kmalloc_fit [OF this needed_sizes(2)]
  obtain H2 where H2: "kmalloc pd 128 H1 = Some (H2, 0xC2000060)" "heap_inv pd H2 ?bs"
    "kh_end H2 = kh_end H" "vm_pmm (kh_vm H2) = vm_pmm (kh_vm H)"
    using H1(3,4) by (auto simp: cuts start word_le_nat_alt)
  let ?xs = "test_bytes 0xC2000010 0xC2000060"
  have "\<forall>x \<in> fst ` set ?xs. \<exists>(c, z) \<in> set (used_blocks KHEAP_START ?bs). payload c z x" "distinct (map fst ?xs)"
    by (simp_all add: test_bytes_def start payload_def)
  from store_bytes_read_back [OF H2(2) this(2,1)]
  obtain s where s: "store_bytes ?xs (kh_vm H2) = Some s" "heap_inv pd (H2\<lparr>kh_vm := s\<rparr>) ?bs" "vm_pmm s = vm_pmm (kh_vm H2)"
    "bytes_differ ?xs s = Some False"
    using bytes_same by blast
  have "heap_inv pd (H2\<lparr>kh_vm := s\<rparr>) ([] @ (80, False) # [(144, False), (16160, True)])" using s(2) by simp
  from kfree_used [OF this, of "0xC2000010"]
  obtain H3 where H3: "kfree 0xC2000010 (H2\<lparr>kh_vm := s\<rparr>) = Some H3"
    "heap_inv pd H3 [(80, True), (144, False), (16160, True)]" "kh_end H3 = kh_end H" "vm_pmm (kh_vm H3) = vm_pmm (kh_vm H)"
    using s(3) H2(3,4) by (auto simp: start release_def join_prev_def)
  have "heap_inv pd H3 ([(80, True)] @ (144, False) # [(16160, True)])" using H3(2) by simp
  from kfree_used [OF this, of "0xC2000060"]
  obtain H4 where H4: "kfree 0xC2000060 H3 = Some H4" "heap_inv pd H4 [(16384, True)]"
    "kh_end H4 = kh_end H" "vm_pmm (kh_vm H4) = vm_pmm (kh_vm H)"
    using H3(3,4) by (auto simp: start release_def join_prev_def)
  have bytes: "kheap_used_bytes H4 = Some 0" "kheap_total_bytes H4 = 16384"
    using kheap_bytes_count [OF H4(2)] by simp_all
  obtain t' where "printf_out (chars_nl ''Kheap self-test: ok (%u / %u bytes)'') [Word 0, Word 16384] t = Some t'" "on_screen t'"
    "screen_of t' = fold screen_putchar (chars_nl ''Kheap self-test: ok (0 / 16384 bytes)'') (screen_of t)"
    using test_message [OF assms(2)] by (rule shownE)
  then show ?thesis
    using H1(1) H2(1) s(1,4) H3(1) H4 bytes by (simp add: kheap_self_test_def Let_def)
qed

theorem kheap_self_test_result_witness:
  "\<exists>H' t'. kheap_self_test 0xC0110000 example_heap blank_tty = Some (H', t') \<and> heap_inv 0xC0110000 H' [(16384, True)]"
proof -
  have "on_screen blank_tty" using example_shell_at by (simp add: at_line_def)
  from kheap_self_test_result [OF example_heap_inv this] show ?thesis by blast
qed

section \<open>What the tests write to the ports\<close>

lemma quietly_silent: "(\<And>x. quietly g t (k x)) \<Longrightarrow> quietly g t (r \<bind> k)"
  by (auto simp: quietly_def split: bind_splits)

lemma quietly_pair: "(\<And>a b. quietly g t (k a b)) \<Longrightarrow> quietly g t (case x of (a, b) \<Rightarrow> k a b)"
  by (cases x) simp

lemmas quiet_steps = quiets quietly_pair quietly_silent [where r = r for r :: "vm option"]
  quietly_silent [where r = r for r :: "u32 option"] quietly_silent [where r = r for r :: "bool option"]
  quietly_silent [where r = r for r :: "heap option"] quietly_silent [where r = r for r :: "(heap \<times> u32) option"]
  quietly_silent [where r = r for r :: "(vm \<times> bool) option"]

lemma tests_quiet:
  "quietly snd t (pmm_self_test p t)" "quietly snd t (paging_self_test pd s t)" "quietly snd t (kheap_self_test pd H t)"
  unfolding pmm_self_test_def paging_self_test_def paging_test_exit_def paging_test_undo_def
    kheap_self_test_def kheap_test_exit_def Let_def
  by (intro quiet_steps; simp)+

section \<open>From the boot loader to the prompt\<close>

text \<open>What the linker script and \<open>boot.S\<close> fix: the directory and the table in \<open>.bss\<close>, one after the other.\<close>

definition linked_image :: "kernel_image \<Rightarrow> bool" where
  "linked_image img \<longleftrightarrow> image_fits img \<and> boot_placed (boot_page_directory img) (boot_page_table1 img)
     \<and> boot_page_table1 img = boot_page_directory img + 4096"

lemma tables_reserved:
  assumes "linked_image img" and "multiboot_is_valid mb"
  shows "virt_to_phys (boot_page_directory img) \<notin> pmm_avail (pmm_init img mb p)"
    and "virt_to_phys (boot_page_table1 img) \<notin> pmm_avail (pmm_init img mb p)"
proof -
  let ?pd = "virt_to_phys (boot_page_directory img)" and ?pt = "virt_to_phys (boot_page_table1 img)"
  have fits: "image_fits img" and placed: "boot_placed (boot_page_directory img) (boot_page_table1 img)"
    and next_page: "boot_page_table1 img = boot_page_directory img + 4096"
    using assms(1) unfolding linked_image_def by blast+
  note P = boot_placed_phys(1,3) [of "boot_page_directory img"] and Q = boot_placed_phys(1,3) [of "boot_page_table1 img"]
  have pt: "?pt = ?pd + 4096" by (simp add: next_page virt_to_phys_def)
  have b: "unat ?pd < 0x3FF000" "unat ?pt < 0x3FF000" using placed P(2) Q(2) by (simp_all add: boot_placed_def)
  have u: "unat ?pt = unat ?pd + 4096" "unat (?pt + PMM_PAGE_SIZE) = unat ?pd + 8192"
    using b by (simp_all add: pt PMM_PAGE_SIZE_def unat_plus_small)
  have "addr_to_frame x \<in> kernel_frames img" if "x = ?pd \<or> x = ?pt" for x
    unfolding kernel_frames_def using that u
    by (intro UnI1 UnI2 region_frames_byte) (auto simp: word_le_nat_alt word_less_nat_alt)
  moreover have "a \<notin> pmm_avail (pmm_init img mb p)" if k: "addr_to_frame a \<in> kernel_frames img" for a
  proof
    assume "a \<in> pmm_avail (pmm_init img mb p)"
    then have "addr_to_frame a < pmm_init_count mb" "addr_to_frame a \<notin> used_set (pmm_init img mb p)"
      by (auto simp: pmm_avail_def pmm_pool_def used_set_def pmm_init_spec(1) [OF assms(2)])
    then show False using k unfolding pmm_init_spec(2) [OF assms(2) fits] by blast
  qed
  ultimately show "?pd \<notin> pmm_avail (pmm_init img mb p)" "?pt \<notin> pmm_avail (pmm_init img mb p)" by blast+
qed

text \<open>The state in which \<open>boot.S\<close> calls \<open>kernel_main\<close>.\<close>

lemma boot_start_entries:
  assumes "linked_image (m_image M)" and "cleared m (virt_to_phys (boot_page_directory (m_image M)))"
    and "boot_start M m eax ebx K0 = Some K"
  shows "boot_entries (boot_page_directory (m_image M)) (boot_page_table1 (m_image M)) False (kh_vm (k_heap K))"
    and "vm_pmm (kh_vm (k_heap K)) = vm_pmm (kh_vm (k_heap K0))"
proof -
  let ?pd = "boot_page_directory (m_image M)" and ?pt = "boot_page_table1 (m_image M)"
  let ?s = "(kh_vm (k_heap K0))\<lparr>vm_mem := boot_paging ?pd ?pt m, vm_cr3 := virt_to_phys ?pd\<rparr>"
  have placed: "boot_placed ?pd ?pt" using assms(1) unfolding linked_image_def by blast
  have "boot_entries ?pd ?pt True ?s"
    using placed boot_paging_entries [OF placed assms(2)] by (auto simp: boot_entries_def)
  then obtain s' where s': "boot_drop_identity ?pd ?s = Some s'" "boot_entries ?pd ?pt False s'" "vm_pmm s' = vm_pmm ?s"
    by (rule boot_drop_identity_entries)
  obtain mb where "multiboot_early_init (vread8 ?s) eax ebx (k_mb K0) = Some mb"
    using assms(3) by (auto simp: boot_start_def Let_def split: bind_splits)
  then have "kh_vm (k_heap K) = s'" using assms(3) s'(1) by (auto simp: boot_start_def Let_def)
  then show "boot_entries ?pd ?pt False (kh_vm (k_heap K))" "vm_pmm (kh_vm (k_heap K)) = vm_pmm (kh_vm (k_heap K0))"
    using s'(2,3) by simp_all
qed

definition stats_text :: "multiboot \<Rightarrow> pmm \<Rightarrow> u8 list" where
  "stats_text mb p =
     (chars ''Multiboot: '' @ decimal (multiboot_mmap_entry_count mb) @ chars_nl '' mmap regions'')
     @ (chars ''PMM: '' @ decimal (pmm_free_frames p) @ chars '' free / '' @ decimal (pmm_total_frames p)
        @ chars '' frames ('' @ decimal (pmm_used_frames p) @ chars_nl '' used)'')"

definition tests_text :: "u8 list" where
  "tests_text = chars_nl ''PMM self-test: ok'' @ chars_nl ''Paging self-test: ok''
     @ chars_nl ''Kheap self-test: ok (0 / 16384 bytes)'' @ chars_nl ''Page fault handler: ready''"

definition shell_text :: "u8 list" where
  "shell_text = chars_nl ''My-OS shell. Type 'help' for commands.'' @ chars ''myos> ''"

lemma start_messages:
  assumes "on_screen t"
  shows "shown (printf_out (chars_nl ''Multiboot: %u mmap regions'') [Word a] t) t
      (chars ''Multiboot: '' @ decimal a @ chars_nl '' mmap regions'')"
    and "shown (printf_out (chars_nl ''PMM: %u free / %u frames (%u used)'') [Word a, Word b, Word c] t) t
      (chars ''PMM: '' @ decimal a @ chars '' free / '' @ decimal b @ chars '' frames ('' @ decimal c @ chars_nl '' used)'')"
    and "shown (printf_out (chars_nl ''Page fault handler: ready'') [] t) t (chars_nl ''Page fault handler: ready'')"
  using assms numerals_short(1) [of a] numerals_short(1) [of b] numerals_short(1) [of c]
  by (intro shown_message, simp_all add: message_defs decimal_def messages)+

text \<open>What the shell prints first.\<close>

lemma shell_greeting:
  assumes "on_screen t"
  shows "\<exists>s. shell_run pd regs H scs k (sh, t) = shell_loop pd regs H scs k s
    \<and> at_line s [] (fold screen_putchar shell_text (screen_of t))"
proof -
  let ?banner = "chars_nl ''My-OS shell. Type 'help' for commands.''"
  have "shown (terminal_writestring ?banner t) t ?banner"
    using assms by (rule writestring_shown) (simp_all add: message_defs)
  then obtain u where u: "terminal_writestring ?banner t = Some u" "on_screen u"
    "screen_of u = fold screen_putchar ?banner (screen_of t)" by (rule shownE)
  obtain v where v: "shell_prompt u = Some v" "on_screen v"
    "screen_of v = fold screen_putchar (chars ''myos> '') (screen_of u)"
    using prompt_shown [OF u(2)] by (rule shownE)
  obtain sh' where sh: "shell_reset_line sh = Some sh'" "line_inv sh' []" using reset_line by blast
  have "shell_run pd regs H scs k (sh, t) = shell_loop pd regs H scs k (sh', v)"
    using u(1) v(1) sh(1) by (simp add: shell_run_def)
  then show ?thesis using v(2,3) u(3) sh(2) by (auto simp: at_line_def shell_text_def)
qed

lemma keyboard_fresh: "kbd_inv (keyboard_reset k)" "kbd_items (keyboard_reset k) = []"
  by (simp_all add: keyboard_reset_def kbd_inv_def KBD_BUF_SIZE_def kbd_items_def kbd_count_def word_less_nat_alt)

text \<open>The masks survive the output: the keyboard's line is the only one that is open at the end.\<close>

lemma masks_after:
  assumes "mask_reads_back inp" and "quiet (t0\<lparr>tty_ports := pic_init log0\<rparr>) t"
    and "keyboard_init inp k0 hs0 (tty_ports t) = (k, hs, log)"
  shows "masked_lines log = {irq. irq < 16} - {1}"
proof -
  have b: "port_bytes p (tty_ports t) = port_bytes p (pic_init log0)" if "p = PIC1_DATA \<or> p = PIC2_DATA" for p
    using assms(2) that unfolding quiet_def by (auto simp: pic_ports VGA_CRTC_INDEX_def VGA_CRTC_DATA_def)
  have "masks_set (tty_ports t)" "masked_lines (tty_ports t) = {irq. irq < 16}"
    using pic_init_masks [of log0] b by (simp_all add: masks_set_def masked_lines_def pic_mask_port_def)
  moreover have "log = pic_unmask inp 1 (tty_ports t)" using assms(3) by (simp add: keyboard_init_def KBD_IRQ_def)
  ultimately show ?thesis
    using pic_runs [OF assms(1), of "[Unmask 1]" "tty_ports t"] by (simp add: word_less_nat_alt)
qed

text \<open>\<open>kernel_main\<close> up to the shell, from the tables of \<open>boot.S\<close>.\<close>

lemma kernel_started:
  assumes "linked_image (m_image M)" and "pd = boot_page_directory (m_image M)"
    and "boot_entries pd (boot_page_table1 (m_image M)) False (kh_vm (k_heap K))"
    and "multiboot_is_valid (k_mb K)" and "p0 = pmm_init (m_image M) (k_mb K) (vm_pmm (kh_vm (k_heap K)))"
    and "11 \<le> card (pmm_avail p0)"
  obtains H t k hs log where "kernel_start M K = Some (K\<lparr>k_tty := t\<lparr>tty_ports := log\<rparr>,
      k_gdt := gdt_init (m_gdt_table M) (k_gdt K),
      k_idt := irq_init (m_irq_stubs M) (idt_init (m_idt_table M) (m_isr_stubs M) (k_idt K)), k_irqs := hs, k_heap := H, k_kbd := k\<rparr>)"
    "keyboard_init (m_input M) (k_kbd K) (k_irqs K) (tty_ports t) = (k, hs, log)"
    "heap_inv pd H [(16384, True)]" "on_screen t"
    "screen_of t = fold screen_putchar (stats_text (k_mb K) p0 @ tests_text) blank_screen"
    "quiet ((terminal_initialize (m_input M) (k_tty K))\<lparr>tty_ports := pic_init (tty_ports (terminal_initialize (m_input M) (k_tty K)))\<rparr>) t"
proof -
  let ?t = "terminal_initialize (m_input M) (k_tty K)" and ?s = "kh_vm (k_heap K)"
  let ?t0 = "?t\<lparr>tty_ports := pic_init (tty_ports ?t)\<rparr>"
  have t0: "on_screen ?t0" "screen_of ?t0 = blank_screen"
    using initialize_screen [of "m_input M" "k_tty K"] by (simp_all add: on_screen_def screen_of_def)
  obtain t1 where t1: "printf_out (chars_nl ''Multiboot: %u mmap regions'') [Word (multiboot_mmap_entry_count (k_mb K))] ?t0 = Some t1"
    "on_screen t1" "screen_of t1 = fold screen_putchar (chars ''Multiboot: '' @ decimal (multiboot_mmap_entry_count (k_mb K)) @ chars_nl '' mmap regions'') (screen_of ?t0)"
    using start_messages(1) [OF t0(1)] by (rule shownE)
  obtain t2 where t2: "printf_out (chars_nl ''PMM: %u free / %u frames (%u used)'')
      [Word (pmm_free_frames p0), Word (pmm_total_frames p0), Word (pmm_used_frames p0)] t1 = Some t2" "on_screen t2"
    "screen_of t2 = fold screen_putchar (chars ''PMM: '' @ decimal (pmm_free_frames p0) @ chars '' free / '' @ decimal (pmm_total_frames p0)
        @ chars '' frames ('' @ decimal (pmm_used_frames p0) @ chars_nl '' used)'') (screen_of t1)"
    using start_messages(2) [OF t1(2)] by (rule shownE)
  have p0: "pmm_inv p0" unfolding assms(5) by (rule pmm_init_spec(3) [OF assms(4)])
  have "2 \<le> card (pmm_avail p0)" using assms(6) by simp
  with pmm_self_test_result [OF p0 t2(2)]
  obtain p1 t3 where t3: "pmm_self_test p0 t2 = Some (p1, t3)" "pmm_inv p1" "on_screen t3" "pmm_avail p1 = pmm_avail p0"
    "screen_of t3 = fold screen_putchar (chars_nl ''PMM self-test: ok'') (screen_of t2)" by auto
  have e: "boot_entries pd (boot_page_table1 (m_image M)) False (?s\<lparr>vm_pmm := p1\<rparr>)"
    using assms(3) by (simp add: boot_entries_def)
  have "boot_tables pd (?s\<lparr>vm_pmm := p1\<rparr>)"
    using tables_reserved [OF assms(1,4), of "vm_pmm ?s"] t3(2)
    by (intro boot_entries_tables [OF e]) (simp_all add: t3(4) assms(2,5))
  then obtain s1 where s1: "paging_init pd (?s\<lparr>vm_pmm := p1\<rparr>) = Some s1" "paging_inv pd s1" "vm_pmm s1 = p1"
    "\<not> present (dir s1 (pde_index test_virt))"
  proof (cases rule: paging_init_step)
    case (1 s')
    have "dir s' (pde_index test_virt) = 0"
      using 1(5) [OF test_page(3)] boot_entriesD(8) [OF e, of "pde_index test_virt"] by (simp add: test_page(6))
    then show thesis using that [of s'] 1(1-3) by (simp add: present_def)
  qed
  have low: "pd < KHEAP_START" "mappable pd test_virt"
  proof -
    have b: "pd < 0xC03FF000" using assms(1,2) unfolding linked_image_def boot_placed_def by blast
    then show "pd < KHEAP_START" by (simp add: KHEAP_START_def word_less_nat_alt)
    show "mappable pd test_virt"
      using b test_page(3,4) by (auto simp: mappable_def test_virt_def word_less_nat_alt)
  qed
  have two: "2 \<le> card (pmm_avail (vm_pmm s1))" "card (pmm_avail (vm_pmm s1)) \<noteq> 1" "pmm_avail (vm_pmm s1) \<noteq> {}"
    using assms(6) t3(4) s1(3) by auto
  obtain s2 t4 f where t4: "paging_self_test pd s1 t3 = Some (s2, t4)" "paging_inv pd s2" "on_screen t4"
    "f \<in> pmm_avail (vm_pmm s1)" "pmm_avail (vm_pmm s2) = pmm_avail (vm_pmm s1) - {f}"
    "screen_of t4 = fold screen_putchar (chars_nl ''Paging self-test: ok'') (screen_of t3)"
    using paging_self_test_result [OF s1(2) low(2) s1(4) t3(3) refl]
    unfolding if_not_P [OF two(2)] if_not_P [OF two(3)] if_P [OF two(1)] by blast
  have "10 \<le> card (pmm_avail (vm_pmm s2))" using assms(6) t3(4) s1(3) t4(4,5) by simp
  then obtain H1 where H1: "kheap_init pd ((k_heap K)\<lparr>kh_vm := s2\<rparr>) = Some H1" "heap_inv pd H1 [(16384, True)]"
    using kheap_init_runs [of pd "(k_heap K)\<lparr>kh_vm := s2\<rparr>"] t4(2) low(1) by auto
  obtain H2 t5 where t5: "kheap_self_test pd H1 t4 = Some (H2, t5)" "heap_inv pd H2 [(16384, True)]" "on_screen t5"
    "screen_of t5 = fold screen_putchar (chars_nl ''Kheap self-test: ok (0 / 16384 bytes)'') (screen_of t4)"
    using kheap_self_test_result [OF H1(2) t4(3)] by blast
  obtain t6 where t6: "printf_out (chars_nl ''Page fault handler: ready'') [] t5 = Some t6" "on_screen t6"
    "screen_of t6 = fold screen_putchar (chars_nl ''Page fault handler: ready'') (screen_of t5)"
    using start_messages(3) [OF t5(3)] by (rule shownE)
  obtain k hs log where kb: "keyboard_init (m_input M) (k_kbd K) (k_irqs K) (tty_ports t6) = (k, hs, log)"
    by (metis prod_cases3)
  have "quiet ?t0 t1" "quiet t1 t2" "quiet t2 t3" "quiet t3 t4" "quiet t4 t5" "quiet t5 t6"
    using quietlyD [OF printf_quiet t1(1)] quietlyD [OF printf_quiet t2(1)] quietlyD [OF tests_quiet(1) t3(1)]
      quietlyD [OF tests_quiet(2) t4(1)] quietlyD [OF tests_quiet(3) t5(1)] quietlyD [OF printf_quiet t6(1)]
    by simp_all
  then have quiet: "quiet ?t0 t6" using quiet_trans by blast
  show thesis
  proof (rule that [OF _ kb t5(2) t6(2) _ quiet])
    show "screen_of t6 = fold screen_putchar (stats_text (k_mb K) p0 @ tests_text) blank_screen"
      by (simp add: t6(3) t5(4) t4(6) t3(5) t2(3) t1(3) t0(2) stats_text_def tests_text_def)
  qed (use t1(1) t2(1) t3(1) s1(1) t4(1) H1(1) t5(1) t6(1) kb assms(4) in
      \<open>simp add: kernel_start_def Let_def assms(2) [symmetric] assms(5) [symmetric]\<close>)
qed

text \<open>A start that goes well: what it assumes of the boot loader and the image, and of the controllers.\<close>

definition good_start :: "machine \<Rightarrow> memory \<Rightarrow> u32 \<Rightarrow> u32 \<Rightarrow> kernel \<Rightarrow> kernel \<Rightarrow> pmm \<Rightarrow> bool" where
  "good_start M m eax ebx K0 K p0 \<longleftrightarrow> linked_image (m_image M) \<and> cleared m (virt_to_phys (boot_page_directory (m_image M)))
     \<and> boot_start M m eax ebx K0 = Some K \<and> multiboot_is_valid (k_mb K)
     \<and> p0 = pmm_init (m_image M) (k_mb K) (vm_pmm (kh_vm (k_heap K0))) \<and> 11 \<le> card (pmm_avail p0)"

lemma kernel_prompt:
  assumes "good_start M m eax ebx K0 K p0" and "mask_reads_back (m_input M)" and "pd = boot_page_directory (m_image M)"
  obtains K' s where "kernel_start M K = Some K'"
    "kernel_main M scs K = shell_loop pd (m_regs M) (k_heap K') scs (k_kbd K') s"
    "at_line s [] (fold screen_putchar (stats_text (k_mb K) p0 @ tests_text @ shell_text) blank_screen)"
    "heap_inv pd (k_heap K') [(16384, True)]" "k_kbd K' = keyboard_reset (k_kbd K)"
    "kbd_inv (k_kbd K')" "kbd_items (k_kbd K') = []"
    "masked_lines (tty_ports (k_tty K')) = {irq. irq < 16} - {1}" "k_irqs K' 1 = Some (keyboard_irq (m_input M))"
proof -
  have A: "linked_image (m_image M)" "cleared m (virt_to_phys (boot_page_directory (m_image M)))"
    "boot_start M m eax ebx K0 = Some K" "multiboot_is_valid (k_mb K)"
    "p0 = pmm_init (m_image M) (k_mb K) (vm_pmm (kh_vm (k_heap K0)))" "11 \<le> card (pmm_avail p0)"
    using assms(1) unfolding good_start_def by blast+
  note e = boot_start_entries [OF A(1-3), folded assms(3)]
  have p0: "p0 = pmm_init (m_image M) (k_mb K) (vm_pmm (kh_vm (k_heap K)))" unfolding e(2) by (rule A(5))
  show thesis
  proof (cases rule: kernel_started [OF A(1) assms(3) e(1) A(4) p0 A(6)])
    case (1 H t k hs log)
    have k: "k = keyboard_reset (k_kbd K)" "hs 1 = Some (keyboard_irq (m_input M))"
      using 1(2) by (auto simp: keyboard_init_def irq_register_def KBD_IRQ_def word_le_nat_alt)
    have "on_screen (t\<lparr>tty_ports := log\<rparr>)" "screen_of (t\<lparr>tty_ports := log\<rparr>) = screen_of t"
      using 1(4) by (simp_all add: on_screen_def screen_of_def)
    from shell_greeting [OF this(1), of pd "m_regs M" H scs k "k_shell K"] this(2)
    obtain s where s: "shell_run pd (m_regs M) H scs k (k_shell K, t\<lparr>tty_ports := log\<rparr>) = shell_loop pd (m_regs M) H scs k s"
      "at_line s [] (fold screen_putchar shell_text (screen_of t))" by auto
    obtain K' where K': "kernel_start M K = Some K'" "k_tty K' = t\<lparr>tty_ports := log\<rparr>" "k_heap K' = H" "k_kbd K' = k"
      "k_irqs K' = hs" "k_shell K' = k_shell K" using 1(1) by simp
    have main: "kernel_main M scs K = shell_loop pd (m_regs M) (k_heap K') scs (k_kbd K') s"
      using s(1) by (simp add: kernel_main_def K' assms(3))
    have line: "at_line s [] (fold screen_putchar (stats_text (k_mb K) p0 @ tests_text @ shell_text) blank_screen)"
      using s(2) 1(5) by simp
    have "masked_lines (tty_ports (k_tty K')) = {irq. irq < 16} - {1}"
      using masks_after [OF assms(2) 1(6,2)] by (simp add: K')
    then show thesis
      by (intro that [OF K'(1) main line]) (simp_all only: K' k 1(3) keyboard_fresh)
  qed
qed

section \<open>What the boot loader leaves\<close>

text \<open>A word of memory that the boot map shows and the page tables of \<open>boot.S\<close> do not overwrite.\<close>

definition loader_word :: "kernel_image \<Rightarrow> u32 \<Rightarrow> bool" where
  "loader_word img a \<longleftrightarrow> word_aligned a \<and> a < 0x3FF000
     \<and> page_of a \<noteq> virt_to_phys (boot_page_directory img) \<and> page_of a \<noteq> virt_to_phys (boot_page_table1 img)"

text \<open>The entries of the memory map in memory, each with its size field.\<close>

fun loader_map :: "kernel_image \<Rightarrow> memory \<Rightarrow> u32 \<Rightarrow> (u32 \<times> mmap_entry) list \<Rightarrow> bool" where
  "loader_map img m a [] = True"
| "loader_map img m a ((sz, e) # es) =
     ((\<forall>d \<in> {0, 4, 8, 12, 16, 20}. loader_word img (a + d)) \<and> a \<noteq> 0 \<and> 20 \<le> sz \<and> load32 m a = sz
      \<and> join64 (load32 m (a + 4)) (load32 m (a + 8)) = me_addr e \<and> join64 (load32 m (a + 12)) (load32 m (a + 16)) = me_len e
      \<and> load32 m (a + 20) = me_type e \<and> loader_map img m (a + (sz + 4)) es)"

text \<open>
  The Multiboot information at \<open>info\<close> with a memory map, whose length and address are at 44 and 48 as Multiboot lays them
  out; the flags are among those for which the code looks there (\<open>mmap_fields_offset_44\<close>).
\<close>

definition loader_info :: "kernel_image \<Rightarrow> memory \<Rightarrow> u32 \<Rightarrow> u32 \<Rightarrow> u32 \<Rightarrow> (u32 \<times> mmap_entry) list \<Rightarrow> bool" where
  "loader_info img m info flags kb es \<longleftrightarrow> (\<forall>d \<in> {0, 8, 44, 48}. loader_word img (info + d)) \<and> info \<noteq> 0
     \<and> load32 m info = flags \<and> load32 m (info + 8) = kb \<and> flags AND MULTIBOOT_INFO_MMAP \<noteq> 0
     \<and> multiboot_mmap_fields_offset flags = 44 \<and> es \<noteq> [] \<and> unat (load32 m (info + 44)) = mmap_bytes es
     \<and> loader_map img m (load32 m (info + 48)) es"

lemma boot_paging_apart:
  assumes "boot_placed pd pt" and "f \<noteq> virt_to_phys pd" and "f \<noteq> virt_to_phys pt"
  shows "same_frame f m (boot_paging pd pt m)"
proof -
  have al: "page_aligned (virt_to_phys pd)" "page_aligned (virt_to_phys pt)"
    using boot_placed_phys(2) assms(1) by (auto simp: boot_placed_def)
  have st: "same_frame f n (store32 n (g + i * 4) v)" if "page_aligned g" "unat i < 1024" "f \<noteq> g" for n g i v
    using same_frame_store32 [OF entry_addr(2) [OF that(1,2)], of f n v] entry_addr(1) [OF that(1,2)] that(3) by simp
  have fill: "same_frame f m (boot_fill m (virt_to_phys pt) n)" if "n \<le> 1024" for n
    using that
  proof (induction n)
    case (Suc n)
    have "unat (of_nat n :: u32) < 1024" using Suc.prems by (simp add: unat_of_nat_small)
    from st [OF al(2) this assms(3)] Suc show ?case by (auto intro: same_frame_trans)
  qed simp
  have small: "unat (0::u32) < 1024" "unat (768::u32) < 1024" "unat (1023::u32) < 1024" by simp_all
  show ?thesis
    unfolding boot_paging_def Let_def
    by (rule same_frame_trans [OF _ st [OF al(1) small(2) assms(2)]], rule same_frame_trans [OF _ st [OF al(1) small(1) assms(2)]],
        rule same_frame_trans [OF _ st [OF al(2) small(3) assms(3)]], rule fill, simp)
qed

lemma loader_read:
  assumes "loader_word img a" and "boot_placed (boot_page_directory img) (boot_page_table1 img)"
  shows "boot_read32 (boot_paging (boot_page_directory img) (boot_page_table1 img) m) a = Some (load32 m a)"
  using assms load32_same_frame [OF boot_paging_apart [OF assms(2)], of "page_of a" a m]
  by (simp add: loader_word_def boot_read32_low)

lemma loader_ptr: "loader_word img a \<Longrightarrow> a \<noteq> 0 \<Longrightarrow> multiboot_ptr_in_identity_map a"
  by (auto simp: loader_word_def multiboot_ptr_in_identity_map_def IDENTITY_MAP_LIMIT_def word_less_nat_alt)

lemma loader_map_at:
  assumes "boot_placed (boot_page_directory img) (boot_page_table1 img)" and "loader_map img m a es"
  shows "mmap_at (boot_read8 (boot_paging (boot_page_directory img) (boot_page_table1 img) m)) a es"
  using assms(2)
proof (induction es arbitrary: a)
  case (Cons p es)
  obtain sz e where p: "p = (sz, e)" by (cases p)
  have w: "loader_word img a" "loader_word img (a + 4)" "loader_word img (a + 8)" "loader_word img (a + 12)"
    "loader_word img (a + 16)" "loader_word img (a + 20)" "a \<noteq> 0" using Cons.prems by (simp_all add: p)
  note r = w(1-6) [THEN loader_read [OF _ assms(1)], of m]
  show ?case
    using Cons.prems Cons.IH [of "a + (sz + 4)"] loader_ptr [OF w(1,7)] r(1,2,4,6)
      r(3) [unfolded add.commute [of a 8]] r(5) [unfolded add.commute [of a 16]]
    by (simp add: p read64_def add.commute [of a 8] add.commute [of a 16])
qed simp

lemma loader_copied:
  assumes "boot_placed (boot_page_directory img) (boot_page_table1 img)" and "loader_info img m info flags kb es"
  shows "multiboot_early_init (boot_read8 (boot_paging (boot_page_directory img) (boot_page_table1 img) m)) MULTIBOOT_BOOTLOADER_MAGIC info s
    = Some (copied_map flags kb es s)"
proof -
  note l = assms(2) [unfolded loader_info_def]
  have w: "loader_word img info" "loader_word img (info + 8)" "loader_word img (info + 44)" "loader_word img (info + 48)" "info \<noteq> 0"
    using l by simp_all
  note r = w(1-4) [THEN loader_read [OF _ assms(1)], of m]
  obtain p es' where es: "es = p # es'" using l by (cases es) auto
  obtain sz e where p: "p = (sz, e)" by (cases p)
  have "loader_word img (load32 m (info + 48))" "load32 m (info + 48) \<noteq> 0" using l by (auto simp: es p)
  note ptr = loader_ptr [OF this] and at = loader_map_at [OF assms(1), of m "load32 m (info + 48)" es]
  have off: "multiboot_mmap_fields_offset flags = 44" and next_word: "info + 44 + 4 = info + 48" using l by simp_all
  show ?thesis
  proof (rule early_init_copies [OF loader_ptr [OF w(1,5)]])
    show "boot_read32 (boot_paging (boot_page_directory img) (boot_page_table1 img) m) info = Some flags"
      "boot_read32 (boot_paging (boot_page_directory img) (boot_page_table1 img) m) (info + 8) = Some kb"
      using r(1,2) l by simp_all
    show "boot_read32 (boot_paging (boot_page_directory img) (boot_page_table1 img) m) (info + multiboot_mmap_fields_offset flags)
        = Some (load32 m (info + 44))"
      "boot_read32 (boot_paging (boot_page_directory img) (boot_page_table1 img) m) (info + multiboot_mmap_fields_offset flags + 4)
        = Some (load32 m (info + 48))"
      unfolding off next_word by (rule r(3), rule r(4))
    show "flags AND MULTIBOOT_INFO_MMAP \<noteq> 0" "unat (load32 m (info + 44)) = mmap_bytes es" using l by blast+
    show "multiboot_ptr_in_identity_map (load32 m (info + 48))" by (rule ptr)
    show "mmap_at (boot_read8 (boot_paging (boot_page_directory img) (boot_page_table1 img) m)) (load32 m (info + 48)) es"
      using l by (intro at) blast
  qed
qed

text \<open>A boot loader that passes such a map starts the kernel well, if the map leaves eleven frames.\<close>

lemma loader_starts:
  assumes "linked_image (m_image M)" and "cleared m (virt_to_phys (boot_page_directory (m_image M)))"
    and "loader_info (m_image M) m info flags kb es"
    and "p0 = pmm_init (m_image M) (copied_map flags kb es (k_mb K0)) (vm_pmm (kh_vm (k_heap K0)))" and "11 \<le> card (pmm_avail p0)"
  shows "\<exists>K. boot_start M m MULTIBOOT_BOOTLOADER_MAGIC info K0 = Some K \<and> k_mb K = copied_map flags kb es (k_mb K0)
    \<and> good_start M m MULTIBOOT_BOOTLOADER_MAGIC info K0 K p0"
proof -
  let ?pd = "boot_page_directory (m_image M)" and ?pt = "boot_page_table1 (m_image M)"
  let ?s = "(kh_vm (k_heap K0))\<lparr>vm_mem := boot_paging ?pd ?pt m, vm_cr3 := virt_to_phys ?pd\<rparr>"
  have placed: "boot_placed ?pd ?pt" using assms(1) unfolding linked_image_def by blast
  have e: "boot_entries ?pd ?pt True ?s"
    using placed boot_paging_entries [OF placed assms(2)] by (auto simp: boot_entries_def)
  then obtain s' where s': "boot_drop_identity ?pd ?s = Some s'" by (rule boot_drop_identity_entries)
  have reads: "vread8 ?s = boot_read8 (boot_paging ?pd ?pt m)" using boot_reads [OF e] by simp
  obtain K where K: "boot_start M m MULTIBOOT_BOOTLOADER_MAGIC info K0 = Some K" "k_mb K = copied_map flags kb es (k_mb K0)"
    by (simp add: boot_start_def Let_def reads loader_copied [OF placed assms(3)] s')
  moreover have "multiboot_is_valid (k_mb K)"
    using assms(3) K(2) copied_map_fields(4) by (simp add: multiboot_is_valid_def loader_info_def)
  ultimately show ?thesis using assms unfolding good_start_def by (intro exI [of _ K]) simp
qed

section \<open>An example start\<close>

definition example_machine :: machine where
  "example_machine = \<lparr>m_image = example_image, m_gdt_table = 0xC0105000, m_idt_table = 0xC0106000,
     m_isr_stubs = (\<lambda>v. 0xC0101000 + 16 * ucast v), m_irq_stubs = (\<lambda>i. 0xC0102000 + 16 * ucast i),
     m_input = example_input, m_regs = example_regs 14\<rparr>"

definition example_kernel :: kernel where
  "example_kernel = \<lparr>k_tty = example_tty, k_gdt = \<lparr>gdt_entries = replicate 5 (create_descriptor 0 0 0), gdt_ptr_limit = 0,
       gdt_ptr_base = 0, gdtr_limit = 0, gdtr_base = 0, seg_cs = 0, seg_data = 0\<rparr>,
     k_idt = example_idt, k_irqs = (\<lambda>_. None), k_mb = example_multiboot,
     k_heap = empty_heap \<lparr>vm_mem = (\<lambda>_. 0), vm_cr3 = 0, vm_pmm = zero_pmm\<rparr>, k_kbd = example_kbd, k_shell = example_shell\<rparr>"

lemma example_placed: "boot_placed 0xC0110000 0xC0111000"
  by (simp add: boot_placed_def page_aligned_def off_of_def)

lemma example_cleared: "cleared example_boot_memory 0x110000"
proof -
  have "same_frame 0x110000 (\<lambda>_. 0) example_boot_memory"
    unfolding example_boot_memory_def
    by (intro same_frame_trans [OF _ same_frame_store32] same_frame_refl) (simp_all add: word_aligned_numeral page_of_def)
  moreover have "page_aligned 0x110000" by (simp add: page_aligned_def off_of_def)
  ultimately have "entry example_boot_memory 0x110000 i = entry (\<lambda>_. 0) 0x110000 i" if "unat i < 1024" for i
    using that by (rule entry_same_frame)
  then show ?thesis by (simp add: cleared_def entry_def load32_def join32_def)
qed

lemma example_eleven: "11 \<le> card (pmm_avail example_pmm)"
proof -
  let ?F = "(\<lambda>i::u32. (0x121 + i) * 4096) ` {0, 1, 2, 3, 4, 5, 6, 7, 8, 9, 10}"
  have "?F \<subseteq> pmm_avail example_pmm"
    by (auto simp: pmm_avail_def pmm_pool_def page_aligned_def off_of_def addr_to_frame_def PMM_PAGE_SIZE_def
        example_pmm_facts(2) example_is_used)
  then have "card ?F \<le> card (pmm_avail example_pmm)" by (intro card_mono) simp_all
  then show ?thesis by simp
qed

lemma example_load:
  "linked_image (m_image example_machine)" "cleared example_boot_memory (virt_to_phys (boot_page_directory (m_image example_machine)))"
  "loader_info (m_image example_machine) example_boot_memory 0x1000 0x6F 130048 example_mmap"
  "example_multiboot = copied_map 0x6F 130048 example_mmap (k_mb example_kernel)"
  "example_pmm = pmm_init (m_image example_machine) example_multiboot (vm_pmm (kh_vm (k_heap example_kernel)))"
  "11 \<le> card (pmm_avail example_pmm)"
proof -
  have img: "m_image example_machine = example_image" "boot_page_directory example_image = 0xC0110000"
    "boot_page_table1 example_image = 0xC0111000"
    by (simp_all add: example_machine_def example_image_def)
  have phys: "virt_to_phys 0xC0110000 = 0x110000" "virt_to_phys 0xC0111000 = 0x111000"
    by (simp_all add: virt_to_phys_def KERNEL_VIRTUAL_BASE_def)
  show "linked_image (m_image example_machine)"
    using example_placed example_fits by (simp add: linked_image_def img)
  show "cleared example_boot_memory (virt_to_phys (boot_page_directory (m_image example_machine)))"
    using example_cleared by (simp add: img phys)
  show "loader_info (m_image example_machine) example_boot_memory 0x1000 0x6F 130048 example_mmap"
    by (simp add: loader_info_def loader_word_def img phys page_of_def word_aligned_numeral example_boot_memory_def
        example_mmap_def join64_def MULTIBOOT_INFO_MMAP_def mmap_offset_defs)
  show "example_multiboot = copied_map 0x6F 130048 example_mmap (k_mb example_kernel)"
    by (simp add: copied_map_def example_mmap_def mmap_append_def example_multiboot_def example_kernel_def fun_eq_iff)
  show "example_pmm = pmm_init (m_image example_machine) example_multiboot (vm_pmm (kh_vm (k_heap example_kernel)))"
    by (simp add: example_pmm_def img example_kernel_def empty_heap_def)
  show "11 \<le> card (pmm_avail example_pmm)" by (rule example_eleven)
qed

lemma example_good_start:
  "\<exists>K. good_start example_machine example_boot_memory MULTIBOOT_BOOTLOADER_MAGIC 0x1000 example_kernel K example_pmm"
  using loader_starts [OF example_load(1-3), of example_pmm example_kernel] example_load(4-6) by auto

section \<open>Properties\<close>

text \<open>C1: from the boot loader to the prompt: when the boot loader leaves a Multiboot block with a memory map where the boot map
  shows it, laid out as the code expects, and the map leaves eleven frames free, then nothing on the way faults or
  loops, the reading of the map included; every self test passes, and the kernel waits for a key in the shell,
  with the statistics, the test results and the prompt on the screen, a heap of one free block, an
  empty key queue, and every interrupt line masked but the keyboard's.\<close>

theorem kernel_reaches_prompt:
  assumes "linked_image (m_image M)" and "cleared m (virt_to_phys (boot_page_directory (m_image M)))"
    and "loader_info (m_image M) m info flags kb es" and "mb = copied_map flags kb es (k_mb K0)"
    and "p0 = pmm_init (m_image M) mb (vm_pmm (kh_vm (k_heap K0)))" and "11 \<le> card (pmm_avail p0)"
    and "mask_reads_back (m_input M)" and "pd = boot_page_directory (m_image M)"
  shows "\<exists>K K' s. boot_start M m MULTIBOOT_BOOTLOADER_MAGIC info K0 = Some K \<and> k_mb K = mb \<and> kernel_start M K = Some K'
    \<and> kernel_main M scs K = shell_loop pd (m_regs M) (k_heap K') scs (k_kbd K') s
    \<and> at_line s [] (fold screen_putchar (stats_text mb p0 @ tests_text @ shell_text) blank_screen)
    \<and> heap_inv pd (k_heap K') [(16384, True)] \<and> kbd_inv (k_kbd K') \<and> kbd_items (k_kbd K') = []
    \<and> masked_lines (tty_ports (k_tty K')) = {irq. irq < 16} - {1} \<and> k_irqs K' 1 = Some (keyboard_irq (m_input M))"
proof -
  obtain K where K: "boot_start M m MULTIBOOT_BOOTLOADER_MAGIC info K0 = Some K" "k_mb K = mb"
    "good_start M m MULTIBOOT_BOOTLOADER_MAGIC info K0 K p0"
    using loader_starts [OF assms(1-3), of p0 K0] assms(4-6) by auto
  show ?thesis
  proof (cases rule: kernel_prompt [OF K(3) assms(7,8), of scs])
    case (1 K' s)
    then show ?thesis using K(1,2) by (intro exI [of _ K] exI [of _ K'] exI [of _ s] conjI) simp_all
  qed
qed

theorem kernel_reaches_prompt_witness:
  "\<exists>K K' s. boot_start example_machine example_boot_memory MULTIBOOT_BOOTLOADER_MAGIC 0x1000 example_kernel = Some K
    \<and> kernel_start example_machine K = Some K'
    \<and> kernel_main example_machine [] K = shell_loop 0xC0110000 (example_regs 14) (k_heap K') [] (k_kbd K') s \<and> line_inv (fst s) []
    \<and> masked_lines (tty_ports (k_tty K')) = {irq. irq < 16} - {1}"
proof -
  have m: "mask_reads_back (m_input example_machine)" "0xC0110000 = boot_page_directory (m_image example_machine)"
    "m_regs example_machine = example_regs 14"
    using example_input_reads by (simp_all add: example_machine_def example_image_def)
  from kernel_reaches_prompt [OF example_load m(1,2), of "[]"] show ?thesis unfolding m(3) at_line_def by blast
qed

lemma edit_line_set: "set (fold edit_line cs line) \<subseteq> set cs \<union> set line"
proof (induction cs arbitrary: line)
  case (Cons c cs)
  have "set (edit_line c line) \<subseteq> insert c (set line)" by (auto simp: edit_line_def dest: in_set_butlastD)
  then show ?case using Cons [of "edit_line c line"] by auto
qed simp

lemma echoes_set: "set (echoes cs line) \<subseteq> insert 8 (set cs)"
  by (induction cs arbitrary: line) (auto simp: echo_def split: if_splits)

lemma kernel_command:
  assumes "good_start M m eax ebx K0 K p0" and "mask_reads_back (m_input M)" and "pd = boot_page_directory (m_image M)"
    and "typed (keyboard_reset (k_kbd K)) scs = cs @ [10]" and "10 \<notin> set cs" and "9 \<notin> set cs"
    and "line = fold edit_line cs []" and "line \<noteq> chars ''pfault''"
  shows "\<exists>K' s. kernel_start M K = Some K' \<and> kernel_main M scs K = Some (Returned s) \<and> heap_inv pd (k_heap K') [(16384, True)]
    \<and> at_line s [] (fold screen_putchar (stats_text (k_mb K) p0 @ tests_text @ shell_text
        @ echoes cs [] @ [10] @ command_text (k_heap K') [(16384, True)] line @ chars ''myos> '') blank_screen)"
proof (cases rule: kernel_prompt [OF assms(1-3), of scs])
  case (1 K' s)
  have t: "kbd_items (k_kbd K') @ typed (k_kbd K') scs = cs @ [10]" using 1(5,7) assms(4) by simp
  have f: "tabs_fit (echoes cs []) (fold screen_putchar (stats_text (k_mb K) p0 @ tests_text @ shell_text) blank_screen)"
    using echoes_set [of cs "[]"] assms(6) by (intro no_tabs_fit) auto
  have n: "9 \<notin> set line" using edit_line_set [of cs "[]"] assms(6,7) by auto
  obtain s' where "shell_loop pd (m_regs M) (k_heap K') scs (k_kbd K') s = Some (Returned s')"
    "at_line s' [] (fold screen_putchar (echoes cs [] @ [10] @ command_text (k_heap K') [(16384, True)] line @ chars ''myos> '')
        (fold screen_putchar (stats_text (k_mb K) p0 @ tests_text @ shell_text) blank_screen))"
    using line_runs [OF 1(4,3,6) t assms(5) f assms(7) n assms(8), of "m_regs M"] by blast
  then show ?thesis
    using 1(1,4) by (intro exI [of _ K'] exI [of _ s'] conjI) (simp_all only: 1(2) fold_append comp_apply append_assoc)
qed

text \<open>From the boot loader to a command's output: after a good start, scan codes that type some
  characters without a tab and Enter run the edited line, the screen shows the whole session, and the shell
  waits again with an empty line.\<close>

theorem kernel_runs_command:
  assumes "good_start M m eax ebx K0 K p0" and "mask_reads_back (m_input M)" and "pd = boot_page_directory (m_image M)"
    and "typed (keyboard_reset (k_kbd K)) scs = cs @ [10]" and "10 \<notin> set cs" and "9 \<notin> set cs"
    and "line = fold edit_line cs []" and "line \<noteq> chars ''pfault''"
  shows "\<exists>K' s. kernel_start M K = Some K' \<and> kernel_main M scs K = Some (Returned s) \<and> heap_inv pd (k_heap K') [(16384, True)]
    \<and> at_line s [] (fold screen_putchar (stats_text (k_mb K) p0 @ tests_text @ shell_text
        @ echoes cs [] @ [10] @ command_text (k_heap K') [(16384, True)] line @ chars ''myos> '') blank_screen)"
  using assms by (rule kernel_command)

theorem kernel_runs_command_witness:
  "\<exists>K K' s. kernel_start example_machine K = Some K' \<and> kernel_main example_machine [0x23, 0x12, 0x26, 0x19, 0x1C] K = Some (Returned s)
    \<and> at_line s [] (fold screen_putchar (stats_text (k_mb K) example_pmm @ tests_text @ shell_text
        @ echoes (chars ''help'') [] @ [10] @ command_text (k_heap K') [(16384, True)] (chars ''help'') @ chars ''myos> '') blank_screen)"
proof -
  obtain K where K: "good_start example_machine example_boot_memory MULTIBOOT_BOOTLOADER_MAGIC 0x1000 example_kernel K example_pmm"
    using example_good_start by blast
  have m: "mask_reads_back (m_input example_machine)"
    using example_input_reads by (simp add: example_machine_def)
  have "k_kbd K = example_kbd"
    using K by (auto simp: good_start_def boot_start_def example_kernel_def Let_def split: bind_splits)
  moreover have "typed (keyboard_reset example_kbd) [0x23, 0x12, 0x26, 0x19, 0x1C] = chars ''help'' @ [10]"
    "chars ''help'' = fold edit_line (chars ''help'') []" by code_simp+
  moreover have "10 \<notin> set (chars ''help'')" "9 \<notin> set (chars ''help'')" "chars ''help'' \<noteq> chars ''pfault''"
    by (simp_all add: chars_def)
  ultimately show ?thesis
    using kernel_runs_command [OF K m refl, of "[0x23, 0x12, 0x26, 0x19, 0x1C]" "chars ''help''" "chars ''help''"] by metis
qed

end
