(* ===== verification/Port_Free.thy ===== *)
theory Port_Free
  imports Console_Ports Shell
begin

text \<open>
  Output does not depend on the port log: started from two terminals that differ in their logs only, the
  printing functions and the shell return the same results and leave two terminals that differ in their logs only.
  An interrupt handler that writes to its controller between two steps of the shell is therefore invisible
  on the screen.
\<close>

definition same_screen :: "tty \<Rightarrow> tty \<Rightarrow> bool" where
  "same_screen t u \<longleftrightarrow> t\<lparr>tty_ports := []\<rparr> = u\<lparr>tty_ports := []\<rparr>"

lemma same_screen_iff:
  "same_screen t u \<longleftrightarrow> terminal_row t = terminal_row u \<and> terminal_column t = terminal_column u
     \<and> terminal_color t = terminal_color u \<and> terminal_buffer t = terminal_buffer u"
  by (cases t; cases u) (auto simp: same_screen_def)

named_theorems portfree "runs that do not read the port log, and how they combine"

lemma same_screen_refl [simp, portfree]: "same_screen t t"
  by (simp add: same_screen_def)

lemma same_screen_trans: "same_screen t u \<Longrightarrow> same_screen u v \<Longrightarrow> same_screen t v"
  by (simp add: same_screen_def)

lemma same_screen_view: "same_screen t u \<Longrightarrow> screen_of t = screen_of u \<and> on_screen t = on_screen u"
  by (simp add: same_screen_iff screen_of_def on_screen_def)

text \<open>Two runs agree: both fault, or both return results related by \<open>R\<close>.\<close>

abbreviation agree :: "('a \<Rightarrow> 'b \<Rightarrow> bool) \<Rightarrow> 'a option \<Rightarrow> 'b option \<Rightarrow> bool" where
  "agree \<equiv> rel_option"

definition agree_fst :: "tty \<times> 'a \<Rightarrow> tty \<times> 'a \<Rightarrow> bool" where
  "agree_fst x y \<longleftrightarrow> same_screen (fst x) (fst y) \<and> snd x = snd y"

lemma agree_bind:
  assumes "agree R r q" and "\<And>x y. R x y \<Longrightarrow> agree S (f x) (g y)"
  shows "agree S (r \<bind> f) (q \<bind> g)"
  using assms by (cases r; cases q) simp_all

lemma agree_seq [portfree]:
  "agree same_screen r q \<Longrightarrow> (\<And>t u. same_screen t u \<Longrightarrow> agree S (f t) (g u)) \<Longrightarrow> agree S (r \<bind> f) (q \<bind> g)"
  "agree agree_fst r' q' \<Longrightarrow> (\<And>t u x. same_screen t u \<Longrightarrow> agree S (f' t x) (g' u x))
     \<Longrightarrow> agree S (r' \<bind> (\<lambda>(t, x). f' t x)) (q' \<bind> (\<lambda>(t, x). g' t x))"
  by (erule agree_bind, simp) (erule agree_bind, auto simp: agree_fst_def)

lemma agree_if [portfree]:
  "(b \<Longrightarrow> agree R r q) \<Longrightarrow> (\<not> b \<Longrightarrow> agree R r' q') \<Longrightarrow> agree R (if b then r else r') (if b then q else q')"
  by simp

lemma agree_some [portfree]: "R x y \<Longrightarrow> agree R (Some x) (Some y)" "agree R None None"
  by simp_all

lemma agree_fst_pair [portfree]: "same_screen t u \<Longrightarrow> agree_fst (t, x) (u, x)"
  by (simp add: agree_fst_def)

section \<open>The terminal\<close>

lemma sync_free [portfree]: "same_screen t u \<Longrightarrow> same_screen (terminal_sync_cursor t) (terminal_sync_cursor u)"
  by (simp add: same_screen_iff terminal_sync_cursor_def Let_def)

lemma newline_free [portfree]: "same_screen t u \<Longrightarrow> same_screen (terminal_newline t) (terminal_newline u)"
  by (simp add: same_screen_iff terminal_newline_def terminal_scroll_def Let_def)

lemma store_free [portfree]:
  "same_screen t u \<Longrightarrow> agree same_screen (terminal_putentryat c color x y t) (terminal_putentryat c color x y u)"
  by (simp add: same_screen_iff terminal_putentryat_def cell_store_def)

lemma column_free [portfree]:
  "same_screen t u \<Longrightarrow> same_screen (t\<lparr>terminal_column := x\<rparr>) (u\<lparr>terminal_column := x\<rparr>)"
  "same_screen t u \<Longrightarrow> same_screen (t\<lparr>terminal_color := c\<rparr>) (u\<lparr>terminal_color := c\<rparr>)"
  by (simp_all add: same_screen_iff)

lemma fields_free:
  "same_screen t u \<Longrightarrow> terminal_column u = terminal_column t"
  "same_screen t u \<Longrightarrow> terminal_row u = terminal_row t"
  "same_screen t u \<Longrightarrow> terminal_color u = terminal_color t"
  by (simp_all add: same_screen_iff)

lemma tab_free [portfree]: "same_screen t u \<Longrightarrow> agree same_screen (terminal_tab t) (terminal_tab u)"
proof (induction "80 - unat (terminal_column t)" arbitrary: t u rule: less_induct)
  case less
  note f = fields_free [OF less.prems]
  let ?c = "terminal_column t"
  show ?case
  proof (cases "?c < VGA_WIDTH \<and> ?c mod TAB_WIDTH \<noteq> 0")
    case True
    then have c: "unat ?c < 80" by (simp add: VGA_WIDTH_def word_less_nat_alt)
    have IH: "agree same_screen (terminal_tab (v\<lparr>terminal_column := terminal_column v + 1\<rparr>))
        (terminal_tab (w\<lparr>terminal_column := terminal_column w + 1\<rparr>))"
      if "same_screen v w" "terminal_column v = ?c" for v w
    proof (rule less.hyps)
      have "unat (?c + 1) = unat ?c + 1" using c by (simp add: unat_plus_small)
      then show "80 - unat (terminal_column (v\<lparr>terminal_column := terminal_column v + 1\<rparr>)) < 80 - unat ?c"
        using c that(2) by simp
    qed (use that fields_free [OF that(1)] in \<open>simp add: portfree\<close>)
    have keep: "terminal_column v = ?c" if "terminal_putentryat 0x20 (terminal_color t) ?c (terminal_row t) t = Some v" for v
      using that by (auto simp: terminal_putentryat_def cell_store_def split: if_splits)
    have "agree same_screen (terminal_putentryat 0x20 (terminal_color t) ?c (terminal_row t) t)
        (terminal_putentryat 0x20 (terminal_color u) (terminal_column u) (terminal_row u) u)"
      using store_free [OF less.prems] f by simp
    then have "agree same_screen
        (terminal_putentryat 0x20 (terminal_color t) ?c (terminal_row t) t
           \<bind> (\<lambda>t. terminal_tab (t\<lparr>terminal_column := terminal_column t + 1\<rparr>)))
        (terminal_putentryat 0x20 (terminal_color u) (terminal_column u) (terminal_row u) u
           \<bind> (\<lambda>t. terminal_tab (t\<lparr>terminal_column := terminal_column t + 1\<rparr>)))"
      using keep IH by (cases rule: option.rel_cases) simp_all
    then show ?thesis
      using True f by (subst (1 2) terminal_tab.simps) simp
  next
    case False
    then have "\<not> (terminal_column u < VGA_WIDTH \<and> terminal_column u mod TAB_WIDTH \<noteq> 0)" using f by simp
    then have "terminal_tab t = Some t" "terminal_tab u = Some u"
      using terminal_tab.simps [of t] terminal_tab.simps [of u] False by presburger+
    then show ?thesis using less.prems by simp
  qed
qed

lemma putchar_free [portfree]: "same_screen t u \<Longrightarrow> agree same_screen (terminal_putchar c t) (terminal_putchar c u)"
  unfolding terminal_putchar_def Let_def
  by (simp only: fields_free) (auto simp: fields_free intro!: portfree)

lemma write_free [portfree]: "same_screen t u \<Longrightarrow> agree same_screen (terminal_write cs t) (terminal_write cs u)"
  by (induction cs arbitrary: t u) (auto intro!: portfree)

section \<open>Formatted output\<close>

lemma print_free [portfree]: "same_screen t u \<Longrightarrow> agree agree_fst (print cs t) (print cs u)"
  by (induction cs arbitrary: t u) (auto simp: putchar_def simp del: terminal_write.simps intro!: portfree)

lemma print_uint_free [portfree]: "same_screen t u \<Longrightarrow> agree agree_fst (print_uint w b t) (print_uint w b u)"
  unfolding print_uint_def by (intro portfree)

lemma print_int_free [portfree]: "same_screen t u \<Longrightarrow> agree agree_fst (print_int w t) (print_int w u)"
  unfolding print_int_def by (intro portfree)

lemma conversion_free [portfree]:
  "same_screen t u \<Longrightarrow> agree agree_fst (printf_conversion fmt args r t) (printf_conversion fmt args r u)"
  unfolding printf_conversion_def Let_def
  by (auto split: list.splits printf_arg.splits intro!: portfree simp del: print.simps)

lemma conversion_shrinks:
  "printf_conversion fmt args r t = Some (t', fmt', args', n) \<Longrightarrow> length fmt' \<le> length fmt"
  by (auto simp: printf_conversion_def Let_def split: list.splits printf_arg.splits if_splits bind_splits)

lemma loop_free: "same_screen t u \<Longrightarrow> agree agree_fst (printf_loop fmt args w t) (printf_loop fmt args w u)"
proof (induction "length fmt" arbitrary: fmt args w t u rule: less_induct)
  case less
  show ?case
  proof (cases "fmt = []")
    case True
    then show ?thesis using less.prems by (subst (1 2) printf_loop.simps) (simp add: agree_fst_def)
  next
    case False
    let ?f = "if hd fmt = 0x25 then tl fmt else fmt"
    have shorter: "length (drop (plain_amount ?f) ?f) < length fmt"
      using False by (simp add: plain_amount_def)
    show ?thesis
    proof (cases "hd fmt \<noteq> 0x25 \<or> tl fmt \<noteq> [] \<and> hd (tl fmt) = 0x25")
      case True
      then show ?thesis
        using False less.prems shorter by (subst (1 2) printf_loop.simps) (auto simp: Let_def intro!: portfree less.hyps)
    next
      case conv: False
      let ?c = "printf_conversion (tl fmt) args (INT_MAX - w)"
      have "agree agree_fst (?c t) (?c u)" using less.prems by (rule conversion_free)
      moreover have "length fmt' < length fmt" if "?c v = Some (t', fmt', args', n)" for v t' fmt' args' n
        using conversion_shrinks [OF that] False by (cases fmt) simp_all
      ultimately show ?thesis
        using False conv less.prems
        by (subst (1 2) printf_loop.simps)
          (auto simp: Let_def agree_fst_def intro!: less.hyps elim!: option.rel_cases split: option.splits)
    qed
  qed
qed

lemma printf_free [portfree]: "same_screen t u \<Longrightarrow> agree same_screen (printf_out fmt args t) (printf_out fmt args u)"
  using loop_free [of t u fmt args 0]
  by (auto simp: printf_out_def printf_def option.rel_map agree_fst_def elim: option.rel_mono_strong)

section \<open>Exceptions and the shell\<close>

text \<open>What a call that may halt the machine leaves, up to the port log.\<close>

fun same_outcome :: "('a \<Rightarrow> 'a \<Rightarrow> bool) \<Rightarrow> 'a outcome \<Rightarrow> 'a outcome \<Rightarrow> bool" where
  "same_outcome R (Returned x) (Returned y) = R x y"
| "same_outcome R (Halted t) (Halted u) = same_screen t u"
| "same_outcome R _ _ = False"

definition same_shell :: "shell \<times> tty \<Rightarrow> shell \<times> tty \<Rightarrow> bool" where
  "same_shell x y \<longleftrightarrow> fst x = fst y \<and> same_screen (snd x) (snd y)"

lemma agree_value [portfree]: "(\<And>x. agree S (f x) (g x)) \<Longrightarrow> agree S (r \<bind> f) (r \<bind> g)"
  by (cases r) simp_all

lemma agree_returned [portfree]:
  "agree same_screen r q \<Longrightarrow> agree (same_outcome same_screen) (map_option Returned r) (map_option Returned q)"
  "agree same_screen r q \<Longrightarrow> agree (same_outcome S) (map_option Halted r) (map_option Halted q)"
  by (cases r; cases q; simp)+

lemma setcolor_free [portfree]: "same_screen t u \<Longrightarrow> same_screen (terminal_setcolor c t) (terminal_setcolor c u)"
  by (simp add: terminal_setcolor_def same_screen_iff)

lemma writestring_free [portfree]:
  "same_screen t u \<Longrightarrow> agree same_screen (terminal_writestring cs t) (terminal_writestring cs u)"
  unfolding terminal_writestring_def by (rule write_free)

lemma exception_free [portfree]:
  "same_screen t u \<Longrightarrow> agree same_screen (exception_handler pd cr2 regs s t) (exception_handler pd cr2 regs s u)"
  unfolding exception_handler_def page_fault_handler_def page_fault_print_error_code_def Let_def
  by (intro portfree)

lemma commands_free [portfree]:
  assumes "same_screen t u"
  shows "agree same_screen (shell_cmd_help t) (shell_cmd_help u)"
    and "agree same_screen (shell_cmd_mem H t) (shell_cmd_mem H u)"
    and "agree same_screen (shell_cmd_pfault pd regs s t) (shell_cmd_pfault pd regs s u)"
    and "agree same_screen (shell_prompt t) (shell_prompt u)"
  using assms unfolding shell_cmd_help_def shell_cmd_mem_def shell_cmd_pfault_def shell_prompt_def Let_def
  by (auto split: option.split intro!: portfree)

lemma execute_free [portfree]:
  "same_screen t u \<Longrightarrow> agree (same_outcome same_screen) (shell_execute pd regs H line t) (shell_execute pd regs H line u)"
  unfolding shell_execute_def by (auto intro!: portfree)

lemma key_free:
  assumes "same_shell x y"
  shows "agree (same_outcome same_shell) (shell_key pd regs H c x) (shell_key pd regs H c y)"
proof -
  obtain sh t u where xy: "x = (sh, t)" "y = (sh, u)" "same_screen t u"
    using assms by (cases x; cases y) (auto simp: same_shell_def)
  have enter: "agree (same_outcome same_shell)
      (case r of Halted t \<Rightarrow> Some (Halted t)
       | Returned t \<Rightarrow> shell_reset_line sh \<bind> (\<lambda>sh. shell_prompt t \<bind> (\<lambda>t. Some (Returned (sh, t)))))
      (case q of Halted t \<Rightarrow> Some (Halted t)
       | Returned t \<Rightarrow> shell_reset_line sh \<bind> (\<lambda>sh. shell_prompt t \<bind> (\<lambda>t. Some (Returned (sh, t)))))"
    if "same_outcome same_screen r q" for r q and sh :: shell
    using that by (cases r; cases q) (auto simp: same_shell_def intro!: portfree)
  show ?thesis
    unfolding shell_key_def xy prod.case
    by (auto simp: xy(3) same_shell_def Let_def intro!: portfree enter intro: agree_bind)
qed

lemma keys_free:
  "same_shell x y \<Longrightarrow> agree (same_outcome same_shell) (shell_keys pd regs H cs x) (shell_keys pd regs H cs y)"
proof (induction cs arbitrary: x y)
  case (Cons c cs)
  have "agree (same_outcome same_shell)
      (case r of Halted t \<Rightarrow> Some (Halted t) | Returned s \<Rightarrow> shell_keys pd regs H cs s)
      (case q of Halted t \<Rightarrow> Some (Halted t) | Returned s \<Rightarrow> shell_keys pd regs H cs s)"
    if "same_outcome same_shell r q" for r q
    using that Cons.IH by (cases r; cases q) auto
  then show ?case unfolding shell_keys.simps by (intro agree_bind [OF key_free [OF Cons.prems]])
qed simp

section \<open>The shell writes to the screen's ports only\<close>

lemma writestring_quiet [quiets]: "quietly (\<lambda>u. u) t (terminal_writestring cs t)"
  unfolding terminal_writestring_def by (rule write_quiet)

text \<open>The terminal a call leaves, halted or not.\<close>

fun left_tty :: "('a \<Rightarrow> tty) \<Rightarrow> 'a outcome \<Rightarrow> tty" where
  "left_tty f (Returned x) = f x"
| "left_tty f (Halted t) = t"

lemma quietly_value: "(\<And>x. quietly f t (g x)) \<Longrightarrow> quietly f t (r \<bind> g)"
  by (cases r) (simp_all add: quietly_def)

lemma quietly_outcome [quiets]:
  "quietly (\<lambda>u. u) t r \<Longrightarrow> quietly (left_tty f) t (map_option Halted r)"
  "quietly (\<lambda>u. u) t r \<Longrightarrow> quietly (left_tty (\<lambda>u. u)) t (map_option Returned r)"
  by (auto simp: quietly_def)

lemma setcolor_quiet [simp]: "tty_ports (terminal_setcolor c t) = tty_ports t"
  by (simp add: terminal_setcolor_def)

lemma quietly_from: "quietly f (terminal_setcolor c t) r \<Longrightarrow> quietly f t r"
  by (auto simp: quietly_def quiet_def)

lemma exception_quiet [quiets]: "quietly (\<lambda>u. u) t (exception_handler pd cr2 regs s t)"
proof (rule quietly_from)
  show "quietly (\<lambda>u. u) (terminal_setcolor (vga_entry_color VGA_COLOR_LIGHT_RED VGA_COLOR_BLACK) t)
      (exception_handler pd cr2 regs s t)"
    unfolding exception_handler_def page_fault_handler_def page_fault_print_error_code_def Let_def
    by (intro quiets quiet_refl) (intro quietly_value quiets)
qed

lemma commands_quiet [quiets]:
  "quietly (\<lambda>u. u) t (shell_cmd_help t)" "quietly (\<lambda>u. u) t (shell_cmd_mem H t)"
  "quietly (\<lambda>u. u) t (shell_cmd_pfault pd regs s t)" "quietly (\<lambda>u. u) t (shell_prompt t)"
  unfolding shell_cmd_help_def shell_cmd_mem_def shell_cmd_pfault_def shell_prompt_def Let_def
  by (intro quiets, intro quietly_bind(1) printf_quiet quietly_value, auto split: option.split intro!: quiets)

lemma execute_quiet: "quietly (left_tty (\<lambda>u. u)) t (shell_execute pd regs H line t)"
  unfolding shell_execute_def by (auto intro!: quiets)

lemma key_quiet: "quietly (left_tty snd) (snd x) (shell_key pd regs H c x)"
proof -
  obtain sh t where x: "x = (sh, t)" by (cases x)
  have enter: "quiet t (left_tty snd r)"
    if t1: "terminal_putchar 10 t = Some t1" and o: "shell_execute pd regs H line t1 = Some q"
      and r: "(case q of Halted t \<Rightarrow> Some (Halted t)
        | Returned t \<Rightarrow> shell_reset_line sh \<bind> (\<lambda>sh. shell_prompt t \<bind> (\<lambda>t. Some (Returned (sh, t))))) = Some r"
    for t1 line q r sh
  proof -
    have "quiet t t1" using t1 putchar_quiet by (rule quietlyD [rotated])
    moreover have "quiet t1 (left_tty (\<lambda>u. u) q)" using execute_quiet o by (rule quietlyD)
    moreover have "quiet (left_tty (\<lambda>u. u) q) (left_tty snd r)"
      using r by (cases q) (auto split: bind_splits dest: quietlyD [OF commands_quiet(4)])
    ultimately show ?thesis by (blast intro: quiet_trans)
  qed
  show ?thesis
    unfolding quietly_def shell_key_def x
    by (auto split: if_splits bind_splits simp: Let_def intro: enter dest: quietlyD [OF putchar_quiet])
qed

end
