(* ===== verification/Interleaving.thy ===== *)
theory Interleaving
  imports "HOL-Library.Sublist" Port_Free Kernel_Main
begin

text \<open>
  The running kernel with interrupts at every instruction of \<open>keyboard_getchar\<close> (\<open>drivers/keyboard.c\<close>).
  The processor executes \<open>shell_run\<close>; the keyboard interrupts it whenever the interrupt flag allows, also
  between the test of the buffer and \<open>hlt\<close>. The lemmas show that no wake-up is lost, that every key
  reaches the shell once and in order, and that a session with any arrival of interrupts ends as the
  sequential \<open>shell_run\<close> does on the same scan codes.
\<close>

section \<open>The machine\<close>

text \<open>
  Where the processor is: in the greeting of \<open>shell_run\<close>, at one of the steps of \<open>keyboard_getchar\<close> (the
  character just read is its local \<open>c\<close>), halted inside \<open>hlt\<close>, in the shell with the character returned, or
  stopped for ever with interrupts off.
\<close>

datatype control =
    Greeting
  | Getchar_cli | Getchar_test | Getchar_read | Getchar_advance u8 | Getchar_return u8
  | Getchar_sti | Getchar_hlt | Sleeping
  | Key u8
  | Stopped

record sys =
  control :: control
  if_flag :: bool
  sti_shadow :: bool
  sys_kbd :: kbd
  sys_shell :: shell
  sys_tty :: tty

text \<open>\<open>sti\<close> sets the flag; if it was clear, interrupts stay off for one more instruction.\<close>

definition cpu_sti :: "sys \<Rightarrow> sys" where
  "cpu_sti s = s\<lparr>if_flag := True, sti_shadow := \<not> if_flag s\<rparr>"

definition cpu_goto :: "control \<Rightarrow> sys \<Rightarrow> sys" where
  "cpu_goto p s = s\<lparr>control := p, sti_shadow := False\<rparr>"

text \<open>
  One step of the processor: \<open>None\<close> when it waits in \<open>hlt\<close>, has stopped, or the shell faults. An exception
  enters through an interrupt gate, and the shell stops with \<open>cli\<close>: the flag is clear when the machine stops.
\<close>

definition cpu_step :: "u32 \<Rightarrow> registers \<Rightarrow> heap \<Rightarrow> sys \<Rightarrow> sys option" where
  "cpu_step pd regs H s =
     (let k = sys_kbd s in
      case control s of
        Greeting \<Rightarrow> do {
          t \<leftarrow> terminal_writestring (chars_nl ''My-OS shell. Type 'help' for commands.'') (sys_tty s);
          sh \<leftarrow> shell_reset_line (sys_shell s);
          t \<leftarrow> shell_prompt t;
          Some (cpu_goto Getchar_cli (s\<lparr>sys_shell := sh, sys_tty := t\<rparr>)) }
      | Getchar_cli \<Rightarrow> Some (cpu_goto Getchar_test (s\<lparr>if_flag := False\<rparr>))
      | Getchar_test \<Rightarrow>
          Some (cpu_goto (if kbd_read_pos k \<noteq> kbd_write_pos k then Getchar_read else Getchar_sti) s)
      | Getchar_read \<Rightarrow> Some (cpu_goto (Getchar_advance (kbd_buffer k (kbd_read_pos k))) s)
      | Getchar_advance c \<Rightarrow>
          Some (cpu_goto (Getchar_return c)
            (s\<lparr>sys_kbd := k\<lparr>kbd_read_pos := (kbd_read_pos k + 1) mod KBD_BUF_SIZE\<rparr>\<rparr>))
      | Getchar_return c \<Rightarrow> Some (cpu_sti (cpu_goto (Key c) s))
      | Getchar_sti \<Rightarrow> Some (cpu_sti (cpu_goto Getchar_hlt s))
      | Getchar_hlt \<Rightarrow> Some (cpu_goto Sleeping s)
      | Sleeping \<Rightarrow> None
      | Key c \<Rightarrow> do {
          r \<leftarrow> shell_key pd regs H c (sys_shell s, sys_tty s);
          case r of
            Returned (sh, t) \<Rightarrow> Some (cpu_goto Getchar_cli (s\<lparr>sys_shell := sh, sys_tty := t\<rparr>))
          | Halted t \<Rightarrow> Some (cpu_goto Stopped (s\<lparr>sys_tty := t, if_flag := False\<rparr>)) }
      | Stopped \<Rightarrow> None)"

text \<open>
  The processor takes an interrupt of line \<open>irq\<close> if its flag is set, the instruction after \<open>sti\<close> is done and the
  controllers do not mask the line. The handler runs to its end, as an interrupt gate clears the flag until
  \<open>iret\<close>; a processor that was halted goes on after \<open>hlt\<close>, at the head of the loop.
\<close>

definition sys_log :: "sys \<Rightarrow> port_log" where
  "sys_log s = tty_ports (sys_tty s)"

definition accepts :: "u8 \<Rightarrow> sys \<Rightarrow> bool" where
  "accepts irq s \<longleftrightarrow> if_flag s \<and> \<not> sti_shadow s \<and> irq < 16 \<and> irq \<notin> masked_lines (sys_log s)"

definition interrupt :: "kbd irq_handlers \<Rightarrow> registers \<Rightarrow> sys \<Rightarrow> sys" where
  "interrupt hs r s =
     (let (k, log) = irq_handler hs r (sys_kbd s, sys_log s)
      in s\<lparr>sys_kbd := k, sys_tty := (sys_tty s)\<lparr>tty_ports := log\<rparr>,
           control := (if control s = Sleeping then Getchar_cli else control s)\<rparr>)"

text \<open>
  The states a session can reach from \<open>s0\<close>, with the scan codes its keyboard interrupts have read so far.
  When an interrupt comes, and with what saved registers, is not determined.
\<close>

inductive session ::
  "u32 \<Rightarrow> registers \<Rightarrow> heap \<Rightarrow> port_input \<Rightarrow> kbd irq_handlers \<Rightarrow> sys \<Rightarrow> u8 list \<Rightarrow> sys \<Rightarrow> bool"
  for pd regs H inp hs s0 where
  start: "session pd regs H inp hs s0 [] s0"
| compute: "session pd regs H inp hs s0 scs s \<Longrightarrow> cpu_step pd regs H s = Some s' \<Longrightarrow>
    session pd regs H inp hs s0 scs s'"
| interrupted: "session pd regs H inp hs s0 scs s \<Longrightarrow> irq = ucast (r_int_no r) \<Longrightarrow> accepts irq s \<Longrightarrow>
    session pd regs H inp hs s0
      (scs @ (if irq = KBD_IRQ then [inb inp KBD_DATA_PORT (sys_log s)] else [])) (interrupt hs r s)"

text \<open>After \<open>kernel_start\<close>: \<open>sti\<close>, then the call of \<open>shell_run\<close>.\<close>

definition session_start :: "kernel \<Rightarrow> sys" where
  "session_start K = cpu_sti (cpu_goto Greeting \<lparr>control = Greeting, if_flag = False, sti_shadow = False,
     sys_kbd = k_kbd K, sys_shell = k_shell K, sys_tty = k_tty K\<rparr>)"

section \<open>The interrupts\<close>

text \<open>How a session begins: interrupts on, the keyboard's handler installed, every other line masked.\<close>

definition session_init :: "port_input \<Rightarrow> kbd irq_handlers \<Rightarrow> sys \<Rightarrow> bool" where
  "session_init inp hs s \<longleftrightarrow> control s = Greeting \<and> if_flag s \<and> kbd_inv (sys_kbd s)
     \<and> masked_lines (sys_log s) = {irq. irq < 16} - {1} \<and> hs 1 = Some (keyboard_irq inp)"

text \<open>What the controllers have been told: the masks are those of \<open>s0\<close>, and every interrupt was acknowledged.\<close>

definition log_inv :: "sys \<Rightarrow> u8 list \<Rightarrow> sys \<Rightarrow> bool" where
  "log_inv s0 scs s \<longleftrightarrow> port_bytes PIC1_DATA (sys_log s) = port_bytes PIC1_DATA (sys_log s0)
     \<and> port_bytes PIC2_DATA (sys_log s) = port_bytes PIC2_DATA (sys_log s0)
     \<and> port_bytes PIC2_COMMAND (sys_log s) = port_bytes PIC2_COMMAND (sys_log s0)
     \<and> port_bytes PIC1_COMMAND (sys_log s) = port_bytes PIC1_COMMAND (sys_log s0) @ replicate (length scs) PIC_EOI"

lemma log_inv_masks: "log_inv s0 scs s \<Longrightarrow> masked_lines (sys_log s) = masked_lines (sys_log s0)"
  by (simp add: log_inv_def masked_lines_def pic_mask_port_def)

lemma log_inv_quiet: "log_inv s0 scs s \<Longrightarrow> quiet (sys_tty s) (sys_tty s') \<Longrightarrow> log_inv s0 scs s'"
  by (simp add: log_inv_def quiet_def sys_log_def PIC1_DATA_def PIC2_DATA_def PIC1_COMMAND_def PIC2_COMMAND_def
      VGA_CRTC_INDEX_def VGA_CRTC_DATA_def)

lemma goto_simps [simp]:
  "control (cpu_goto p s) = p" "if_flag (cpu_goto p s) = if_flag s" "sti_shadow (cpu_goto p s) = False"
  "sys_kbd (cpu_goto p s) = sys_kbd s" "sys_shell (cpu_goto p s) = sys_shell s" "sys_tty (cpu_goto p s) = sys_tty s"
  by (simp_all add: cpu_goto_def)

lemma sti_simps [simp]:
  "control (cpu_sti s) = control s" "if_flag (cpu_sti s)" "sti_shadow (cpu_sti s) = (\<not> if_flag s)"
  "sys_kbd (cpu_sti s) = sys_kbd s" "sys_shell (cpu_sti s) = sys_shell s" "sys_tty (cpu_sti s) = sys_tty s"
  by (simp_all add: cpu_sti_def)

lemma cpu_step_quiet: "cpu_step pd regs H s = Some s' \<Longrightarrow> quiet (sys_tty s) (sys_tty s')"
proof (cases "control s")
  case Greeting
  then show "cpu_step pd regs H s = Some s' \<Longrightarrow> ?thesis"
    by (auto simp: cpu_step_def Let_def split: bind_splits
        dest!: quietlyD [OF writestring_quiet] quietlyD [OF commands_quiet(4)] intro: quiet_trans)
next
  case (Key c)
  assume "cpu_step pd regs H s = Some s'"
  then obtain r where r: "shell_key pd regs H c (sys_shell s, sys_tty s) = Some r"
    and s': "sys_tty s' = left_tty snd r"
    using Key by (auto simp: cpu_step_def Let_def split: bind_splits outcome.splits)
  show ?thesis using quietlyD [OF key_quiet r] s' by simp
qed (auto simp: cpu_step_def Let_def)

text \<open>An interrupt that is taken is the keyboard's, and does what \<open>keyboard_irq_handler\<close> does.\<close>

lemma accepted_keyboard:
  assumes "log_inv s0 scs s" and "session_init inp hs s0" and "accepts irq s"
  shows "irq = KBD_IRQ"
  using assms log_inv_masks [OF assms(1)] by (auto simp: accepts_def session_init_def KBD_IRQ_def)

lemma keyboard_interrupt:
  assumes "session_init inp hs s0" and "ucast (r_int_no r) = KBD_IRQ"
  shows "interrupt hs r s = s\<lparr>sys_kbd := keyboard_irq_handler (inb inp KBD_DATA_PORT (sys_log s)) (sys_kbd s),
      sys_tty := (sys_tty s)\<lparr>tty_ports := outb PIC1_COMMAND PIC_EOI (sys_log s)\<rparr>,
      control := (if control s = Sleeping then Getchar_cli else control s)\<rparr>"
  using assms
  by (simp add: interrupt_def irq_handler_def session_init_def keyboard_irq_def pic_send_eoi_def KBD_IRQ_def Let_def word_le_nat_alt)

lemma session_log:
  assumes "session pd regs H inp hs s0 scs s" and "session_init inp hs s0"
  shows "log_inv s0 scs s"
  using assms(1)
proof induction
  case start
  then show ?case by (simp add: log_inv_def)
next
  case (compute scs s s')
  then show ?case using log_inv_quiet cpu_step_quiet by blast
next
  case (interrupted scs s irq r)
  have irq: "irq = KBD_IRQ" using accepted_keyboard [OF interrupted.IH assms(2)] interrupted.hyps by blast
  then have "interrupt hs r s = s\<lparr>sys_kbd := keyboard_irq_handler (inb inp KBD_DATA_PORT (sys_log s)) (sys_kbd s),
      sys_tty := (sys_tty s)\<lparr>tty_ports := outb PIC1_COMMAND PIC_EOI (sys_log s)\<rparr>,
      control := (if control s = Sleeping then Getchar_cli else control s)\<rparr>"
    using keyboard_interrupt [OF assms(2)] interrupted.hyps by simp
  then show ?case
    using interrupted.IH irq
    by (simp add: log_inv_def sys_log_def PIC1_DATA_def PIC2_DATA_def PIC1_COMMAND_def PIC2_COMMAND_def replicate_append_same)
qed

text \<open>Rule induction over a session, with each interrupt known to be the keyboard's.\<close>

lemma session_cases [consumes 2, case_names start compute key]:
  assumes "session pd regs H inp hs s0 scs s" and "session_init inp hs s0"
    and "P [] s0"
    and "\<And>scs s s'. session pd regs H inp hs s0 scs s \<Longrightarrow> P scs s \<Longrightarrow> cpu_step pd regs H s = Some s' \<Longrightarrow> P scs s'"
    and "\<And>scs s sc. session pd regs H inp hs s0 scs s \<Longrightarrow> P scs s \<Longrightarrow> if_flag s \<Longrightarrow> \<not> sti_shadow s \<Longrightarrow>
      P (scs @ [sc]) (s\<lparr>sys_kbd := keyboard_irq_handler sc (sys_kbd s),
        sys_tty := (sys_tty s)\<lparr>tty_ports := outb PIC1_COMMAND PIC_EOI (sys_log s)\<rparr>,
        control := (if control s = Sleeping then Getchar_cli else control s)\<rparr>)"
  shows "P scs s"
  using assms(1)
proof induction
  case start
  then show ?case by (rule assms(3))
next
  case (compute scs s s')
  show ?case by (rule assms(4) [OF compute.hyps(1) compute.IH compute.hyps(2)])
next
  case (interrupted scs s irq r)
  have irq: "irq = KBD_IRQ"
    using accepted_keyboard [OF session_log [OF interrupted.hyps(1) assms(2)] assms(2)] interrupted.hyps by blast
  have "if_flag s" "\<not> sti_shadow s" using interrupted.hyps by (simp_all add: accepts_def)
  then show ?case
    using assms(5) [OF interrupted.hyps(1) interrupted.IH] irq keyboard_interrupt [OF assms(2), of r s] interrupted.hyps(2)
    by simp
qed

section \<open>Mutual exclusion and wake-ups\<close>

text \<open>The steps during which interrupts are off.\<close>

fun interrupts_off :: "control \<Rightarrow> bool" where
  "interrupts_off Getchar_test = True"
| "interrupts_off Getchar_read = True"
| "interrupts_off (Getchar_advance c) = True"
| "interrupts_off (Getchar_return c) = True"
| "interrupts_off Getchar_sti = True"
| "interrupts_off Stopped = True"
| "interrupts_off _ = False"

definition sys_inv :: "sys \<Rightarrow> bool" where
  "sys_inv s \<longleftrightarrow> kbd_inv (sys_kbd s) \<and> if_flag s = (\<not> interrupts_off (control s))
     \<and> (control s = Getchar_hlt \<longrightarrow> sti_shadow s) \<and> (control s = Sleeping \<longrightarrow> \<not> sti_shadow s)
     \<and> (control s = Getchar_read \<longrightarrow> kbd_items (sys_kbd s) \<noteq> [])
     \<and> (\<forall>c. control s = Getchar_advance c \<longrightarrow> kbd_items (sys_kbd s) \<noteq> [] \<and> c = hd (kbd_items (sys_kbd s)))
     \<and> (control s \<in> {Getchar_sti, Getchar_hlt, Sleeping} \<longrightarrow> kbd_items (sys_kbd s) = [])"

lemma cpu_step_inv:
  assumes "sys_inv s" and "cpu_step pd regs H s = Some s'"
  shows "sys_inv s'"
proof -
  have k: "kbd_inv (sys_kbd s)" using assms(1) by (simp add: sys_inv_def)
  show ?thesis
  proof (cases "control s")
    case (Key c)
    then show ?thesis using assms k
      by (auto simp: cpu_step_def sys_inv_def Let_def split: bind_splits outcome.splits)
  next
    case Getchar_test
    then show ?thesis using assms kq.has_law [OF k]
      by (cases "kbd_items (sys_kbd s) = []") (auto simp: cpu_step_def sys_inv_def Let_def keyboard_has_key_def)
  next
    case Getchar_read
    then show ?thesis using assms kq.take_law [OF k]
      by (auto simp: cpu_step_def sys_inv_def Let_def kbd_take_def)
  next
    case (Getchar_advance c)
    then show ?thesis using assms kq.take_law [OF k]
      by (auto simp: cpu_step_def sys_inv_def Let_def kbd_take_def)
  qed (use assms in \<open>auto simp: cpu_step_def sys_inv_def Let_def split: bind_splits\<close>)
qed

lemma session_sys_inv:
  assumes "session pd regs H inp hs s0 scs s" and "session_init inp hs s0"
  shows "sys_inv s"
  using assms
proof (induction rule: session_cases)
  case start
  then show ?case using assms(2) by (simp add: sys_inv_def session_init_def)
next
  case (compute scs s s')
  then show ?case by (blast intro: cpu_step_inv)
next
  case (key scs s sc)
  then show ?case
    using keyboard_irq_handler_items(1) [of "sys_kbd s" sc] by (cases "control s") (auto simp: sys_inv_def)
qed

section \<open>What the shell has seen\<close>

lemma subseq_set: "subseq xs ys \<Longrightarrow> set xs \<subseteq> set ys"
  by (induction rule: list_emb.induct) auto

lemma typed_snoc:
  "typed k (scs @ [sc]) = typed k scs
     @ (case kbd_char (fold keyboard_irq_handler scs k) sc of None \<Rightarrow> [] | Some c \<Rightarrow> [c])"
  by (induction scs arbitrary: k) (simp_all split: option.split)

text \<open>The character read from the queue but not yet given to the shell.\<close>

fun in_flight :: "control \<Rightarrow> u8 list" where
  "in_flight (Getchar_return c) = [c]"
| "in_flight (Key c) = [c]"
| "in_flight _ = []"

text \<open>
  After the scan codes \<open>scs\<close> the characters \<open>got\<close> have gone through the shell. With those in flight and in the queue
  they are what was typed, but for characters dropped when the queue was full.
\<close>

definition delivered :: "sys \<Rightarrow> u8 list \<Rightarrow> u8 list \<Rightarrow> sys \<Rightarrow> bool" where
  "delivered s0 scs got s \<longleftrightarrow>
     (let keys = kbd_items (sys_kbd s0) @ typed (sys_kbd s0) scs;
          seen = got @ in_flight (control s) @ kbd_items (sys_kbd s)
      in subseq seen keys \<and> (length keys \<le> 255 \<longrightarrow> seen = keys))
     \<and> same_mods (sys_kbd s) (fold keyboard_irq_handler scs (sys_kbd s0))"

lemma delivered_key:
  assumes "delivered s0 scs got s" and "kbd_inv (sys_kbd s)"
    and "sys_kbd s' = keyboard_irq_handler sc (sys_kbd s)" and "in_flight (control s') = in_flight (control s)"
  shows "delivered s0 (scs @ [sc]) got s'"
proof -
  let ?init = "sys_kbd s0" and ?k = "sys_kbd s"
  let ?keys = "kbd_items ?init @ typed ?init scs" and ?seen = "got @ in_flight (control s) @ kbd_items ?k"
  have mods: "same_mods ?k (fold keyboard_irq_handler scs ?init)"
    and sub: "subseq ?seen ?keys" and eq: "length ?keys \<le> 255 \<Longrightarrow> ?seen = ?keys"
    using assms(1) by (simp_all add: delivered_def Let_def)
  have char: "kbd_char (fold keyboard_irq_handler scs ?init) sc = kbd_char ?k sc"
    using char_mods [OF mods] by simp
  note items = keyboard_irq_handler_items(2) [OF assms(2), of sc]
  have mods': "same_mods (sys_kbd s') (fold keyboard_irq_handler (scs @ [sc]) ?init)"
    using handler_mods [OF mods] assms(3) by simp
  show ?thesis
  proof (cases "kbd_char ?k sc")
    case None
    then show ?thesis using mods' sub eq items char by (simp add: delivered_def Let_def typed_snoc assms(3,4))
  next
    case (Some c)
    have keys: "kbd_items ?init @ typed ?init (scs @ [sc]) = ?keys @ [c]" using Some char by (simp add: typed_snoc)
    show ?thesis
    proof (cases "length (kbd_items ?k) < 255")
      case True
      then have seen: "got @ in_flight (control s') @ kbd_items (sys_kbd s') = ?seen @ [c]"
        using items Some by (simp add: assms(3,4))
      have "subseq (?seen @ [c]) (?keys @ [c])" by (rule list_emb_append_mono [OF sub]) simp
      then show ?thesis using mods' eq unfolding delivered_def Let_def seen keys by auto
    next
      case False
      then have seen: "got @ in_flight (control s') @ kbd_items (sys_kbd s') = ?seen"
        using items Some by (simp add: assms(3,4))
      have "255 \<le> length ?keys" using False list_emb_length [OF sub] by simp
      then have "\<not> length (?keys @ [c]) \<le> 255" by simp
      moreover have "subseq ?seen (?keys @ [c])" using sub by (rule list_emb_prefix) 
      ultimately show ?thesis using mods' unfolding delivered_def Let_def seen keys by blast
    qed
  qed
qed

text \<open>The same session without interleaving: the greeting, then the characters one after the other.\<close>

definition greeting :: "shell \<times> tty \<Rightarrow> (shell \<times> tty) option" where
  "greeting = (\<lambda>(sh, t). do {
     t \<leftarrow> terminal_writestring (chars_nl ''My-OS shell. Type 'help' for commands.'') t;
     sh \<leftarrow> shell_reset_line sh;
     t \<leftarrow> shell_prompt t;
     Some (sh, t) })"

definition ran :: "u32 \<Rightarrow> registers \<Rightarrow> heap \<Rightarrow> sys \<Rightarrow> u8 list \<Rightarrow> (shell \<times> tty) outcome option" where
  "ran pd regs H s0 cs = greeting (sys_shell s0, sys_tty s0) \<bind> shell_keys pd regs H cs"

lemma shell_run_greeting: "shell_run pd regs H scs k u = greeting u \<bind> shell_loop pd regs H scs k"
  by (cases u) (auto simp: shell_run_def greeting_def split: bind_splits)

lemma shell_run_ran:
  assumes "kbd_inv k"
  shows "shell_run pd regs H scs k (sys_shell s0, sys_tty s0) = ran pd regs H s0 (kbd_items k @ typed k scs)"
  unfolding shell_run_greeting ran_def
  by (cases "greeting (sys_shell s0, sys_tty s0)") (simp_all add: loop_keys [OF assms])

lemma ran_append:
  "ran pd regs H s0 (cs @ ds) = ran pd regs H s0 cs
     \<bind> (\<lambda>r. case r of Halted t \<Rightarrow> Some (Halted t) | Returned s \<Rightarrow> shell_keys pd regs H ds s)"
  unfolding ran_def by (cases "greeting (sys_shell s0, sys_tty s0)") (simp_all add: keys_append)

definition shell_at :: "u32 \<Rightarrow> registers \<Rightarrow> heap \<Rightarrow> sys \<Rightarrow> u8 list \<Rightarrow> sys \<Rightarrow> bool" where
  "shell_at pd regs H s0 got s \<longleftrightarrow>
     (case control s of
        Greeting \<Rightarrow> got = [] \<and> same_shell (sys_shell s0, sys_tty s0) (sys_shell s, sys_tty s)
      | Stopped \<Rightarrow> (\<exists>t. ran pd regs H s0 got = Some (Halted t) \<and> same_screen t (sys_tty s))
      | _ \<Rightarrow> (\<exists>u. ran pd regs H s0 got = Some (Returned u) \<and> same_shell u (sys_shell s, sys_tty s)))"

lemma greeting_free: "same_shell x y \<Longrightarrow> agree same_shell (greeting x) (greeting y)"
  unfolding greeting_def by (cases x; cases y) (auto simp: same_shell_def intro!: portfree)

lemma shell_at_greeted:
  assumes "shell_at pd regs H s0 got s" and "control s = Greeting" and "cpu_step pd regs H s = Some s'"
  shows "shell_at pd regs H s0 [] s' \<and> got = [] \<and> control s' = Getchar_cli \<and> sys_kbd s' = sys_kbd s"
proof -
  have g: "got = []" and same: "same_shell (sys_shell s0, sys_tty s0) (sys_shell s, sys_tty s)"
    using assms(1,2) by (simp_all add: shell_at_def)
  obtain y where y: "greeting (sys_shell s, sys_tty s) = Some y" "s' = cpu_goto Getchar_cli (s\<lparr>sys_shell := fst y, sys_tty := snd y\<rparr>)"
    using assms(2,3) by (auto simp: cpu_step_def greeting_def split: bind_splits)
  obtain x where "greeting (sys_shell s0, sys_tty s0) = Some x" "same_shell x y"
    using greeting_free [OF same] y(1) by (cases "greeting (sys_shell s0, sys_tty s0)") simp_all
  then show ?thesis using g y(2) by (simp add: shell_at_def ran_def)
qed

lemma shell_at_key:
  assumes "shell_at pd regs H s0 got s" and "control s = Key c" and "cpu_step pd regs H s = Some s'"
  shows "shell_at pd regs H s0 (got @ [c]) s' \<and> in_flight (control s') = [] \<and> sys_kbd s' = sys_kbd s"
proof -
  obtain u where u: "ran pd regs H s0 got = Some (Returned u)" "same_shell u (sys_shell s, sys_tty s)"
    using assms(1,2) by (auto simp: shell_at_def)
  obtain q where q: "shell_key pd regs H c (sys_shell s, sys_tty s) = Some q"
    "s' = (case q of Returned (sh, t) \<Rightarrow> cpu_goto Getchar_cli (s\<lparr>sys_shell := sh, sys_tty := t\<rparr>)
      | Halted t \<Rightarrow> cpu_goto Stopped (s\<lparr>sys_tty := t, if_flag := False\<rparr>))"
    using assms(2,3) by (auto simp: cpu_step_def split: bind_splits outcome.splits)
  obtain r where r: "shell_key pd regs H c u = Some r" "same_outcome same_shell r q"
    using key_free [OF u(2), of pd regs H c] q(1) by (cases "shell_key pd regs H c u") simp_all
  have "ran pd regs H s0 (got @ [c]) = Some r"
    using u(1) r(1) by (cases r) (simp_all add: ran_append)
  then show ?thesis using r(2) q(2) by (cases r; cases q) (auto simp: shell_at_def split: prod.splits)
qed

lemma shell_at_same:
  assumes "shell_at pd regs H s0 got s" and "control s \<notin> {Greeting, Stopped}" and "control s' \<notin> {Greeting, Stopped}"
    and "sys_shell s' = sys_shell s" and "same_screen (sys_tty s) (sys_tty s')"
  shows "shell_at pd regs H s0 got s'"
proof -
  obtain u where "ran pd regs H s0 got = Some (Returned u)" "same_shell u (sys_shell s, sys_tty s)"
    using assms(1,2) by (cases "control s") (auto simp: shell_at_def)
  then show ?thesis using assms(3-5)
    by (cases "control s'") (auto simp: shell_at_def same_shell_def intro: same_screen_trans)
qed

lemma delivered_move:
  assumes "delivered s0 scs got s"
    and "got' @ in_flight (control s') @ kbd_items (sys_kbd s') = got @ in_flight (control s) @ kbd_items (sys_kbd s)"
    and "same_mods (sys_kbd s') (sys_kbd s)"
  shows "delivered s0 scs got' s'"
  using assms unfolding delivered_def Let_def assms(2) by (simp add: same_mods_def)

lemma same_mods_refl [simp]: "same_mods k k"
  by (simp add: same_mods_def)

text \<open>A step of the processor inside \<open>keyboard_getchar\<close>.\<close>

lemma getchar_step:
  assumes "sys_inv s" and "delivered s0 scs got s" and "shell_at pd regs H s0 got s" and "cpu_step pd regs H s = Some s'"
    and "control s \<noteq> Greeting" and "\<forall>c. control s \<noteq> Key c"
  shows "delivered s0 scs got s' \<and> shell_at pd regs H s0 got s'"
proof -
  have k: "kbd_inv (sys_kbd s)" using assms(1) by (simp add: sys_inv_def)
  have "control s \<noteq> Stopped" using assms(4) by (auto simp: cpu_step_def)
  moreover have "control s' \<notin> {Greeting, Stopped} \<and> sys_shell s' = sys_shell s \<and> sys_tty s' = sys_tty s"
    using assms(4-6) by (cases "control s") (auto simp: cpu_step_def Let_def split: if_splits)
  ultimately have "shell_at pd regs H s0 got s'" using shell_at_same [OF assms(3)] assms(5) by simp
  moreover have "in_flight (control s') @ kbd_items (sys_kbd s') = in_flight (control s) @ kbd_items (sys_kbd s)
      \<and> same_mods (sys_kbd s') (sys_kbd s)"
  proof (cases "control s")
    case (Getchar_advance c)
    then show ?thesis using assms(1,4) kq.take_law [OF k]
      by (auto simp: cpu_step_def sys_inv_def Let_def kbd_take_def same_mods_def)
  qed (use assms(4-6) in \<open>auto simp: cpu_step_def Let_def\<close>)
  ultimately show ?thesis using delivered_move [OF assms(2)] by simp
qed

lemma session_delivers:
  assumes "session pd regs H inp hs s0 scs s" and "session_init inp hs s0"
  shows "\<exists>got. delivered s0 scs got s \<and> shell_at pd regs H s0 got s"
  using assms
proof (induction rule: session_cases)
  case start
  then show ?case using assms(2)
    by (intro exI [of _ "[]"]) (simp add: session_init_def delivered_def shell_at_def same_shell_def)
next
  case (compute scs s s')
  obtain got where got: "delivered s0 scs got s" "shell_at pd regs H s0 got s" using compute.IH by blast
  show ?case
  proof (cases "control s")
    case Greeting
    then show ?thesis
      using shell_at_greeted [OF got(2) _ compute.hyps(2)] delivered_move [OF got(1), of "[]" s'] by auto
  next
    case (Key c)
    then show ?thesis
      using shell_at_key [OF got(2) Key compute.hyps(2)] delivered_move [OF got(1), of "got @ [c]" s'] by auto
  qed (use getchar_step [OF session_sys_inv [OF compute.hyps(1) assms(2)] got compute.hyps(2)] in auto)
next
  case (key scs s sc)
  obtain got where got: "delivered s0 scs got s" "shell_at pd regs H s0 got s" using key.IH by blast
  let ?s = "s\<lparr>sys_kbd := keyboard_irq_handler sc (sys_kbd s),
        sys_tty := (sys_tty s)\<lparr>tty_ports := outb PIC1_COMMAND PIC_EOI (sys_log s)\<rparr>,
        control := (if control s = Sleeping then Getchar_cli else control s)\<rparr>"
  have inv: "sys_inv s" using session_sys_inv [OF key.hyps(1) assms(2)] .
  have "delivered s0 (scs @ [sc]) got ?s"
    using inv by (intro delivered_key [OF got(1)]) (simp_all add: sys_inv_def)
  moreover have "shell_at pd regs H s0 got ?s"
    using got(2) inv key.hyps(2)
    by (cases "control s") (auto simp: shell_at_def same_shell_def sys_inv_def same_screen_iff)
  ultimately show ?case by blast
qed

section \<open>Coming to rest\<close>

text \<open>The processor on its own, with no further interrupt, for at most \<open>n\<close> steps.\<close>

fun cpu_run :: "u32 \<Rightarrow> registers \<Rightarrow> heap \<Rightarrow> nat \<Rightarrow> sys \<Rightarrow> sys" where
  "cpu_run pd regs H 0 s = s"
| "cpu_run pd regs H (Suc n) s = (case cpu_step pd regs H s of None \<Rightarrow> s | Some s' \<Rightarrow> cpu_run pd regs H n s')"

text \<open>The steps left until the processor rests, beside the six that each queued character takes.\<close>

fun steps_left :: "control \<Rightarrow> nat" where
  "steps_left Greeting = 5"
| "steps_left Getchar_cli = 4"
| "steps_left Getchar_test = 3"
| "steps_left Getchar_read = 2"
| "steps_left (Getchar_advance c) = 1"
| "steps_left (Getchar_return c) = 6"
| "steps_left (Key c) = 5"
| "steps_left Getchar_sti = 2"
| "steps_left Getchar_hlt = 1"
| "steps_left Sleeping = 0"
| "steps_left Stopped = 0"

definition rest_bound :: "sys \<Rightarrow> nat" where
  "rest_bound s = steps_left (control s) + 6 * length (kbd_items (sys_kbd s))"

lemma cpu_step_bound:
  assumes "sys_inv s" and "cpu_step pd regs H s = Some s'" and "control s' \<noteq> Stopped"
  shows "rest_bound s = Suc (rest_bound s')"
proof -
  have k: "kbd_inv (sys_kbd s)" using assms(1) by (simp add: sys_inv_def)
  show ?thesis
  proof (cases "control s")
    case Getchar_test
    then show ?thesis using assms kq.has_law [OF k]
      by (cases "kbd_items (sys_kbd s) = []") (auto simp: cpu_step_def rest_bound_def Let_def keyboard_has_key_def)
  next
    case (Getchar_advance c)
    then have "kbd_items (sys_kbd s) \<noteq> []" using assms(1) by (simp add: sys_inv_def)
    then show ?thesis using Getchar_advance assms(2) kq.take_law [OF k]
      by (cases "kbd_items (sys_kbd s)") (auto simp: cpu_step_def rest_bound_def Let_def kbd_take_def)
  next
    case (Key c)
    then show ?thesis using assms(2,3)
      by (auto simp: cpu_step_def rest_bound_def Let_def split: bind_splits outcome.splits)
  qed (use assms(2) in \<open>auto simp: cpu_step_def rest_bound_def Let_def split: bind_splits\<close>)
qed

lemma cpu_run_rests:
  "sys_inv s \<Longrightarrow> rest_bound s \<le> n \<Longrightarrow> cpu_step pd regs H (cpu_run pd regs H n s) = None"
proof (induction n arbitrary: s)
  case 0
  then have "steps_left (control s) = 0" by (simp add: rest_bound_def)
  then have "control s = Sleeping \<or> control s = Stopped" by (cases "control s") simp_all
  then show ?case by (auto simp: cpu_step_def)
next
  case (Suc n)
  show ?case
  proof (cases "cpu_step pd regs H s")
    case (Some s')
    have inv: "sys_inv s'" using cpu_step_inv [OF Suc.prems(1) Some] .
    show ?thesis
    proof (cases "control s' = Stopped")
      case True
      then have "cpu_step pd regs H s' = None" by (simp add: cpu_step_def)
      then have "cpu_run pd regs H n s' = s'" by (cases n) simp_all
      with \<open>cpu_step pd regs H s' = None\<close> show ?thesis using Some by simp
    next
      case False
      then show ?thesis using Suc.IH [OF inv] cpu_step_bound [OF Suc.prems(1) Some] Suc.prems(2) Some by simp
    qed
  qed simp
qed

lemma cpu_run_session:
  "session pd regs H inp hs s0 scs s \<Longrightarrow> session pd regs H inp hs s0 scs (cpu_run pd regs H n s)"
  by (induction n arbitrary: s) (auto split: option.split intro: session.compute)

lemma session_rests:
  assumes "session pd regs H inp hs s0 scs s" and "session_init inp hs s0"
  shows "cpu_step pd regs H (cpu_run pd regs H (6 * length (kbd_items (sys_kbd s)) + 6) s) = None"
    and "session pd regs H inp hs s0 scs (cpu_run pd regs H (6 * length (kbd_items (sys_kbd s)) + 6) s)"
proof -
  have "steps_left (control s) \<le> 6" by (cases "control s") simp_all
  then have "rest_bound s \<le> 6 * length (kbd_items (sys_kbd s)) + 6" by (simp add: rest_bound_def)
  then show "cpu_step pd regs H (cpu_run pd regs H (6 * length (kbd_items (sys_kbd s)) + 6) s) = None"
    by (rule cpu_run_rests [OF session_sys_inv [OF assms]])
qed (rule cpu_run_session [OF assms(1)])

lemma cpu_step_halts:
  assumes "cpu_step pd regs H s = None"
  obtains (waiting) "control s = Sleeping" | (stopped) "control s = Stopped"
    | (greeting) "control s = Greeting" "greeting (sys_shell s, sys_tty s) = None"
    | (key) c where "control s = Key c" "shell_key pd regs H c (sys_shell s, sys_tty s) = None"
proof (cases "control s")
  case (Key c)
  then show thesis using assms key by (auto simp: cpu_step_def split: bind_splits outcome.splits prod.splits)
next
  case Greeting
  then show thesis using assms greeting by (auto simp: cpu_step_def greeting_def split: bind_splits)
qed (use assms waiting stopped in \<open>auto simp: cpu_step_def Let_def\<close>)

section \<open>Interleaved and sequential sessions\<close>

text \<open>
  A resting state of the machine against the result of the sequential shell. A sequential run that halts does so
  on the first characters; the rest may still be in the queue.
\<close>

definition same_result :: "(shell \<times> tty) outcome option \<Rightarrow> sys \<Rightarrow> bool" where
  "same_result r s \<longleftrightarrow>
     (case r of
        Some (Returned u) \<Rightarrow> control s = Sleeping \<and> same_shell u (sys_shell s, sys_tty s)
      | Some (Halted t) \<Rightarrow> control s = Stopped \<and> same_screen t (sys_tty s)
      | None \<Rightarrow> control s \<noteq> Sleeping \<and> control s \<noteq> Stopped)"

lemma ran_prefix:
  assumes "ran pd regs H s0 got = Some (Returned u)"
  shows "ran pd regs H s0 (got @ c # cs) = shell_key pd regs H c u
    \<bind> (\<lambda>r. case r of Halted t \<Rightarrow> Some (Halted t) | Returned s \<Rightarrow> shell_keys pd regs H cs s)"
  by (simp add: ran_append assms)

lemma rest_result:
  assumes "session pd regs H inp hs s0 scs s" and "session_init inp hs s0" and "cpu_step pd regs H s = None"
    and "length (kbd_items (sys_kbd s0) @ typed (sys_kbd s0) scs) \<le> 255"
  shows "same_result (shell_run pd regs H scs (sys_kbd s0) (sys_shell s0, sys_tty s0)) s"
proof -
  have k: "kbd_inv (sys_kbd s0)" using assms(2) by (simp add: session_init_def)
  obtain got where got: "delivered s0 scs got s" "shell_at pd regs H s0 got s"
    using session_delivers [OF assms(1,2)] by blast
  have keys: "kbd_items (sys_kbd s0) @ typed (sys_kbd s0) scs = got @ in_flight (control s) @ kbd_items (sys_kbd s)"
    using got(1) assms(4) by (simp add: delivered_def Let_def)
  have inv: "sys_inv s" using session_sys_inv [OF assms(1,2)] .
  show ?thesis
    unfolding shell_run_ran [OF k] keys
    using assms(3)
  proof (cases rule: cpu_step_halts)
    case waiting
    then have "kbd_items (sys_kbd s) = []" using inv by (simp add: sys_inv_def)
    then show "same_result (ran pd regs H s0 (got @ in_flight (control s) @ kbd_items (sys_kbd s))) s"
      using waiting got(2) by (auto simp: shell_at_def same_result_def)
  next
    case stopped
    then show "same_result (ran pd regs H s0 (got @ in_flight (control s) @ kbd_items (sys_kbd s))) s"
      using got(2) by (auto simp: shell_at_def same_result_def ran_append)
  next
    case greeting
    then have "same_shell (sys_shell s0, sys_tty s0) (sys_shell s, sys_tty s)" using got(2) by (simp add: shell_at_def)
    then have "greeting (sys_shell s0, sys_tty s0) = None"
      using greeting_free [of "(sys_shell s0, sys_tty s0)" "(sys_shell s, sys_tty s)"] greeting(2)
      by (cases "greeting (sys_shell s0, sys_tty s0)") simp_all
    then show "same_result (ran pd regs H s0 (got @ in_flight (control s) @ kbd_items (sys_kbd s))) s"
      using greeting(1) by (simp add: same_result_def ran_def)
  next
    case (key c)
    obtain u where u: "ran pd regs H s0 got = Some (Returned u)" "same_shell u (sys_shell s, sys_tty s)"
      using got(2) key(1) by (auto simp: shell_at_def)
    have "shell_key pd regs H c u = None"
      using key_free [OF u(2), of pd regs H c] key(2) by (cases "shell_key pd regs H c u") simp_all
    then show "same_result (ran pd regs H s0 (got @ in_flight (control s) @ kbd_items (sys_kbd s))) s"
      using key(1) ran_prefix [OF u(1)] by (simp add: same_result_def)
  qed
qed

section \<open>A session without tabs does not fault\<close>

text \<open>
  The screen on which \<open>pfault\<close> stops the machine: the announcement below what was there, then, where the read
  at 0xDEAD0000 faults, the report in light red with what the page tables say of the address.
\<close>

definition pfault_screen :: "vm \<Rightarrow> registers \<Rightarrow> screen \<Rightarrow> screen" where
  "pfault_screen s regs scr =
     (let said = fold screen_putchar (chars_nl ''Triggering page fault at 0xDEAD0000...'') scr
      in if vread32 s 0xDEAD0000 = None
         then fold screen_putchar (fault_report 0xDEAD0000 regs (walk s False 0xDEAD0000)) (said\<lparr>attr := 0x0C\<rparr>)
         else said)"

lemma pfault_halts:
  assumes "paging_inv pd (kh_vm H)" and "at_line s (chars ''pfault'') scr" and "r_int_no regs = 14"
  obtains t' where "shell_key pd regs H 10 s = Some (Halted t')" "on_screen t'"
    "screen_of t' = pfault_screen (kh_vm H) regs (fold screen_putchar [10] scr)"
proof -
  obtain sh t where s: "s = (sh, t)" by (cases s)
  have l: "line_inv sh (chars ''pfault'')" and t: "on_screen t" "screen_of t = scr" using assms(2) s by (simp_all add: at_line_def)
  let ?m = "chars_nl ''Triggering page fault at 0xDEAD0000...''"
  obtain t1 where t1: "terminal_putchar 10 t = Some t1" "on_screen t1" "screen_of t1 = fold screen_putchar [10] (screen_of t)"
    using newline_shown [OF t(1)] by (rule shownE)
  have "shown (printf_out ?m [] t1) t1 ?m" using t1(2) by (intro plain_message) (simp_all add: message_defs)
  then obtain t2 where t2: "printf_out ?m [] t1 = Some t2" "on_screen t2" "screen_of t2 = fold screen_putchar ?m (screen_of t1)"
    by (rule shownE)
  obtain t3 where t3: "exception_handler pd 0xDEAD0000 regs (kh_vm H) t2 = Some t3" "on_screen t3"
    "screen_of t3 = fold screen_putchar (fault_report 0xDEAD0000 regs (walk (kh_vm H) False 0xDEAD0000)) (screen_of (alarmed t2))"
    using handler_shown [OF t2(2) assms(1), of "0xDEAD0000" regs] assms(3) unfolding exception_handler_def
    by (auto elim: shownE)
  define t' where "t' = (if vread32 (kh_vm H) 0xDEAD0000 = None then t3 else t2)"
  have "shell_cmd_pfault pd regs (kh_vm H) t1 = Some t'"
    using t2(1) t3(1) by (cases "vread32 (kh_vm H) 0xDEAD0000") (simp_all add: shell_cmd_pfault_def t'_def)
  moreover have "\<not> shell_streq (chars ''pfault'') (chars ''help'')" "\<not> shell_streq (chars ''pfault'') (chars ''mem'')"
    "shell_streq (chars ''pfault'') (chars ''pfault'')" "chars ''pfault'' \<noteq> []"
    by (simp_all add: chars_def)
  ultimately have key: "shell_key pd regs H 10 s = Some (Halted t')"
    using t1(1) terminate_line [OF l] line_string_eq [OF terminate_line(2) [OF l]]
    by (simp add: shell_key_def s shell_execute_def)
  have alarm: "screen_of (alarmed t2) = (screen_of t2)\<lparr>attr := 0x0C\<rparr>" by (simp add: alarmed_def screen_of_def)
  have "screen_of t' = pfault_screen (kh_vm H) regs (fold screen_putchar [10] scr)"
    unfolding t'_def pfault_screen_def Let_def using t2(3) t3(3) t1(3) t(2) alarm by simp
  then show thesis using that [OF key] t2(2) t3(2) by (simp add: t'_def)
qed

lemma heap_paging: "heap_inv pd H bs \<Longrightarrow> paging_inv pd (kh_vm H)"
  by (auto simp: heap_inv_def view_def headers_def dest: regionD(1))

definition shell_ok :: "shell \<times> tty \<Rightarrow> bool" where
  "shell_ok s \<longleftrightarrow> (\<exists>line scr. at_line s line scr \<and> 9 \<notin> set line)"

fun outcome_ok :: "(shell \<times> tty) outcome \<Rightarrow> bool" where
  "outcome_ok (Returned s) = shell_ok s"
| "outcome_ok (Halted t) = on_screen t"

lemma key_ok:
  assumes "heap_inv pd H bs" and "r_int_no regs = 14" and "shell_ok s" and "c \<noteq> 9"
  shows "\<exists>r. shell_key pd regs H c s = Some r \<and> outcome_ok r"
proof -
  obtain line scr where s: "at_line s line scr" "9 \<notin> set line" using assms(3) by (auto simp: shell_ok_def)
  consider (pfault) "c = 10" "line = chars ''pfault''" | (enter) "c = 10" "line \<noteq> chars ''pfault''" | (edit) "c \<noteq> 10"
    by blast
  then show ?thesis
  proof cases
    case pfault
    then have "at_line s (chars ''pfault'') scr" using s(1) by simp
    obtain t' where "shell_key pd regs H 10 s = Some (Halted t')" "on_screen t'"
      by (rule pfault_halts [OF heap_paging [OF assms(1)] \<open>at_line s (chars ''pfault'') scr\<close> assms(2)])
    then show ?thesis using pfault(1) by simp
  next
    case enter
    then obtain s' scr' where "shell_key pd regs H c s = Some (Returned s')" "at_line s' [] scr'"
      using enter_key [OF assms(1) s enter(2), of regs] by blast
    then show ?thesis by (auto simp: shell_ok_def intro!: exI [of _ "[]"])
  next
    case edit
    have fit: "tabs_fit (echo c line) scr" using assms(4) by (intro no_tabs_fit) (simp add: echo_def)
    have "9 \<notin> set (edit_line c line)" using s(2) assms(4) edit_line_set [of "[c]" line] by auto
    then obtain s' scr' where "shell_key pd regs H c s = Some (Returned s')" "at_line s' (edit_line c line) scr'"
      using type_key [OF s(1) edit fit, of pd regs H] by blast
    with \<open>9 \<notin> set (edit_line c line)\<close> show ?thesis by (auto simp: shell_ok_def intro!: exI [of _ "edit_line c line"])
  qed
qed

lemma keys_ok:
  assumes "heap_inv pd H bs" and "r_int_no regs = 14"
  shows "shell_ok s \<Longrightarrow> 9 \<notin> set cs \<Longrightarrow> \<exists>r. shell_keys pd regs H cs s = Some r \<and> outcome_ok r"
proof (induction cs arbitrary: s)
  case (Cons c cs)
  obtain r where r: "shell_key pd regs H c s = Some r" "outcome_ok r"
    using key_ok [OF assms Cons.prems(1), of c] Cons.prems(2) by auto
  then show ?case using Cons.IH Cons.prems(2) by (cases r) auto
qed simp

text \<open>After the greeting the shell is in a good state with an empty line.\<close>

lemma greeting_ok:
  assumes "on_screen t"
  shows "\<exists>u. greeting (sh, t) = Some u \<and> shell_ok u"
proof -
  let ?banner = "chars_nl ''My-OS shell. Type 'help' for commands.''"
  have "shown (terminal_writestring ?banner t) t ?banner"
    using assms by (rule writestring_shown) (simp_all add: message_defs)
  then obtain u where u: "terminal_writestring ?banner t = Some u" "on_screen u" by (rule shownE)
  obtain v where v: "shell_prompt u = Some v" "on_screen v" using prompt_shown [OF u(2)] by (rule shownE)
  obtain sh' where "shell_reset_line sh = Some sh'" "line_inv sh' []" using reset_line by blast
  then show ?thesis using u(1) v by (auto simp: greeting_def shell_ok_def at_line_def)
qed

lemma same_shell_ok: "same_shell x y \<Longrightarrow> shell_ok x \<Longrightarrow> shell_ok y"
  using same_screen_view by (fastforce simp: shell_ok_def at_line_def same_shell_def)

text \<open>Every state of a session is well formed: the indices of the ring buffer and of the line are inside their
  arrays and the cursor is on the screen.\<close>

definition well_formed :: "sys \<Rightarrow> bool" where
  "well_formed s \<longleftrightarrow> sys_inv s \<and> on_screen (sys_tty s)
     \<and> (control s \<noteq> Greeting \<and> control s \<noteq> Stopped \<longrightarrow> shell_ok (sys_shell s, sys_tty s))"

lemma session_formed:
  assumes "session pd regs H inp hs s0 scs s" and "session_init inp hs s0" and "heap_inv pd H bs" and "r_int_no regs = 14"
    and "on_screen (sys_tty s0)" and "9 \<notin> set (kbd_items (sys_kbd s0) @ typed (sys_kbd s0) scs)"
  shows "well_formed s \<and> (cpu_step pd regs H s = None \<longrightarrow> control s = Sleeping \<or> control s = Stopped)"
proof -
  obtain got where got: "delivered s0 scs got s" "shell_at pd regs H s0 got s"
    using session_delivers [OF assms(1,2)] by blast
  have sub: "subseq (got @ in_flight (control s) @ kbd_items (sys_kbd s)) (kbd_items (sys_kbd s0) @ typed (sys_kbd s0) scs)"
    using got(1) by (simp add: delivered_def Let_def)
  have n: "9 \<notin> set got" "9 \<notin> set (in_flight (control s))"
    using subseq_set [OF sub] assms(6) by auto
  obtain u where u: "greeting (sys_shell s0, sys_tty s0) = Some u" "shell_ok u" using greeting_ok [OF assms(5)] by blast
  obtain r where r: "ran pd regs H s0 got = Some r" "outcome_ok r"
    using keys_ok [OF assms(3,4) u(2) n(1)] u(1) by (auto simp: ran_def)
  have on: "on_screen t \<longleftrightarrow> on_screen u" if "same_screen t u" for t u using same_screen_view [OF that] by blast
  have wf: "on_screen (sys_tty s) \<and> (control s \<noteq> Greeting \<and> control s \<noteq> Stopped \<longrightarrow> shell_ok (sys_shell s, sys_tty s))"
  proof (cases "control s \<in> {Greeting, Stopped}")
    case True
    then show ?thesis using got(2) r assms(5) on by (auto simp: shell_at_def same_shell_def)
  next
    case False
    then obtain v where "ran pd regs H s0 got = Some (Returned v)" "same_shell v (sys_shell s, sys_tty s)"
      using got(2) by (cases "control s") (auto simp: shell_at_def)
    then have "shell_ok (sys_shell s, sys_tty s)" using r same_shell_ok by auto
    then show ?thesis by (auto simp: shell_ok_def at_line_def)
  qed
  have "control s = Sleeping \<or> control s = Stopped" if "cpu_step pd regs H s = None"
    using that
  proof (cases rule: cpu_step_halts)
    case greeting
    then show ?thesis using greeting_ok [of "sys_tty s" "sys_shell s"] wf by auto
  next
    case (key c)
    then show ?thesis using key_ok [OF assms(3,4), of "(sys_shell s, sys_tty s)" c] wf n(2) by auto
  qed simp_all
  then show ?thesis using wf session_sys_inv [OF assms(1,2)] by (simp add: well_formed_def)
qed

section \<open>Properties\<close>

text \<open>A state in which the greeting has still to be printed and the key H is pressed.\<close>

definition example_sys :: sys where
  "example_sys = \<lparr>control = Greeting, if_flag = True, sti_shadow = False, sys_kbd = example_kbd, sys_shell = example_shell,
     sys_tty = blank_tty\<lparr>tty_ports := pic_unmask example_input 1 (pic_init [])\<rparr>\<rparr>"

definition example_handlers :: "kbd irq_handlers" where
  "example_handlers = [1 \<mapsto> keyboard_irq example_input]"

lemma example_session_init: "session_init example_input example_handlers example_sys"
proof -
  have "masked_lines (pic_unmask example_input 1 (pic_init [])) = {irq. irq < 16} - {1}"
    using pic_run_step [OF example_input_reads, of "pic_init []" "Unmask 1"] pic_init_masks by simp
  then show ?thesis
    using example_kbd_inv by (simp add: session_init_def example_sys_def sys_log_def example_handlers_def)
qed

text \<open>One key press at the start of the session.\<close>

lemma first_key:
  assumes "session_init inp hs s0" and "\<not> sti_shadow s0"
  shows "session pd regs H inp hs s0 [inb inp KBD_DATA_PORT (sys_log s0)] (interrupt hs (example_regs 1) s0)"
proof -
  have "(ucast (r_int_no (example_regs 1)) :: u8) = KBD_IRQ" by (simp add: example_regs_def KBD_IRQ_def)
  moreover have "accepts KBD_IRQ s0"
    using assms by (simp add: accepts_def session_init_def KBD_IRQ_def word_less_nat_alt)
  ultimately show ?thesis using session.interrupted [OF session.start, of KBD_IRQ "example_regs 1"] by simp
qed

lemma example_session:
  "session pd regs H example_input example_handlers example_sys [0x23] (interrupt example_handlers (example_regs 1) example_sys)"
  using first_key [OF example_session_init, of pd regs H]
  by (simp add: example_sys_def inb_def example_input_def KBD_DATA_PORT_def)

lemma example_typed: "kbd_items (sys_kbd example_sys) @ typed (sys_kbd example_sys) [0x23] = [0x68]"
proof -
  have "typed example_kbd [0x23] = [0x68]" by code_simp
  then show ?thesis by (simp add: example_sys_def example_kbd_inv)
qed

lemma example_conditions:
  "r_int_no (example_regs 14) = 14" "on_screen (sys_tty example_sys)"
  "9 \<notin> set (kbd_items (sys_kbd example_sys) @ typed (sys_kbd example_sys) [0x23])"
  unfolding example_typed by (simp_all add: example_regs_def example_sys_def on_screen_def blank_tty_def example_tty_def)

text \<open>C4: no wake-up is lost and the buffer is read with interrupts off: whenever interrupts arrive, the processor
  halts only while the queue is empty and the next keyboard interrupt is accepted, and the ring buffer's
  indices stay inside the buffer.\<close>

theorem no_lost_wakeup:
  assumes "session pd regs H inp hs s0 scs s" and "session_init inp hs s0"
  shows "kbd_inv (sys_kbd s) \<and> (control s = Sleeping \<longrightarrow> kbd_items (sys_kbd s) = [] \<and> accepts KBD_IRQ s)
    \<and> (control s \<in> {Getchar_test, Getchar_read, Getchar_sti} \<union> range Getchar_advance \<longrightarrow> (\<forall>irq. \<not> accepts irq s))"
proof -
  have i: "sys_inv s" using session_sys_inv [OF assms] .
  have "KBD_IRQ < 16" "KBD_IRQ \<notin> masked_lines (sys_log s)"
    using log_inv_masks [OF session_log [OF assms]] assms(2) by (simp_all add: session_init_def KBD_IRQ_def)
  then show ?thesis using i by (auto simp: sys_inv_def accepts_def)
qed

theorem no_lost_wakeup_witness:
  "kbd_inv (sys_kbd (interrupt example_handlers (example_regs 1) example_sys))"
  using no_lost_wakeup [OF example_session [of 0 "example_regs 14" example_heap] example_session_init] by blast

text \<open>C5: every key reaches the shell: at every moment the characters that went through the shell, the one in
  flight and those in the queue are, in this order, a subsequence of the characters typed so far, and all of them
  if at most 255 were typed; the shell and the screen are what the first of them make of the start.\<close>

theorem keys_reach_shell:
  assumes "session pd regs H inp hs s0 scs s" and "session_init inp hs s0"
  shows "\<exists>got. delivered s0 scs got s \<and> shell_at pd regs H s0 got s"
  using assms by (rule session_delivers)

theorem keys_reach_shell_witness:
  "\<exists>got. got @ in_flight (control (interrupt example_handlers (example_regs 1) example_sys))
     @ kbd_items (sys_kbd (interrupt example_handlers (example_regs 1) example_sys)) = [0x68]"
  using keys_reach_shell [OF example_session [of 0 "example_regs 14" example_heap] example_session_init]
  unfolding delivered_def example_typed Let_def by auto

text \<open>C3: refinement of the sequential shell: however the interrupts fell, a session of at most 255 characters that
  has come to rest has the result of \<open>shell_run\<close> on the scan codes, up to the log of the ports.\<close>

theorem session_refines_shell_run:
  assumes "session pd regs H inp hs s0 scs s" and "session_init inp hs s0" and "cpu_step pd regs H s = None"
    and "length (kbd_items (sys_kbd s0) @ typed (sys_kbd s0) scs) \<le> 255"
  shows "same_result (shell_run pd regs H scs (sys_kbd s0) (sys_shell s0, sys_tty s0)) s"
  using assms by (rule rest_result)

theorem session_refines_shell_run_witness:
  "same_result (shell_run 0xC0110000 (example_regs 14) example_heap [0x23] example_kbd (example_shell, sys_tty example_sys))
     (cpu_run 0xC0110000 (example_regs 14) example_heap 11 (interrupt example_handlers (example_regs 1) example_sys))"
proof -
  let ?s = "interrupt example_handlers (example_regs 1) example_sys"
  note e = example_session [of "0xC0110000" "example_regs 14" example_heap]
  obtain got where "delivered example_sys [0x23] got ?s" "shell_at 0xC0110000 (example_regs 14) example_heap example_sys got ?s"
    using session_delivers [OF e example_session_init] by blast
  moreover have "control ?s = Greeting" by (simp add: interrupt_def example_sys_def split: prod.split)
  ultimately have "kbd_items (sys_kbd ?s) = [0x68]"
    unfolding delivered_def example_typed Let_def by (simp add: shell_at_def)
  then have "rest_bound ?s \<le> 11" using \<open>control ?s = Greeting\<close> by (simp add: rest_bound_def)
  then have "cpu_step 0xC0110000 (example_regs 14) example_heap (cpu_run 0xC0110000 (example_regs 14) example_heap 11 ?s) = None"
    by (rule cpu_run_rests [OF session_sys_inv [OF e example_session_init]])
  from session_refines_shell_run [OF cpu_run_session [OF e] example_session_init this]
  show ?thesis unfolding example_typed by (simp add: example_sys_def)
qed

text \<open>C39: the machine comes to rest: with a consistent heap, the cursor on the screen and no tab typed, from every
  state of a session the processor, with no further interrupt, has reached \<open>hlt\<close> or stopped after an exception
  within six steps for each queued character and six more; no command runs for ever, and none but \<open>pfault\<close> faults.\<close>

theorem session_comes_to_rest:
  assumes "session pd regs H inp hs s0 scs s" and "session_init inp hs s0" and "heap_inv pd H bs" and "r_int_no regs = 14"
    and "on_screen (sys_tty s0)" and "9 \<notin> set (kbd_items (sys_kbd s0) @ typed (sys_kbd s0) scs)"
    and "s' = cpu_run pd regs H (6 * length (kbd_items (sys_kbd s)) + 6) s"
  shows "session pd regs H inp hs s0 scs s' \<and> well_formed s'
    \<and> (control s' = Sleeping \<and> kbd_items (sys_kbd s') = [] \<or> control s' = Stopped)"
proof -
  have rest: "cpu_step pd regs H s' = None" and S: "session pd regs H inp hs s0 scs s'"
    unfolding assms(7) by (rule session_rests [OF assms(1,2)])+
  have "control s' = Sleeping \<Longrightarrow> kbd_items (sys_kbd s') = []"
    using session_sys_inv [OF S assms(2)] by (simp add: sys_inv_def)
  then show ?thesis using session_formed [OF S assms(2-6)] rest S by blast
qed

theorem session_comes_to_rest_witness:
  "\<exists>n. control (cpu_run 0xC0110000 (example_regs 14) example_heap n (interrupt example_handlers (example_regs 1) example_sys))
     \<in> {Sleeping, Stopped}"
  using session_comes_to_rest [OF example_session [of "0xC0110000" "example_regs 14" example_heap] example_session_init
      example_heap_inv example_conditions refl] by auto

text \<open>Every interrupt is acknowledged once and the masks stay: the bytes written to the controllers during a
  session are one end-of-interrupt command to the first controller for each scan code read.\<close>

theorem session_acknowledges:
  assumes "session pd regs H inp hs s0 scs s" and "session_init inp hs s0"
  shows "port_bytes PIC1_COMMAND (sys_log s) = port_bytes PIC1_COMMAND (sys_log s0) @ replicate (length scs) PIC_EOI
    \<and> port_bytes PIC2_COMMAND (sys_log s) = port_bytes PIC2_COMMAND (sys_log s0)
    \<and> masked_lines (sys_log s) = {irq. irq < 16} - {KBD_IRQ}"
proof -
  have "log_inv s0 scs s" using session_log [OF assms] .
  then show ?thesis using log_inv_masks assms(2) by (simp add: log_inv_def session_init_def KBD_IRQ_def)
qed

theorem session_acknowledges_witness:
  "port_bytes PIC1_COMMAND (sys_log (interrupt example_handlers (example_regs 1) example_sys))
     = port_bytes PIC1_COMMAND (sys_log example_sys) @ [PIC_EOI]"
  using session_acknowledges [OF example_session [of 0 "example_regs 14" example_heap] example_session_init] by simp

text \<open>C6: a session stays well formed and never faults: if no tab is typed, at every moment the indices of the ring
  buffer and the line are inside their arrays, the line ends with a zero, the cursor is on the screen, and the
  processor can go on unless it waits in \<open>hlt\<close> or has stopped after an exception.\<close>

theorem session_well_formed:
  assumes "session pd regs H inp hs s0 scs s" and "session_init inp hs s0" and "heap_inv pd H bs" and "r_int_no regs = 14"
    and "on_screen (sys_tty s0)" and "9 \<notin> set (kbd_items (sys_kbd s0) @ typed (sys_kbd s0) scs)"
  shows "well_formed s \<and> (cpu_step pd regs H s = None \<longrightarrow> control s = Sleeping \<or> control s = Stopped)"
  using assms by (rule session_formed)

theorem session_well_formed_witness: "well_formed (interrupt example_handlers (example_regs 1) example_sys)"
  using session_well_formed [OF example_session [of "0xC0110000" "example_regs 14" example_heap] example_session_init
      example_heap_inv example_conditions] by blast

text \<open>The kernel's own session: after a good start the hypotheses on the first state hold.\<close>

lemma kernel_session_init:
  assumes "good_start M m eax ebx K0 K p0" and "mask_reads_back (m_input M)" and "kernel_start M K = Some K'"
  shows "session_init (m_input M) (k_irqs K') (session_start K')" and "k_kbd K' = keyboard_reset (k_kbd K)"
    and "kbd_items (k_kbd K') = []"
proof -
  have "session_init (m_input M) (k_irqs K') (session_start K') \<and> k_kbd K' = keyboard_reset (k_kbd K) \<and> kbd_items (k_kbd K') = []"
  proof (cases rule: kernel_prompt [OF assms(1,2) refl, of "[]"])
    case (1 K'' s)
    then have "K'' = K'" using assms(3) by simp
    with 1 show ?thesis by (simp add: session_init_def session_start_def sys_log_def)
  qed
  then show "session_init (m_input M) (k_irqs K') (session_start K')" "k_kbd K' = keyboard_reset (k_kbd K)"
    "kbd_items (k_kbd K') = []" by blast+
qed

text \<open>What the sequential kernel makes of the scan codes of a line and Enter, the command \<open>pfault\<close> included.\<close>

lemma kernel_line:
  assumes "good_start M m eax ebx K0 K p0" and "mask_reads_back (m_input M)" and "pd = boot_page_directory (m_image M)"
    and "kernel_start M K = Some K'" and "typed (keyboard_reset (k_kbd K)) scs = cs @ [10]" and "10 \<notin> set cs" and "9 \<notin> set cs"
    and "r_int_no (m_regs M) = 14"
  obtains (runs) u where "fold edit_line cs [] \<noteq> chars ''pfault''" "kernel_main M scs K = Some (Returned u)"
      "at_line u [] (fold screen_putchar (stats_text (k_mb K) p0 @ tests_text @ shell_text @ echoes cs [] @ [10]
        @ command_text (k_heap K') [(16384, True)] (fold edit_line cs []) @ chars ''myos> '') blank_screen)"
    | (halts) t where "fold edit_line cs [] = chars ''pfault''" "kernel_main M scs K = Some (Halted t)" "on_screen t"
      "screen_of t = pfault_screen (kh_vm (k_heap K')) (m_regs M) (fold screen_putchar
        (stats_text (k_mb K) p0 @ tests_text @ shell_text @ echoes cs [] @ [10]) blank_screen)"
proof (cases "fold edit_line cs [] = chars ''pfault''")
  case False
  then show thesis using kernel_command [OF assms(1-3,5-7) refl False] assms(4) runs by force
next
  case True
  show thesis
  proof (cases rule: kernel_prompt [OF assms(1-3), of scs])
    case (1 K'' s)
    let ?scr = "fold screen_putchar (stats_text (k_mb K) p0 @ tests_text @ shell_text) blank_screen"
    have K'': "K'' = K'" using 1(1) assms(4) by simp
    have t: "kbd_items (k_kbd K') @ typed (k_kbd K') scs = cs @ [10]" using 1(5,7) assms(5) K'' by simp
    have f: "tabs_fit (echoes cs []) ?scr" using echoes_set [of cs "[]"] assms(7) by (intro no_tabs_fit) auto
    obtain u where u: "shell_keys pd (m_regs M) (k_heap K') cs s = Some (Returned u)"
      "at_line u (chars ''pfault'') (fold screen_putchar (echoes cs []) ?scr)"
      using type_keys [OF 1(3) assms(6) f] True by metis
    obtain t' where t': "shell_key pd (m_regs M) (k_heap K') 10 u = Some (Halted t')" "on_screen t'"
      "screen_of t' = pfault_screen (kh_vm (k_heap K')) (m_regs M) (fold screen_putchar [10] (fold screen_putchar (echoes cs []) ?scr))"
      using pfault_halts [OF heap_paging [OF 1(4)] _ assms(8)] u(2) unfolding K'' by blast
    have k: "kbd_inv (k_kbd K')" using 1(6) K'' by simp
    have "kernel_main M scs K = Some (Halted t')"
      unfolding 1(2) K'' loop_keys [OF k] t keys_append using u(1) t'(1) by simp
    moreover have "screen_of t' = pfault_screen (kh_vm (k_heap K')) (m_regs M) (fold screen_putchar
        (stats_text (k_mb K) p0 @ tests_text @ shell_text @ echoes cs [] @ [10]) blank_screen)"
      unfolding t'(3) by (simp only: fold_append comp_apply append_assoc)
    ultimately show thesis using halts [OF True] t'(2) by blast
  qed
qed

text \<open>C2: the interrupt-driven kernel end to end: after a good start, in whatever state the session is when the scan
  codes of at most 254 characters without a tab and Enter have arrived, at whatever moments, the processor comes to
  wait in \<open>hlt\<close> with the whole session on the screen: the start, the echo, the command's output, the prompt. Only
  if the edited line is \<open>pfault\<close> does it stop for ever instead, after the announcement and, as the read faults there
  unless the page tables map the address, the page fault report.\<close>

theorem kernel_session:
  assumes "good_start M m eax ebx K0 K p0" and "mask_reads_back (m_input M)" and "pd = boot_page_directory (m_image M)"
    and "kernel_start M K = Some K'" and "r_int_no (m_regs M) = 14"
    and "session pd (m_regs M) (k_heap K') (m_input M) (k_irqs K') (session_start K') scs s"
    and "typed (keyboard_reset (k_kbd K)) scs = cs @ [10]" and "10 \<notin> set cs" and "9 \<notin> set cs" and "length cs \<le> 254"
    and "line = fold edit_line cs []"
    and "seen = stats_text (k_mb K) p0 @ tests_text @ shell_text @ echoes cs [] @ [10]"
    and "s' = cpu_run pd (m_regs M) (k_heap K') (6 * length (kbd_items (sys_kbd s)) + 6) s"
  shows "if line = chars ''pfault''
    then control s' = Stopped \<and> on_screen (sys_tty s')
      \<and> screen_of (sys_tty s') = pfault_screen (kh_vm (k_heap K')) (m_regs M) (fold screen_putchar seen blank_screen)
    else control s' = Sleeping \<and> at_line (sys_shell s', sys_tty s') []
      (fold screen_putchar (seen @ command_text (k_heap K') [(16384, True)] line @ chars ''myos> '') blank_screen)"
proof -
  note init = kernel_session_init [OF assms(1,2,4)]
  have kbd: "sys_kbd (session_start K') = k_kbd K'" "sys_shell (session_start K') = k_shell K'" "sys_tty (session_start K') = k_tty K'"
    by (simp_all add: session_start_def)
  have rest: "cpu_step pd (m_regs M) (k_heap K') s' = None"
    and S: "session pd (m_regs M) (k_heap K') (m_input M) (k_irqs K') (session_start K') scs s'"
    unfolding assms(13) by (rule session_rests [OF assms(6) init(1)])+
  have "length (kbd_items (sys_kbd (session_start K')) @ typed (sys_kbd (session_start K')) scs) \<le> 255"
    using assms(10) keyboard_fresh(2) unfolding kbd init(3) init(2) assms(7) by simp
  from rest_result [OF S init(1) rest this]
  have same: "same_result (kernel_main M scs K) s'"
    unfolding kbd using assms(4) by (simp add: kernel_main_def assms(3))
  show ?thesis
    using assms(1-4,7-9,5)
  proof (cases rule: kernel_line)
    case (runs u)
    then have "control s' = Sleeping" "same_shell u (sys_shell s', sys_tty s')" using same by (simp_all add: same_result_def)
    then show ?thesis
      using runs(1,3) same_screen_view [of "snd u" "sys_tty s'"] by (simp add: at_line_def same_shell_def assms(11,12))
  next
    case (halts t)
    then have "control s' = Stopped" "same_screen t (sys_tty s')" using same by (simp_all add: same_result_def)
    then show ?thesis using halts(1,3,4) same_screen_view [of t "sys_tty s'"] by (simp add: assms(11,12))
  qed
qed

text \<open>The keyboard always sends Enter; the first interrupt comes when the greeting is printed.\<close>

definition enter_machine :: machine where
  "enter_machine = example_machine\<lparr>m_input := (\<lambda>log port. if port = 0x60 then 0x1C else example_input log port)\<rparr>"

lemma enter_good_start:
  "\<exists>K. good_start enter_machine example_boot_memory MULTIBOOT_BOOTLOADER_MAGIC 0x1000 example_kernel K example_pmm
    \<and> mask_reads_back (m_input enter_machine) \<and> k_kbd K = example_kbd"
proof -
  obtain K where K: "good_start example_machine example_boot_memory MULTIBOOT_BOOTLOADER_MAGIC 0x1000 example_kernel K example_pmm"
    using example_good_start by blast
  then have "good_start enter_machine example_boot_memory MULTIBOOT_BOOTLOADER_MAGIC 0x1000 example_kernel K example_pmm"
    by (simp add: good_start_def boot_start_def enter_machine_def)
  moreover have "mask_reads_back (m_input enter_machine)"
    using example_input_reads by (simp add: mask_reads_back_def enter_machine_def pic_ports)
  moreover have "k_kbd K = example_kbd"
    using K by (auto simp: good_start_def boot_start_def example_kernel_def Let_def split: bind_splits)
  ultimately show ?thesis by blast
qed

text \<open>The kernel greets and is then ready for the first key.\<close>

lemma greeted_session:
  assumes "good_start M m eax ebx K0 K p0" and "mask_reads_back (m_input M)" and "pd = boot_page_directory (m_image M)"
    and "kernel_start M K = Some K'"
  obtains s where "session pd (m_regs M) (k_heap K') (m_input M) (k_irqs K') (session_start K') [] s" "accepts KBD_IRQ s"
proof -
  let ?S = "session pd (m_regs M) (k_heap K') (m_input M) (k_irqs K') (session_start K')"
  note init = kernel_session_init [OF assms(1,2,4)]
  obtain s where s: "shell_run pd (m_regs M) (k_heap K') [] (k_kbd K') (k_shell K', k_tty K') = Some (Returned s)"
  proof (cases rule: kernel_prompt [OF assms(1-3), of "[]"])
    case (1 K'' s)
    then have "shell_run pd (m_regs M) (k_heap K') [] (k_kbd K') (k_shell K', k_tty K') = shell_loop pd (m_regs M) (k_heap K') [] (k_kbd K') s"
      using assms(3,4) by (simp add: kernel_main_def)
    then show thesis using loop_keys [of "k_kbd K'" pd "m_regs M" "k_heap K'" "[]" s] 1 assms(4) that by simp
  qed
  obtain s1 where s1: "cpu_step pd (m_regs M) (k_heap K') (session_start K') = Some s1"
  proof (cases "cpu_step pd (m_regs M) (k_heap K') (session_start K')")
    case None
    have "length (kbd_items (sys_kbd (session_start K')) @ typed (sys_kbd (session_start K')) []) \<le> 255"
      using init(3) by (simp add: session_start_def)
    then show thesis using rest_result [OF session.start init(1) None] s by (simp add: same_result_def session_start_def)
  qed blast
  then have c: "control s1 = Getchar_cli" "\<not> sti_shadow s1"
    by (auto simp: cpu_step_def session_start_def split: bind_splits)
  have S1: "?S [] s1" using session.compute [OF session.start s1] .
  then have "if_flag s1" using session_sys_inv [OF S1 init(1)] c(1) by (simp add: sys_inv_def)
  moreover have "masked_lines (sys_log s1) = {irq. irq < 16} - {1}"
    using log_inv_masks [OF session_log [OF S1 init(1)]] init(1) by (simp add: session_init_def)
  ultimately have "accepts KBD_IRQ s1" using c(2) by (simp add: accepts_def KBD_IRQ_def word_less_nat_alt)
  with S1 show thesis by (rule that)
qed

lemma enter_session:
  assumes "good_start M m eax ebx K0 K p0" and "mask_reads_back (m_input M)" and "pd = boot_page_directory (m_image M)"
    and "kernel_start M K = Some K'" and "\<forall>log. m_input M log KBD_DATA_PORT = 0x1C"
  shows "\<exists>s. session pd (m_regs M) (k_heap K') (m_input M) (k_irqs K') (session_start K') [0x1C] s"
proof (cases rule: greeted_session [OF assms(1-4)])
  case (1 s)
  have "KBD_IRQ = ucast (r_int_no (example_regs 1))" by (simp add: example_regs_def KBD_IRQ_def)
  from session.interrupted [OF 1(1) this 1(2)]
  show ?thesis using assms(5) by (auto simp: inb_def)
qed

theorem kernel_session_witness:
  "\<exists>K K' s n. kernel_start enter_machine K = Some K'
    \<and> session 0xC0110000 (example_regs 14) (k_heap K') (m_input enter_machine) (k_irqs K') (session_start K') [0x1C] s
    \<and> control (cpu_run 0xC0110000 (example_regs 14) (k_heap K') n s) = Sleeping"
proof -
  obtain K where K: "good_start enter_machine example_boot_memory MULTIBOOT_BOOTLOADER_MAGIC 0x1000 example_kernel K example_pmm"
    "mask_reads_back (m_input enter_machine)" "k_kbd K = example_kbd" using enter_good_start by blast
  have m: "0xC0110000 = boot_page_directory (m_image enter_machine)" "m_regs enter_machine = example_regs 14"
    "\<forall>log. m_input enter_machine log KBD_DATA_PORT = 0x1C"
    by (simp_all add: enter_machine_def example_machine_def example_image_def KBD_DATA_PORT_def)
  obtain K' where K': "kernel_start enter_machine K = Some K'" using kernel_prompt [OF K(1,2) m(1), of "[]"] by blast
  obtain s where s: "session 0xC0110000 (m_regs enter_machine) (k_heap K') (m_input enter_machine) (k_irqs K') (session_start K') [0x1C] s"
    using enter_session [OF K(1,2) m(1) K' m(3)] by blast
  have "typed (keyboard_reset example_kbd) [0x1C] = [] @ [10]" by code_simp
  then have t: "typed (keyboard_reset (k_kbd K)) [0x1C] = [] @ [10]" unfolding K(3) .
  have n: "10 \<notin> set []" "9 \<notin> set []" "length ([] :: u8 list) \<le> 254" "[] = fold edit_line [] ([] :: u8 list)" by simp_all
  have r: "r_int_no (m_regs enter_machine) = 14" unfolding m(2) by (simp add: example_regs_def)
  have "([] :: u8 list) \<noteq> chars ''pfault''" by (simp add: chars_def)
  then show ?thesis using kernel_session [OF K(1,2) m(1) K' r s t n refl refl] K' s unfolding m(2) by auto
qed

end
