(* ===== verification/Cpu.thy ===== *)
theory Cpu
  imports Prelude
begin

text \<open>
  The part of the i386 that the assembly files of the kernel use: registers, segment selectors, byte memory,
  and the instructions of \<open>boot.S\<close>, \<open>crti.S\<close>, \<open>crtn.S\<close>, the interrupt stubs and the table loaders, with the
  entry into an interrupt gate from ring 0. Straight-line code is a list of instructions; a called C function
  is a parameter, a function on processor states, with the calling convention as a hypothesis. The status
  flags that arithmetic sets are left out: no code here reads them.
\<close>

section \<open>State\<close>

datatype reg = EAX | EBX | ECX | EDX | ESI | EDI | EBP | ESP

datatype seg = CS | DS | ES | FS | GS | SS

text \<open>
  \<open>push_clears\<close> tells whether pushing a segment register clears the upper half of the word on the stack or leaves it
  as it was; processors differ.
\<close>

record cpu =
  gpr :: "reg \<Rightarrow> u32"
  sel :: "seg \<Rightarrow> u16"
  eip :: u32
  eflags :: u32
  cr0 :: u32
  cr3 :: u32
  gdtr :: "u16 \<times> u32"
  cmem :: memory
  push_clears :: bool

definition set_gpr :: "reg \<Rightarrow> u32 \<Rightarrow> cpu \<Rightarrow> cpu" where
  "set_gpr r v s = s\<lparr>gpr := (gpr s)(r := v)\<rparr>"

definition set_sel :: "seg \<Rightarrow> u16 \<Rightarrow> cpu \<Rightarrow> cpu" where
  "set_sel r v s = s\<lparr>sel := (sel s)(r := v)\<rparr>"

definition load16 :: "memory \<Rightarrow> u32 \<Rightarrow> u16" where
  "load16 m a = ucast (m a) OR push_bit 8 (ucast (m (a + 1)))"

definition store16 :: "memory \<Rightarrow> u32 \<Rightarrow> u16 \<Rightarrow> memory" where
  "store16 m a v = m(a := ucast v, a + 1 := ucast (drop_bit 8 v))"

text \<open>\<open>Ind d r\<close> is the memory operand \<open>d(%r)\<close>; \<open>Ax\<close> is the lower half of \<open>EAX\<close>.\<close>

datatype operand = Imm u32 | Reg reg | Mem u32 | Ind u32 reg | Cr0 | Cr3

datatype operand16 = Imm16 u16 | Ax | Seg seg | Mem16 u32 | Ind16 u32 reg

fun address :: "operand \<Rightarrow> cpu \<Rightarrow> u32" where
  "address (Ind d r) s = gpr s r + d"
| "address (Mem a) s = a"
| "address _ s = 0"

fun get :: "operand \<Rightarrow> cpu \<Rightarrow> u32" where
  "get (Imm v) s = v"
| "get (Reg r) s = gpr s r"
| "get (Mem a) s = load32 (cmem s) a"
| "get (Ind d r) s = load32 (cmem s) (gpr s r + d)"
| "get Cr0 s = cr0 s"
| "get Cr3 s = cr3 s"

fun put :: "operand \<Rightarrow> u32 \<Rightarrow> cpu \<Rightarrow> cpu" where
  "put (Imm i) v s = s"
| "put (Reg r) v s = set_gpr r v s"
| "put (Mem a) v s = s\<lparr>cmem := store32 (cmem s) a v\<rparr>"
| "put (Ind d r) v s = s\<lparr>cmem := store32 (cmem s) (gpr s r + d) v\<rparr>"
| "put Cr0 v s = s\<lparr>cr0 := v\<rparr>"
| "put Cr3 v s = s\<lparr>cr3 := v\<rparr>"

fun get16 :: "operand16 \<Rightarrow> cpu \<Rightarrow> u16" where
  "get16 (Imm16 v) s = v"
| "get16 Ax s = ucast (gpr s EAX)"
| "get16 (Seg r) s = sel s r"
| "get16 (Mem16 a) s = load16 (cmem s) a"
| "get16 (Ind16 d r) s = load16 (cmem s) (gpr s r + d)"

fun put16 :: "operand16 \<Rightarrow> u16 \<Rightarrow> cpu \<Rightarrow> cpu" where
  "put16 (Imm16 i) v s = s"
| "put16 Ax v s = set_gpr EAX ((gpr s EAX AND 0xFFFF0000) OR ucast v) s"
| "put16 (Seg r) v s = set_sel r v s"
| "put16 (Mem16 a) v s = s\<lparr>cmem := store16 (cmem s) a v\<rparr>"
| "put16 (Ind16 d r) v s = s\<lparr>cmem := store16 (cmem s) (gpr s r + d) v\<rparr>"

section \<open>Instructions\<close>

definition push :: "u32 \<Rightarrow> cpu \<Rightarrow> cpu" where
  "push v s = s\<lparr>gpr := (gpr s)(ESP := gpr s ESP - 4), cmem := store32 (cmem s) (gpr s ESP - 4) v\<rparr>"

definition top_word :: "cpu \<Rightarrow> u32" where
  "top_word s = load32 (cmem s) (gpr s ESP)"

definition drop_word :: "cpu \<Rightarrow> cpu" where
  "drop_word s = set_gpr ESP (gpr s ESP + 4) s"

definition pop_reg :: "reg \<Rightarrow> cpu \<Rightarrow> cpu" where
  "pop_reg r s = set_gpr r (top_word s) (drop_word s)"

text \<open>The word a pushed selector leaves on the stack.\<close>

definition sel_word :: "bool \<Rightarrow> u32 \<Rightarrow> u16 \<Rightarrow> u32" where
  "sel_word z old v = (if z then 0 else old AND 0xFFFF0000) OR ucast v"

text \<open>
  \<open>Call f ret\<close> pushes the return address \<open>ret\<close> and runs the function \<open>f\<close>, which ends with its own \<open>ret\<close>; \<open>Ljmp\<close>
  and \<open>Lgdt\<close> load the code selector and the table register.
\<close>

datatype instr =
    Pushl operand | Pushl_seg seg | Popl reg | Popl_seg seg | Pusha | Popa
  | Movl operand operand | Movw operand16 operand16 | Addl operand operand | Orl operand operand
  | Call "cpu \<Rightarrow> cpu" u32 | Ret | Iret | Lgdt operand | Ljmp u16 u32

fun exec :: "instr \<Rightarrow> cpu \<Rightarrow> cpu" where
  "exec (Pushl src) s = push (get src s) s"
| "exec (Pushl_seg r) s =
     push (sel_word (push_clears s) (load32 (cmem s) (gpr s ESP - 4)) (sel s r)) s"
| "exec (Popl r) s = pop_reg r s"
| "exec (Popl_seg r) s = set_sel r (ucast (top_word s)) (drop_word s)"
| "exec Pusha s =
     (let esp = gpr s ESP in
      push (gpr s EDI) (push (gpr s ESI) (push (gpr s EBP) (push esp
        (push (gpr s EBX) (push (gpr s EDX) (push (gpr s ECX) (push (gpr s EAX) s))))))))"
| "exec Popa s =
     pop_reg EAX (pop_reg ECX (pop_reg EDX (pop_reg EBX (drop_word
       (pop_reg EBP (pop_reg ESI (pop_reg EDI s)))))))"
| "exec (Movl src dst) s = put dst (get src s) s"
| "exec (Movw src dst) s = put16 dst (get16 src s) s"
| "exec (Addl src dst) s = put dst (get dst s + get src s) s"
| "exec (Orl src dst) s = put dst (get dst s OR get src s) s"
| "exec (Call f ret) s = f (push ret s)"
| "exec Ret s = drop_word (s\<lparr>eip := top_word s\<rparr>)"
| "exec Iret s =
     (let s = drop_word (s\<lparr>eip := top_word s\<rparr>);
          s = drop_word (set_sel CS (ucast (top_word s)) s)
      in drop_word (s\<lparr>eflags := top_word s\<rparr>))"
| "exec (Lgdt src) s = s\<lparr>gdtr := (load16 (cmem s) (address src s), load32 (cmem s) (address src s + 2))\<rparr>"
| "exec (Ljmp c a) s = set_sel CS c (s\<lparr>eip := a\<rparr>)"

definition run :: "instr list \<Rightarrow> cpu \<Rightarrow> cpu" where
  "run is s = fold exec is s"

lemma run_simps [simp]: "run [] s = s" "run (i # is) s = run is (exec i s)" "run (is @ js) s = run js (run is s)"
  by (simp_all add: run_def)

text \<open>The instruction \<open>loop\<close> after a body: the body is repeated until \<open>ECX\<close>, counted down, is zero.\<close>

partial_function (option) run_loop :: "instr list \<Rightarrow> cpu \<Rightarrow> cpu option" where
  "run_loop body s =
     (let s = run body s; s = set_gpr ECX (gpr s ECX - 1) s
      in if gpr s ECX = 0 then Some s else run_loop body s)"

text \<open>
  The processor enters an interrupt gate with selector \<open>c\<close> and offset \<open>a\<close> without a change of privilege: it saves the flags,
  the code selector, the address and, for some exceptions, an error code, and clears TF, IF, NT, RF and VM.
\<close>

definition enter_gate :: "u16 \<Rightarrow> u32 \<Rightarrow> u32 option \<Rightarrow> cpu \<Rightarrow> cpu" where
  "enter_gate c a err s =
     (let s = push (eip s) (push (ucast (sel s CS)) (push (eflags s) s));
          s = (case err of Some e \<Rightarrow> push e s | None \<Rightarrow> s)
      in set_sel CS c (s\<lparr>eip := a, eflags := eflags s AND NOT 0x34300\<rparr>))"

text \<open>
  The calling convention, for a function with \<open>n\<close> words of arguments called in state \<open>s\<close> on a stack that ends at \<open>hi\<close>: it
  returns to its caller with the stack pointer behind the return address, has kept the registers that are its
  caller's, the selectors and the control registers, and has not written above its arguments on the stack.
\<close>

definition returns :: "u32 \<Rightarrow> u32 \<Rightarrow> (cpu \<Rightarrow> cpu) \<Rightarrow> cpu \<Rightarrow> bool" where
  "returns hi n f s \<longleftrightarrow>
     (let t = f s in
      gpr t ESP = gpr s ESP + 4 \<and> eip t = top_word s
      \<and> (\<forall>r \<in> {EBX, ESI, EDI, EBP}. gpr t r = gpr s r)
      \<and> sel t = sel s \<and> cr0 t = cr0 s \<and> cr3 t = cr3 s \<and> gdtr t = gdtr s \<and> push_clears t = push_clears s
      \<and> (\<forall>d. 4 + 4 * n \<le> d \<and> d < hi - gpr s ESP \<longrightarrow> cmem t (gpr s ESP + d) = cmem s (gpr s ESP + d)))"

section \<open>Words on the stack\<close>

named_theorems asm "symbolic execution of the assembly"

lemma plus_eq_iff: "(b::u32) = a + c \<longleftrightarrow> b - a = c"
  by (auto simp: algebra_simps)

lemma store_byte_apart [asm]:
  assumes "4 \<le> b - a"
  shows "store32 m a v b = m b"
proof (rule store32_other)
  fix j :: u32
  assume "unat j < 4"
  then have "j < 4" by (simp add: word_less_nat_alt)
  then show "b \<noteq> a + j" using assms unfolding plus_eq_iff by auto
qed

text \<open>A word from \<open>b\<close> on whose first byte is \<open>n\<close> or more past \<open>a\<close>, and that ends before \<open>a\<close> comes round again.\<close>

lemma bytes_apart:
  assumes "4 \<le> a - b" and "n \<le> b - a" and "0 < n" and "unat i < 4"
  shows "n \<le> b + i - (a::u32)"
proof -
  have "(unat (b - a) + unat (a - b)) mod 4294967296 = 0"
    using unat_plus_u32 [of "b - a" "a - b"] by simp
  then obtain q where q: "unat (b - a) + unat (a - b) = 4294967296 * q" by (auto simp: mod_eq_0_iff_dvd elim: dvdE)
  have "0 < unat (b - a)" using assms(2,3) unfolding word_le_nat_alt word_less_nat_alt by simp
  then have "0 < q" using q by (cases q) simp_all
  moreover have "q < 2" using q u32_less_bound [of "b - a"] u32_less_bound [of "a - b"] by linarith
  ultimately have "unat (b - a) + unat (a - b) = 4294967296" using q by simp
  then have "unat (b - a) \<le> 4294967292" using assms(1) by (simp add: word_le_nat_alt)
  then have "unat (b - a + i) = unat (b - a) + unat i" using assms(4) by (intro unat_plus_small) simp
  then have "n \<le> b - a + i" using assms(2) by (simp add: word_le_nat_alt)
  moreover have "b + i - a = b - a + i" by (simp add: algebra_simps)
  ultimately show ?thesis by (simp only:)
qed

lemma load_store_apart [asm]:
  assumes "4 \<le> a - b" and "4 \<le> b - a"
  shows "load32 (store32 m a v) b = load32 m b"
proof (rule load32_cong)
  fix i :: u32
  assume "unat i < 4"
  then have "4 \<le> b + i - a" using assms by (intro bytes_apart) simp_all
  then show "store32 m a v (b + i) = m (b + i)" by (rule store_byte_apart)
qed

lemma ucast_sel_word [asm]: "ucast (sel_word z old v) = v"
proof -
  have "(0xFFFF0000::u32) = NOT (mask 16)" by (simp add: mask_eq_exp_minus_1)
  show ?thesis unfolding sel_word_def \<open>0xFFFF0000 = NOT (mask 16)\<close> by (intro bit_word_eqI) (auto simp: bit_simps)
qed

lemma ucast_back [asm]: "ucast (ucast (v::u16) :: u32) = v"
  by (rule bit_word_eqI) (auto simp: bit_simps)

text \<open>The lower half of a register after a 16-bit move.\<close>

lemma low_half [asm]:
  "ucast ((x AND 0xFFFF0000) OR ucast v :: u32) = (v::u16)" "ucast ((x AND 0xFFFF0000) OR 0x10 :: u32) = (0x10::u16)"
  using ucast_sel_word [of False x v] ucast_sel_word [of False x "0x10"] by (simp_all add: sel_word_def)

lemmas [asm] = push_def top_word_def drop_word_def pop_reg_def set_gpr_def set_sel_def Let_def

section \<open>Examples\<close>

text \<open>An interrupted program, and a function that returns and leaves rubbish where it may.\<close>

definition example_cpu :: cpu where
  "example_cpu = \<lparr>gpr = (\<lambda>r. if r = ESP then 0xC0110F00 else if r = EAX then 0x12345678 else 7), sel = (\<lambda>r. if r = CS then 8 else 0x10),
     eip = 0xC0101234, eflags = 0x202, cr0 = 0x80010011, cr3 = 0x110000, gdtr = (39, 0xC0105000), cmem = (\<lambda>_. 0), push_clears = True\<rparr>"

definition example_function :: "cpu \<Rightarrow> cpu" where
  "example_function s = s\<lparr>gpr := (gpr s)(EAX := 0, ECX := 1, EDX := 2, ESP := gpr s ESP + 4), eip := top_word s, eflags := 0\<rparr>"

lemma example_function_returns: "returns hi n example_function s"
  by (simp add: returns_def example_function_def Let_def)

end
