(* ===== verification/Stubs.thy ===== *)
theory Stubs
  imports Cpu Interrupts
begin

text \<open>
  The assembly around the C handlers (\<open>interrupts/irq_stubs.S\<close>, \<open>isr_stubs.S\<close>), executed instruction by
  instruction from the processor's entry into the gate. The handler gets a pointer to a \<open>registers_t\<close>
  that holds the interrupted state, and \<open>iret\<close> resumes exactly that state, whatever the handler does within the
  calling convention.
\<close>

section \<open>The code\<close>

definition KERNEL_DATA_SEG :: u16 where "KERNEL_DATA_SEG = 0x10"

definition irq_stub :: "u32 \<Rightarrow> instr list" where
  "irq_stub num = [Pushl (Imm 0), Pushl (Imm num)]"

text \<open>The common stubs up to the call, and from it on.\<close>

definition irq_common_stub_enter :: "instr list" where
  "irq_common_stub_enter =
     [Pusha, Pushl_seg DS, Pushl_seg ES, Pushl_seg FS, Pushl_seg GS,
      Movw (Imm16 KERNEL_DATA_SEG) Ax, Movw Ax (Seg DS), Movw Ax (Seg ES), Movw Ax (Seg FS), Movw Ax (Seg GS),
      Pushl (Reg ESP)]"

definition irq_common_stub_leave :: "instr list" where
  "irq_common_stub_leave =
     [Addl (Imm 4) (Reg ESP), Popl_seg GS, Popl_seg FS, Popl_seg ES, Popl_seg DS, Popa,
      Addl (Imm 8) (Reg ESP), Iret]"

definition irq_common_stub :: "(cpu \<Rightarrow> cpu) \<Rightarrow> u32 \<Rightarrow> instr list" where
  "irq_common_stub handler ret = irq_common_stub_enter @ [Call handler ret] @ irq_common_stub_leave"

definition isr_no_err_stub :: "u32 \<Rightarrow> instr list" where
  "isr_no_err_stub num = [Pushl (Imm 0), Pushl (Imm num)]"

definition isr_err_stub :: "u32 \<Rightarrow> instr list" where
  "isr_err_stub num = [Pushl (Imm num)]"

text \<open>Which of the two macros each of the 32 stubs is made with.\<close>

definition isr_stub :: "u32 \<Rightarrow> instr list" where
  "isr_stub v = (if v \<in> {8, 10, 11, 12, 13, 14, 17, 30} then isr_err_stub v else isr_no_err_stub v)"

definition isr_common_stub :: "(cpu \<Rightarrow> cpu) \<Rightarrow> u32 \<Rightarrow> instr list" where
  "isr_common_stub handler ret =
     [Pusha, Pushl_seg DS, Pushl_seg ES, Pushl_seg FS, Pushl_seg GS,
      Movw (Imm16 KERNEL_DATA_SEG) Ax, Movw Ax (Seg DS), Movw Ax (Seg ES), Movw Ax (Seg FS), Movw Ax (Seg GS),
      Pushl (Reg ESP), Call handler ret,
      Addl (Imm 4) (Reg ESP), Popl_seg GS, Popl_seg FS, Popl_seg ES, Popl_seg DS, Popa,
      Addl (Imm 8) (Reg ESP), Iret]"

text \<open>The two tables of stubs, in the order of the files.\<close>

definition irq_stub_table :: "instr list list" where
  "irq_stub_table = [irq_stub 0, irq_stub 1, irq_stub 2, irq_stub 3, irq_stub 4, irq_stub 5, irq_stub 6, irq_stub 7, irq_stub 8, irq_stub 9, irq_stub 10, irq_stub 11, irq_stub 12, irq_stub 13, irq_stub 14, irq_stub 15]"

definition isr_stub_table :: "instr list list" where
  "isr_stub_table = [isr_stub 0, isr_stub 1, isr_stub 2, isr_stub 3, isr_stub 4, isr_stub 5, isr_stub 6, isr_stub 7,
     isr_stub 8, isr_stub 9, isr_stub 10, isr_stub 11, isr_stub 12, isr_stub 13, isr_stub 14, isr_stub 15,
     isr_stub 16, isr_stub 17, isr_stub 18, isr_stub 19, isr_stub 20, isr_stub 21, isr_stub 22, isr_stub 23,
     isr_stub 24, isr_stub 25, isr_stub 26, isr_stub 27, isr_stub 28, isr_stub 29, isr_stub 30, isr_stub 31]"

lemma stub_tables:
  "irq_stub_table = map (\<lambda>i. irq_stub (of_nat i)) [0..<16]" "isr_stub_table = map (\<lambda>i. isr_stub (of_nat i)) [0..<32]"
  by (simp_all add: irq_stub_table_def isr_stub_table_def upt_rec)

section \<open>The frame\<close>

text \<open>The structure \<open>registers_t\<close> at an address.\<close>

definition registers_at :: "memory \<Rightarrow> u32 \<Rightarrow> registers" where
  "registers_at m p = \<lparr>r_gs = load32 m p, r_fs = load32 m (p + 4), r_es = load32 m (p + 8), r_ds = load32 m (p + 12),
     r_edi = load32 m (p + 16), r_esi = load32 m (p + 20), r_ebp = load32 m (p + 24), r_esp = load32 m (p + 28),
     r_ebx = load32 m (p + 32), r_edx = load32 m (p + 36), r_ecx = load32 m (p + 40), r_eax = load32 m (p + 44),
     r_int_no = load32 m (p + 48), r_err_code = load32 m (p + 52), r_eip = load32 m (p + 56), r_cs = load32 m (p + 60),
     r_eflags = load32 m (p + 64), r_useresp = load32 m (p + 68), r_ss = load32 m (p + 72)\<rparr>"

text \<open>
  The structure describes the interrupted state \<open>s\<close>. Of a selector only the lower half is defined. The last two
  fields are the two words on top of the interrupted stack: an interrupt in ring 0 saves no stack pointer.
\<close>

definition describes :: "registers \<Rightarrow> cpu \<Rightarrow> u32 \<Rightarrow> u32 \<Rightarrow> bool" where
  "describes r s num err \<longleftrightarrow>
     r_int_no r = num \<and> r_err_code r = err \<and> r_eip r = eip s \<and> r_cs r = ucast (sel s CS) \<and> r_eflags r = eflags s
     \<and> r_eax r = gpr s EAX \<and> r_ecx r = gpr s ECX \<and> r_edx r = gpr s EDX \<and> r_ebx r = gpr s EBX
     \<and> r_ebp r = gpr s EBP \<and> r_esi r = gpr s ESI \<and> r_edi r = gpr s EDI \<and> r_esp r = gpr s ESP - 20
     \<and> ucast (r_ds r) = sel s DS \<and> ucast (r_es r) = sel s ES \<and> ucast (r_fs r) = sel s FS \<and> ucast (r_gs r) = sel s GS
     \<and> r_useresp r = load32 (cmem s) (gpr s ESP) \<and> r_ss r = load32 (cmem s) (gpr s ESP + 4)"

lemmas [asm] = enter_gate_def irq_stub_def irq_common_stub_enter_def irq_common_stub_leave_def isr_no_err_stub_def
  isr_err_stub_def KERNEL_DATA_SEG_def

lemma push_sel:
  obtains w where "ucast w = sel s r" and "exec (Pushl_seg r) s = push w s"
  using ucast_sel_word by (metis exec.simps(2))

text \<open>What the common part pushes.\<close>

lemma common_enter:
  obtains wd we wf wg where "ucast wd = sel s DS" "ucast we = sel s ES" "ucast wf = sel s FS" "ucast wg = sel s GS"
    and "run irq_common_stub_enter s = (let e = gpr s ESP in s\<lparr>
      gpr := (gpr s)(ESP := e - 52, EAX := (gpr s EAX AND 0xFFFF0000) OR 0x10),
      sel := (sel s)(DS := 0x10, ES := 0x10, FS := 0x10, GS := 0x10),
      cmem := store32 (store32 (store32 (store32 (store32 (store32 (store32 (store32 (store32 (store32 (store32 (store32 (store32
        (cmem s) (e - 4) (gpr s EAX)) (e - 8) (gpr s ECX)) (e - 12) (gpr s EDX)) (e - 16) (gpr s EBX)) (e - 20) e)
        (e - 24) (gpr s EBP)) (e - 28) (gpr s ESI)) (e - 32) (gpr s EDI)) (e - 36) wd) (e - 40) we) (e - 44) wf) (e - 48) wg)
        (e - 52) (e - 48)\<rparr>)"
proof -
  let ?s = "exec Pusha s"
  have keep: "sel ?s = sel s" by (simp add: asm)
  obtain wd where wd: "ucast wd = sel ?s DS" "exec (Pushl_seg DS) ?s = push wd ?s" by (rule push_sel)
  obtain we where we: "ucast we = sel (push wd ?s) ES" "exec (Pushl_seg ES) (push wd ?s) = push we (push wd ?s)" by (rule push_sel)
  obtain wf where wf: "ucast wf = sel (push we (push wd ?s)) FS"
    "exec (Pushl_seg FS) (push we (push wd ?s)) = push wf (push we (push wd ?s))" by (rule push_sel)
  obtain wg where wg: "ucast wg = sel (push wf (push we (push wd ?s))) GS"
    "exec (Pushl_seg GS) (push wf (push we (push wd ?s))) = push wg (push wf (push we (push wd ?s)))" by (rule push_sel)
  have "run irq_common_stub_enter s = run [Movw (Imm16 0x10) Ax, Movw Ax (Seg DS), Movw Ax (Seg ES), Movw Ax (Seg FS),
      Movw Ax (Seg GS), Pushl (Reg ESP)] (push wg (push wf (push we (push wd ?s))))"
    unfolding irq_common_stub_enter_def KERNEL_DATA_SEG_def run_simps wd(2) we(2) wf(2) wg(2) ..
  also have "\<dots> = (let e = gpr s ESP in s\<lparr>
      gpr := (gpr s)(ESP := e - 52, EAX := (gpr s EAX AND 0xFFFF0000) OR 0x10),
      sel := (sel s)(DS := 0x10, ES := 0x10, FS := 0x10, GS := 0x10),
      cmem := store32 (store32 (store32 (store32 (store32 (store32 (store32 (store32 (store32 (store32 (store32 (store32 (store32
        (cmem s) (e - 4) (gpr s EAX)) (e - 8) (gpr s ECX)) (e - 12) (gpr s EDX)) (e - 16) (gpr s EBX)) (e - 20) e)
        (e - 24) (gpr s EBP)) (e - 28) (gpr s ESI)) (e - 32) (gpr s EDI)) (e - 36) wd) (e - 40) we) (e - 44) wf) (e - 48) wg)
        (e - 52) (e - 48)\<rparr>)"
    by (rule cpu.equality) (simp_all add: asm fun_eq_iff)
  finally show thesis using that wd(1) we(1) wf(1) wg(1) by (simp add: keep push_def)
qed

text \<open>The handler's state for a stub that has pushed the number and, if the processor has not, an error code.\<close>

lemma frame:
  assumes "err = None \<and> stub = [Pushl (Imm 0), Pushl (Imm num)] \<and> e = 0 \<or> err = Some e \<and> stub = [Pushl (Imm num)]"
    and "h = push ret (run (stub @ irq_common_stub_enter) (enter_gate 8 a err s))"
  shows "gpr h ESP = gpr s ESP - 76" and "top_word h = ret" and "load32 (cmem h) (gpr h ESP + 4) = gpr s ESP - 68"
    and "describes (registers_at (cmem h) (gpr s ESP - 68)) s num e"
    and "sel h = (sel s)(CS := 8, DS := 0x10, ES := 0x10, FS := 0x10, GS := 0x10)"
    and "d < 0xFFFF0000 \<Longrightarrow> cmem h (gpr s ESP + d) = cmem s (gpr s ESP + d)"
    and "cr0 h = cr0 s" and "cr3 h = cr3 s" and "gdtr h = gdtr s"
proof -
  define t where "t = push num (push e (push (eip s) (push (ucast (sel s CS)) (push (eflags s) s))))"
  have m: "gpr t = (gpr s)(ESP := gpr s ESP - 20)" "sel t = sel s"
    "cmem t = store32 (store32 (store32 (store32 (store32 (cmem s) (gpr s ESP - 4) (eflags s)) (gpr s ESP - 8) (ucast (sel s CS)))
      (gpr s ESP - 12) (eip s)) (gpr s ESP - 16) e) (gpr s ESP - 20) num"
    "cr0 t = cr0 s" "cr3 t = cr3 s" "gdtr t = gdtr s"
    by (simp_all add: t_def asm fun_eq_iff)
  define g where "g = t\<lparr>sel := (sel s)(CS := 8), eip := a, eflags := eflags s AND NOT 0x34300\<rparr>"
  have "run stub (enter_gate 8 a err s) = g"
    using assms(1) by (auto simp: t_def g_def asm)
  moreover obtain wd we wf wg where w: "ucast wd = sel g DS" "ucast we = sel g ES" "ucast wf = sel g FS" "ucast wg = sel g GS"
    and "run irq_common_stub_enter g = (let e = gpr g ESP in g\<lparr>
      gpr := (gpr g)(ESP := e - 52, EAX := (gpr g EAX AND 0xFFFF0000) OR 0x10),
      sel := (sel g)(DS := 0x10, ES := 0x10, FS := 0x10, GS := 0x10),
      cmem := store32 (store32 (store32 (store32 (store32 (store32 (store32 (store32 (store32 (store32 (store32 (store32 (store32
        (cmem g) (e - 4) (gpr g EAX)) (e - 8) (gpr g ECX)) (e - 12) (gpr g EDX)) (e - 16) (gpr g EBX)) (e - 20) e)
        (e - 24) (gpr g EBP)) (e - 28) (gpr g ESI)) (e - 32) (gpr g EDI)) (e - 36) wd) (e - 40) we) (e - 44) wf) (e - 48) wg)
        (e - 52) (e - 48)\<rparr>)"
    by (rule common_enter [of g])
  ultimately have h: "gpr h = (gpr t)(ESP := gpr s ESP - 76, EAX := (gpr s EAX AND 0xFFFF0000) OR 0x10)"
    "sel h = (sel s)(CS := 8, DS := 0x10, ES := 0x10, FS := 0x10, GS := 0x10)"
    "cmem h = store32 (store32 (store32 (store32 (store32 (store32 (store32 (store32 (store32 (store32 (store32 (store32 (store32 (store32
        (cmem t) (gpr s ESP - 24) (gpr s EAX)) (gpr s ESP - 28) (gpr s ECX)) (gpr s ESP - 32) (gpr s EDX)) (gpr s ESP - 36) (gpr s EBX))
        (gpr s ESP - 40) (gpr s ESP - 20)) (gpr s ESP - 44) (gpr s EBP)) (gpr s ESP - 48) (gpr s ESI)) (gpr s ESP - 52) (gpr s EDI))
        (gpr s ESP - 56) wd) (gpr s ESP - 60) we) (gpr s ESP - 64) wf) (gpr s ESP - 68) wg) (gpr s ESP - 72) (gpr s ESP - 68)) (gpr s ESP - 76) ret"
    "cr0 h = cr0 s" "cr3 h = cr3 s" "gdtr h = gdtr s"
    by (simp_all add: assms(2) Let_def push_def fun_eq_iff g_def m(1,4-6))
  show "gpr h ESP = gpr s ESP - 76" "top_word h = ret" "load32 (cmem h) (gpr h ESP + 4) = gpr s ESP - 68"
    "sel h = (sel s)(CS := 8, DS := 0x10, ES := 0x10, FS := 0x10, GS := 0x10)"
    by (simp_all add: h asm)
  show "cmem h (gpr s ESP + d) = cmem s (gpr s ESP + d)" if "d < 0xFFFF0000"
  proof -
    have "4 \<le> d + k" if "4 \<le> k" "k \<le> 76" for k
      using that \<open>d < 0xFFFF0000\<close> unat_plus_small [of d k] by (simp add: word_le_nat_alt word_less_nat_alt)
    then show ?thesis by (simp add: h m asm)
  qed
  show "cr0 h = cr0 s" "cr3 h = cr3 s" "gdtr h = gdtr s" using h(4-6) by simp_all
  show "describes (registers_at (cmem h) (gpr s ESP - 68)) s num e"
    using w by (simp add: describes_def registers_at_def h m g_def asm) (simp add: add.commute)
qed

text \<open>What the rest of the stub loads from the frame.\<close>

lemma leave:
  assumes "gpr t ESP = p - 4" and "r = registers_at (cmem t) p"
  shows "run irq_common_stub_leave t = t\<lparr>gpr := (gpr t)(EAX := r_eax r, ECX := r_ecx r, EDX := r_edx r, EBX := r_ebx r,
      ESP := p + 68, EBP := r_ebp r, ESI := r_esi r, EDI := r_edi r),
    sel := (sel t)(GS := ucast (r_gs r), FS := ucast (r_fs r), ES := ucast (r_es r), DS := ucast (r_ds r), CS := ucast (r_cs r)),
    eip := r_eip r, eflags := r_eflags r\<rparr>"
  by (rule cpu.equality) (simp_all add: assms registers_at_def asm fun_eq_iff add.commute)

text \<open>The frame after a handler that keeps to the calling convention.\<close>

lemma kept_frame:
  assumes "returns hi 1 f h" and "gpr h ESP = e - 76" and "hi - e \<le> 0xFFFF0000"
  shows "4 \<le> k \<Longrightarrow> k \<le> 68 \<Longrightarrow> load32 (cmem (f h)) (e - k) = load32 (cmem h) (e - k)"
    and "d < hi - e \<Longrightarrow> cmem (f h) (e + d) = cmem h (e + d)"
proof -
  have sum: "unat (hi - (e - 76)) = unat (hi - e) + 76"
  proof -
    have eq: "hi - (e - 76) = hi - e + 76" by simp
    show ?thesis unfolding eq using assms(3) unat_plus_small [of "hi - e" 76] by (simp add: word_le_nat_alt)
  qed
  have keep: "cmem (f h) (e - 76 + d) = cmem h (e - 76 + d)" if "8 \<le> unat d" "unat d < unat (hi - e) + 76" for d
    using assms(1,2) that sum unfolding returns_def Let_def by (simp add: word_le_nat_alt word_less_nat_alt)
  show "cmem (f h) (e + d) = cmem h (e + d)" if "d < hi - e"
  proof -
    have "unat (d + 76) = unat d + 76"
      using that assms(3) unat_plus_small [of d 76] by (simp add: word_le_nat_alt word_less_nat_alt)
    moreover have "e - 76 + (d + 76) = e + d" by simp
    ultimately show ?thesis using keep [of "d + 76"] that by (simp add: word_less_nat_alt)
  qed
  show "load32 (cmem (f h)) (e - k) = load32 (cmem h) (e - k)" if "4 \<le> k" "k \<le> 68"
  proof (rule load32_cong)
    fix i :: u32
    assume i: "unat i < 4"
    have "unat (76 - k) = 76 - unat k" using that(2) unat_minus_le [of k 76] by (simp add: word_le_nat_alt)
    then have "unat (76 - k + i) = 76 - unat k + unat i"
      using i unat_plus_small [of "76 - k" i] by simp
    then have "8 \<le> unat (76 - k + i)" "unat (76 - k + i) < unat (hi - e) + 76"
      using that i by (simp_all add: word_le_nat_alt)
    moreover have "e - 76 + (76 - k + i) = e - k + i" by simp
    ultimately show "cmem (f h) (e - k + i) = cmem h (e - k + i)" using keep by metis
  qed
qed

lemma isr_parts: "isr_common_stub f ret = irq_common_stub_enter @ [Call f ret] @ irq_common_stub_leave"
  by (simp add: isr_common_stub_def irq_common_stub_enter_def irq_common_stub_leave_def)

text \<open>
  The exceptions for which the processor saves an error code. Newer processors do so for 21 and 29 as well, which occur only
  with control-flow enforcement or encrypted guests, features that this kernel never switches on.
\<close>

definition error_code_vectors :: "u32 set" where
  "error_code_vectors = {8, 10, 11, 12, 13, 14, 17, 30}"

section \<open>Properties\<close>

text \<open>The handler of an interrupt line is called with a pointer to a \<open>registers_t\<close> that describes the interrupted state,
  with the line's number and error code 0, on the kernel's data segments.\<close>

theorem irq_stub_frame:
  assumes "h = push ret (run (irq_stub num @ irq_common_stub_enter) (enter_gate 8 a None s))"
  shows "run (irq_stub num @ irq_common_stub handler ret) (enter_gate 8 a None s) = run irq_common_stub_leave (handler h)
    \<and> top_word h = ret \<and> describes (registers_at (cmem h) (load32 (cmem h) (gpr h ESP + 4))) s num 0
    \<and> sel h CS = 8 \<and> (\<forall>r \<in> {DS, ES, FS, GS}. sel h r = KERNEL_DATA_SEG)"
proof -
  have stub: "None = None \<and> irq_stub num = [Pushl (Imm 0), Pushl (Imm num)] \<and> (0::u32) = 0 \<or> None = Some 0 \<and> irq_stub num = [Pushl (Imm num)]"
    by (simp add: irq_stub_def)
  note f = frame [OF stub assms]
  have "run (irq_stub num @ irq_common_stub handler ret) (enter_gate 8 a None s) = run irq_common_stub_leave (handler h)"
    by (simp add: irq_common_stub_def assms)
  then show ?thesis using f(2,4) unfolding f(3,5) by (simp add: KERNEL_DATA_SEG_def)
qed

theorem irq_stub_frame_witness:
  "\<exists>h. r_int_no (registers_at (cmem h) (load32 (cmem h) (gpr h ESP + 4))) = 1
    \<and> run (irq_stub 1 @ irq_common_stub example_function 0xC0102000) (enter_gate 8 0xC0102010 None example_cpu)
      = run irq_common_stub_leave (example_function h)"
  using irq_stub_frame [OF refl, of 1 "example_function" "0xC0102000" "0xC0102010" example_cpu] unfolding describes_def by blast

text \<open>An interrupt is invisible to the program it interrupts: if the handler returns within the calling convention, \<open>iret\<close>
  resumes at the interrupted instruction with every register, selector, flag and stack byte as it was.\<close>

theorem irq_stub_transparent:
  assumes "t = run (irq_stub num @ irq_common_stub handler ret) (enter_gate 8 a None s)"
    and "returns hi 1 handler (push ret (run (irq_stub num @ irq_common_stub_enter) (enter_gate 8 a None s)))"
    and "hi - gpr s ESP \<le> 0xFFFF0000"
  shows "gpr t = gpr s \<and> sel t = sel s \<and> eip t = eip s \<and> eflags t = eflags s \<and> cr0 t = cr0 s \<and> cr3 t = cr3 s \<and> gdtr t = gdtr s
    \<and> (\<forall>d < hi - gpr s ESP. cmem t (gpr s ESP + d) = cmem s (gpr s ESP + d))"
proof -
  define h where "h = push ret (run (irq_stub num @ irq_common_stub_enter) (enter_gate 8 a None s))"
  have stub: "None = None \<and> irq_stub num = [Pushl (Imm 0), Pushl (Imm num)] \<and> (0::u32) = 0 \<or> None = Some 0 \<and> irq_stub num = [Pushl (Imm num)]"
    by (simp add: irq_stub_def)
  note f = frame [OF stub h_def] and k = kept_frame [OF assms(2) [folded h_def] frame(1) [OF stub h_def] assms(3)]
  have t: "t = run irq_common_stub_leave (handler h)" by (simp add: assms(1) irq_common_stub_def h_def)
  have r: "returns hi 1 handler h" using assms(2) unfolding h_def .
  then have esp: "gpr (handler h) ESP = (gpr s ESP - 68) - 4" using f(1) by (simp add: returns_def Let_def)
  have "describes (registers_at (cmem (handler h)) (gpr s ESP - 68)\<lparr>r_useresp := load32 (cmem s) (gpr s ESP), r_ss := load32 (cmem s) (gpr s ESP + 4)\<rparr>) s num 0"
    using f(4) k(1) by (simp add: describes_def registers_at_def)
  note d = this [unfolded describes_def, simplified]
  note c = r [unfolded returns_def Let_def]
  let ?r = "registers_at (cmem (handler h)) (gpr s ESP - 68)"
  have "gpr t q = gpr s q" for q
    unfolding t leave [OF esp refl] using d by (cases q) simp_all
  moreover have "sel t q = sel s q" for q
    unfolding t leave [OF esp refl] using d c f(5) by (cases q) (simp_all add: ucast_back)
  moreover have "eip t = eip s" "eflags t = eflags s" "cr0 t = cr0 s" "cr3 t = cr3 s" "gdtr t = gdtr s"
    unfolding t leave [OF esp refl] using d c f(7-9) by simp_all
  moreover have "cmem t (gpr s ESP + q) = cmem s (gpr s ESP + q)" if "q < hi - gpr s ESP" for q
    unfolding t leave [OF esp refl] using that k(2) f(6) assms(3) by simp
  ultimately show ?thesis by (intro conjI ext allI impI)
qed

theorem irq_stub_transparent_witness:
  "gpr (run (irq_stub 1 @ irq_common_stub example_function 0xC0102000) (enter_gate 8 0xC0102010 None example_cpu)) = gpr example_cpu
   \<and> eip (run (irq_stub 1 @ irq_common_stub example_function 0xC0102000) (enter_gate 8 0xC0102010 None example_cpu)) = 0xC0101234"
  using irq_stub_transparent [OF refl example_function_returns, of "0xC0111000" example_cpu] by (simp add: example_cpu_def)

text \<open>For each of the 32 exceptions, with or without an error code from the processor, \<open>exception_handler\<close> is called with a
  pointer to a \<open>registers_t\<close> with the vector, the error code or 0, and the interrupted state; its fields
  \<open>useresp\<close> and \<open>ss\<close> are words of the interrupted stack, as no exception here comes from user mode.\<close>

theorem isr_stub_frame:
  assumes "v < 32" and "(err = None) = (v \<notin> error_code_vectors)"
  shows "\<exists>h. run (isr_stub v @ isr_common_stub handler ret) (enter_gate 8 a err s) = run irq_common_stub_leave (handler h)
    \<and> top_word h = ret \<and> sel h CS = 8 \<and> (\<forall>r \<in> {DS, ES, FS, GS}. sel h r = KERNEL_DATA_SEG)
    \<and> describes (registers_at (cmem h) (load32 (cmem h) (gpr h ESP + 4))) s v (case err of None \<Rightarrow> 0 | Some e \<Rightarrow> e)"
proof -
  define h where "h = push ret (run (isr_stub v @ irq_common_stub_enter) (enter_gate 8 a err s))"
  have "err = None \<and> isr_stub v = [Pushl (Imm 0), Pushl (Imm v)] \<and> (case err of None \<Rightarrow> 0 | Some e \<Rightarrow> e) = 0
      \<or> err = Some (case err of None \<Rightarrow> 0 | Some e \<Rightarrow> e) \<and> isr_stub v = [Pushl (Imm v)]"
    using assms(2) by (cases err) (auto simp: isr_stub_def error_code_vectors_def isr_no_err_stub_def isr_err_stub_def)
  note f = frame [OF this h_def]
  have "run (isr_stub v @ isr_common_stub handler ret) (enter_gate 8 a err s) = run irq_common_stub_leave (handler h)"
    by (simp add: isr_parts h_def)
  then show ?thesis using f(2,4) unfolding KERNEL_DATA_SEG_def by (intro exI [of _ h]) (simp add: f(3,5))
qed

theorem isr_stub_frame_witness:
  "\<exists>h. r_err_code (registers_at (cmem h) (load32 (cmem h) (gpr h ESP + 4))) = 2
    \<and> run (isr_stub 14 @ isr_common_stub example_function 0xC0101900) (enter_gate 8 0xC01010E0 (Some 2) example_cpu)
      = run irq_common_stub_leave (example_function h)"
proof -
  have "(14::u32) < 32" "(Some 2 = None) = ((14::u32) \<notin> error_code_vectors)" by (simp_all add: error_code_vectors_def)
  from isr_stub_frame [OF this] show ?thesis unfolding describes_def by fastforce
qed

end
