(* ===== verification/Startup.thy ===== *)
theory Startup
  imports Cpu Boot Gdt
begin

text \<open>
  The assembly that runs once (\<open>boot.S\<close>, \<open>crti.S\<close>, \<open>crtn.S\<close>) and the two loaders of the segment table
  (\<open>flush_gdt.S\<close>, \<open>set_gdt.S\<close>), instruction by instruction. The code is shown to have the effect that the models
  of \<open>Boot\<close>, \<open>Gdt\<close> and \<open>Kernel_Main\<close> give it: the page tables, the arguments of \<open>multiboot_early_init\<close>,
  the loaded table. Addresses the linker chooses are parameters.
\<close>

section \<open>Half words in memory\<close>

lemma store16_apart [asm]:
  assumes "2 \<le> b - a"
  shows "store16 m a v b = m b"
proof -
  have "b - a \<noteq> 0" "b - a \<noteq> 1" using assms by (auto simp: word_le_nat_alt)
  then have "b \<noteq> a" "b \<noteq> a + 1" by (auto simp: plus_eq_iff)
  then show ?thesis by (simp add: store16_def)
qed

lemma load16_store16 [asm]: "load16 (store16 m a v) a = v"
proof -
  have "ucast (ucast v :: u8) OR push_bit 8 (ucast (ucast (drop_bit 8 v) :: u8)) = v"
  proof (rule bit_word_eqI)
    fix n
    assume "n < LENGTH(16)"
    then consider "n < 8" | "8 \<le> n" "n < 16" by fastforce
    then show "bit (ucast (ucast v :: u8) OR push_bit 8 (ucast (ucast (drop_bit 8 v) :: u8)) :: u16) n = bit v n"
      by cases (auto simp: bit_simps)
  qed
  then show ?thesis by (simp add: load16_def store16_def del: push_bit_numeral)
qed

lemma load_store16_apart [asm]:
  assumes "4 \<le> a - b" and "2 \<le> b - a"
  shows "load32 (store16 m a v) b = load32 m b"
proof (rule load32_cong)
  fix i :: u32
  assume "unat i < 4"
  then have "2 \<le> b + i - a" using assms by (intro bytes_apart) simp_all
  then show "store16 m a v (b + i) = m (b + i)" by (rule store16_apart)
qed

lemma load16_store_apart [asm]:
  assumes "2 \<le> a - b" and "4 \<le> b - a"
  shows "load16 (store32 m a v) b = load16 m b"
proof -
  have "b + 1 - a \<noteq> 0 \<and> b + 1 - a \<noteq> 1 \<and> b + 1 - a \<noteq> 2 \<and> b + 1 - a \<noteq> 3"
  proof -
    have "b + 1 - a = b - a + 1" by simp
    moreover have "b - a + 1 \<noteq> 0"
    proof
      assume "b - a + 1 = 0"
      then have "a - b = 1" by (simp add: algebra_simps eq_neg_iff_add_eq_0)
      then show False using assms(1) by (simp add: word_le_nat_alt)
    qed
    moreover have "b - a \<noteq> 0" "b - a \<noteq> 1" "b - a \<noteq> 2" using assms(2) by (auto simp: word_le_nat_alt)
    ultimately show ?thesis by (auto simp: algebra_simps)
  qed
  then have "store32 m a v (b + 1) = m (b + 1)" by (auto simp: store32_def plus_eq_iff)
  moreover have "store32 m a v b = m b" using assms(2) by (rule store_byte_apart)
  ultimately show ?thesis by (simp add: load16_def)
qed

lemma load16_low [asm]: "load16 m a = ucast (load32 m a)"
  unfolding load16_def load32_def join32_def by (rule bit_word_eqI) (auto simp: bit_simps)

section \<open>The segment table\<close>

text \<open>\<open>setGdt(limit, base)\<close>, with its variable at \<open>v\<close>, and \<open>gdt_flush\<close>, whose far jump goes to \<open>flush\<close>.\<close>

definition setGdt :: "u32 \<Rightarrow> instr list" where
  "setGdt v = [Movw (Ind16 4 ESP) Ax, Movw Ax (Mem16 v), Movl (Ind 8 ESP) (Reg EAX), Movl (Reg EAX) (Mem (v + 2)),
     Lgdt (Mem v), Ret]"

definition gdt_flush_code :: "u32 \<Rightarrow> instr list" where
  "gdt_flush_code flush = [Movl (Ind 4 ESP) (Reg EAX), Lgdt (Ind 0 EAX), Movw (Imm16 0x10) Ax, Movw Ax (Seg DS),
     Movw Ax (Seg ES), Movw Ax (Seg FS), Movw Ax (Seg GS), Movw Ax (Seg SS), Ljmp 0x08 flush, Ret]"

section \<open>Constructors\<close>

definition crti_init :: "instr list" where "crti_init = [Pushl (Reg EBP), Movl (Reg ESP) (Reg EBP)]"
definition crti_fini :: "instr list" where "crti_fini = [Pushl (Reg EBP), Movl (Reg ESP) (Reg EBP)]"
definition crtn_init :: "instr list" where "crtn_init = [Popl EBP, Ret]"
definition crtn_fini :: "instr list" where "crtn_fini = [Popl EBP, Ret]"

text \<open>The linker puts the compiler's own code \<open>body\<close> between the two halves.\<close>

definition init_function :: "(cpu \<Rightarrow> cpu) \<Rightarrow> cpu \<Rightarrow> cpu" where
  "init_function body s = run crtn_init (body (run crti_init s))"

definition fini_function :: "(cpu \<Rightarrow> cpu) \<Rightarrow> cpu \<Rightarrow> cpu" where
  "fini_function body s = run crtn_fini (body (run crti_fini s))"

section \<open>\<open>boot.S\<close>\<close>

text \<open>The Multiboot header.\<close>

definition MBOOT_ALIGN :: u32 where "MBOOT_ALIGN = push_bit 0 1"
definition MBOOT_MEMINFO :: u32 where "MBOOT_MEMINFO = push_bit 1 1"
definition MBOOT_FLAGS :: u32 where "MBOOT_FLAGS = MBOOT_ALIGN OR MBOOT_MEMINFO"
definition MBOOT_MAGIC :: u32 where "MBOOT_MAGIC = 0x1BADB002"
definition MBOOT_CHECKSUM :: u32 where "MBOOT_CHECKSUM = - (MBOOT_MAGIC + MBOOT_FLAGS)"

definition multiboot_header :: "u32 list" where
  "multiboot_header = [MBOOT_MAGIC, MBOOT_FLAGS, MBOOT_CHECKSUM]"

text \<open>\<open>_start\<close> up to the loop, the body of the loop, and the rest up to the jump to the higher half.\<close>

definition boot_setup :: "u32 \<Rightarrow> instr list" where
  "boot_setup pt = [Movl (Imm (pt - 0xC0000000)) (Reg EDI), Movl (Imm 0) (Reg ESI), Movl (Imm 1023) (Reg ECX)]"

definition boot_body :: "instr list" where
  "boot_body = [Movl (Reg ESI) (Reg EDX), Orl (Imm 0x003) (Reg EDX), Movl (Reg EDX) (Ind 0 EDI),
     Addl (Imm 4096) (Reg ESI), Addl (Imm 4) (Reg EDI)]"

definition boot_enable :: "u32 \<Rightarrow> u32 \<Rightarrow> instr list" where
  "boot_enable pd pt =
     [Movl (Imm (0x000B8000 OR 0x003)) (Mem (pt - 0xC0000000 + 1023 * 4)),
      Movl (Imm (pt - 0xC0000000 + 0x003)) (Mem (pd - 0xC0000000 + 0)),
      Movl (Imm (pt - 0xC0000000 + 0x003)) (Mem (pd - 0xC0000000 + 768 * 4)),
      Movl (Imm (pd - 0xC0000000)) (Reg ECX), Movl (Reg ECX) Cr3,
      Movl Cr0 (Reg ECX), Orl (Imm 0x80010000) (Reg ECX), Movl (Reg ECX) Cr0]"

text \<open>The processor's memory is physical memory here.\<close>

definition boot_low :: "u32 \<Rightarrow> u32 \<Rightarrow> cpu \<Rightarrow> cpu option" where
  "boot_low pd pt s = do { s \<leftarrow> run_loop boot_body (run (boot_setup pt) s); Some (run (boot_enable pd pt) s) }"

text \<open>
  Label 4, in virtual memory: up to the call of \<open>multiboot_early_init\<close>, and after it. The C functions are parameters;
  \<open>magic\<close> and \<open>info\<close> are the addresses of \<open>multiboot_saved_magic\<close> and \<open>multiboot_saved_info\<close>, \<open>r1\<close> to \<open>r3\<close> the
  return addresses of the calls.
\<close>

definition boot_save :: "u32 \<Rightarrow> u32 \<Rightarrow> u32 \<Rightarrow> instr list" where
  "boot_save stk magic info =
     [Movl (Imm stk) (Reg ESP), Movl (Reg EAX) (Mem magic), Movl (Reg EBX) (Mem info)]"

definition boot_arguments :: "u32 \<Rightarrow> u32 \<Rightarrow> instr list" where
  "boot_arguments magic info = [Pushl (Mem info), Pushl (Mem magic)]"

definition boot_unmap :: "u32 \<Rightarrow> instr list" where
  "boot_unmap pd = [Addl (Imm 8) (Reg ESP), Movl (Imm 0) (Mem (pd + 0)), Movl Cr3 (Reg ECX), Movl (Reg ECX) Cr3]"

definition boot_high :: "u32 \<Rightarrow> u32 \<Rightarrow> u32 \<Rightarrow> u32 \<Rightarrow> (cpu \<Rightarrow> cpu) \<Rightarrow> u32 \<Rightarrow> (cpu \<Rightarrow> cpu) \<Rightarrow> u32 \<Rightarrow> (cpu \<Rightarrow> cpu) \<Rightarrow> u32 \<Rightarrow> instr list" where
  "boot_high stk magic info pd init r1 early_init r2 main r3 =
     boot_save stk magic info @ [Call init r1] @ boot_arguments magic info @ [Call early_init r2]
     @ boot_unmap pd @ [Call main r3]"

section \<open>The loop that fills the page table\<close>

definition filled :: "u32 \<Rightarrow> cpu \<Rightarrow> nat \<Rightarrow> cpu \<Rightarrow> bool" where
  "filled pt s n t \<longleftrightarrow> cmem t = boot_fill (cmem s) pt n \<and> gpr t EDI = pt + of_nat n * 4 \<and> gpr t ESI = of_nat n * 4096
     \<and> gpr t EAX = gpr s EAX \<and> gpr t EBX = gpr s EBX \<and> cr0 t = cr0 s"

lemma boot_body_step:
  assumes "filled pt s n t"
  shows "filled pt s (Suc n) (set_gpr ECX c (run boot_body t))" and "gpr (run boot_body t) ECX = gpr t ECX"
  using assms by (simp_all add: filled_def boot_body_def asm algebra_simps)

lemma boot_loop:
  "filled pt s n t \<Longrightarrow> gpr t ECX = of_nat (Suc k) \<Longrightarrow> Suc k < 4294967296 \<Longrightarrow>
    \<exists>u. run_loop boot_body t = Some u \<and> filled pt s (n + Suc k) u"
proof (induction k arbitrary: n t)
  case 0
  then have "gpr (set_gpr ECX (gpr (run boot_body t) ECX - 1) (run boot_body t)) ECX = 0"
    using boot_body_step(2) by (simp add: set_gpr_def)
  then show ?case using boot_body_step(1) [OF 0(1)] by (subst run_loop.simps) (simp add: Let_def)
next
  case (Suc k)
  let ?u = "set_gpr ECX (gpr (run boot_body t) ECX - 1) (run boot_body t)"
  have ecx: "gpr ?u ECX = of_nat (Suc k)" using boot_body_step(2) [OF Suc.prems(1)] Suc.prems(2) by (simp add: set_gpr_def)
  have "unat (of_nat (Suc k) :: u32) = Suc k" using Suc.prems(3) by (intro unat_of_nat_small) simp
  then have "gpr ?u ECX \<noteq> 0" using ecx by (metis nat.distinct(1) unat_0)
  then have "run_loop boot_body t = run_loop boot_body ?u" by (subst run_loop.simps) (simp add: Let_def)
  then show ?case using Suc.IH [OF boot_body_step(1) [OF Suc.prems(1)] ecx] Suc.prems(3) by simp
qed

lemma boot_low_runs:
  "\<exists>t. boot_low pd pt s = Some t \<and> cmem t = boot_paging pd pt (cmem s) \<and> cr3 t = virt_to_phys pd
     \<and> cr0 t = cr0 s OR 0x80010000 \<and> gpr t EAX = gpr s EAX \<and> gpr t EBX = gpr s EBX"
proof -
  let ?t = "run (boot_setup pt) s"
  have p: "pt - 0xC0000000 = virt_to_phys pt" "pd - 0xC0000000 = virt_to_phys pd"
    by (simp_all add: virt_to_phys_def KERNEL_VIRTUAL_BASE_def)
  have "filled (virt_to_phys pt) s 0 ?t" by (simp add: filled_def boot_setup_def asm p)
  moreover have "gpr ?t ECX = of_nat (Suc 1022)" by (simp add: boot_setup_def asm)
  ultimately obtain u where u: "run_loop boot_body ?t = Some u" "filled (virt_to_phys pt) s (0 + Suc 1022) u"
    using boot_loop [of "virt_to_phys pt" s 0 ?t 1022] by auto
  then show ?thesis
    by (simp add: boot_low_def boot_enable_def boot_paging_def filled_def p asm)
qed

section \<open>Calls\<close>

text \<open>Two words that do not overlap.\<close>

definition words_apart :: "u32 \<Rightarrow> u32 \<Rightarrow> bool" where
  "words_apart a b \<longleftrightarrow> 4 \<le> a - b \<and> 4 \<le> b - a"

lemma load_words_apart [asm]: "words_apart a b \<Longrightarrow> load32 (store32 m a v) b = load32 m b"
  by (simp add: words_apart_def load_store_apart)

lemma words_apart_sym: "words_apart a b \<longleftrightarrow> words_apart b a"
  by (auto simp: words_apart_def)

text \<open>The code between the two halves of \<open>_init\<close>: it leaves the stack pointer and the stack above it, and its caller's
  registers.\<close>

definition balanced :: "u32 \<Rightarrow> (cpu \<Rightarrow> cpu) \<Rightarrow> cpu \<Rightarrow> bool" where
  "balanced hi body s \<longleftrightarrow>
     (let t = body s in
      gpr t ESP = gpr s ESP \<and> (\<forall>r \<in> {EBX, ESI, EDI, EBP}. gpr t r = gpr s r)
      \<and> sel t = sel s \<and> cr0 t = cr0 s \<and> cr3 t = cr3 s \<and> gdtr t = gdtr s \<and> push_clears t = push_clears s
      \<and> (\<forall>d < hi - gpr s ESP. cmem t (gpr s ESP + d) = cmem s (gpr s ESP + d)))"

lemma init_returns:
  assumes "balanced hi body (run crti_init s)" and "8 \<le> hi - gpr s ESP" and "hi - gpr s ESP \<le> 0xFFFF0000"
  shows "returns hi 0 (init_function body) s"
proof -
  let ?e = "gpr s ESP" and ?s = "run crti_init s"
  let ?t = "body ?s"
  have s: "gpr ?s = (gpr s)(ESP := ?e - 4, EBP := ?e - 4)" "cmem ?s = store32 (cmem s) (?e - 4) (gpr s EBP)"
    "sel ?s = sel s" "cr0 ?s = cr0 s" "cr3 ?s = cr3 s" "gdtr ?s = gdtr s" "push_clears ?s = push_clears s"
    by (simp_all add: crti_init_def asm fun_eq_iff)
  have le: "8 \<le> unat (hi - ?e)" "unat (hi - ?e) \<le> 4294901760"
    using assms(2,3) by (simp_all add: word_le_nat_alt)
  have eq: "hi - (?e - 4) = hi - ?e + 4" by simp
  have sum: "unat (hi - (?e - 4)) = unat (hi - ?e) + 4"
    unfolding eq using le unat_plus_small [of "hi - ?e" 4] by simp
  have keep: "cmem ?t (?e - 4 + d) = cmem ?s (?e - 4 + d)" if "unat d < unat (hi - ?e) + 4" for d
    using assms(1) that sum by (simp add: balanced_def Let_def s(1) word_less_nat_alt)
  have ebp: "load32 (cmem ?t) (?e - 4) = gpr s EBP"
  proof -
    have "load32 (cmem ?t) (?e - 4) = load32 (cmem ?s) (?e - 4)" using keep le by (intro load32_cong) simp
    then show ?thesis by (simp add: s(2))
  qed
  have above: "cmem ?t (?e + d) = cmem s (?e + d)" if "d < hi - ?e" for d
  proof -
    have d: "unat (d + 4) = unat d + 4" using that le unat_plus_small [of d 4] by (simp add: word_less_nat_alt)
    then have "cmem ?t (?e - 4 + (d + 4)) = cmem ?s (?e - 4 + (d + 4))" using that by (intro keep) (simp add: word_less_nat_alt)
    moreover have "?e - 4 + (d + 4) = ?e + d" by simp
    moreover have "4 \<le> d + 4" using d by (simp add: word_le_nat_alt)
    then have "cmem ?s (?e + d) = cmem s (?e + d)" by (simp add: s(2) asm)
    ultimately show ?thesis by simp
  qed
  have "load32 (cmem ?t) ?e = load32 (cmem s) ?e"
  proof (rule load32_cong)
    fix i :: u32
    assume "unat i < 4"
    then show "cmem ?t (?e + i) = cmem s (?e + i)" using le by (intro above) (simp add: word_less_nat_alt)
  qed
  moreover note b = assms(1) [unfolded balanced_def Let_def s]
  ultimately have "run crtn_init ?t = ?t\<lparr>gpr := (gpr ?t)(ESP := ?e + 4, EBP := gpr s EBP), eip := top_word s\<rparr>"
    using ebp by (intro cpu.equality) (simp_all add: crtn_init_def asm fun_eq_iff)
  then show ?thesis
    using b above by (simp add: returns_def init_function_def Let_def)
qed

section \<open>Properties\<close>

text \<open>The table \<open>gdt_flush\<close> loads: executed on a processor whose memory holds \<open>gdt_ptr\<close>, the assembly leaves the table register and
  the six selectors that the model of \<open>gdt_flush\<close> has, and returns.\<close>

theorem gdt_flush_loads:
  assumes "p = load32 (cmem s) (gpr s ESP + 4)" and "load16 (cmem s) p = gdt_ptr_limit g" and "load32 (cmem s) (p + 2) = gdt_ptr_base g"
    and "t = run (gdt_flush_code flush) s"
  shows "gdtr t = (gdtr_limit (gdt_flush g), gdtr_base (gdt_flush g))
    \<and> sel t = (\<lambda>r. if r = CS then seg_cs (gdt_flush g) else seg_data (gdt_flush g))
    \<and> eip t = top_word s \<and> gpr t ESP = gpr s ESP + 4 \<and> cmem t = cmem s"
proof -
  have "sel t r = (if r = CS then 0x08 else 0x10)" for r
    unfolding assms(4) by (cases r) (simp_all add: gdt_flush_code_def asm)
  then show ?thesis
    using assms(2,3) unfolding assms(4) by (simp add: gdt_flush_code_def gdt_flush_def assms(1) fun_eq_iff asm del: load16_low)
qed

theorem gdt_flush_loads_witness:
  "gdtr (run (gdt_flush_code 0xC0104020) example_cpu) = (0, 0)"
  using gdt_flush_loads [OF refl _ _ refl, of example_cpu "\<lparr>gdt_entries = [], gdt_ptr_limit = 0, gdt_ptr_base = 0, gdtr_limit = 1, gdtr_base = 1,
      seg_cs = 0, seg_data = 0\<rparr>" "0xC0104020"]
  by (simp add: example_cpu_def load16_def load32_def join32_def gdt_flush_def)

text \<open>\<open>setGdt\<close> loads the limit and the base it is called with, if its variable is apart from its arguments.\<close>

lemma setGdt_loads:
  assumes "4 \<le> v - gpr s ESP" and "6 \<le> gpr s ESP - v" and "4 \<le> v - (gpr s ESP + 8)" and "2 \<le> gpr s ESP + 8 - v"
    and "t = run (setGdt v) s"
  shows "gdtr t = (ucast (load32 (cmem s) (gpr s ESP + 4)), load32 (cmem s) (gpr s ESP + 8))
    \<and> eip t = top_word s \<and> gpr t ESP = gpr s ESP + 4"
proof -
  let ?e = "gpr s ESP"
  have six: "6 \<le> unat (?e - v)" using assms(2) by (simp add: word_le_nat_alt)
  then have "unat (?e - v - 2) = unat (?e - v) - 2" using unat_minus_le [of 2 "?e - v"] by (simp add: word_le_nat_alt)
  then have "4 \<le> ?e - v - 2" using six by (simp add: word_le_nat_alt)
  moreover have eq: "?e - (v + 2) = ?e - v - 2" by (simp add: algebra_simps)
  ultimately have far: "4 \<le> ?e - (v + 2)" by (simp only:)
  have "4 \<le> ?e - v" "2 \<le> ?e - v" using six by (simp_all add: word_le_nat_alt)
  then have near: "4 \<le> v + 2 - ?e" "load32 (store16 m v x) ?e = load32 m ?e" for m x
    using bytes_apart [of ?e v 4 2] assms(1) by (simp_all add: load_store16_apart)
  have top: "load32 (store32 (store16 m v x) (v + 2) y) ?e = load32 m ?e" for m x y
    using load_store_apart [OF near(1) far] near(2) by simp
  have limit: "load16 (store32 m (v + 2) y) v = load16 m v" for m y
    by (rule load16_store_apart) simp_all
  have base: "load32 (store16 m v x) (?e + 8) = load32 m (?e + 8)" for m x
    using assms(3,4) by (rule load_store16_apart)
  show ?thesis
    unfolding assms(5) setGdt_def
    by (simp add: set_gpr_def drop_word_def top_word_def top limit base low_half load16_store16 load16_low [of "cmem s"])
qed

text \<open>C37: \<open>boot.S\<close> up to the jump to the higher half runs to its end, its loop included; it writes exactly the page tables of the
  model, loads the directory, switches paging and write protection on, and keeps the boot loader's registers.\<close>

theorem boot_low_builds_tables:
  "\<exists>t. boot_low pd pt s = Some t \<and> cmem t = boot_paging pd pt (cmem s) \<and> cr3 t = virt_to_phys pd
     \<and> cr0 t = cr0 s OR 0x80010000 \<and> gpr t EAX = gpr s EAX \<and> gpr t EBX = gpr s EBX"
  by (rule boot_low_runs)

text \<open>The header is one a Multiboot loader accepts: the three words add up to zero.\<close>

lemma multiboot_header_checksum: "sum_list multiboot_header = 0 \<and> hd multiboot_header = 0x1BADB002 \<and> multiboot_header ! 1 = 3"
  by (simp add: multiboot_header_def MBOOT_CHECKSUM_def MBOOT_MAGIC_def MBOOT_FLAGS_def MBOOT_ALIGN_def MBOOT_MEMINFO_def)

text \<open>C38: \<open>multiboot_early_init\<close> gets the boot loader's registers: if \<open>_init\<close> and it return within the calling convention, and
  \<open>_init\<close> leaves the two saved words alone, then at its call in \<open>boot.S\<close> the arguments are the values \<open>EAX\<close> and
  \<open>EBX\<close> had before \<open>_init\<close> ran, and \<open>kernel_main\<close> starts on an empty stack with the identity map's entry cleared.\<close>

theorem boot_high_arguments:
  assumes "c = push r1 (run (boot_save stk magic info) s)" and "returns stk 0 init c"
    and "\<forall>a \<in> {magic, info}. load32 (cmem (init c)) a = load32 (cmem c) a"
    and "words_apart magic info" and "\<forall>k \<in> {4, 8, 12}. words_apart (stk - k) magic \<and> words_apart (stk - k) info"
    and "h = push r2 (run (boot_arguments magic info) (init c))" and "returns stk 2 early_init h"
    and "words_apart (stk - 4) pd" and "m = push r3 (run (boot_unmap pd) (early_init h))"
  shows "run (boot_high stk magic info pd init r1 early_init r2 main r3) s = main m
    \<and> gpr h ESP = stk - 12 \<and> load32 (cmem h) (gpr h ESP + 4) = gpr s EAX \<and> load32 (cmem h) (gpr h ESP + 8) = gpr s EBX
    \<and> gpr m ESP = stk - 4 \<and> load32 (cmem m) pd = 0 \<and> cr3 m = cr3 s"
proof -
  have c: "gpr c ESP = stk - 4" "load32 (cmem c) magic = gpr s EAX" "load32 (cmem c) info = gpr s EBX" "cr3 c = cr3 s"
    using assms(4,5) words_apart_sym [of magic info] by (simp_all add: assms(1) boot_save_def asm)
  have i: "gpr (init c) ESP = stk" "load32 (cmem (init c)) magic = gpr s EAX" "load32 (cmem (init c)) info = gpr s EBX" "cr3 (init c) = cr3 s"
    using assms(2,3) c by (simp_all add: returns_def Let_def)
  have h: "gpr h ESP = stk - 12" "load32 (cmem h) (stk - 8) = gpr s EAX" "load32 (cmem h) (stk - 4) = gpr s EBX" "cr3 h = cr3 s"
    using assms(5) i by (simp_all add: assms(6) boot_arguments_def asm)
  have e: "gpr (early_init h) ESP = stk - 8" "cr3 (early_init h) = cr3 s"
    using assms(7) h by (simp_all add: returns_def Let_def)
  have "gpr m ESP = stk - 4" "load32 (cmem m) pd = 0" "cr3 m = cr3 s"
    using assms(8) e by (simp_all add: assms(9) boot_unmap_def asm)
  moreover have "run (boot_high stk magic info pd init r1 early_init r2 main r3) s = main m"
    by (simp add: boot_high_def assms(1,6,9))
  ultimately show ?thesis using h by simp
qed

text \<open>At the label where the kernel goes on in the high half, with rubbish in memory.\<close>

definition high_cpu :: cpu where
  "high_cpu = example_cpu\<lparr>cmem := (\<lambda>_. 0xA5)\<rparr>"

theorem boot_high_arguments_witness:
  "let c = push 1 (run (boot_save 0xC0118000 0xC0112000 0xC0112004) high_cpu);
       h = push 2 (run (boot_arguments 0xC0112000 0xC0112004) (example_function c));
       m = push 3 (run (boot_unmap 0xC0110000) (example_function h))
   in returns 0xC0118000 0 example_function c \<and> returns 0xC0118000 2 example_function h
     \<and> run (boot_high 0xC0118000 0xC0112000 0xC0112004 0xC0110000 example_function 1 example_function 2 example_function 3) high_cpu
       = example_function m
     \<and> gpr h ESP = 0xC0117FF4 \<and> load32 (cmem h) 0xC0117FF8 = 0x12345678 \<and> load32 (cmem h) 0xC0117FFC = 7
     \<and> gpr m ESP = 0xC0117FFC \<and> load32 (cmem m) 0xC0110000 = 0 \<and> cr3 m = 0x110000"
proof -
  let ?c = "push 1 (run (boot_save 0xC0118000 0xC0112000 0xC0112004) high_cpu)"
  let ?h = "push 2 (run (boot_arguments 0xC0112000 0xC0112004) (example_function ?c))"
  have a: "\<forall>a \<in> {0xC0112000, 0xC0112004}. load32 (cmem (example_function ?c)) a = load32 (cmem ?c) a"
    by (simp add: example_function_def)
  have w: "words_apart 0xC0112000 0xC0112004" "words_apart (0xC0118000 - 4) 0xC0110000"
    "\<forall>k \<in> {4, 8, 12}. words_apart (0xC0118000 - k) 0xC0112000 \<and> words_apart (0xC0118000 - k) 0xC0112004"
    by (simp_all add: words_apart_def)
  have g: "gpr high_cpu EAX = 0x12345678" "gpr high_cpu EBX = 7" "cr3 high_cpu = 0x110000" by (simp_all add: high_cpu_def example_cpu_def)
  note result = boot_high_arguments [OF refl example_function_returns a w(1,3) refl example_function_returns w(2) refl,
      where ?r2.0 = 2 and ?r3.0 = 3 and main = example_function]
  have "gpr ?h ESP = 0xC0117FF4" using result by simp
  with result show ?thesis unfolding Let_def g by (simp add: example_function_returns)
qed

text \<open>\<open>_init\<close>, assembled from \<open>crti.S\<close> and \<open>crtn.S\<close> around code that keeps the stack balanced, is a function in the calling
  convention; so the call in \<open>boot.S\<close> comes back with the stack as it was.\<close>

theorem init_function_returns:
  assumes "balanced hi body (run crti_init s)" and "8 \<le> hi - gpr s ESP" and "hi - gpr s ESP \<le> 0xFFFF0000"
  shows "returns hi 0 (init_function body) s \<and> init_function body s = fini_function body s"
  using init_returns [OF assms]
  by (simp add: init_function_def fini_function_def crti_init_def crti_fini_def crtn_init_def crtn_fini_def)

theorem init_function_returns_witness: "returns 0xC0111000 0 (init_function (\<lambda>s. s)) example_cpu"
proof -
  have "balanced 0xC0111000 (\<lambda>s. s) (run crti_init example_cpu)" by (simp add: balanced_def Let_def)
  then show ?thesis using init_function_returns [of "0xC0111000" "\<lambda>s. s" example_cpu] by (simp add: example_cpu_def)
qed

end
