(* ===== verification/Heap_Run.thy ===== *)
theory Heap_Run
  imports Kheap
begin

text \<open>
  Histories of the heap. The abstract state is a pool: the blocks that are in use with the sizes that were asked for,
  and the bytes that were stored in them. A history starts with \<open>kheap_init\<close> and goes on with requests,
  releases and stores in any order. The locale \<open>memory_pool\<close> is the contract a client of the
  heap relies on, interpreted on \<open>kmalloc\<close>, \<open>kfree\<close> and accesses through the page tables; its lemmas
  carry the contract from a single call to the pool.
\<close>

section \<open>The pool\<close>

record pool =
  pool_size :: "u32 \<Rightarrow> u32 option"
  pool_byte :: "u32 \<Rightarrow> u8 option"

definition empty_pool :: pool where
  "empty_pool = \<lparr>pool_size = Map.empty, pool_byte = Map.empty\<rparr>"

text \<open>The byte at \<open>x\<close> is one of the \<open>n\<close> bytes at \<open>p\<close>.\<close>

definition block_byte :: "u32 \<Rightarrow> u32 \<Rightarrow> u32 \<Rightarrow> bool" where
  "block_byte p n x \<longleftrightarrow> unat p \<le> unat x \<and> unat x < unat p + unat n"

definition pool_new :: "u32 \<Rightarrow> u32 \<Rightarrow> pool \<Rightarrow> pool" where
  "pool_new p n P = P\<lparr>pool_size := (pool_size P)(p \<mapsto> n)\<rparr>"

definition pool_drop :: "u32 \<Rightarrow> pool \<Rightarrow> pool" where
  "pool_drop p P = P\<lparr>pool_size := (pool_size P)(p := None), pool_byte := (\<lambda>x.
     case pool_size P p of
       Some n \<Rightarrow> if block_byte p n x then None else pool_byte P x
     | None \<Rightarrow> pool_byte P x)\<rparr>"

definition pool_put :: "u32 \<Rightarrow> u8 \<Rightarrow> pool \<Rightarrow> pool" where
  "pool_put x v P = P\<lparr>pool_byte := (pool_byte P)(x \<mapsto> v)\<rparr>"

section \<open>The contract\<close>

text \<open>
  \<open>holds s L\<close>: the blocks in use are the pairs of a pointer and a size in \<open>L\<close>. A request that is served gets a
  block of its own, at least as large; no call changes a byte of the other blocks; a store into a block
  changes the byte it names.
\<close>

locale memory_pool =
  fixes holds :: "'s \<Rightarrow> (u32 \<times> u32) set \<Rightarrow> bool"
    and fits :: "u32 \<Rightarrow> bool"
    and alloc :: "u32 \<Rightarrow> 's \<Rightarrow> ('s \<times> u32) option"
    and release :: "u32 \<Rightarrow> 's \<Rightarrow> 's option"
    and rd :: "'s \<Rightarrow> u32 \<Rightarrow> u8 option"
    and wr :: "u32 \<Rightarrow> u8 \<Rightarrow> 's \<Rightarrow> 's option"
  assumes placed: "holds s L \<Longrightarrow> (p, n) \<in> L \<Longrightarrow> p \<noteq> 0 \<and> unat p mod 8 = 0 \<and> unat p + unat n \<le> 4294967296"
    and apart: "holds s L \<Longrightarrow> (p, n) \<in> L \<Longrightarrow> (q, m) \<in> L \<Longrightarrow> (p, n) \<noteq> (q, m) \<Longrightarrow>
      p \<noteq> q \<and> (unat p + unat n \<le> unat q \<or> unat q + unat m \<le> unat p)"
    and alloc_ok: "holds s L \<Longrightarrow> fits n \<Longrightarrow> \<exists>s' p. alloc n s = Some (s', p)
      \<and> (if p = 0 then holds s' L else \<exists>m. unat n \<le> unat m \<and> holds s' (insert (p, m) L) \<and> (\<forall>k. (p, k) \<notin> L))
      \<and> (\<forall>q k x. (q, k) \<in> L \<and> block_byte q k x \<longrightarrow> rd s' x = rd s x)"
    and release_ok: "holds s L \<Longrightarrow> (p, n) \<in> L \<Longrightarrow> \<exists>s'. release p s = Some s' \<and> holds s' (L - {(p, n)})
      \<and> (\<forall>q k x. (q, k) \<in> L \<and> block_byte q k x \<longrightarrow> rd s' x = rd s x)"
    and write_ok: "holds s L \<Longrightarrow> (p, n) \<in> L \<Longrightarrow> block_byte p n x \<Longrightarrow> \<exists>s'. wr x v s = Some s' \<and> holds s' L
      \<and> (\<forall>q k y. (q, k) \<in> L \<and> block_byte q k y \<longrightarrow> rd s' y = (if y = x then Some v else rd s y))"
begin

text \<open>The state implements the pool.\<close>

definition tracks :: "'s \<Rightarrow> pool \<Rightarrow> bool" where
  "tracks s P \<longleftrightarrow> (\<exists>L. holds s L \<and> fst ` L = dom (pool_size P)
     \<and> (\<forall>p n m. pool_size P p = Some n \<and> (p, m) \<in> L \<longrightarrow> unat n \<le> unat m)
     \<and> (\<forall>x v. pool_byte P x = Some v \<longrightarrow> rd s x = Some v \<and> (\<exists>p n. pool_size P p = Some n \<and> block_byte p n x)))"

lemma tracksI:
  assumes "holds s L" and "fst ` L = dom (pool_size P)"
    and "\<And>p n m. pool_size P p = Some n \<Longrightarrow> (p, m) \<in> L \<Longrightarrow> unat n \<le> unat m"
    and "\<And>x v. pool_byte P x = Some v \<Longrightarrow> rd s x = Some v \<and> (\<exists>p n. pool_size P p = Some n \<and> block_byte p n x)"
  shows "tracks s P"
  unfolding tracks_def using assms by blast

lemma tracksE:
  assumes "tracks s P"
  obtains L where "holds s L" "fst ` L = dom (pool_size P)"
    "\<And>p n. pool_size P p = Some n \<Longrightarrow> \<exists>m. (p, m) \<in> L \<and> unat n \<le> unat m"
    "\<And>p n m. pool_size P p = Some n \<Longrightarrow> (p, m) \<in> L \<Longrightarrow> unat n \<le> unat m"
    "\<And>x v. pool_byte P x = Some v \<Longrightarrow> rd s x = Some v \<and>
       (\<exists>p n m. pool_size P p = Some n \<and> block_byte p n x \<and> (p, m) \<in> L \<and> block_byte p m x)"
proof -
  obtain L where L: "holds s L" "fst ` L = dom (pool_size P)"
    "\<forall>p n m. pool_size P p = Some n \<and> (p, m) \<in> L \<longrightarrow> unat n \<le> unat m"
    "\<forall>x v. pool_byte P x = Some v \<longrightarrow> rd s x = Some v \<and> (\<exists>p n. pool_size P p = Some n \<and> block_byte p n x)"
    using assms unfolding tracks_def by blast
  have own: "\<exists>m. (p, m) \<in> L \<and> unat n \<le> unat m" if "pool_size P p = Some n" for p n
  proof -
    have "p \<in> fst ` L" using L(2) that by auto
    then obtain m where "(p, m) \<in> L" by auto
    then show ?thesis using L(3) that by blast
  qed
  have bytes: "rd s x = Some v \<and> (\<exists>p n m. pool_size P p = Some n \<and> block_byte p n x \<and> (p, m) \<in> L \<and> block_byte p m x)"
    if x: "pool_byte P x = Some v" for x v
  proof -
    obtain p n where p: "rd s x = Some v" "pool_size P p = Some n" "block_byte p n x" using L(4) x by blast
    obtain m where m: "(p, m) \<in> L" "unat n \<le> unat m" using own [OF p(2)] by blast
    then have "block_byte p m x" using p(3) by (simp add: block_byte_def)
    then show ?thesis using p m(1) by blast
  qed
  show thesis by (rule that [OF L(1,2) own _ bytes]) (use L(3) in blast)+
qed

lemma tracks_placed:
  assumes "tracks s P" and "pool_size P p = Some n"
  shows "p \<noteq> 0 \<and> unat p mod 8 = 0 \<and> unat p + unat n \<le> 4294967296"
proof (cases rule: tracksE [OF assms(1)])
  case (1 L)
  obtain m where m: "(p, m) \<in> L" "unat n \<le> unat m" using 1(3) [OF assms(2)] by blast
  show ?thesis using placed [OF 1(1) m(1)] m(2) by auto
qed

lemma tracks_apart:
  assumes "tracks s P" and "pool_size P p = Some n" and "pool_size P q = Some m" and "p \<noteq> q"
  shows "unat p + unat n \<le> unat q \<or> unat q + unat m \<le> unat p"
proof (cases rule: tracksE [OF assms(1)])
  case (1 L)
  obtain k where k: "(p, k) \<in> L" "unat n \<le> unat k" using 1(3) [OF assms(2)] by blast
  obtain l where l: "(q, l) \<in> L" "unat m \<le> unat l" using 1(3) [OF assms(3)] by blast
  show ?thesis using apart [OF 1(1) k(1) l(1)] assms(4) k(2) l(2) by auto
qed

lemma tracks_read: "tracks s P \<Longrightarrow> pool_byte P x = Some v \<Longrightarrow> rd s x = Some v"
  unfolding tracks_def by blast

lemma tracks_alloc:
  assumes "tracks s P" and "fits n"
  shows "\<exists>s' p. alloc n s = Some (s', p) \<and> (p \<noteq> 0 \<longrightarrow> pool_size P p = None)
    \<and> tracks s' (if p = 0 then P else pool_new p n P)"
proof (cases rule: tracksE [OF assms(1)])
  case (1 L)
  obtain s' p where a: "alloc n s = Some (s', p)"
    "if p = 0 then holds s' L else \<exists>m. unat n \<le> unat m \<and> holds s' (insert (p, m) L) \<and> (\<forall>k. (p, k) \<notin> L)"
    "\<forall>q k x. (q, k) \<in> L \<and> block_byte q k x \<longrightarrow> rd s' x = rd s x"
    using alloc_ok [OF 1(1) assms(2)] by blast
  have bytes: "rd s' x = Some v \<and> (\<exists>q k. pool_size P q = Some k \<and> block_byte q k x)" if "pool_byte P x = Some v" for x v
    using 1(5) [OF that] a(3) by force
  show ?thesis
  proof (cases "p = 0")
    case True
    then have "tracks s' P" using a(2) by (intro tracksI [OF _ 1(2) 1(4) bytes]) simp_all
    then show ?thesis using a(1) True by simp
  next
    case False
    then obtain m where m: "unat n \<le> unat m" "holds s' (insert (p, m) L)" "\<forall>k. (p, k) \<notin> L" using a(2) by auto
    have "p \<notin> fst ` L" using m(3) by auto
    then have new: "pool_size P p = None" using 1(2) by auto
    have "tracks s' (pool_new p n P)"
    proof (rule tracksI [OF m(2)])
      show "fst ` insert (p, m) L = dom (pool_size (pool_new p n P))" using 1(2) by (simp add: pool_new_def)
      show "unat k \<le> unat l" if "pool_size (pool_new p n P) q = Some k" "(q, l) \<in> insert (p, m) L" for q k l
        using that m(1,3) new 1(4) by (auto simp: pool_new_def split: if_splits)
      show "rd s' x = Some v \<and> (\<exists>q k. pool_size (pool_new p n P) q = Some k \<and> block_byte q k x)"
        if "pool_byte (pool_new p n P) x = Some v" for x v
      proof -
        have "pool_byte P x = Some v" using that by (simp add: pool_new_def)
        then obtain q k where "rd s' x = Some v" "pool_size P q = Some k" "block_byte q k x" using bytes by blast
        moreover have "q \<noteq> p" using calculation(2) new by auto
        ultimately show ?thesis by (auto simp: pool_new_def)
      qed
    qed
    then show ?thesis using a(1) False new by simp
  qed
qed

lemma tracks_release:
  assumes "tracks s P" and "pool_size P p = Some n"
  shows "\<exists>s'. release p s = Some s' \<and> tracks s' (pool_drop p P)"
proof (cases rule: tracksE [OF assms(1)])
  case (1 L)
  obtain m where m: "(p, m) \<in> L" using 1(3) [OF assms(2)] by blast
  obtain s' where s': "release p s = Some s'" "holds s' (L - {(p, m)})"
    "\<forall>q k x. (q, k) \<in> L \<and> block_byte q k x \<longrightarrow> rd s' x = rd s x"
    using release_ok [OF 1(1) m] by blast
  have one: "k = m" if "(p, k) \<in> L" for k using apart [OF 1(1) that m] by blast
  have "tracks s' (pool_drop p P)"
  proof (rule tracksI [OF s'(2)])
    have "fst ` (L - {(p, m)}) = fst ` L - {p}" using one by force
    then show "fst ` (L - {(p, m)}) = dom (pool_size (pool_drop p P))" using 1(2) by (simp add: pool_drop_def)
    show "unat k \<le> unat l" if "pool_size (pool_drop p P) q = Some k" "(q, l) \<in> L - {(p, m)}" for q k l
      using that 1(4) by (auto simp: pool_drop_def split: if_splits)
    show "rd s' x = Some v \<and> (\<exists>q k. pool_size (pool_drop p P) q = Some k \<and> block_byte q k x)"
      if x: "pool_byte (pool_drop p P) x = Some v" for x v
    proof -
      have "pool_byte P x = Some v" "\<not> block_byte p n x"
        using x assms(2) by (auto simp: pool_drop_def split: if_splits)
      moreover obtain q k l where "pool_size P q = Some k" "block_byte q k x" "(q, l) \<in> L" "block_byte q l x"
        using 1(5) [OF calculation(1)] by blast
      moreover have "q \<noteq> p" using calculation(2-4) assms(2) by auto
      ultimately show ?thesis using 1(5) s'(3) by (auto simp: pool_drop_def)
    qed
  qed
  then show ?thesis using s'(1) by blast
qed

lemma tracks_write:
  assumes "tracks s P" and "pool_size P p = Some n" and "block_byte p n x"
  shows "\<exists>s'. wr x v s = Some s' \<and> tracks s' (pool_put x v P)"
proof (cases rule: tracksE [OF assms(1)])
  case (1 L)
  obtain m where m: "(p, m) \<in> L" "unat n \<le> unat m" using 1(3) [OF assms(2)] by blast
  then have x: "block_byte p m x" using assms(3) by (simp add: block_byte_def)
  obtain s' where s': "wr x v s = Some s'" "holds s' L"
    "\<forall>q k y. (q, k) \<in> L \<and> block_byte q k y \<longrightarrow> rd s' y = (if y = x then Some v else rd s y)"
    using write_ok [OF 1(1) m(1) x] by blast
  have "tracks s' (pool_put x v P)"
  proof (rule tracksI [OF s'(2)])
    show "fst ` L = dom (pool_size (pool_put x v P))" using 1(2) by (simp add: pool_put_def)
    show "unat k \<le> unat l" if "pool_size (pool_put x v P) q = Some k" "(q, l) \<in> L" for q k l
      using that 1(4) by (simp add: pool_put_def)
    show "rd s' y = Some b \<and> (\<exists>q k. pool_size (pool_put x v P) q = Some k \<and> block_byte q k y)"
      if y: "pool_byte (pool_put x v P) y = Some b" for y b
    proof (cases "y = x")
      case True
      then have "rd s' y = Some b" using s'(3) m(1) x y by (auto simp: pool_put_def)
      then show ?thesis using assms(2,3) True by (auto simp: pool_put_def)
    next
      case False
      then have "pool_byte P y = Some b" using y by (simp add: pool_put_def)
      then obtain q k l where "rd s y = Some b" "pool_size P q = Some k" "block_byte q k y" "(q, l) \<in> L" "block_byte q l y"
        using 1(5) by blast
      then show ?thesis using s'(3) False by (auto simp: pool_put_def)
    qed
  qed
  then show ?thesis using s'(1) by blast
qed

end

section \<open>The heap is a pool\<close>

text \<open>The pointers and payload sizes of the used blocks; a request of up to \<open>0xFFFFEFF0\<close> bytes does not wrap.\<close>

definition heap_holds :: "u32 \<Rightarrow> heap \<Rightarrow> (u32 \<times> u32) set \<Rightarrow> bool" where
  "heap_holds pd S L \<longleftrightarrow> (\<exists>bs. heap_inv pd S bs \<and> L = (\<lambda>(c, z). (c + 16, z - 16)) ` set (used_blocks KHEAP_START bs))"

definition heap_fits :: "u32 \<Rightarrow> bool" where
  "heap_fits sz \<longleftrightarrow> unat sz \<le> 0xFFFFEFF0"

definition heap_read :: "heap \<Rightarrow> u32 \<Rightarrow> u8 option" where
  "heap_read S x = vread8 (kh_vm S) x"

definition heap_write :: "u32 \<Rightarrow> u8 \<Rightarrow> heap \<Rightarrow> heap option" where
  "heap_write x v S = map_option (\<lambda>s. S\<lparr>kh_vm := s\<rparr>) (vwrite8 (kh_vm S) x v)"

lemma used_block_bounds:
  assumes "heap_inv pd S bs" and "(c, z) \<in> set (used_blocks KHEAP_START bs)"
  shows "unat (c + 16) = unat c + 16" and "unat (z - 16) = unat z - 16" and "24 \<le> unat z"
    and "unat c mod 8 = 0" and "3254779904 \<le> unat c" and "unat c + unat z \<le> unat (kh_end S)"
proof -
  note D = heap_invD [OF assms(1)]
  obtain pre post where bs: "bs = pre @ (z, False) # post" "c = end_of KHEAP_START pre"
    using assms(2) by (rule used_blocksE)
  have pre: "total pre \<le> 16777216" "sizes_ok pre" "total pre + unat z \<le> total bs"
    using D(7,8) by (simp_all add: bs(1))
  then have c: "unat c = 3254779904 + total pre" by (simp add: bs(2) heap_end_of)
  show z: "24 \<le> unat z" using D(7) by (simp add: bs(1))
  show "unat (c + 16) = unat c + 16" using c pre(1) by (simp add: unat_plus_small)
  have "(16::u32) \<le> z" using z by (simp add: word_le_nat_alt)
  then show "unat (z - 16) = unat z - 16" by (simp add: unat_minus_le)
  show "unat c mod 8 = 0" using total_mod_8 [OF pre(2)] c by (simp add: mod_add_eq [symmetric])
  show "3254779904 \<le> unat c" "unat c + unat z \<le> unat (kh_end S)" using c pre(3) D(10) by simp_all
qed

lemma payload_bytes:
  assumes "heap_inv pd S bs" and "(c, z) \<in> set (used_blocks KHEAP_START bs)"
  shows "block_byte (c + 16) (z - 16) x \<longleftrightarrow> payload c z x"
  using used_block_bounds [OF assms] by (auto simp: block_byte_def payload_def)

lemma heap_holdsE:
  assumes "heap_holds pd S L"
  obtains bs where "heap_inv pd S bs" "L = (\<lambda>(c, z). (c + 16, z - 16)) ` set (used_blocks KHEAP_START bs)"
    "\<forall>p n. (p, n) \<in> L \<longleftrightarrow> (p - 16, n + 16) \<in> set (used_blocks KHEAP_START bs)"
    "\<forall>p n x. (p, n) \<in> L \<longrightarrow> block_byte p n x = payload (p - 16) (n + 16) x"
proof -
  obtain bs where bs: "heap_inv pd S bs" "L = (\<lambda>(c, z). (c + 16, z - 16)) ` set (used_blocks KHEAP_START bs)"
    using assms unfolding heap_holds_def by blast
  have L: "(p, n) \<in> L \<longleftrightarrow> (p - 16, n + 16) \<in> set (used_blocks KHEAP_START bs)" for p n
    unfolding bs(2) by force
  have "block_byte p n x = payload (p - 16) (n + 16) x" if "(p, n) \<in> L" for p n x
    using payload_bytes [OF bs(1), of "p - 16" "n + 16" x] L that by simp
  then show thesis using that [OF bs] L by blast
qed

lemma heap_alloc_ok:
  assumes "heap_holds pd S L" and "heap_fits n"
  shows "\<exists>S' p. kmalloc pd n S = Some (S', p)
    \<and> (if p = 0 then heap_holds pd S' L
       else \<exists>m. unat n \<le> unat m \<and> heap_holds pd S' (insert (p, m) L) \<and> (\<forall>k. (p, k) \<notin> L))
    \<and> (\<forall>q k x. (q, k) \<in> L \<and> block_byte q k x \<longrightarrow> heap_read S' x = heap_read S x)"
proof (cases "n = 0")
  case True
  then show ?thesis using assms(1) by (simp add: kmalloc_def)
next
  case False
  note fits = assms(2) [unfolded heap_fits_def]
  obtain bs where bs: "heap_inv pd S bs" "L = (\<lambda>(c, z). (c + 16, z - 16)) ` set (used_blocks KHEAP_START bs)"
    and L: "\<forall>p n. (p, n) \<in> L \<longleftrightarrow> (p - 16, n + 16) \<in> set (used_blocks KHEAP_START bs)"
    and bytes: "\<forall>p n x. (p, n) \<in> L \<longrightarrow> block_byte p n x = payload (p - 16) (n + 16) x"
    using assms(1) by (rule heap_holdsE)
  obtain S' p bs' where r: "kmalloc pd n S = Some (S', p)" "heap_inv pd S' bs'" and
    block: "if p = 0 then bs' = bs
       else unat p mod 8 = 0 \<and> (\<exists>z. unat n + 16 \<le> unat z
         \<and> set (used_blocks KHEAP_START bs') = insert (p - 16, z) (set (used_blocks KHEAP_START bs))
         \<and> (\<forall>(c, y) \<in> set (used_blocks KHEAP_START bs).
              unat c + unat y \<le> unat (p - 16) \<or> unat (p - 16) + unat z \<le> unat c))"
    using kmalloc_block [OF bs(1) False fits] by blast
  have "heap_read S' x = heap_read S x" if "(q, k) \<in> L" "block_byte q k x" for q k x
    using kmalloc_keeps_contents [OF bs(1) fits _ _ r(1), of "q - 16" "k + 16" x] that L bytes
    by (simp add: heap_read_def)
  moreover have "if p = 0 then heap_holds pd S' L
     else \<exists>m. unat n \<le> unat m \<and> heap_holds pd S' (insert (p, m) L) \<and> (\<forall>k. (p, k) \<notin> L)"
  proof (cases "p = 0")
    case True
    then show ?thesis using r(2) block bs(2) by (auto simp: heap_holds_def)
  next
    case False
    then obtain z where z: "unat n + 16 \<le> unat z"
      "set (used_blocks KHEAP_START bs') = insert (p - 16, z) (set (used_blocks KHEAP_START bs))"
      "\<forall>(c, y) \<in> set (used_blocks KHEAP_START bs). unat c + unat y \<le> unat (p - 16) \<or> unat (p - 16) + unat z \<le> unat c"
      using block by auto
    have m: "unat (z - 16) = unat z - 16" using used_block_bounds(2) [OF r(2), of "p - 16" z] z(2) by simp
    have "heap_holds pd S' (insert (p, z - 16) L)"
      unfolding heap_holds_def bs(2) using r(2) z(2) by (intro exI [of _ bs']) simp
    moreover have "(p, k) \<notin> L" for k
    proof
      assume "(p, k) \<in> L"
      then have "(p - 16, k + 16) \<in> set (used_blocks KHEAP_START bs)" using L by blast
      moreover have "24 \<le> unat (k + 16)" using used_block_bounds(3) [OF bs(1) calculation] .
      ultimately show False using z(1,3) by fastforce
    qed
    ultimately show ?thesis using False m z(1) by (intro exI [of _ "z - 16"] | simp)+
  qed
  ultimately show ?thesis using r(1) by blast
qed

lemma heap_release_ok:
  assumes "heap_holds pd S L" and "(p, n) \<in> L"
  shows "\<exists>S'. kfree p S = Some S' \<and> heap_holds pd S' (L - {(p, n)})
    \<and> (\<forall>q k x. (q, k) \<in> L \<and> block_byte q k x \<longrightarrow> heap_read S' x = heap_read S x)"
proof -
  obtain bs where bs: "heap_inv pd S bs" "L = (\<lambda>(c, z). (c + 16, z - 16)) ` set (used_blocks KHEAP_START bs)"
    and L: "\<forall>p n. (p, n) \<in> L \<longleftrightarrow> (p - 16, n + 16) \<in> set (used_blocks KHEAP_START bs)"
    and bytes: "\<forall>p n x. (p, n) \<in> L \<longrightarrow> block_byte p n x = payload (p - 16) (n + 16) x"
    using assms(1) by (rule heap_holdsE)
  obtain S' bs' where r: "kfree p S = Some S'" "heap_inv pd S' bs'"
    "set (used_blocks KHEAP_START bs') = set (used_blocks KHEAP_START bs) - {(p - 16, n + 16)}"
    "\<forall>(d, y) \<in> set (used_blocks KHEAP_START bs). \<forall>x. payload d y x \<longrightarrow> vread8 (kh_vm S') x = vread8 (kh_vm S) x"
    using kfree_takes_block [OF bs(1), of "p - 16" "n + 16"] assms(2) L by auto
  have "inj (\<lambda>(c, z). (c + 16, z - 16) :: u32 \<times> u32)" by (auto simp: inj_def)
  then have "heap_holds pd S' (L - {(p, n)})"
    unfolding heap_holds_def bs(2) using r(2,3) by (intro exI [of _ bs']) (simp add: image_set_diff)
  moreover have "heap_read S' x = heap_read S x" if "(q, k) \<in> L" "block_byte q k x" for q k x
    using r(4) that L bytes by (fastforce simp: heap_read_def)
  ultimately show ?thesis using r(1) by blast
qed

lemma heap_write_ok:
  assumes "heap_holds pd S L" and "(p, n) \<in> L" and "block_byte p n x"
  shows "\<exists>S'. heap_write x v S = Some S' \<and> heap_holds pd S' L
    \<and> (\<forall>q k y. (q, k) \<in> L \<and> block_byte q k y \<longrightarrow> heap_read S' y = (if y = x then Some v else heap_read S y))"
proof -
  obtain bs where bs: "heap_inv pd S bs" "L = (\<lambda>(c, z). (c + 16, z - 16)) ` set (used_blocks KHEAP_START bs)"
    and L: "\<forall>p n. (p, n) \<in> L \<longleftrightarrow> (p - 16, n + 16) \<in> set (used_blocks KHEAP_START bs)"
    and bytes: "\<forall>p n x. (p, n) \<in> L \<longrightarrow> block_byte p n x = payload (p - 16) (n + 16) x"
    using assms(1) by (rule heap_holdsE)
  obtain s' where s': "vwrite8 (kh_vm S) x v = Some s'" "heap_inv pd (S\<lparr>kh_vm := s'\<rparr>) bs" "vread8 s' x = Some v"
    "\<forall>y. within KHEAP_START (kh_end S) y \<and> y \<noteq> x \<longrightarrow> vread8 s' y = vread8 (kh_vm S) y"
    using payload_write [OF bs(1), of "p - 16" "n + 16" x v] assms(2,3) L bytes by blast
  have "within KHEAP_START (kh_end S) y" if "(q, k) \<in> L" "block_byte q k y" for q k y
    using payload_outside(2) [of "q - 16" "k + 16" bs y] that L bytes heap_invD(5,7,8) [OF bs(1)] by simp
  then have "vread8 s' y = (if y = x then Some v else vread8 (kh_vm S) y)" if "(q, k) \<in> L" "block_byte q k y" for q k y
    using that s'(3,4) by auto
  moreover have "heap_holds pd (S\<lparr>kh_vm := s'\<rparr>) L" using s'(2) bs(2) unfolding heap_holds_def by blast
  ultimately show ?thesis using s'(1) by (auto simp: heap_write_def heap_read_def)
qed

interpretation hp: memory_pool "heap_holds pd" heap_fits "kmalloc pd" kfree heap_read heap_write
proof unfold_locales
  fix S S' L p n q m x v
  show "heap_fits n \<Longrightarrow> heap_holds pd S L \<Longrightarrow> \<exists>S' p. kmalloc pd n S = Some (S', p)
      \<and> (if p = 0 then heap_holds pd S' L
         else \<exists>m. unat n \<le> unat m \<and> heap_holds pd S' (insert (p, m) L) \<and> (\<forall>k. (p, k) \<notin> L))
      \<and> (\<forall>q k x. (q, k) \<in> L \<and> block_byte q k x \<longrightarrow> heap_read S' x = heap_read S x)"
    by (rule heap_alloc_ok)
  show "heap_holds pd S L \<Longrightarrow> (p, n) \<in> L \<Longrightarrow> \<exists>S'. kfree p S = Some S' \<and> heap_holds pd S' (L - {(p, n)})
      \<and> (\<forall>q k x. (q, k) \<in> L \<and> block_byte q k x \<longrightarrow> heap_read S' x = heap_read S x)"
    by (rule heap_release_ok)
  show "heap_holds pd S L \<Longrightarrow> (p, n) \<in> L \<Longrightarrow> block_byte p n x \<Longrightarrow> \<exists>S'. heap_write x v S = Some S' \<and> heap_holds pd S' L
      \<and> (\<forall>q k y. (q, k) \<in> L \<and> block_byte q k y \<longrightarrow> heap_read S' y = (if y = x then Some v else heap_read S y))"
    by (rule heap_write_ok)
  assume "heap_holds pd S L"
  then obtain bs where bs: "heap_inv pd S bs" "\<forall>p n. (p, n) \<in> L \<longleftrightarrow> (p - 16, n + 16) \<in> set (used_blocks KHEAP_START bs)"
    by (rule heap_holdsE)
  note D = heap_invD [OF bs(1)]
  have at: "unat p = unat (p - 16) + 16 \<and> unat n = unat (n + 16) - 16 \<and> 24 \<le> unat (n + 16)
      \<and> unat (p - 16) mod 8 = 0 \<and> unat (p - 16) + unat (n + 16) \<le> unat (kh_end S)" if "(p, n) \<in> L" for p n
    using used_block_bounds [OF bs(1), of "p - 16" "n + 16"] that bs(2) by simp
  show "p \<noteq> 0 \<and> unat p mod 8 = 0 \<and> unat p + unat n \<le> 4294967296" if "(p, n) \<in> L"
  proof (intro conjI)
    show "p \<noteq> 0" "unat p mod 8 = 0" using at [OF that] by (auto simp: mod_add_eq [symmetric])
    show "unat p + unat n \<le> 4294967296" using at [OF that] u32_less_bound [of "kh_end S"] by linarith
  qed
  show "p \<noteq> q \<and> (unat p + unat n \<le> unat q \<or> unat q + unat m \<le> unat p)"
    if "(p, n) \<in> L" "(q, m) \<in> L" "(p, n) \<noteq> (q, m)"
    using used_blocks_apart [of "p - 16" "n + 16" bs "q - 16" "m + 16"] that bs(2) D(7,8) at [of p n] at [of q m] by auto
qed

section \<open>Histories\<close>

text \<open>Consistent page tables, a page directory below the heap and frames for the first four pages.\<close>

definition heap_ready :: "u32 \<Rightarrow> heap \<Rightarrow> bool" where
  "heap_ready pd S \<longleftrightarrow> paging_inv pd (kh_vm S) \<and> pd < KHEAP_START \<and> 10 \<le> card (pmm_avail (vm_pmm (kh_vm S)))"

text \<open>
  The histories from \<open>kheap_init\<close> on. A request is one that fits: \<open>kmalloc\<close> does not check its argument, and a larger one
  is outside the contract of the pool.
\<close>

inductive heap_run :: "u32 \<Rightarrow> heap \<Rightarrow> heap \<Rightarrow> pool \<Rightarrow> bool" for pd S0 where
  start: "kheap_init pd S0 = Some S \<Longrightarrow> heap_run pd S0 S empty_pool"
| alloc: "heap_run pd S0 S P \<Longrightarrow> heap_fits n \<Longrightarrow> kmalloc pd n S = Some (S', p) \<Longrightarrow>
    heap_run pd S0 S' (if p = 0 then P else pool_new p n P)"
| free: "heap_run pd S0 S P \<Longrightarrow> pool_size P p = Some n \<Longrightarrow> kfree p S = Some S' \<Longrightarrow>
    heap_run pd S0 S' (pool_drop p P)"
| free_null: "heap_run pd S0 S P \<Longrightarrow> kfree 0 S = Some S' \<Longrightarrow> heap_run pd S0 S' P"
| store: "heap_run pd S0 S P \<Longrightarrow> pool_size P p = Some n \<Longrightarrow> block_byte p n x \<Longrightarrow> heap_write x v S = Some S' \<Longrightarrow>
    heap_run pd S0 S' (pool_put x v P)"

lemma heap_ready_init:
  assumes "heap_ready pd S"
  shows "\<exists>S'. kheap_init pd S = Some S' \<and> heap_inv pd S' [(16384, True)]"
  using assms unfolding heap_ready_def by (blast intro: kheap_init_runs)

lemma heap_run_tracks:
  assumes "heap_run pd S0 S P" and "heap_ready pd S0"
  shows "hp.tracks pd S P"
  using assms
proof (induction rule: heap_run.induct)
  case (start S)
  then have "heap_inv pd S [(16384, True)]" using heap_ready_init [OF start.prems] by simp
  then have "heap_holds pd S {}" unfolding heap_holds_def by (intro exI [of _ "[(16384, True)]"]) simp
  then show ?case by (rule hp.tracksI) (simp_all add: empty_pool_def)
next
  case (alloc S P n S' p)
  then show ?case using hp.tracks_alloc [OF alloc.IH [OF alloc.prems] alloc.hyps(2)] by simp
next
  case (free S P p n S')
  then show ?case using hp.tracks_release [OF free.IH [OF free.prems] free.hyps(2)] by simp
next
  case (free_null S P S')
  then show ?case by (simp add: kfree_def)
next
  case (store S P p n x v S')
  then show ?case using hp.tracks_write [OF store.IH [OF store.prems] store.hyps(2,3), of v] by simp
qed

lemma used_blocks_empty: "used_blocks a bs = [] \<longleftrightarrow> (\<forall>(z, fr) \<in> set bs. fr)"
  by (induction a bs rule: used_blocks.induct) auto

lemma all_free_single:
  assumes "no_adjacent_free bs" and "\<forall>(z, fr) \<in> set bs. fr"
  shows "bs = [] \<or> (\<exists>z. bs = [(z, True)])"
  using assms by (cases bs rule: no_adjacent_free.cases) auto

lemma heap_run_idle:
  assumes "heap_run pd S0 S P" and "heap_ready pd S0" and "pool_size P = Map.empty"
  shows "\<exists>bs. heap_inv pd S bs \<and> used_total bs = 0 \<and> (bs = [] \<or> (\<exists>z. bs = [(z, True)]))"
proof (cases rule: hp.tracksE [OF heap_run_tracks [OF assms(1,2)]])
  case (1 L)
  then obtain bs where bs: "heap_inv pd S bs" "used_blocks KHEAP_START bs = []"
    using assms(3) by (auto simp: heap_holds_def)
  then have "bs = [] \<or> (\<exists>z. bs = [(z, True)])"
    using all_free_single heap_invD(4) by (simp add: used_blocks_empty)
  then show ?thesis using bs(1) by auto
qed

section \<open>An example history\<close>

text \<open>A block of 64 bytes is requested, its byte at \<open>0xC2000020\<close> is set, and it is released.\<close>

definition unmapped_heap :: heap where
  "unmapped_heap = \<lparr>kh_vm = example_vm, kh_start = 0, kh_end = 0, kh_first = 0\<rparr>"

lemma unmapped_heap_ready: "heap_ready 0xC0110000 unmapped_heap"
  by (simp add: heap_ready_def unmapped_heap_def example_vm example_frames KHEAP_START_def)

lemma example_history:
  obtains S P where "heap_run 0xC0110000 unmapped_heap S P"
    "pool_size P = [0xC2000010 \<mapsto> 64]" "pool_byte P = [0xC2000020 \<mapsto> 0x41]" "kheap_total_bytes S = 16384"
proof -
  have init: "kheap_init 0xC0110000 unmapped_heap = Some example_heap"
    using heap_ready_init [OF unmapped_heap_ready] by (auto simp: example_heap_def unmapped_heap_def)
  obtain S1 where S1: "kmalloc 0xC0110000 64 example_heap = Some (S1, 0xC2000010)"
    "heap_inv 0xC0110000 S1 [(80, False), (16304, True)]" by (rule example_used)
  let ?P = "pool_new 0xC2000010 64 empty_pool"
  have r1: "heap_run 0xC0110000 unmapped_heap S1 ?P"
    using heap_run.alloc [OF heap_run.start [OF init] _ S1(1)] by (simp add: heap_fits_def)
  have P: "pool_size ?P 0xC2000010 = Some 64" by (simp add: pool_new_def)
  have x: "block_byte 0xC2000010 64 0xC2000020" by (simp add: block_byte_def)
  obtain S2 where S2: "heap_write 0xC2000020 0x41 S1 = Some S2"
    using hp.tracks_write [OF heap_run_tracks [OF r1 unmapped_heap_ready] P x] by blast
  have "kheap_total_bytes S2 = kheap_total_bytes S1" using S2 by (auto simp: heap_write_def kheap_total_bytes_def)
  then have "kheap_total_bytes S2 = 16384" using kheap_bytes_count [OF S1(2)] by simp
  then show thesis
    by (intro that [OF heap_run.store [OF r1 P x S2]]) (simp_all add: pool_put_def pool_new_def empty_pool_def)
qed

lemma example_idle:
  obtains S P where "heap_run 0xC0110000 unmapped_heap S P" "pool_size P = Map.empty" "kheap_total_bytes S = 16384"
proof -
  obtain S P where r: "heap_run 0xC0110000 unmapped_heap S P" "pool_size P = [0xC2000010 \<mapsto> 64]"
    "kheap_total_bytes S = 16384"
    by (rule example_history)
  then have p: "pool_size P 0xC2000010 = Some 64" by simp
  obtain S' where S': "kfree 0xC2000010 S = Some S'"
    using hp.tracks_release [OF heap_run_tracks [OF r(1) unmapped_heap_ready] p] by blast
  have "kheap_total_bytes S' = 16384" using S' r(3)
    by (auto simp: kfree_def kheap_total_bytes_def Let_def split: bind_splits)
  then show thesis by (intro that [OF heap_run.free [OF r(1) p S']]) (simp_all add: pool_drop_def r(2))
qed

section \<open>Properties\<close>

text \<open>C8: no history of requests of at most 0xFFFFEFF0 bytes each, releases and stores makes blocks in use overlap: the
  pointers are non-null, 8-byte aligned, do not wrap around the address range, and two of them are apart by the sizes asked
  for. Above that size \<open>kmalloc\<close> wraps and hands out less than was asked for (\<open>kmalloc_size_wraps\<close>).\<close>

theorem heap_run_disjoint:
  assumes "heap_run pd S0 S P" and "heap_ready pd S0" and "pool_size P p = Some n"
  shows "p \<noteq> 0 \<and> unat p mod 8 = 0 \<and> unat p + unat n \<le> 2 ^ 32
    \<and> (\<forall>q m. pool_size P q = Some m \<and> q \<noteq> p \<longrightarrow> unat p + unat n \<le> unat q \<or> unat q + unat m \<le> unat p)"
  using hp.tracks_placed [OF heap_run_tracks [OF assms(1,2)] assms(3)]
    hp.tracks_apart [OF heap_run_tracks [OF assms(1,2)] assms(3)] by auto

theorem heap_run_disjoint_witness:
  "\<exists>S P. heap_run 0xC0110000 unmapped_heap S P \<and> pool_size P = [0xC2000010 \<mapsto> 64]
    \<and> unat (0xC2000010 :: u32) mod 8 = 0 \<and> unat (0xC2000010 :: u32) + unat (64 :: u32) \<le> 2 ^ 32"
proof -
  obtain S P where r: "heap_run 0xC0110000 unmapped_heap S P" "pool_size P = [0xC2000010 \<mapsto> 64]"
    by (rule example_history)
  then have "pool_size P 0xC2000010 = Some 64" by simp
  note d = heap_run_disjoint [OF r(1) unmapped_heap_ready this]
  show ?thesis using r conjunct1 [OF conjunct2 [OF d]] conjunct1 [OF conjunct2 [OF conjunct2 [OF d]]]
    by (intro exI [of _ S] exI [of _ P] conjI)
qed

text \<open>C9: the heap is a memory: at the end of every history of requests of at most 0xFFFFEFF0 bytes each, releases and stores
  into blocks in use, a byte that was last stored into a block in use reads back through the page tables, whatever was
  requested, released and stored elsewhere in between.\<close>

theorem heap_run_reads_back:
  assumes "heap_run pd S0 S P" and "heap_ready pd S0" and "pool_byte P x = Some v"
  shows "heap_read S x = Some v"
  by (rule hp.tracks_read [OF heap_run_tracks [OF assms(1,2)] assms(3)])

theorem heap_run_reads_back_witness:
  "\<exists>S P. heap_run 0xC0110000 unmapped_heap S P \<and> pool_byte P 0xC2000020 = Some 0x41 \<and> heap_read S 0xC2000020 = Some 0x41"
proof -
  obtain S P where r: "heap_run 0xC0110000 unmapped_heap S P" "pool_byte P = [0xC2000020 \<mapsto> 0x41]"
    by (rule example_history)
  then have P: "pool_byte P 0xC2000020 = Some 0x41" by simp
  from heap_run_reads_back [OF r(1) unmapped_heap_ready P] r(1) P show ?thesis by blast
qed

text \<open>C10: no history leads to a heap on which a call faults or does not return: every request that does not wrap
  returns (a new block or NULL), every block in use can be released, and every byte of it can be stored to.\<close>

theorem heap_run_progress:
  assumes "heap_run pd S0 S P" and "heap_ready pd S0"
  shows "(\<forall>n. unat n \<le> 0xFFFFEFF0 \<longrightarrow> (\<exists>S' p. kmalloc pd n S = Some (S', p) \<and> (p = 0 \<or> pool_size P p = None)))
    \<and> (\<forall>p n. pool_size P p = Some n \<longrightarrow> (\<exists>S'. kfree p S = Some S')
        \<and> (\<forall>x v. block_byte p n x \<longrightarrow> (\<exists>S'. heap_write x v S = Some S' \<and> heap_read S' x = Some v)))"
proof (intro conjI allI impI)
  note t = heap_run_tracks [OF assms]
  show "\<exists>S' p. kmalloc pd n S = Some (S', p) \<and> (p = 0 \<or> pool_size P p = None)" if "unat n \<le> 0xFFFFEFF0" for n
    using hp.tracks_alloc [OF t, of n] that by (auto simp: heap_fits_def)
  fix p n
  assume p: "pool_size P p = Some n"
  show "\<exists>S'. kfree p S = Some S'" using hp.tracks_release [OF t p] by blast
  show "\<exists>S'. heap_write x v S = Some S' \<and> heap_read S' x = Some v" if "block_byte p n x" for x v
    using hp.tracks_write [OF t p that, of v] hp.tracks_read [of pd _ "pool_put x v P" x v] by (auto simp: pool_put_def)
qed

theorem heap_run_progress_witness:
  "\<exists>S P S' p. heap_run 0xC0110000 unmapped_heap S P \<and> kmalloc 0xC0110000 100 S = Some (S', p)"
proof -
  obtain S P where r: "heap_run 0xC0110000 unmapped_heap S P" by (rule example_history)
  have "unat (100 :: u32) \<le> 0xFFFFEFF0" by simp
  with heap_run_progress [OF r unmapped_heap_ready] r show ?thesis by blast
qed

text \<open>C11: nothing is lost to fragmentation: when every block has been released, in any order, no byte is counted as
  used and any request up to the mapped size less its header is served at the start of the heap without mapping a page.\<close>

theorem heap_run_drained:
  assumes "heap_run pd S0 S P" and "heap_ready pd S0" and "pool_size P = Map.empty"
    and "n \<noteq> 0" and "unat n \<le> 0xFFFFEFF0" and "kmalloc_needed n \<le> kheap_total_bytes S"
  shows "kheap_used_bytes S = Some 0 \<and> (\<exists>S'. kmalloc pd n S = Some (S', KHEAP_START + 16)
    \<and> kh_end S' = kh_end S \<and> vm_pmm (kh_vm S') = vm_pmm (kh_vm S))"
proof -
  obtain bs where bs: "heap_inv pd S bs" "used_total bs = 0" "bs = [] \<or> (\<exists>z. bs = [(z, True)])"
    using heap_run_idle [OF assms(1-3)] by blast
  note count = kheap_bytes_count [OF bs(1)] and need = kmalloc_needed [OF assms(5)]
  have "bs \<noteq> []" using count assms(6) need(1) by (auto simp: word_le_nat_alt)
  then obtain z where z: "bs = [(z, True)]" using bs(3) by blast
  then have le: "kmalloc_needed n \<le> z" using count assms(6) by simp
  obtain S' pre y post where r: "bs = pre @ (y, True) # post" "kmalloc pd n S = Some (S', end_of KHEAP_START pre + 16)"
    "kh_end S' = kh_end S" "vm_pmm (kh_vm S') = vm_pmm (kh_vm S)"
    using kmalloc_takes_first [OF bs(1) assms(4,5) _ le] z by auto
  then have "pre = []" using z by (cases pre) auto
  then show ?thesis using r(2-4) count bs(2) by simp
qed

theorem heap_run_drained_witness:
  "\<exists>S P. heap_run 0xC0110000 unmapped_heap S P \<and> pool_size P = Map.empty \<and> kheap_used_bytes S = Some 0"
proof -
  obtain S P where r: "heap_run 0xC0110000 unmapped_heap S P" "pool_size P = Map.empty"
    "kheap_total_bytes S = 16384" by (rule example_idle)
  have "unat (8 :: u32) \<le> 0xFFFFEFF0" by simp
  with heap_run_drained [OF r(1) unmapped_heap_ready r(2), of 8] r show ?thesis by (auto simp: example_needed)
qed

end
