(* ===== verification/Dispatch.thy ===== *)
theory Dispatch
  imports Stubs Page_Fault
begin

text \<open>
  Interrupts and exceptions from the processor's vector to the C handler and back: the gate that \<open>idt_init\<close> or
  \<open>irq_init\<close> installed, the stub behind it, the \<open>registers_t\<close> on the stack, and what \<open>exception_handler\<close> or
  \<open>irq_handler\<close> does with it. Where the linker puts the stubs is a parameter, with its tables of their addresses; the
  handlers' machine code is a parameter of the stubs, its effect that of the C functions on the structure passed.
\<close>

section \<open>The processor's side\<close>

text \<open>
  The gate of a vector: inside the table's limit, present, a 32-bit interrupt gate. Any other entry is a further fault,
  which has no value here.
\<close>

definition fetch_gate :: "idt \<Rightarrow> u8 \<Rightarrow> idt_entry option" where
  "fetch_gate T v =
     (let e = idt_entries T v
      in if 8 * unat v + 7 \<le> unat (idtr_limit T) \<and> attributes e AND 0x9F = 0x8E then Some e else None)"

text \<open>\<open>code\<close> gives the instructions from an address up to \<open>iret\<close>.\<close>

definition raise_vector :: "idt \<Rightarrow> (u32 \<Rightarrow> instr list) \<Rightarrow> u8 \<Rightarrow> u32 option \<Rightarrow> cpu \<Rightarrow> cpu option" where
  "raise_vector T code v err s = do {
     e \<leftarrow> fetch_gate T v;
     Some (run (code (entry_offset e)) (enter_gate (kernel_cs e) (entry_offset e) err s)) }"

text \<open>The tables \<open>isr_stub_table\<close> and \<open>irq_stub_table\<close> hold the addresses of the stubs of the assembly files.\<close>

definition stubs_placed ::
  "(cpu \<Rightarrow> cpu) \<Rightarrow> u32 \<Rightarrow> (cpu \<Rightarrow> cpu) \<Rightarrow> u32 \<Rightarrow> (u8 \<Rightarrow> u32) \<Rightarrow> (u8 \<Rightarrow> u32) \<Rightarrow> (u32 \<Rightarrow> instr list) \<Rightarrow> bool" where
  "stubs_placed exc exc_ret irq irq_ret isrs irqs code \<longleftrightarrow>
     (\<forall>v < 32. code (isrs v) = isr_stub_table ! unat v @ isr_common_stub exc exc_ret)
     \<and> (\<forall>i < 16. code (irqs i) = irq_stub_table ! unat i @ irq_common_stub irq irq_ret)"

text \<open>The structure a handler's argument points to, in the state in which it is called.\<close>

definition passed_registers :: "cpu \<Rightarrow> registers" where
  "passed_registers h = registers_at (cmem h) (load32 (cmem h) (gpr h ESP + 4))"

text \<open>
  The vector the controllers raise for a line: the base that \<open>pic_init\<close> gives a controller is the first byte after the
  command that starts its initialization, and the number of the line within the controller is added to it.
\<close>

definition line_vector :: "u8 \<Rightarrow> u8" where
  "line_vector i = (if i < 8 then PIC1_OFFSET + i else PIC2_OFFSET + (i - 8))"

lemma line_vector_programmed:
  "line_vector i = hd (port_bytes (pic_mask_port i) (pic_init [])) + pic_irq_line i"
  "hd (port_bytes PIC1_COMMAND (pic_init [])) = ICW1_INIT OR ICW1_ICW4"
  "hd (port_bytes PIC2_COMMAND (pic_init [])) = ICW1_INIT OR ICW1_ICW4"
  by (simp_all add: line_vector_def pic_mask_port_def pic_irq_line_def pic_init_def Let_def pic_ports port_bytes_def outb_def io_wait_def)

section \<open>The gates\<close>

lemma u8_less_bound: "unat (v::u8) < 256"
  using unsigned_less [of v, where ?'a = nat] by simp

lemma unat_u8_u32: "unat (ucast (v::u8) :: u32) = unat v"
  using u8_less_bound [of v] by (simp add: unsigned_ucast_eq take_bit_nat_eq_self)

lemma ucast_u32_u8: "ucast (ucast (v::u8) :: u32) = v"
  by (rule bit_word_eqI) (auto simp: bit_simps)

lemma installed_gate:
  assumes "interrupt_gate a (idt_entries T v)" and "unat (idtr_limit T) + 1 = 8 * 256"
  shows "raise_vector T code v err s = Some (run (code a) (enter_gate 8 a err s))"
proof -
  have "unat v < 256" by (rule u8_less_bound)
  moreover have "(0x8E :: u8) AND 0x9F = 0x8E" by simp
  ultimately show ?thesis using assms by (simp add: raise_vector_def fetch_gate_def interrupt_gate_def Let_def)
qed

lemma stub_table_nth: "v < 32 \<Longrightarrow> isr_stub_table ! unat v = isr_stub (ucast v)"
  "v < 16 \<Longrightarrow> irq_stub_table ! unat v = irq_stub (ucast v)" for v :: u8
  by (simp_all add: stub_tables word_less_nat_alt)

lemma raise_exception:
  assumes "T = irq_init irqs (idt_init table isrs T0)" and "stubs_placed exc exc_ret irq irq_ret isrs irqs code" and "v < 32"
  shows "raise_vector T code v err s = Some (run (isr_stub (ucast v) @ isr_common_stub exc exc_ret) (enter_gate 8 (isrs v) err s))"
proof -
  have "interrupt_gate (isrs v) (idt_entries T v)" "unat (idtr_limit T) + 1 = 8 * 256"
    using idt_complete [OF assms(1)] assms(3) by blast+
  then show ?thesis using assms(2,3) by (simp add: installed_gate stubs_placed_def stub_table_nth)
qed

lemma raise_line:
  assumes "T = irq_init irqs (idt_init table isrs T0)" and "stubs_placed exc exc_ret irq irq_ret isrs irqs code" and "i < 16"
  shows "raise_vector T code (line_vector i) None s
    = Some (run (irq_stub (ucast i) @ irq_common_stub irq irq_ret) (enter_gate 8 (irqs i) None s))"
proof -
  note gates = idt_complete [OF assms(1)]
  have "interrupt_gate (irqs i) (idt_entries T (line_vector i))"
  proof (cases "i < 8")
    case True
    then show ?thesis using gates by (simp add: line_vector_def)
  next
    case False
    then have "unat (i - 8) = unat i - 8" by (simp add: unat_sub not_less word_le_nat_alt)
    then have "i - 8 < 8" "8 + (i - 8) = i" using assms(3) False by (simp_all add: word_less_nat_alt)
    then show ?thesis using gates False by (metis line_vector_def)
  qed
  then show ?thesis using gates assms(2,3) by (simp add: installed_gate stubs_placed_def stub_table_nth)
qed

section \<open>The report\<close>

text \<open>What the screen shows of an exception \<open>v\<close> in state \<open>s\<close> with error code \<open>e\<close>.\<close>

definition exception_text :: "u8 \<Rightarrow> u32 \<Rightarrow> u32 \<Rightarrow> cpu \<Rightarrow> u32 option \<Rightarrow> u8 list" where
  "exception_text v e cr2 s frame =
     (if v = 14 then
        chars_nl ''Page Fault (#14)''
        @ (chars ''  CR2 (fault addr): '' @ pointer cr2 @ [10])
        @ cause_text e
        @ (chars ''  EIP: '' @ pointer (eip s) @ chars ''  CS: 0x'' @ hex (ucast (sel s CS)) @ [10])
        @ (chars ''  EAX: '' @ pointer (gpr s EAX) @ chars ''  EBX: '' @ pointer (gpr s EBX)
           @ chars ''  ECX: '' @ pointer (gpr s ECX) @ chars ''  EDX: '' @ pointer (gpr s EDX) @ [10])
        @ (case frame of
             Some f \<Rightarrow> if f \<noteq> 0 then chars ''  paging: mapped -> phys '' @ pointer f @ [10]
                       else chars_nl ''  paging: not mapped in page tables''
           | None \<Rightarrow> chars_nl ''  paging: not mapped in page tables'')
      else chars ''EXCEPTION! '' @ chars (exception_messages ! unat v))"

lemma report_of_state:
  assumes "describes r s (ucast v) e" and "v < 32"
  shows "(if r_int_no r = 14 then fault_report cr2 r frame
     else chars ''EXCEPTION! '' @ (if r_int_no r < 32 then chars (exception_messages ! unat (r_int_no r)) else []))
    = exception_text v e cr2 s frame"
proof -
  note u = unat_u8_u32 [of v]
  have "r_int_no r = 14 \<longleftrightarrow> v = 14"
  proof
    assume "r_int_no r = 14"
    then have "unat v = unat (14 :: u8)" using assms(1) u by (simp add: describes_def)
    then show "v = 14" by (rule unsigned_word_eqI)
  qed (use assms(1) in \<open>simp add: describes_def\<close>)
  moreover have "r_int_no r < 32" "unat (r_int_no r) = unat v"
    using assms u by (simp_all add: describes_def word_less_nat_alt)
  ultimately show ?thesis using assms(1) by (simp add: exception_text_def fault_report_def describes_def)
qed

section \<open>The acknowledgement\<close>

definition acknowledged :: "u8 \<Rightarrow> port_log \<Rightarrow> port_log" where
  "acknowledged i log = log @ (if i < 8 then [] else [(0xA0, 0x20)]) @ [(0x20, 0x20)]"

lemma dispatch_line:
  assumes "ucast (r_int_no r) = i" and "i < 16"
  shows "irq_handler hs r (d, log) = (case hs i of
     Some f \<Rightarrow> (fst (f r (d, log)), acknowledged i (snd (f r (d, log)))) | None \<Rightarrow> (d, acknowledged i log))"
  using assms
  by (auto simp: irq_handler_def acknowledged_def pic_send_eoi_def pic_ports PIC_EOI_def outb_def Let_def not_less
      split: option.splits)

text \<open>The interrupted program at the same instruction with its registers, selectors, flags and stack.\<close>

definition resumed :: "u32 \<Rightarrow> cpu \<Rightarrow> cpu \<Rightarrow> bool" where
  "resumed hi s t \<longleftrightarrow> gpr t = gpr s \<and> sel t = sel s \<and> eip t = eip s \<and> eflags t = eflags s \<and> cr0 t = cr0 s \<and> cr3 t = cr3 s
     \<and> gdtr t = gdtr s \<and> (\<forall>d < hi - gpr s ESP. cmem t (gpr s ESP + d) = cmem s (gpr s ESP + d))"

text \<open>A line from the controller to \<open>iret\<close>.\<close>

lemma line_served:
  assumes "T = irq_init irqs (idt_init table isrs T0)" and "stubs_placed exc exc_ret irq irq_ret isrs irqs code"
    and "i < 16" and "hi - gpr s ESP \<le> 0xFFFF0000"
  shows "\<exists>h. raise_vector T code (line_vector i) None s = Some (run irq_common_stub_leave (irq h))
    \<and> describes (passed_registers h) s (ucast i) 0
    \<and> irq_handler hs (passed_registers h) (d, log) = (case hs i of
         Some f \<Rightarrow> (fst (f (passed_registers h) (d, log)), acknowledged i (snd (f (passed_registers h) (d, log))))
       | None \<Rightarrow> (d, acknowledged i log))
    \<and> (returns hi 1 irq h \<longrightarrow> resumed hi s (run irq_common_stub_leave (irq h)))"
proof -
  define h where "h = push irq_ret (run (irq_stub (ucast i) @ irq_common_stub_enter) (enter_gate 8 (irqs i) None s))"
  note f = irq_stub_frame [OF h_def, where handler = irq]
  have d: "describes (passed_registers h) s (ucast i) 0" using f unfolding passed_registers_def by blast
  have "raise_vector T code (line_vector i) None s = Some (run irq_common_stub_leave (irq h))"
    using raise_line [OF assms(1-3)] f by simp
  moreover have "irq_handler hs (passed_registers h) (d, log) = (case hs i of
         Some f \<Rightarrow> (fst (f (passed_registers h) (d, log)), acknowledged i (snd (f (passed_registers h) (d, log))))
       | None \<Rightarrow> (d, acknowledged i log))" for hs d log
  proof (rule dispatch_line [OF _ assms(3)])
    show "ucast (r_int_no (passed_registers h)) = i" using d by (simp add: describes_def ucast_u32_u8)
  qed
  moreover have "resumed hi s (run irq_common_stub_leave (irq h))" if "returns hi 1 irq h"
    using irq_stub_transparent [OF conjunct1 [OF f, symmetric] that [unfolded h_def] assms(4)] unfolding resumed_def .
  ultimately show ?thesis using d by (intro exI [of _ h] conjI impI) blast+
qed

section \<open>An example kernel\<close>

text \<open>The stubs in the 16-byte slots the assembler aligns them to.\<close>

definition example_isrs :: "u8 \<Rightarrow> u32" where "example_isrs v = 0xC0101000 + push_bit 4 (ucast v)"
definition example_irqs :: "u8 \<Rightarrow> u32" where "example_irqs i = 0xC0102000 + push_bit 4 (ucast i)"

definition example_code :: "u32 \<Rightarrow> instr list" where
  "example_code a =
     (if a < 0xC0102000 then isr_stub_table ! unat (drop_bit 4 (a - 0xC0101000)) @ isr_common_stub example_function 0xC0101900
      else irq_stub_table ! unat (drop_bit 4 (a - 0xC0102000)) @ irq_common_stub example_function 0xC0102900)"

definition example_table :: idt where
  "example_table = irq_init example_irqs (idt_init 0xC0106000 example_isrs example_idt)"

lemma slot: "unat (push_bit 4 (ucast v) :: u32) = 16 * unat v" "drop_bit 4 (push_bit 4 (ucast v) :: u32) = ucast v" for v :: u8
proof -
  have "unat (push_bit 4 (ucast v) :: u32) = 16 * unat (ucast v :: u32) mod 4294967296"
    by (simp add: push_bit_eq_mult unat_word_ariths mult.commute)
  then show e: "unat (push_bit 4 (ucast v) :: u32) = 16 * unat v"
    using u8_less_bound [of v] by (simp add: unat_u8_u32)
  show "drop_bit 4 (push_bit 4 (ucast v) :: u32) = ucast v"
    by (rule bit_word_eqI) (auto simp: bit_simps dest: bit_imp_le_length)
qed

lemma example_stubs_placed:
  "stubs_placed example_function 0xC0101900 example_function 0xC0102900 example_isrs example_irqs example_code"
proof -
  have "\<not> 0xC0102000 + push_bit 4 (ucast i) < (0xC0102000 :: u32)" for i :: u8
    using u8_less_bound [of i] slot(1) [of i] unat_plus_small [of "0xC0102000" "push_bit 4 (ucast i)"]
    by (simp add: word_less_nat_alt)
  moreover have "0xC0101000 + push_bit 4 (ucast v) < (0xC0102000 :: u32)" if "v < 32" for v :: u8
    using that slot(1) [of v] unat_plus_small [of "0xC0101000" "push_bit 4 (ucast v)"]
    by (simp add: word_less_nat_alt)
  ultimately show ?thesis
    by (simp add: stubs_placed_def example_code_def example_isrs_def example_irqs_def slot(2) unat_u8_u32)
qed

section \<open>Properties\<close>

text \<open>A vector for which the kernel has installed no gate is refused by the processor.\<close>

theorem vector_refused:
  assumes "T = irq_init irqs (idt_init table isrs T0)" and "48 \<le> v"
  shows "raise_vector T code v err s = None"
proof -
  have "idt_entries T v = null_entry" using idt_complete [OF assms(1)] assms(2) by blast
  then show ?thesis by (simp add: raise_vector_def fetch_gate_def null_entry_def Let_def)
qed

theorem vector_refused_witness:
  "raise_vector example_table example_code 0x80 None example_cpu = None"
  by (rule vector_refused [OF example_table_def]) (simp add: word_le_nat_alt)



text \<open>C13: every interrupt line is served, from the controller to \<open>iret\<close>: the vector of line \<open>i\<close> leads to its stub,
  \<open>irq_handler\<close> runs the handler registered for that line and no other, with the interrupted registers, acknowledges it at
  the controllers it came through, and, if the code returns within the calling convention, the interrupted program resumes as it was.\<close>

theorem interrupt_served:
  assumes "T = irq_init irqs (idt_init table isrs T0)" and "stubs_placed exc exc_ret irq irq_ret isrs irqs code"
    and "i < 16" and "hi - gpr s ESP \<le> 0xFFFF0000"
  shows "\<exists>h. raise_vector T code (line_vector i) None s = Some (run irq_common_stub_leave (irq h))
    \<and> describes (passed_registers h) s (ucast i) 0
    \<and> irq_handler hs (passed_registers h) (d, log) = (case hs i of
         Some f \<Rightarrow> (fst (f (passed_registers h) (d, log)), acknowledged i (snd (f (passed_registers h) (d, log))))
       | None \<Rightarrow> (d, acknowledged i log))
    \<and> (returns hi 1 irq h \<longrightarrow> resumed hi s (run irq_common_stub_leave (irq h)))"
  using assms by (rule line_served)

theorem interrupt_served_witness:
  "\<exists>h k. raise_vector example_table example_code 33 None example_cpu = Some (run irq_common_stub_leave (example_function h))
    \<and> irq_handler [1 \<mapsto> keyboard_irq example_input] (passed_registers h) (example_kbd, []) = (k, [(0x20, 0x20)])
    \<and> resumed 0xC0111000 example_cpu (run irq_common_stub_leave (example_function h))"
proof -
  have i: "(1 :: u8) < 16" "0xC0111000 - gpr example_cpu ESP \<le> 0xFFFF0000"
    by (simp_all add: word_less_nat_alt example_cpu_def)
  have v: "line_vector 1 = 33" by (simp add: line_vector_def PIC1_OFFSET_def word_less_nat_alt)
  let ?hs = "[1 \<mapsto> keyboard_irq example_input]"
  have a: "acknowledged 1 [] = [(0x20, 0x20)]" by (simp add: acknowledged_def word_less_nat_alt)
  show ?thesis
    using interrupt_served [OF example_table_def example_stubs_placed i, of ?hs example_kbd "[]"]
  proof (elim exE conjE, goal_cases)
    case (1 h)
    have "irq_handler ?hs (passed_registers h) (example_kbd, [])
        = (fst (keyboard_irq example_input (passed_registers h) (example_kbd, [])), [(0x20, 0x20)])"
      unfolding 1(3) by (simp add: keyboard_irq_def a)
    moreover have "resumed 0xC0111000 example_cpu (run irq_common_stub_leave (example_function h))"
      by (rule mp [OF 1(4) example_function_returns])
    ultimately show ?case using 1(1) [unfolded v] by (intro exI conjI)
  qed
qed

end
