(* ===== verification/Kernel_Interrupts.thy ===== *)
theory Kernel_Interrupts
  imports Dispatch Interleaving
begin

text \<open>
  The interrupts of the running kernel. \<open>Interleaving\<close> lets a keyboard interrupt happen between any two
  instructions as one step of the machine; here that step is shown to be what the hardware and the assembly do with
  the tables \<open>kernel_start\<close> leaves.
\<close>

section \<open>The tables of the started kernel\<close>

lemma kernel_start_tables:
  assumes "kernel_start M K = Some K'"
  shows "k_idt K' = irq_init (m_irq_stubs M) (idt_init (m_idt_table M) (m_isr_stubs M) (k_idt K))"
  using assms by (auto simp: kernel_start_def Let_def split: bind_splits prod.splits)

section \<open>Properties\<close>

text \<open>C7: an interrupt the running kernel takes is the step of the session: at any moment, whichever line the controllers
  let through is the keyboard's; its vector leads through the installed gate and stub to \<open>irq_handler\<close> with the processor's
  state, which queues the key and acknowledges the first controller; the session goes on from there, and so does the interrupted code.\<close>

theorem session_interrupts_delivered:
  assumes "good_start M m eax ebx K0 K p0" and "mask_reads_back (m_input M)" and "kernel_start M K = Some K'"
    and "stubs_placed exc exc_ret irq irq_ret (m_isr_stubs M) (m_irq_stubs M) code"
    and "session pd regs H (m_input M) (k_irqs K') (session_start K') scs s" and "accepts i s"
    and "hi - gpr c ESP \<le> 0xFFFF0000"
  shows "i = KBD_IRQ \<and> (\<exists>h. raise_vector (k_idt K') code (line_vector i) None c = Some (run irq_common_stub_leave (irq h))
    \<and> irq_handler (k_irqs K') (passed_registers h) (sys_kbd s, sys_log s)
        = (keyboard_irq_handler (inb (m_input M) KBD_DATA_PORT (sys_log s)) (sys_kbd s), outb PIC1_COMMAND PIC_EOI (sys_log s))
    \<and> session pd regs H (m_input M) (k_irqs K') (session_start K')
        (scs @ [inb (m_input M) KBD_DATA_PORT (sys_log s)]) (interrupt (k_irqs K') (passed_registers h) s)
    \<and> (returns hi 1 irq h \<longrightarrow> resumed hi c (run irq_common_stub_leave (irq h))))"
proof -
  note init = kernel_session_init(1) [OF assms(1-3)]
  have i: "i = KBD_IRQ" by (rule accepted_keyboard [OF session_log [OF assms(5) init] init assms(6)])
  have "i < 16" using assms(6) by (simp add: accepts_def)
  obtain h where h: "raise_vector (k_idt K') code (line_vector i) None c = Some (run irq_common_stub_leave (irq h))"
    "describes (passed_registers h) c (ucast i) 0"
    "irq_handler (k_irqs K') (passed_registers h) (sys_kbd s, sys_log s) = (case k_irqs K' i of
       Some f \<Rightarrow> (fst (f (passed_registers h) (sys_kbd s, sys_log s)), acknowledged i (snd (f (passed_registers h) (sys_kbd s, sys_log s))))
     | None \<Rightarrow> (sys_kbd s, acknowledged i (sys_log s)))"
    "returns hi 1 irq h \<longrightarrow> resumed hi c (run irq_common_stub_leave (irq h))"
    using line_served [OF kernel_start_tables [OF assms(3)] assms(4) \<open>i < 16\<close> assms(7),
      of "k_irqs K'" "sys_kbd s" "sys_log s"] by (elim exE conjE) (rule that)
  have "k_irqs K' i = Some (keyboard_irq (m_input M))" using init by (simp add: i session_init_def KBD_IRQ_def)
  then have "irq_handler (k_irqs K') (passed_registers h) (sys_kbd s, sys_log s)
      = (keyboard_irq_handler (inb (m_input M) KBD_DATA_PORT (sys_log s)) (sys_kbd s), outb PIC1_COMMAND PIC_EOI (sys_log s))"
    using h(3) by (simp add: keyboard_irq_def acknowledged_def i KBD_IRQ_def word_less_nat_alt outb_def PIC1_COMMAND_def PIC_EOI_def)
  moreover have "i = ucast (r_int_no (passed_registers h))" using h(2) by (simp add: describes_def ucast_u32_u8)
  from session.interrupted [OF assms(5) this assms(6)]
  have "session pd regs H (m_input M) (k_irqs K') (session_start K')
      (scs @ [inb (m_input M) KBD_DATA_PORT (sys_log s)]) (interrupt (k_irqs K') (passed_registers h) s)" by (simp add: i)
  ultimately show ?thesis using h(1,4) i by (intro conjI exI [of _ h])
qed

text \<open>The stubs of the example machine are in the slots its tables name.\<close>

lemma enter_stubs_placed:
  "stubs_placed example_function 0xC0101900 example_function 0xC0102900 (m_isr_stubs enter_machine) (m_irq_stubs enter_machine) example_code"
proof -
  have "m_isr_stubs enter_machine = example_isrs" "m_irq_stubs enter_machine = example_irqs"
    by (simp_all add: enter_machine_def example_machine_def example_isrs_def example_irqs_def fun_eq_iff push_bit_eq_mult mult.commute)
  then show ?thesis using example_stubs_placed by simp
qed

theorem session_interrupts_delivered_witness:
  "\<exists>K K' h. kernel_start enter_machine K = Some K'
    \<and> raise_vector (k_idt K') example_code 33 None example_cpu = Some (run irq_common_stub_leave (example_function h))
    \<and> resumed 0xC0111000 example_cpu (run irq_common_stub_leave (example_function h))"
proof -
  obtain K where K: "good_start enter_machine example_boot_memory MULTIBOOT_BOOTLOADER_MAGIC 0x1000 example_kernel K example_pmm"
    "mask_reads_back (m_input enter_machine)" using enter_good_start by blast
  have m: "0xC0110000 = boot_page_directory (m_image enter_machine)"
    by (simp add: enter_machine_def example_machine_def example_image_def)
  obtain K' where K': "kernel_start enter_machine K = Some K'" using kernel_prompt [OF K(1,2) m(1), of "[]"] by blast
  obtain s where s: "session 0xC0110000 (m_regs enter_machine) (k_heap K') (m_input enter_machine) (k_irqs K') (session_start K') [] s"
    "accepts KBD_IRQ s" by (rule greeted_session [OF K m K'])
  have hi: "0xC0111000 - gpr example_cpu ESP \<le> 0xFFFF0000" by (simp add: example_cpu_def)
  have v: "line_vector KBD_IRQ = 33" by (simp add: line_vector_def PIC1_OFFSET_def KBD_IRQ_def word_less_nat_alt)
  show ?thesis
    using session_interrupts_delivered [OF K K' enter_stubs_placed s hi] unfolding v
  proof (elim exE conjE, goal_cases)
    case (1 h)
    then show ?case using K' example_function_returns by blast
  qed
qed

end
