(* ===== verification/Spec2Isabelle.thy ===== *)
theory Spec2Isabelle
  imports Prelude Libc_String Multiboot Pmm Mmu Boot Paging Region Tlb Kheap_Block Kheap Io Tty Printf Keyboard Gdt Interrupts Console Page_Fault Shell Console_Ports Kernel_Main Port_Free Interleaving Cpu Stubs Startup Heap_Run Dispatch Kernel_Interrupts
begin

text \<open>
  A model of simplyOs, a 32-bit x86 kernel that boots by Multiboot, manages physical frames, page tables
  and a heap, drives the text screen and the keyboard, and ends in a small shell.

  The program. \<open>boot.S\<close> builds one page table, switches paging on, calls \<open>multiboot_early_init\<close>
  under the identity map, removes that map and calls \<open>kernel_main\<close> (\<open>kernel/kernel.c\<close>).
  \<open>kernel_main\<close> initialises the terminal, the segment and interrupt tables and the interrupt
  controllers, then the frame allocator from the copied memory map, the recursive page table slot and
  the heap, each followed by a self test, and at last the keyboard, and runs the shell. The heap
  (\<open>kheap.c\<close>) calls the page tables (\<open>paging.c\<close>) and both call the frame allocator
  (\<open>pmm.c\<close>); all output goes through \<open>printf\<close> to the terminal (\<open>tty.c\<close>); key strokes go
  from interrupt line 1 through the ring buffer of \<open>keyboard.c\<close> to \<open>shell.c\<close>.

  The theories, in the order of their dependencies.
  \<^item> Prelude: machine words and their values as numbers, byte memories, little-endian loads and
    stores, pages; the collections of simplification rules.
  \<^item> Libc_String: \<open>src/libc/string\<close> over a byte memory. Copies are shown equal to the assignment of
    a block, comparisons to the lexical order of bytes, \<open>strlen\<close> to return exactly when there is a zero byte.
  \<^item> Multiboot: \<open>kernel/mm/multiboot.c\<close>. Memory is read through the address space the code runs in, at boot the
    page tables of \<open>boot.S\<close> with the identity map; an access that is not mapped is \<open>None\<close>. The copied map (\<open>copied_map\<close>) is the one the boot loader left, cut at 64 entries.
  \<^item> Pmm: \<open>kernel/mm/pmm.c\<close>. The state is the bitmap with its two counters, the linker's symbols are the
    record \<open>kernel_image\<close>. The locale \<open>frame_allocator\<close> is the contract its clients use, interpreted on
    the code's operations; histories of allocations and releases are the relation \<open>pmm_run\<close>. What \<open>pmm_init\<close> makes
    of the memory map is stated against the map's own 64-bit ranges (\<open>usable_frame\<close>, \<open>memory_end\<close>), not with the code's
    arithmetic, which drops the upper halves of addresses: the exact account needs a map that ends below 4 GiB, the
    safety of the frames handed out only that the usable ranges do, and \<open>pmm_init_high_memory_aliases\<close> shows
    that without the latter reserved frames are handed out.
  \<^item> Mmu, Boot, Paging: the two-level address translation over a byte memory, the stores of \<open>boot.S\<close>, and
    \<open>kernel/mm/paging.c\<close>, which reaches the tables through the recursive slot. The invariant
    \<open>paging_inv\<close> says that CR3 leads to the directory, that every table has a frame of its own and that
    none of them is free. Every operation is followed from the virtual store to the translation it causes.
  \<^item> Region: a stretch of virtual memory backed by frames of its own behaves like an array.
  \<^item> Tlb: the same operations, with \<open>invlpg\<close> and the reload of CR3 in \<open>boot.S\<close>, on a processor that may use what it
    walked earlier and loads and drops entries by a plan of its own, any plan. \<open>tlb_sound\<close> says that no
    mapped page has a wrong entry, \<open>tlb_exact\<close> that there is none. The operations refine those of \<open>Paging\<close>
    and keep the first in every history (\<open>tlb_run\<close>); the second can be lost where a new table is entered in the
    directory before it is cleared, which \<open>tlb_new_table_stale\<close> shows. The heap and the kernel above use
    mapped addresses only, for which the walk of the tables is the right account.
  \<^item> Kheap_Block, Kheap: \<open>kernel/mm/kheap.c\<close>. Block headers are words in paged memory. The
    abstraction is the list of sizes and free bits in address order; \<open>heap_inv\<close> ties it to the headers,
    and \<open>kmalloc\<close> and \<open>kfree\<close> refine operations on the list. The loops over the list and the loop of
    \<open>kmalloc\<close> are partial functions, so that not returning is \<open>None\<close>; that they return is part of the theorems.
  \<^item> Heap_Run: histories of the heap, the relation \<open>heap_run\<close>: requests, releases and stores into blocks in use, in any
    order, with the abstract pool of blocks and bytes they leave. The locale \<open>memory_pool\<close> is the contract of the
    heap's clients, interpreted on \<open>kmalloc\<close>, \<open>kfree\<close> and accesses through the page tables. In every history the
    blocks are disjoint, bytes stored read back, no call faults or runs for ever, and a heap whose blocks are all
    released is one free block again. A release of a pointer that is not in use, which the code does not check, is no step.
  \<^item> Io, Tty, Printf: \<open>io.h\<close>, \<open>arch/i386/tty.c\<close> with \<open>vga.h\<close>, \<open>libc/stdio\<close> and
    \<open>libc/stdlib/abort.c\<close>. Port writes are a log, port reads a parameter of the model. The terminal refines
    a screen of 25 rows of 80 cells; \<open>printf\<close> writes the text of the specification \<open>formatted\<close>. The digit
    buffers hold 31 digits, more than 32-bit numbers in base 10 or 16 have.
  \<^item> Keyboard: \<open>drivers/keyboard.c\<close>. The locale \<open>char_queue\<close> is the contract of the ring buffer, interpreted on
    the code's operations; scan codes are decoded to the characters they type. \<open>keyboard_getchar\<close> takes
    the scan codes still to come: interrupts arrive while it waits. \<open>Interleaving\<close> lifts that restriction.
  \<^item> Gdt, Interrupts: \<open>gdt.c\<close>, \<open>idt.c\<close>, \<open>irq.c\<close>, \<open>pic.c\<close>: descriptors are shown to decode to what was
    asked for, the interrupt table to be complete, the masks of the controllers to be a set of lines.
  \<^item> Console, Console_Ports: the vocabulary in which the printing components state what they leave
    on the screen, and that output writes to no device but the screen's.
  \<^item> Page_Fault, Shell: \<open>isr.c\<close>, \<open>page_fault.c\<close> and \<open>shell.c\<close>. A call that halts the machine is the value
    \<open>Halted\<close> of \<open>outcome\<close>, with the terminal it leaves.
  \<^item> Kernel_Main: \<open>kernel.c\<close> and the rest of \<open>boot.S\<close>. The record \<open>kernel\<close> holds the variables of all
    components, \<open>machine\<close> what the linker and the hardware supply. The theorems compose the components'
    contracts from the boot loader's registers to the output of a shell command. The memory the boot loader leaves is
    described by \<open>loader_info\<close> and \<open>loader_map\<close>: where the information block and the map lie and what they hold. From
    that \<open>boot_start\<close> is proved to return; the theorems on sessions begin with its result, the predicate \<open>good_start\<close>.
  \<^item> Port_Free, Interleaving: \<open>keyboard_getchar\<close> and the loop of the shell as a machine whose steps are single
    instructions, with keyboard interrupts between any two of them that the interrupt flag allows. The state
    \<open>sys\<close> adds the place in the code, the flag and the delay of \<open>sti\<close>; \<open>session\<close> is the set of reachable states
    with the scan codes read. The invariant \<open>sys_inv\<close> says that the processor sleeps on an empty queue only;
    \<open>delivered\<close> that keys typed, read and queued agree; a session at rest has the result of the
    sequential \<open>shell_run\<close>, and every session without tabs comes to rest, in \<open>hlt\<close> or stopped by \<open>pfault\<close>. One step of the shell on a character is atomic: the handler shares no variable
    with it, and \<open>Port_Free\<close> shows that it does not read the log of port writes, which both extend.
  \<^item> Cpu, Stubs, Startup: the instructions of the assembly files over a record of the processor's registers and
    byte memory. \<open>irq_stubs.S\<close> and \<open>isr_stubs.S\<close> give the C handlers the interrupted state and restore it;
    \<open>boot.S\<close> builds the tables that \<open>Boot\<close> states and hands the boot loader's registers to
    \<open>multiboot_early_init\<close>; \<open>flush_gdt.S\<close>, \<open>set_gdt.S\<close>, \<open>crti.S\<close> and \<open>crtn.S\<close> follow. A called C function is
    a parameter under the calling convention, the predicate \<open>returns\<close>.
  \<^item> Dispatch: the composition of Interrupts, Stubs and Page_Fault: from the processor's vector through the installed
    gate and its stub to the report of \<open>exception_handler\<close>, in terms of the interrupted program's registers, or to the
    handler that \<open>irq_handler\<close> calls, the acknowledgement and the return to the program.
  \<^item> Kernel_Interrupts: the interrupt step of \<open>Interleaving\<close> is what Dispatch gives for the tables \<open>kernel_start\<close> leaves.

  Conventions. Integers of the code are words of their width and wrap as it does; \<open>None\<close> is a page
  fault, another access the language leaves undefined, or a loop that does not end; a C boolean or NULL
  result is part of the returned value. Operations take and return their state. A number in a
  hypothesis is the bound the proof needs: ten free frames for the first extension of the heap (four
  pages, at most two frames each, and a margin of two), eleven for the whole start, since the
  test of paging keeps one for its table; requests of the heap are at most 0xFFFFEFF0 bytes, as the code does not
  check its size computation (\<open>kmalloc_size_wraps\<close> and \<open>kmalloc_page_fault\<close> show what larger ones do); 16 MiB is the heap's own limit; formatted
  output must be shorter than 2147483648 characters, the range of \<open>int\<close>. A session's result is stated for
  at most 255 characters typed, the capacity of the ring buffer, since more can be dropped when they come faster
  than the shell takes them; without further interrupts the machine rests within six steps for each queued
  character and six more. A stack is at most 0xFFFF0000 bytes, so that offsets into it do not wrap.

  Parameters. What the linker places (\<open>kernel_image\<close>, the tables' and stubs' addresses), what ports
  return, the saved registers and CR2 at an exception, the memory the boot loader leaves. The hypothesis
  on the interrupt controllers, \<open>mask_reads_back\<close>, is that a mask register returns the byte last written.

  Not modelled. The caches of directory entries some processors have beside the translation cache, and accessed and dirty
  bits. Segment limits and the faults of loading a selector, the status
  flags of arithmetic, and the far and indirect jumps of \<open>boot.S\<close> beyond their targets; the endless \<open>hlt\<close> after \<open>kernel_main\<close>,
  which does not return. Spurious interrupts of the controllers and non-maskable ones. The C variables live in records,
  not in the byte memory, the video page is kept apart from it, and the processor of the assembly has a memory
  of its own; what the code of the C handlers does to it is the calling convention only.
\<close>

end
